(* ===== verification/Go_Prelude.thy ===== *)
theory Go_Prelude
imports
  Main
  "HOL-Library.Char_ord"
  "HOL-Library.List_Lexorder"
  "HOL-Library.Sublist"
  "HOL-Library.Monad_Syntax"
  "HOL-Library.Multiset"
begin

text \<open>
  Shared vocabulary of the development: Go's strings, decimal numbers, errors and
  name-keyed tables, and the list lemmas the component theories reuse.

  \<^item> A Go \<^verbatim>\<open>string\<close> is a \<^typ>\<open>string\<close>, that is a list of bytes; the ordering used by
    \<^verbatim>\<open>sort.Strings\<close> is the lexicographic order on bytes that \<^verbatim>\<open>List_Lexorder\<close> and
    \<^verbatim>\<open>Char_ord\<close> provide.
  \<^item> The functions of package \<^verbatim>\<open>strings\<close> and \<^verbatim>\<open>strconv\<close> the sources call are defined
    here with their documented behaviour on bytes.
  \<^item> An error value is kept unrendered: its format string and the arguments, with a
    wrapped error (the \<^verbatim>\<open>%w\<close> verb) as an argument of its own.
  \<^item> A fallible function returns \<^typ>\<open>'e + 'a\<close>, the error on the left.
\<close>

section \<open>Errors\<close>

datatype goerror = Errorf string "goarg list"
  and goarg = GStr string | GInt int | GErr goerror

type_synonym 'a result = "goerror + 'a"

fun bind_result :: "'e + 'a \<Rightarrow> ('a \<Rightarrow> 'e + 'b) \<Rightarrow> 'e + 'b" where
  "bind_result (Inl e) f = Inl e"
| "bind_result (Inr x) f = f x"

lemma bind_result_Inr: "bind_result m f = Inr y \<longleftrightarrow> (\<exists>x. m = Inr x \<and> f x = Inr y)"
  by (cases m) auto

lemma bind_result_Inl:
  "bind_result m f = Inl e \<longleftrightarrow> m = Inl e \<or> (\<exists>x. m = Inr x \<and> f x = Inl e)"
  by (cases m) auto

lemmas result_simps = bind_result_Inr bind_result_Inl

text \<open>A loop that stops at the first error.\<close>

fun map_result :: "('a \<Rightarrow> 'e + 'b) \<Rightarrow> 'a list \<Rightarrow> 'e + 'b list" where
  "map_result f [] = Inr []"
| "map_result f (x # xs) = bind_result (f x) (\<lambda>y. bind_result (map_result f xs) (\<lambda>ys. Inr (y # ys)))"

lemma map_result_Inr: "map_result f xs = Inr ys \<longleftrightarrow> list_all2 (\<lambda>x y. f x = Inr y) xs ys"
  by (induction xs arbitrary: ys) (auto simp: result_simps list_all2_Cons1)

section \<open>Strings\<close>

text \<open>\<^verbatim>\<open>strings.Split\<close> with a one-byte separator, and \<^verbatim>\<open>strings.Join\<close>.\<close>

fun split_on :: "char \<Rightarrow> string \<Rightarrow> string list" where
  "split_on c [] = [[]]"
| "split_on c (x # xs) =
     (if x = c then [] # split_on c xs
      else (case split_on c xs of [] \<Rightarrow> [[x]] | y # ys \<Rightarrow> (x # y) # ys))"

fun join :: "string \<Rightarrow> string list \<Rightarrow> string" where
  "join sep [] = []"
| "join sep [x] = x"
| "join sep (x # y # ys) = x @ sep @ join sep (y # ys)"

text \<open>\<^verbatim>\<open>strings.Split\<close> with a separator of any positive length.\<close>

function split_str :: "string \<Rightarrow> string \<Rightarrow> string list" where
  "split_str sep [] = [[]]"
| "split_str sep (x # xs) =
     (if prefix sep (x # xs) then [] # split_str sep (drop (length sep - 1) xs)
      else (case split_str sep xs of [] \<Rightarrow> [[x]] | y # ys \<Rightarrow> (x # y) # ys))"
  by pat_completeness auto
termination
  by (relation "measure (\<lambda>(sep, s). length s)") auto

lemma split_on_nonempty [simp]: "split_on c s \<noteq> []"
  by (induction s) (auto split: list.splits)

lemma split_on_no_sep: "c \<notin> set s \<Longrightarrow> split_on c s = [s]"
  by (induction s) auto

lemma split_on_append:
  "c \<notin> set s \<Longrightarrow> split_on c (s @ c # t) = s # split_on c t"
  by (induction s) auto

lemma join_Cons: "xs \<noteq> [] \<Longrightarrow> join sep (x # xs) = x @ sep @ join sep xs"
  by (cases xs) auto

lemma join_split_on: "join [c] (split_on c s) = s"
proof (induction s)
  case (Cons x s)
  obtain y ys where "split_on c s = y # ys"
    by (cases "split_on c s") auto
  with Cons show ?case
    by (cases ys) (auto simp: join_Cons)
qed simp

lemma split_on_parts: "\<forall>p \<in> set (split_on c s). c \<notin> set p"
  by (induction s) (auto split: list.splits)

lemma split_on_join:
  "xs \<noteq> [] \<Longrightarrow> \<forall>x \<in> set xs. c \<notin> set x \<Longrightarrow> split_on c (join [c] xs) = xs"
proof (induction xs)
  case (Cons x xs)
  then show ?case
    by (cases "xs = []") (auto simp: join_Cons split_on_no_sep split_on_append)
qed simp

text \<open>\<^verbatim>\<open>strings.ReplaceAll\<close> of one byte by another.\<close>

definition replace_char :: "char \<Rightarrow> char \<Rightarrow> string \<Rightarrow> string" where
  "replace_char a b = map (\<lambda>x. if x = a then b else x)"

lemma replace_char_inverse:
  "b \<notin> set s \<Longrightarrow> replace_char b a (replace_char a b s) = s"
  by (induction s) (auto simp: replace_char_def)

lemma replace_char_id: "a \<notin> set s \<Longrightarrow> replace_char a b s = s"
  by (induction s) (auto simp: replace_char_def)

lemma set_replace_char: "a \<noteq> b \<Longrightarrow> a \<notin> set (replace_char a b s)"
  by (auto simp: replace_char_def split: if_splits)

lemma replace_char_append [simp]:
  "replace_char a b (s @ t) = replace_char a b s @ replace_char a b t"
  by (simp add: replace_char_def)

lemma replace_char_Cons [simp]:
  "replace_char a b (x # s) = (if x = a then b else x) # replace_char a b s"
  by (simp add: replace_char_def)

lemma replace_char_Nil [simp]: "replace_char a b [] = []"
  by (simp add: replace_char_def)

text \<open>\<^verbatim>\<open>strings.Trim\<close> with a one-byte cutset, \<^verbatim>\<open>TrimPrefix\<close>, \<^verbatim>\<open>TrimSuffix\<close>, \<^verbatim>\<open>TrimSpace\<close>
  (its ASCII part), \<^verbatim>\<open>HasPrefix\<close> and \<^verbatim>\<open>HasSuffix\<close> (\<^const>\<open>prefix\<close> and \<^const>\<open>suffix\<close>).\<close>

definition trim_char :: "char \<Rightarrow> string \<Rightarrow> string" where
  "trim_char c s = rev (dropWhile (\<lambda>x. x = c) (rev (dropWhile (\<lambda>x. x = c) s)))"

definition trim_prefix :: "string \<Rightarrow> string \<Rightarrow> string" where
  "trim_prefix p s = (if prefix p s then drop (length p) s else s)"

definition trim_suffix :: "string \<Rightarrow> string \<Rightarrow> string" where
  "trim_suffix p s = (if suffix p s then take (length s - length p) s else s)"

definition is_space :: "char \<Rightarrow> bool" where
  "is_space c \<longleftrightarrow> of_char c \<in> {9, 10, 11, 12, 13, 32 :: nat}"

definition trim_space :: "string \<Rightarrow> string" where
  "trim_space s = rev (dropWhile is_space (rev (dropWhile is_space s)))"

lemma trim_prefix_append [simp]: "trim_prefix p (p @ s) = s"
  by (simp add: trim_prefix_def)

lemma trim_suffix_append [simp]: "trim_suffix p (s @ p) = s"
  by (simp add: trim_suffix_def suffix_def)

lemma trim_char_id: "s = [] \<or> (hd s \<noteq> c \<and> last s \<noteq> c) \<Longrightarrow> trim_char c s = s"
proof (cases "s = []")
  case False
  moreover assume "s = [] \<or> (hd s \<noteq> c \<and> last s \<noteq> c)"
  ultimately have "hd s \<noteq> c" "hd (rev s) \<noteq> c" by (auto simp: hd_rev)
  then have "dropWhile (\<lambda>x. x = c) s = s" "dropWhile (\<lambda>x. x = c) (rev s) = rev s"
    using False by (simp_all add: dropWhile_eq_self_iff)
  then show ?thesis by (simp add: trim_char_def)
qed (simp add: trim_char_def)

lemma trim_char_no_ends:
  "trim_char c s = [] \<or> (hd (trim_char c s) \<noteq> c \<and> last (trim_char c s) \<noteq> c)"
proof (cases "trim_char c s = []")
  case False
  define t where "t = dropWhile (\<lambda>x. x = c) s"
  have r: "trim_char c s = rev (dropWhile (\<lambda>x. x = c) (rev t))"
    by (simp add: trim_char_def t_def)
  have ne: "dropWhile (\<lambda>x. x = c) (rev t) \<noteq> []" using False r by simp
  then have l: "last (trim_char c s) \<noteq> c"
    using hd_dropWhile[of "\<lambda>x. x = c" "rev t"] by (simp add: r last_rev)
  have "t \<noteq> []" using ne by auto
  then have "hd t \<noteq> c" using hd_dropWhile[of "\<lambda>x. x = c" s] by (simp add: t_def)
  moreover have "\<exists>z. t = trim_char c s @ z"
    by (metis r rev_append rev_rev_ident takeWhile_dropWhile_id)
  ultimately have "hd (trim_char c s) \<noteq> c" using False by (metis hd_append2)
  with l show ?thesis by simp
qed simp

section \<open>Decimal numbers\<close>

definition digit_char :: "nat \<Rightarrow> char" where
  "digit_char n = ''0123456789'' ! n"

definition digit_val :: "char \<Rightarrow> nat option" where
  "digit_val c = (let n = (of_char c :: nat) in if 48 \<le> n \<and> n \<le> 57 then Some (n - 48) else None)"

fun show_nat :: "nat \<Rightarrow> string" where
  "show_nat n = (if n < 10 then [digit_char n] else show_nat (n div 10) @ [digit_char (n mod 10)])"

declare show_nat.simps [simp del]

text \<open>\<^verbatim>\<open>%d\<close> and \<^verbatim>\<open>strconv.Itoa\<close>.\<close>

definition itoa :: "int \<Rightarrow> string" where
  "itoa n = (if n < 0 then CHR ''-'' # show_nat (nat (- n)) else show_nat (nat n))"

text \<open>\<^verbatim>\<open>strconv.Atoi\<close> on a 64-bit platform: an optional sign, one digit at least, digits
  only, and the value in the range of \<^verbatim>\<open>int\<close>.\<close>

fun digits_val :: "nat \<Rightarrow> string \<Rightarrow> nat option" where
  "digits_val acc [] = Some acc"
| "digits_val acc (c # cs) =
     (case digit_val c of None \<Rightarrow> None | Some d \<Rightarrow> digits_val (acc * 10 + d) cs)"

definition max_int :: int where "max_int = 2 ^ 63 - 1"
definition min_int :: int where "min_int = - (2 ^ 63)"

definition parse_digits :: "string \<Rightarrow> nat option" where
  "parse_digits s = (if s = [] then None else digits_val 0 s)"

definition atoi :: "string \<Rightarrow> int option" where
  "atoi s =
     (let (neg, body) = (case s of [] \<Rightarrow> (False, [])
                         | c # cs \<Rightarrow> if c = CHR ''-'' then (True, cs)
                                     else if c = CHR ''+'' then (False, cs) else (False, s))
      in case parse_digits body of
           None \<Rightarrow> None
         | Some n \<Rightarrow> (let v = (if neg then - int n else int n)
                     in if min_int \<le> v \<and> v \<le> max_int then Some v else None))"

lemma less_10_cases:
  assumes "(n::nat) < 10"
  obtains "n = 0" | "n = 1" | "n = 2" | "n = 3" | "n = 4" | "n = 5" | "n = 6" | "n = 7" | "n = 8" | "n = 9"
proof -
  have "n \<in> {0, 1, 2, 3, 4, 5, 6, 7, 8, 9}" using assms by auto
  then show thesis using that by auto
qed

lemma digit_val_char: "n < 10 \<Longrightarrow> digit_val (digit_char n) = Some n"
  by (erule less_10_cases) (simp_all add: digit_val_def digit_char_def)

lemma digit_char_not: "n < 10 \<Longrightarrow> digit_val c = None \<Longrightarrow> digit_char n \<noteq> c"
  using digit_val_char by auto

lemma digits_val_append:
  "digits_val acc (s @ t) = (case digits_val acc s of None \<Rightarrow> None | Some a \<Rightarrow> digits_val a t)"
  by (induction s arbitrary: acc) (auto split: option.splits)

lemma show_nat_nonempty [simp]: "show_nat n \<noteq> []"
  by (subst show_nat.simps) simp

lemma digits_val_show_nat: "digits_val 0 (show_nat n) = Some n"
proof (induction n rule: show_nat.induct)
  case (1 n)
  show ?case
  proof (cases "n < 10")
    case True
    then show ?thesis by (subst show_nat.simps) (simp add: digit_val_char)
  next
    case False
    with 1 show ?thesis
      by (subst show_nat.simps) (simp add: digits_val_append digit_val_char)
  qed
qed

lemma parse_digits_show_nat [simp]: "parse_digits (show_nat n) = Some n"
  by (simp add: parse_digits_def digits_val_show_nat)

lemma set_show_nat: "c \<in> set (show_nat n) \<Longrightarrow> digit_val c \<noteq> None"
proof (induction n rule: show_nat.induct)
  case (1 n)
  then show ?case
    by (subst (asm) (2) show_nat.simps) (auto simp: digit_val_char split: if_splits)
qed

lemma show_nat_no: "digit_val c = None \<Longrightarrow> c \<notin> set (show_nat n)"
  using set_show_nat by blast

lemma itoa_no: "digit_val c = None \<Longrightarrow> c \<noteq> CHR ''-'' \<Longrightarrow> c \<notin> set (itoa n)"
  by (auto simp: itoa_def dest: set_show_nat)

lemma hd_show_nat: "digit_val (hd (show_nat n)) \<noteq> None"
  using set_show_nat[of "hd (show_nat n)" n] by simp

lemma atoi_itoa: "min_int \<le> n \<Longrightarrow> n \<le> max_int \<Longrightarrow> atoi (itoa n) = Some n"
proof (cases "n < 0")
  case False
  assume b: "min_int \<le> n" "n \<le> max_int"
  obtain c cs where s: "show_nat (nat n) = c # cs"
    by (cases "show_nat (nat n)") auto
  then have "digit_val c \<noteq> None" using hd_show_nat[of "nat n"] by simp
  then have "c \<noteq> CHR ''-''" "c \<noteq> CHR ''+''" by (auto simp: digit_val_def)
  moreover have "parse_digits (c # cs) = Some (nat n)"
    using parse_digits_show_nat[of "nat n"] s by simp
  ultimately show ?thesis using False b s by (simp add: itoa_def atoi_def)
qed (simp add: itoa_def atoi_def)

section \<open>Lists as Go slices and sets\<close>

text \<open>\<^verbatim>\<open>appendOnce\<close> and its kin: append unless present.\<close>

definition append_once :: "'a list \<Rightarrow> 'a \<Rightarrow> 'a list" where
  "append_once xs v = (if v \<in> set xs then xs else xs @ [v])"

lemma set_append_once [simp]: "set (append_once xs v) = insert v (set xs)"
  by (auto simp: append_once_def)

lemma distinct_append_once: "distinct xs \<Longrightarrow> distinct (append_once xs v)"
  by (auto simp: append_once_def)

lemma foldl_append_once_set: "set (foldl append_once acc xs) = set acc \<union> set xs"
  by (induction xs arbitrary: acc) auto

lemma foldl_append_once_distinct: "distinct acc \<Longrightarrow> distinct (foldl append_once acc xs)"
  by (induction xs arbitrary: acc) (auto simp: distinct_append_once)

text \<open>An element of a duplicate-free list splits it in one way only.\<close>

lemma distinct_split_unique:
  "xs @ n # ys = us @ n # vs \<Longrightarrow> distinct (xs @ n # ys) \<Longrightarrow> xs = us"
proof (induction xs arbitrary: us)
  case Nil
  then show ?case by (cases us) auto
next
  case (Cons x xs)
  then show ?case by (cases us) auto
qed

text \<open>A \<^verbatim>\<open>for\<close> loop that appends what each element contributes.\<close>

lemma foldl_append_concat: "foldl (\<lambda>acc x. acc @ f x) acc xs = acc @ concat (map f xs)"
  by (induction xs arbitrary: acc) auto

text \<open>The first element satisfying a test, as a \<^verbatim>\<open>for\<close> loop with an early return finds it.\<close>

lemma distinct_concat_map:
  "distinct ks \<Longrightarrow> (\<And>k. k \<in> set ks \<Longrightarrow> distinct (f k)) \<Longrightarrow>
   (\<And>k j. k \<in> set ks \<Longrightarrow> j \<in> set ks \<Longrightarrow> k \<noteq> j \<Longrightarrow> set (f k) \<inter> set (f j) = {}) \<Longrightarrow> distinct (concat (map f ks))"
  by (induction ks) (simp, fastforce)

lemma find_SomeD: "find P xs = Some x \<Longrightarrow> x \<in> set xs \<and> P x"
  by (induction xs) (auto split: if_splits)

lemma find_Some_iff_ex: "(\<exists>x. find P xs = Some x) \<longleftrightarrow> (\<exists>x \<in> set xs. P x)"
  by (induction xs) auto

end
