(* ===== verification/Qos.thy ===== *)
theory Qos
imports Go_Prelude
begin

text \<open>
  Quality-of-service profiles (\<^verbatim>\<open>qos.go\<close>): the two policies, the record of a profile, the
  table of named profiles and the lookup by struct-tag value.
\<close>

datatype reliability = Reliable | BestEffort

datatype durability = Volatile | TransientLocal

fun reliability_string :: "reliability \<Rightarrow> string" where
  "reliability_string BestEffort = ''best-effort''"
| "reliability_string Reliable = ''reliable''"

fun durability_string :: "durability \<Rightarrow> string" where
  "durability_string TransientLocal = ''transient-local''"
| "durability_string Volatile = ''volatile''"

record qos =
  qname :: string
  reliability :: reliability
  durability :: durability
  depth :: int

definition qos_zero :: qos where
  "qos_zero = \<lparr>qname = [], reliability = Reliable, durability = Volatile, depth = 0\<rparr>"

definition qos_profiles :: "string \<Rightarrow> qos option" where
  "qos_profiles = map_of
    [(''reliable'', \<lparr>qname = ''reliable'', reliability = Reliable, durability = Volatile, depth = 10\<rparr>),
     (''sensor'', \<lparr>qname = ''sensor'', reliability = BestEffort, durability = Volatile, depth = 5\<rparr>),
     (''transient'', \<lparr>qname = ''transient'', reliability = Reliable, durability = TransientLocal, depth = 1\<rparr>)]"

text \<open>\<^verbatim>\<open>QoSProfile\<close>: the empty tag selects \<^verbatim>\<open>reliable\<close>; \<^const>\<open>None\<close> is the false of the
  second result.\<close>

definition qos_profile :: "string \<Rightarrow> qos option" where
  "qos_profile name = qos_profiles (if name = [] then ''reliable'' else name)"

definition qos_from_tag :: "string \<Rightarrow> qos result" where
  "qos_from_tag tag =
     (case qos_profile tag of
        None \<Rightarrow> Inl (Errorf ''unknown qos profile %q (valid: reliable, sensor, transient)'' [GStr tag])
      | Some q \<Rightarrow> Inr q)"

lemma qos_profile_cases:
  assumes "qos_profile name = Some q"
  obtains
    "qname q = ''reliable''" "reliability q = Reliable" "durability q = Volatile" "depth q = 10"
  | "qname q = ''sensor''" "reliability q = BestEffort" "durability q = Volatile" "depth q = 5"
  | "qname q = ''transient''" "reliability q = Reliable" "durability q = TransientLocal" "depth q = 1"
  using assms by (auto simp: qos_profile_def qos_profiles_def split: if_splits)

lemma qos_profile_depth_pos: "qos_profile name = Some q \<Longrightarrow> 0 < depth q"
  by (erule qos_profile_cases) simp_all

end
