(* ===== verification/Cdr.thy ===== *)
theory Cdr
imports Go_Prelude "HOL-Library.Word" "HOL-Library.While_Combinator"
begin

text \<open>
  CDR serialization (\<^verbatim>\<open>cdr/cdr.go\<close>): the encoder, the decoder and their round trip.

  A \<^verbatim>\<open>reflect.Value\<close> is a \<open>val\<close>, its \<^verbatim>\<open>reflect.Type\<close> a \<open>ty\<close>; an integer is the word of its
  width (two's complement for the signed kinds), a float its IEEE bit pattern, a
  \<^verbatim>\<open>time.Time\<close> its Unix seconds and nanoseconds, a \<^verbatim>\<open>time.Duration\<close> its signed nanosecond
  count. \<open>VOther\<close> stands for the kinds the codec rejects (maps, channels, ...). A struct
  field carries whether it is exported. The buffer is a list of bytes; the decoder's state is
  the buffer and an offset. The target of \<^verbatim>\<open>Unmarshal\<close> is a freshly zeroed value, so a field
  the decoder skips keeps its zero value. Reading outside the buffer, which Go would turn into
  a panic, is the error \<open>panic_bounds\<close>, so that its absence can be stated.
\<close>

section \<open>Values and types\<close>

type_synonym byte = "8 word"

datatype ty = TBool | TInt8 | TUint8 | TInt16 | TUint16 | TInt32 | TUint32 | TInt64 | TUint64
  | TFloat32 | TFloat64 | TString | TSlice ty | TArray nat ty | TStruct "(bool \<times> ty) list"
  | TTime | TDuration | TOther

datatype val = VBool bool | VInt8 "8 word" | VUint8 "8 word" | VInt16 "16 word" | VUint16 "16 word"
  | VInt32 "32 word" | VUint32 "32 word" | VInt64 "64 word" | VUint64 "64 word"
  | VFloat32 "32 word" | VFloat64 "64 word" | VString string | VSlice "val list" | VArray "val list"
  | VStruct "(bool \<times> val) list" | VTime int int | VDuration int | VOther

text \<open>\<^verbatim>\<open>time.Time{}\<close> is the first instant of year 1.\<close>

definition zero_time :: val where
  "zero_time = VTime (- 62135596800) 0"

fun zero_val :: "ty \<Rightarrow> val" where
  "zero_val TBool = VBool False"
| "zero_val TInt8 = VInt8 0" | "zero_val TUint8 = VUint8 0"
| "zero_val TInt16 = VInt16 0" | "zero_val TUint16 = VUint16 0"
| "zero_val TInt32 = VInt32 0" | "zero_val TUint32 = VUint32 0"
| "zero_val TInt64 = VInt64 0" | "zero_val TUint64 = VUint64 0"
| "zero_val TFloat32 = VFloat32 0" | "zero_val TFloat64 = VFloat64 0"
| "zero_val TString = VString []"
| "zero_val (TSlice t) = VSlice []"
| "zero_val (TArray n t) = VArray (replicate n (zero_val t))"
| "zero_val (TStruct fs) = VStruct (map (\<lambda>(x, t). (x, zero_val t)) fs)"
| "zero_val TTime = zero_time"
| "zero_val TDuration = VDuration 0"
| "zero_val TOther = VOther"

text \<open>The type of a value, as \<^verbatim>\<open>reflect\<close> reports it.\<close>

fun has_type :: "val \<Rightarrow> ty \<Rightarrow> bool"
  and all_type :: "val list \<Rightarrow> ty \<Rightarrow> bool"
  and fields_type :: "(bool \<times> val) list \<Rightarrow> (bool \<times> ty) list \<Rightarrow> bool" where
  "has_type (VBool _) t = (t = TBool)"
| "has_type (VInt8 _) t = (t = TInt8)" | "has_type (VUint8 _) t = (t = TUint8)"
| "has_type (VInt16 _) t = (t = TInt16)" | "has_type (VUint16 _) t = (t = TUint16)"
| "has_type (VInt32 _) t = (t = TInt32)" | "has_type (VUint32 _) t = (t = TUint32)"
| "has_type (VInt64 _) t = (t = TInt64)" | "has_type (VUint64 _) t = (t = TUint64)"
| "has_type (VFloat32 _) t = (t = TFloat32)" | "has_type (VFloat64 _) t = (t = TFloat64)"
| "has_type (VString _) t = (t = TString)"
| "has_type (VSlice vs) t = (case t of TSlice e \<Rightarrow> all_type vs e | _ \<Rightarrow> False)"
| "has_type (VArray vs) t = (case t of TArray n e \<Rightarrow> length vs = n \<and> all_type vs e | _ \<Rightarrow> False)"
| "has_type (VStruct fs) t = (case t of TStruct ts \<Rightarrow> fields_type fs ts | _ \<Rightarrow> False)"
| "has_type (VTime _ _) t = (t = TTime)"
| "has_type (VDuration _) t = (t = TDuration)"
| "has_type VOther t = (t = TOther)"
| "all_type [] t = True"
| "all_type (v # vs) t = (has_type v t \<and> all_type vs t)"
| "fields_type [] ts = (ts = [])"
| "fields_type ((x, v) # fs) ts =
     (case ts of [] \<Rightarrow> False | (y, t) # ts' \<Rightarrow> x = y \<and> has_type v t \<and> fields_type fs ts')"

section \<open>Little-endian integers\<close>

text \<open>\<^verbatim>\<open>binary.LittleEndian.AppendUintN\<close> and \<^verbatim>\<open>UintN\<close>.\<close>

fun le_bytes :: "nat \<Rightarrow> 'a::len word \<Rightarrow> byte list" where
  "le_bytes 0 w = []"
| "le_bytes (Suc n) w = ucast w # le_bytes n (drop_bit 8 w)"

fun le_val :: "byte list \<Rightarrow> nat" where
  "le_val [] = 0"
| "le_val (b # bs) = unat b + 256 * le_val bs"

lemma length_le_bytes [simp]: "length (le_bytes n w) = n"
  by (induction n arbitrary: w) auto

lemma le_val_le_bytes: "le_val (le_bytes n w) = unat w mod 256 ^ n"
proof (induction n arbitrary: w)
  case (Suc n)
  have a: "unat (ucast w :: 8 word) = unat w mod 256"
    by (simp add: unsigned_ucast_eq take_bit_eq_mod)
  have b: "unat (drop_bit 8 w) = unat w div 256"
    by (subst unat_drop_bit_eq) (simp add: drop_bit_eq_div)
  have "unat w mod (256 * 256 ^ n) = 256 * (unat w div 256 mod 256 ^ n) + unat w mod 256"
    by (rule mod_mult2_eq)
  then show ?case by (simp add: Suc a b)
qed simp

lemma le_val_word16: "word_of_nat (le_val (le_bytes 2 w)) = (w :: 16 word)"
  using unsigned_less[of w, where ?'a = nat] by (simp add: le_val_le_bytes)

lemma le_val_word32: "word_of_nat (le_val (le_bytes 4 w)) = (w :: 32 word)"
  using unsigned_less[of w, where ?'a = nat] by (simp add: le_val_le_bytes)

lemma le_val_word64: "word_of_nat (le_val (le_bytes 8 w)) = (w :: 64 word)"
  using unsigned_less[of w, where ?'a = nat] by (simp add: le_val_le_bytes)

lemmas le_val_words = le_val_word16 le_val_word32 le_val_word64

text \<open>The bytes of a Go string.\<close>

definition bytes_of :: "string \<Rightarrow> byte list" where
  "bytes_of s = map (\<lambda>c. word_of_nat (of_char c)) s"

definition string_of :: "byte list \<Rightarrow> string" where
  "string_of bs = map (\<lambda>b. char_of (unat b)) bs"

lemma string_of_bytes_of [simp]: "string_of (bytes_of s) = s"
proof -
  have "char_of (unat (word_of_nat (of_char c) :: byte)) = c" for c :: char
  proof -
    have "of_char c < (256::nat)" by simp
    then show ?thesis by (simp add: unat_of_nat)
  qed
  then show ?thesis by (simp add: string_of_def bytes_of_def comp_def)
qed

lemma length_bytes_of [simp]: "length (bytes_of s) = length s"
  by (simp add: bytes_of_def)

section \<open>The encoder\<close>

text \<open>\<^verbatim>\<open>encoder.align\<close>: pad with zero bytes to a multiple of \<^verbatim>\<open>n\<close>.\<close>

definition enc_align :: "nat \<Rightarrow> byte list \<Rightarrow> byte list" where
  "enc_align n buf = while (\<lambda>b. length b mod n \<noteq> 0) (\<lambda>b. b @ [0]) buf"

definition enc_u16 :: "16 word \<Rightarrow> byte list \<Rightarrow> byte list" where
  "enc_u16 w buf = enc_align 2 buf @ le_bytes 2 w"

definition enc_u32 :: "32 word \<Rightarrow> byte list \<Rightarrow> byte list" where
  "enc_u32 w buf = enc_align 4 buf @ le_bytes 4 w"

definition enc_u64 :: "64 word \<Rightarrow> byte list \<Rightarrow> byte list" where
  "enc_u64 w buf = enc_align 8 buf @ le_bytes 8 w"

text \<open>Go's division truncates towards zero and the remainder has the dividend's sign.\<close>

definition go_quot :: "int \<Rightarrow> int \<Rightarrow> int" where
  "go_quot a b = sgn a * sgn b * (\<bar>a\<bar> div \<bar>b\<bar>)"

definition go_rem :: "int \<Rightarrow> int \<Rightarrow> int" where
  "go_rem a b = a - b * go_quot a b"

definition second :: int where "second = 1000000000"

definition err_unsupported :: goerror where
  "err_unsupported = Errorf ''cdr: unsupported type %s'' []"

text \<open>\<^verbatim>\<open>encoder.value\<close>. The conversions \<^verbatim>\<open>uint32(int32(x))\<close> keep the low 32 bits.\<close>

fun enc_value :: "val \<Rightarrow> byte list \<Rightarrow> byte list result"
  and enc_seq :: "val list \<Rightarrow> byte list \<Rightarrow> byte list result"
  and enc_fields :: "(bool \<times> val) list \<Rightarrow> byte list \<Rightarrow> byte list result" where
  "enc_value (VTime sec nsec) buf =
     (let (s, n) = (if VTime sec nsec = zero_time then (0, 0) else (sec, nsec))
      in Inr (enc_u32 (word_of_int n) (enc_u32 (word_of_int s) buf)))"
| "enc_value (VDuration d) buf =
     Inr (enc_u32 (word_of_int (go_rem d second)) (enc_u32 (word_of_int (go_quot d second)) buf))"
| "enc_value (VBool b) buf = Inr (buf @ [if b then 1 else 0])"
| "enc_value (VInt8 w) buf = Inr (buf @ [w])"
| "enc_value (VUint8 w) buf = Inr (buf @ [w])"
| "enc_value (VInt16 w) buf = Inr (enc_u16 w buf)"
| "enc_value (VUint16 w) buf = Inr (enc_u16 w buf)"
| "enc_value (VInt32 w) buf = Inr (enc_u32 w buf)"
| "enc_value (VUint32 w) buf = Inr (enc_u32 w buf)"
| "enc_value (VInt64 w) buf = Inr (enc_u64 w buf)"
| "enc_value (VUint64 w) buf = Inr (enc_u64 w buf)"
| "enc_value (VFloat32 w) buf = Inr (enc_u32 w buf)"
| "enc_value (VFloat64 w) buf = Inr (enc_u64 w buf)"
| "enc_value (VString s) buf =
     Inr (enc_u32 (word_of_nat (length s + 1)) buf @ bytes_of s @ [0])"
| "enc_value (VSlice vs) buf = enc_seq vs (enc_u32 (word_of_nat (length vs)) buf)"
| "enc_value (VArray vs) buf = enc_seq vs buf"
| "enc_value (VStruct fs) buf = enc_fields fs buf"
| "enc_value VOther buf = Inl err_unsupported"
| "enc_seq [] buf = Inr buf"
| "enc_seq (v # vs) buf = bind_result (enc_value v buf) (enc_seq vs)"
| "enc_fields [] buf = Inr buf"
| "enc_fields ((exported, v) # fs) buf =
     (if \<not> exported then enc_fields fs buf
      else bind_result (enc_value v buf) (enc_fields fs))"

definition encapsulation_le :: "byte list" where
  "encapsulation_le = [0, 1, 0, 0]"

definition marshal :: "val \<Rightarrow> byte list result" where
  "marshal v = bind_result (enc_value v []) (\<lambda>buf. Inr (encapsulation_le @ enc_align 4 buf))"

section \<open>The decoder\<close>

text \<open>A read of \<^verbatim>\<open>n\<close> bytes at an offset; outside the buffer Go panics.\<close>

definition panic_bounds :: goerror where
  "panic_bounds = Errorf ''panic: slice bounds out of range'' []"

definition err_truncated :: goerror where
  "err_truncated = Errorf ''cdr: payload truncated'' []"

definition err_sequence :: goerror where
  "err_sequence = Errorf ''cdr: sequence length exceeds payload'' []"

definition read_bytes :: "byte list \<Rightarrow> nat \<Rightarrow> nat \<Rightarrow> byte list result" where
  "read_bytes buf off n =
     (if off + n \<le> length buf then Inr (take n (drop off buf)) else Inl panic_bounds)"

text \<open>\<^verbatim>\<open>decoder.alignAndNeed\<close> returns the aligned offset.\<close>

definition align_up :: "nat \<Rightarrow> nat \<Rightarrow> nat" where
  "align_up al off = while (\<lambda>k. k mod al \<noteq> 0) Suc off"

definition align_and_need :: "nat \<Rightarrow> nat \<Rightarrow> byte list \<Rightarrow> nat \<Rightarrow> nat result" where
  "align_and_need al n buf off =
     (let off' = align_up al off
      in if off' + n > length buf then Inl err_truncated else Inr off')"

definition dec_uint :: "nat \<Rightarrow> byte list \<Rightarrow> nat \<Rightarrow> ('a::len word \<times> nat) result" where
  "dec_uint n buf off =
     bind_result (align_and_need n n buf off) (\<lambda>k.
       bind_result (read_bytes buf k n) (\<lambda>bs. Inr (word_of_nat (le_val bs), k + n)))"

text \<open>\<^verbatim>\<open>decoder.byte\<close> aligns to one byte, that is not at all.\<close>

definition dec_byte :: "byte list \<Rightarrow> nat \<Rightarrow> (byte \<times> nat) result" where
  "dec_byte buf off = dec_uint 1 buf off"

definition dec_u16 :: "byte list \<Rightarrow> nat \<Rightarrow> (16 word \<times> nat) result" where
  "dec_u16 buf off = dec_uint 2 buf off"

definition dec_u32 :: "byte list \<Rightarrow> nat \<Rightarrow> (32 word \<times> nat) result" where
  "dec_u32 buf off = dec_uint 4 buf off"

definition dec_u64 :: "byte list \<Rightarrow> nat \<Rightarrow> (64 word \<times> nat) result" where
  "dec_u64 buf off = dec_uint 8 buf off"

text \<open>\<^verbatim>\<open>time.Unix\<close> normalises the nanoseconds it is given.\<close>

definition time_unix :: "int \<Rightarrow> int \<Rightarrow> val" where
  "time_unix sec nsec = VTime (sec + nsec div second) (nsec mod second)"

text \<open>A decoding step wrapped into a value of the target's kind.\<close>

definition dec_map :: "('a \<Rightarrow> val) \<Rightarrow> ('a \<times> nat) result \<Rightarrow> (val \<times> nat) result" where
  "dec_map f r = bind_result r (\<lambda>(x, off). Inr (f x, off))"

definition dec_time :: "byte list \<Rightarrow> nat \<Rightarrow> (val \<times> nat) result" where
  "dec_time buf off =
     bind_result (dec_u32 buf off) (\<lambda>(sec, off).
     bind_result (dec_u32 buf off) (\<lambda>(nsec, off).
       Inr (if sec = 0 \<and> nsec = 0 then zero_time else time_unix (sint sec) (uint nsec), off)))"

definition dec_duration :: "byte list \<Rightarrow> nat \<Rightarrow> (val \<times> nat) result" where
  "dec_duration buf off =
     bind_result (dec_u32 buf off) (\<lambda>(sec, off).
     bind_result (dec_u32 buf off) (\<lambda>(nsec, off).
       Inr (VDuration (sint sec * second + uint nsec), off)))"

definition strip_nul :: "byte list \<Rightarrow> byte list" where
  "strip_nul b = (if b \<noteq> [] \<and> last b = 0 then butlast b else b)"

definition dec_string :: "byte list \<Rightarrow> nat \<Rightarrow> (val \<times> nat) result" where
  "dec_string buf off =
     bind_result (dec_u32 buf off) (\<lambda>(n, off).
     bind_result (align_and_need 1 (unat n) buf off) (\<lambda>off.
     bind_result (read_bytes buf off (unat n)) (\<lambda>b.
       Inr (VString (string_of (strip_nul b)), off + unat n))))"

text \<open>The element loop of sequences and arrays.\<close>

fun dec_n :: "(byte list \<Rightarrow> nat \<Rightarrow> (val \<times> nat) result) \<Rightarrow> nat \<Rightarrow> byte list \<Rightarrow> nat
    \<Rightarrow> (val list \<times> nat) result" where
  "dec_n d 0 buf off = Inr ([], off)"
| "dec_n d (Suc n) buf off =
     bind_result (d buf off) (\<lambda>(v, off).
     bind_result (dec_n d n buf off) (\<lambda>(vs, off). Inr (v # vs, off)))"

text \<open>\<^verbatim>\<open>decoder.value\<close>.\<close>

fun dec_value :: "ty \<Rightarrow> byte list \<Rightarrow> nat \<Rightarrow> (val \<times> nat) result"
  and dec_fields :: "(bool \<times> ty) list \<Rightarrow> byte list \<Rightarrow> nat \<Rightarrow> ((bool \<times> val) list \<times> nat) result" where
  "dec_value TTime buf off = dec_time buf off"
| "dec_value TDuration buf off = dec_duration buf off"
| "dec_value TBool buf off = dec_map (\<lambda>b. VBool (b \<noteq> 0)) (dec_byte buf off)"
| "dec_value TInt8 buf off = dec_map VInt8 (dec_byte buf off)"
| "dec_value TUint8 buf off = dec_map VUint8 (dec_byte buf off)"
| "dec_value TInt16 buf off = dec_map VInt16 (dec_u16 buf off)"
| "dec_value TUint16 buf off = dec_map VUint16 (dec_u16 buf off)"
| "dec_value TInt32 buf off = dec_map VInt32 (dec_u32 buf off)"
| "dec_value TUint32 buf off = dec_map VUint32 (dec_u32 buf off)"
| "dec_value TInt64 buf off = dec_map VInt64 (dec_u64 buf off)"
| "dec_value TUint64 buf off = dec_map VUint64 (dec_u64 buf off)"
| "dec_value TFloat32 buf off = dec_map VFloat32 (dec_u32 buf off)"
| "dec_value TFloat64 buf off = dec_map VFloat64 (dec_u64 buf off)"
| "dec_value TString buf off = dec_string buf off"
| "dec_value (TSlice t) buf off =
     bind_result (dec_u32 buf off) (\<lambda>(n, off).
       if unat n > length buf - off then Inl err_sequence
       else dec_map VSlice (dec_n (dec_value t) (unat n) buf off))"
| "dec_value (TArray n t) buf off = dec_map VArray (dec_n (dec_value t) n buf off)"
| "dec_value (TStruct fs) buf off = dec_map VStruct (dec_fields fs buf off)"
| "dec_value TOther buf off = Inl err_unsupported"
| "dec_fields [] buf off = Inr ([], off)"
| "dec_fields ((exported, t) # fs) buf off =
     (if \<not> exported
      then bind_result (dec_fields fs buf off) (\<lambda>(vs, off). Inr ((exported, zero_val t) # vs, off))
      else bind_result (dec_value t buf off) (\<lambda>(v, off).
           bind_result (dec_fields fs buf off) (\<lambda>(vs, off). Inr ((exported, v) # vs, off))))"

definition unmarshal :: "ty \<Rightarrow> byte list \<Rightarrow> val result" where
  "unmarshal t data =
     (if length data < 4 then Inl (Errorf ''cdr: payload shorter than encapsulation header'' [])
      else if data ! 0 \<noteq> 0 \<or> data ! 1 \<noteq> 1
      then Inl (Errorf ''cdr: unsupported encapsulation % x (only CDR_LE)'' [GStr (string_of (take 2 data))])
      else bind_result (dec_value t (drop 4 data) 0) (\<lambda>(v, _). Inr v))"

section \<open>Alignment and framing lemmas\<close>

definition pad :: "nat \<Rightarrow> nat \<Rightarrow> nat" where
  "pad n k = (n - k mod n) mod n"

lemma pad_step: "0 < n \<Longrightarrow> k mod n \<noteq> 0 \<Longrightarrow> pad n k = Suc (pad n (Suc k))"
  using mod_less_divisor[of n k] by (auto simp: pad_def mod_Suc simp del: mod_less_divisor)

lemma pad_zero: "0 < n \<Longrightarrow> k mod n = 0 \<Longrightarrow> pad n k = 0"
  by (simp add: pad_def)

lemma align_up_eq: "0 < n \<Longrightarrow> align_up n k = k + pad n k"
proof (induction "pad n k" arbitrary: k rule: less_induct)
  case less
  show ?case
  proof (cases "k mod n = 0")
    case True
    with less.prems show ?thesis by (simp add: align_up_def while_unfold pad_zero)
  next
    case False
    with less.prems have st: "pad n k = Suc (pad n (Suc k))" by (simp add: pad_step)
    have "align_up n k = align_up n (Suc k)"
      using False unfolding align_up_def by (subst while_unfold) simp
    also have "\<dots> = Suc k + pad n (Suc k)" by (rule less.hyps) (use less.prems st in auto)
    finally show ?thesis using st by simp
  qed
qed

lemma enc_align_eq: "0 < n \<Longrightarrow> enc_align n buf = buf @ replicate (pad n (length buf)) 0"
proof (induction "pad n (length buf)" arbitrary: buf rule: less_induct)
  case less
  show ?case
  proof (cases "length buf mod n = 0")
    case True
    with less.prems show ?thesis by (simp add: enc_align_def while_unfold pad_zero)
  next
    case False
    with less.prems have st: "pad n (length buf) = Suc (pad n (Suc (length buf)))"
      by (simp add: pad_step)
    have "enc_align n buf = enc_align n (buf @ [0])"
      using False unfolding enc_align_def by (subst while_unfold) simp
    also have "\<dots> = (buf @ [0]) @ replicate (pad n (length (buf @ [0]))) 0"
      by (rule less.hyps) (use less.prems st in auto)
    finally show ?thesis using st by simp
  qed
qed

lemma length_enc_align: "0 < n \<Longrightarrow> length (enc_align n buf) = align_up n (length buf)"
  by (simp add: enc_align_eq align_up_eq)

lemma align_up_dvd: "0 < n \<Longrightarrow> n dvd align_up n k"
proof -
  assume n: "0 < n"
  then have r: "k mod n < n" by simp
  have k: "k = n * (k div n) + k mod n" by simp
  show ?thesis
  proof (cases "k mod n = 0")
    case True
    with n show ?thesis by (simp add: align_up_eq pad_zero mod_0_imp_dvd)
  next
    case False
    with r have "align_up n k = k + (n - k mod n)" using n by (simp add: align_up_eq pad_def)
    also have "\<dots> = n * (k div n) + n" using k r by linarith
    finally show ?thesis by simp
  qed
qed

lemma align_up_ge: "0 < n \<Longrightarrow> k \<le> align_up n k"
  by (simp add: align_up_eq)

lemma align_up_1 [simp]: "align_up (Suc 0) k = k"
  by (simp add: align_up_eq pad_def)

lemma dec_uint_enc:
  "0 < n \<Longrightarrow> dec_uint n (enc_align n buf @ le_bytes n w @ rest) (length buf)
     = Inr (word_of_nat (unat w mod 256 ^ n), length (enc_align n buf) + n)"
  by (simp add: dec_uint_def align_and_need_def read_bytes_def le_val_le_bytes
      flip: length_enc_align)

lemma dec_byte_enc: "dec_byte (buf @ w # rest) (length buf) = Inr (w, Suc (length buf))"
  using unsigned_less[of w, where ?'a = nat]
  by (simp add: dec_byte_def dec_uint_def align_and_need_def read_bytes_def)

lemma dec_u16_enc:
  "dec_u16 (enc_u16 w buf @ rest) (length buf) = Inr (w, length (enc_u16 w buf))"
  using unsigned_less[of w, where ?'a = nat]
  by (simp add: dec_u16_def enc_u16_def dec_uint_enc)

lemma dec_u32_enc:
  "dec_u32 (enc_u32 w buf @ rest) (length buf) = Inr (w, length (enc_u32 w buf))"
  using unsigned_less[of w, where ?'a = nat]
  by (simp add: dec_u32_def enc_u32_def dec_uint_enc)

lemma dec_u64_enc:
  "dec_u64 (enc_u64 w buf @ rest) (length buf) = Inr (w, length (enc_u64 w buf))"
  using unsigned_less[of w, where ?'a = nat]
  by (simp add: dec_u64_def enc_u64_def dec_uint_enc)

lemmas dec_enc = dec_byte_enc dec_u16_enc dec_u32_enc dec_u64_enc

section \<open>Every encoding extends the buffer\<close>

lemma enc_u_ext:
  "\<exists>e. enc_u16 w16 buf = buf @ e \<and> e \<noteq> []" "\<exists>e. enc_u32 w32 buf = buf @ e \<and> e \<noteq> []"
  "\<exists>e. enc_u64 w64 buf = buf @ e \<and> e \<noteq> []"
proof -
  have l: "le_bytes (Suc n) w \<noteq> []" for n and w :: "'a::len word" by simp
  show "\<exists>e. enc_u16 w16 buf = buf @ e \<and> e \<noteq> []"
    using l[of 1 w16] by (simp add: enc_u16_def enc_align_eq eval_nat_numeral)
  show "\<exists>e. enc_u32 w32 buf = buf @ e \<and> e \<noteq> []"
    using l[of 3 w32] by (simp add: enc_u32_def enc_align_eq eval_nat_numeral)
  show "\<exists>e. enc_u64 w64 buf = buf @ e \<and> e \<noteq> []"
    using l[of 7 w64] by (simp add: enc_u64_def enc_align_eq eval_nat_numeral)
qed

text \<open>Values whose encoding occupies at least one byte.\<close>

fun solid :: "val \<Rightarrow> bool" and solid_some :: "val list \<Rightarrow> bool"
  and solid_field :: "(bool \<times> val) list \<Rightarrow> bool" where
  "solid (VArray vs) = solid_some vs"
| "solid (VStruct fs) = solid_field fs"
| "solid VOther = False"
| "solid _ = True"
| "solid_some [] = False"
| "solid_some (v # vs) = (solid v \<or> solid_some vs)"
| "solid_field [] = False"
| "solid_field ((x, v) # fs) = ((x \<and> solid v) \<or> solid_field fs)"

definition extends :: "byte list \<Rightarrow> bool \<Rightarrow> byte list \<Rightarrow> bool" where
  "extends buf strict buf' \<longleftrightarrow> (\<exists>e. buf' = buf @ e \<and> (strict \<longrightarrow> e \<noteq> []))"

lemma extends_refl [simp]: "extends buf False buf"
  by (simp add: extends_def)

lemma extends_trans: "extends a s b \<Longrightarrow> extends b t c \<Longrightarrow> extends a (s \<or> t) c"
  by (auto simp: extends_def)

lemma extends_u [simp]:
  "extends buf True (enc_u16 w16 buf)" "extends buf True (enc_u32 w32 buf)"
  "extends buf True (enc_u64 w64 buf)"
  using enc_u_ext by (auto simp: extends_def)

lemma extends_weaken: "extends a True b \<Longrightarrow> extends a s b"
  by (auto simp: extends_def)

lemma extends_append [simp]: "extends buf (e \<noteq> []) (buf @ e)"
  by (auto simp: extends_def)

lemma enc_extends:
  "enc_value v buf = Inr buf' \<Longrightarrow> extends buf (solid v) buf'"
  "enc_seq vs buf = Inr buf' \<Longrightarrow> extends buf (solid_some vs) buf'"
  "enc_fields fs buf = Inr buf' \<Longrightarrow> extends buf (solid_field fs) buf'"
proof (induction v buf and vs buf and fs buf arbitrary: buf' and buf' and buf'
    rule: enc_value_enc_seq_enc_fields.induct)
  case (1 sec nsec buf)
  then show ?case using extends_trans[OF extends_u(2) extends_u(2)]
    by (auto simp: Let_def split: prod.splits)
next
  case (2 d buf)
  then show ?case using extends_trans[OF extends_u(2) extends_u(2)] by auto
next
  case (14 s buf)
  then show ?case
    using extends_trans[OF extends_u(2)[of buf "word_of_nat (length s + 1)"] extends_append[where e = "bytes_of s @ [0]"]]
    by auto
next
  case (15 vs buf)
  then show ?case using extends_trans[OF extends_u(2)] by fastforce
next
  case (20 v vs buf)
  then show ?case by (auto simp: result_simps intro: extends_trans)
next
  case (22 exported v fs buf)
  then show ?case by (auto simp: result_simps intro: extends_trans split: if_splits)
qed (auto simp: extends_def enc_u_ext)

text \<open>A sequence of such values takes at least one byte per element.\<close>

lemma enc_seq_length:
  "enc_seq vs buf = Inr buf' \<Longrightarrow> \<forall>v \<in> set vs. solid v \<Longrightarrow> length buf + length vs \<le> length buf'"
proof (induction vs arbitrary: buf)
  case (Cons v vs)
  then obtain b where b: "enc_value v buf = Inr b" "enc_seq vs b = Inr buf'"
    by (auto simp: result_simps)
  then have "extends buf True b" using enc_extends(1)[OF b(1)] Cons.prems by simp
  then have "length buf < length b" by (auto simp: extends_def)
  with Cons.IH[OF b(2)] Cons.prems show ?case by simp
qed simp

section \<open>Round trip\<close>

text \<open>
  The values the format represents losslessly: strings and sequences whose length fits the
  32-bit prefix; sequence elements that occupy a byte (the decoder bounds the length of a
  sequence by the bytes that remain); only exported fields; stamps that are the zero time or a
  normalised time other than the epoch within the range of \<^verbatim>\<open>int32\<close> seconds; durations that
  are non-negative or whole seconds, within the same range.
\<close>

fun representable :: "val \<Rightarrow> bool" and representables :: "val list \<Rightarrow> bool"
  and representable_fields :: "(bool \<times> val) list \<Rightarrow> bool" where
  "representable (VString s) = (length s + 1 < 2 ^ 32)"
| "representable (VSlice vs) = (length vs < 2 ^ 32 \<and> (\<forall>v \<in> set vs. solid v) \<and> representables vs)"
| "representable (VArray vs) = representables vs"
| "representable (VStruct fs) = representable_fields fs"
| "representable (VTime s n) = (VTime s n = zero_time \<or>
     (- (2 ^ 31) \<le> s \<and> s < 2 ^ 31 \<and> 0 \<le> n \<and> n < second \<and> \<not> (s = 0 \<and> n = 0)))"
| "representable (VDuration d) = (- (2 ^ 31) \<le> go_quot d second \<and> go_quot d second < 2 ^ 31 \<and>
     (0 \<le> d \<or> second dvd d))"
| "representable VOther = False"
| "representable _ = True"
| "representables [] = True"
| "representables (v # vs) = (representable v \<and> representables vs)"
| "representable_fields [] = True"
| "representable_fields ((x, v) # fs) = (x \<and> representable v \<and> representable_fields fs)"

lemma go_rem_nonneg:
  assumes "0 \<le> d \<or> second dvd d"
  shows "go_rem d second = d mod second"
proof (cases "0 \<le> d")
  case True
  then have "go_quot d second = d div second" by (cases "d = 0") (simp_all add: go_quot_def second_def)
  then show ?thesis by (simp add: go_rem_def minus_mult_div_eq_mod)
next
  case False
  with assms obtain k where k: "d = second * k" "k < 0"
    by (auto simp: dvd_def second_def zero_le_mult_iff)
  then have "go_quot d second = k" by (simp add: go_quot_def second_def abs_mult)
  with k show ?thesis by (simp add: go_rem_def)
qed

lemma sint_word_of_int32: "- (2 ^ 31) \<le> s \<Longrightarrow> s < 2 ^ 31 \<Longrightarrow> sint (word_of_int s :: 32 word) = s"
  by (simp add: signed_of_int signed_take_bit_int_eq_self)

lemma uint_word_of_int32: "0 \<le> n \<Longrightarrow> n < second \<Longrightarrow> uint (word_of_int n :: 32 word) = n"
  by (simp add: uint_word_of_int second_def)

lemma word_of_int32_zero: "- (2 ^ 31) \<le> s \<Longrightarrow> s < 2 ^ 31 \<Longrightarrow> (word_of_int s :: 32 word) = 0 \<Longrightarrow> s = 0"
  using sint_word_of_int32[of s] by simp

lemma dec_time_enc:
  assumes "representable (VTime s n)" and "enc_value (VTime s n) buf = Inr buf'"
  shows "dec_time (buf' @ rest) (length buf) = Inr (VTime s n, length buf')"
proof -
  obtain a b where ab: "(if VTime s n = zero_time then (0, 0) else (s, n)) = (a, b)" by fastforce
  define b1 where "b1 = enc_u32 (word_of_int a) buf"
  have b': "buf' = enc_u32 (word_of_int b) b1" using assms(2) ab by (simp add: b1_def)
  obtain e where e: "buf' = b1 @ e" using extends_u(2) b' by (metis extends_def)
  have d1: "dec_u32 (buf' @ rest) (length buf) = Inr (word_of_int a, length b1)"
    using dec_u32_enc[of "word_of_int a" buf "e @ rest"] e by (simp add: b1_def)
  have d2: "dec_u32 (buf' @ rest) (length b1) = Inr (word_of_int b, length buf')"
    using dec_u32_enc[of "word_of_int b" b1 rest] b' by simp
  show ?thesis
  proof (cases "VTime s n = zero_time")
    case True
    then show ?thesis using ab d1 d2 by (simp add: dec_time_def)
  next
    case False
    then have eq: "a = s" "b = n" using ab by auto
    with False assms(1) have r: "- (2 ^ 31) \<le> s" "s < 2 ^ 31" "0 \<le> n" "n < second" "\<not> (s = 0 \<and> n = 0)"
      by auto
    have "\<not> ((word_of_int s :: 32 word) = 0 \<and> (word_of_int n :: 32 word) = 0)"
      using r word_of_int32_zero[of s] word_of_int32_zero[of n] by (auto simp: second_def)
    then have "dec_time (buf' @ rest) (length buf)
        = Inr (time_unix (sint (word_of_int s :: 32 word)) (uint (word_of_int n :: 32 word)), length buf')"
      using d1 d2 eq by (simp only: dec_time_def bind_result.simps prod.case if_False)
    then show ?thesis using r by (simp add: time_unix_def sint_word_of_int32 uint_word_of_int32)
  qed
qed

lemma dec_duration_enc:
  assumes "representable (VDuration d)" and "enc_value (VDuration d) buf = Inr buf'"
  shows "dec_duration (buf' @ rest) (length buf) = Inr (VDuration d, length buf')"
proof -
  define b1 where "b1 = enc_u32 (word_of_int (go_quot d second)) buf"
  have b': "buf' = enc_u32 (word_of_int (go_rem d second)) b1" using assms(2) by (simp add: b1_def)
  obtain e where e: "buf' = b1 @ e" using extends_u(2) b' by (metis extends_def)
  have d1: "dec_u32 (buf' @ rest) (length buf) = Inr (word_of_int (go_quot d second), length b1)"
    using dec_u32_enc[of _ buf "e @ rest"] e by (simp add: b1_def)
  have d2: "dec_u32 (buf' @ rest) (length b1) = Inr (word_of_int (go_rem d second), length buf')"
    using dec_u32_enc[of _ b1 rest] b' by simp
  have m: "go_rem d second = d mod second" using assms(1) by (simp add: go_rem_nonneg)
  have "0 \<le> d mod second" "d mod second < second" by (simp_all add: second_def)
  then have "uint (word_of_int (go_rem d second) :: 32 word) = go_rem d second"
    by (simp add: m uint_word_of_int32)
  moreover have "go_quot d second * second + go_rem d second = d" by (simp add: go_rem_def)
  ultimately show ?thesis using d1 d2 assms(1)
    by (simp add: dec_duration_def sint_word_of_int32)
qed

lemma dec_string_enc:
  assumes "representable (VString s)" and "enc_value (VString s) buf = Inr buf'"
  shows "dec_string (buf' @ rest) (length buf) = Inr (VString s, length buf')"
proof -
  define b1 where "b1 = enc_u32 (word_of_nat (length s + 1)) buf"
  have b': "buf' = b1 @ bytes_of s @ [0]" using assms(2) by (simp add: b1_def)
  have d1: "dec_u32 (b1 @ bytes_of s @ 0 # rest) (length buf) = Inr (word_of_nat (length s + 1), length b1)"
    unfolding b1_def by (rule dec_u32_enc)
  have "unat (word_of_nat (length s + 1) :: 32 word) = length s + 1"
    using assms(1) by (simp add: unat_of_nat del: of_nat_add of_nat_Suc)
  then have n: "unat (word_of_nat (Suc (length s)) :: 32 word) = Suc (length s)" by simp
  have "strip_nul (bytes_of s @ [0]) = bytes_of s" by (simp add: strip_nul_def)
  then show ?thesis
    by (simp add: dec_string_def d1 n align_and_need_def read_bytes_def b' del: of_nat_add of_nat_Suc)
qed

lemma dec_scalar_enc:
  assumes "enc_value v buf = Inr buf'" and "representable v" and "has_type v t"
    and "\<And>vs. v \<noteq> VSlice vs" "\<And>vs. v \<noteq> VArray vs" "\<And>fs. v \<noteq> VStruct fs"
  shows "dec_value t (buf' @ rest) (length buf) = Inr (v, length buf')"
proof (cases v)
  case (VString s)
  then show ?thesis using assms dec_string_enc by simp
next
  case (VTime s n)
  then show ?thesis using assms dec_time_enc by (simp del: enc_value.simps representable.simps)
next
  case (VDuration d)
  then show ?thesis using assms dec_duration_enc by (simp del: enc_value.simps representable.simps)
qed (use assms in \<open>auto simp: dec_map_def dec_enc\<close>)

lemma dec_enc_all:
  "enc_value v buf = Inr buf' \<Longrightarrow> representable v \<Longrightarrow> has_type v t \<Longrightarrow>
     dec_value t (buf' @ rest) (length buf) = Inr (v, length buf')"
  "enc_seq vs buf = Inr buf' \<Longrightarrow> representables vs \<Longrightarrow> all_type vs t \<Longrightarrow>
     dec_n (dec_value t) (length vs) (buf' @ rest) (length buf) = Inr (vs, length buf')"
  "enc_fields fs buf = Inr buf' \<Longrightarrow> representable_fields fs \<Longrightarrow> fields_type fs ts \<Longrightarrow>
     dec_fields ts (buf' @ rest) (length buf) = Inr (fs, length buf')"
proof (induction v buf and vs buf and fs buf arbitrary: buf' t rest and buf' t rest and buf' ts rest
    rule: enc_value_enc_seq_enc_fields.induct)
  case (1 sec nsec buf)
  show ?case by (rule dec_scalar_enc[OF 1]) simp_all
next
  case (15 vs buf)
  define b1 where "b1 = enc_u32 (word_of_nat (length vs)) buf"
  have e: "enc_seq vs b1 = Inr buf'" using 15 by (simp add: b1_def)
  obtain x where x: "buf' = b1 @ x" using enc_extends(2)[OF e] by (auto simp: extends_def)
  obtain u where u: "t = TSlice u" "all_type vs u" using 15 by (auto split: ty.splits)
  have d1: "dec_u32 (buf' @ rest) (length buf) = Inr (word_of_nat (length vs), length b1)"
    using dec_u32_enc[of _ buf "x @ rest"] x by (simp add: b1_def)
  have n: "unat (word_of_nat (length vs) :: 32 word) = length vs"
    using 15 by (simp add: unat_of_nat)
  have "length b1 + length vs \<le> length buf'" using enc_seq_length[OF e] 15 by simp
  then have "\<not> length vs > length (buf' @ rest) - length b1" by simp
  moreover have "dec_n (dec_value u) (length vs) (buf' @ rest) (length b1) = Inr (vs, length buf')"
    using 15 u e by (simp add: b1_def)
  ultimately show ?case by (simp add: u d1 n dec_map_def)
next
  case (16 vs buf)
  then show ?case by (auto simp: dec_map_def split: ty.splits)
next
  case (17 fs buf)
  then show ?case by (auto simp: dec_map_def split: ty.splits)
next
  case (20 v vs buf)
  then obtain b where b: "enc_value v buf = Inr b" "enc_seq vs b = Inr buf'"
    by (auto simp: result_simps)
  then obtain x where x: "buf' = b @ x" using enc_extends(2) by (metis extends_def)
  have "dec_value t (buf' @ rest) (length buf) = Inr (v, length b)"
    using 20(1)[OF b(1), of t "x @ rest"] 20 x by simp
  moreover have "dec_n (dec_value t) (length vs) (buf' @ rest) (length b) = Inr (vs, length buf')"
    using 20(2)[OF b(2)] 20 by simp
  ultimately show ?case by simp
next
  case (22 exported v fs buf)
  then have ex: "exported" by simp
  with 22 obtain b where b: "enc_value v buf = Inr b" "enc_fields fs b = Inr buf'"
    by (auto simp: result_simps)
  then obtain x where x: "buf' = b @ x" using enc_extends(3) by (metis extends_def)
  obtain u us where ts: "ts = (exported, u) # us" "has_type v u" "fields_type fs us"
    using 22 by (auto split: list.splits)
  have "dec_value u (buf' @ rest) (length buf) = Inr (v, length b)"
    using 22(2)[OF _ b(1), of u "x @ rest"] 22 ts ex x by simp
  moreover have "dec_fields us (buf' @ rest) (length b) = Inr (fs, length buf')"
    using 22(3)[OF _ b(2)] 22 ts ex by simp
  ultimately show ?case by (simp add: ts ex)
qed (auto simp del: enc_value.simps dec_value.simps intro!: dec_scalar_enc)

lemma representable_encodes:
  "representable v \<Longrightarrow> \<exists>buf'. enc_value v buf = Inr buf'"
  "representables vs \<Longrightarrow> \<exists>buf'. enc_seq vs buf = Inr buf'"
  "representable_fields fs \<Longrightarrow> \<exists>buf'. enc_fields fs buf = Inr buf'"
proof (induction v buf and vs buf and fs buf rule: enc_value_enc_seq_enc_fields.induct)
  case (20 v vs buf)
  then show ?case by fastforce
next
  case (22 exported v fs buf)
  then show ?case by fastforce
qed (auto simp: Let_def)

section \<open>The decoder stays inside the payload and returns what it was asked for\<close>

lemma align_and_need_Inr:
  "align_and_need al n buf off = Inr k \<Longrightarrow> 0 < al \<Longrightarrow> off \<le> k \<and> k + n \<le> length buf"
  by (auto simp: align_and_need_def Let_def align_up_ge split: if_splits)

lemma align_and_need_no_panic: "align_and_need al n buf off \<noteq> Inl panic_bounds"
  by (simp add: align_and_need_def Let_def panic_bounds_def err_truncated_def)

text \<open>A decoding step is safe when it never reads outside the buffer and, on success, leaves an
  offset inside it and a value of the expected type.\<close>

definition safe_step :: "('a \<Rightarrow> bool) \<Rightarrow> byte list \<Rightarrow> ('a \<times> nat) result \<Rightarrow> bool" where
  "safe_step P buf r \<longleftrightarrow> r \<noteq> Inl panic_bounds \<and> (\<forall>x off. r = Inr (x, off) \<longrightarrow> off \<le> length buf \<and> P x)"

lemma safe_stepI_bind:
  assumes "safe_step P buf r" and "\<And>x off. P x \<Longrightarrow> off \<le> length buf \<Longrightarrow> safe_step Q buf (f (x, off))"
  shows "safe_step Q buf (bind_result r f)"
  using assms by (cases r) (auto simp: safe_step_def)

lemma safe_Inr [simp]: "safe_step P buf (Inr (x, off)) \<longleftrightarrow> off \<le> length buf \<and> P x"
  by (auto simp: safe_step_def)

lemma safe_dec_map: "safe_step P buf r \<Longrightarrow> (\<And>x. P x \<Longrightarrow> Q (f x)) \<Longrightarrow> safe_step Q buf (dec_map f r)"
  unfolding dec_map_def by (erule safe_stepI_bind) auto

lemma safe_dec_uint: "0 < n \<Longrightarrow> safe_step (\<lambda>_. True) buf (dec_uint n buf off)"
  using align_and_need_no_panic[of n n buf off]
  by (auto simp: safe_step_def dec_uint_def result_simps read_bytes_def dest: align_and_need_Inr
      split: if_splits)

lemma safe_dec_words:
  "safe_step (\<lambda>_. True) buf (dec_byte buf off)" "safe_step (\<lambda>_. True) buf (dec_u16 buf off)"
  "safe_step (\<lambda>_. True) buf (dec_u32 buf off)" "safe_step (\<lambda>_. True) buf (dec_u64 buf off)"
  by (simp_all add: dec_byte_def dec_u16_def dec_u32_def dec_u64_def safe_dec_uint)

lemma safe_dec_string: "safe_step (\<lambda>v. has_type v TString) buf (dec_string buf off)"
  unfolding dec_string_def
proof (rule safe_stepI_bind[OF safe_dec_words(3)], clarify)
  fix n off
  show "safe_step (\<lambda>v. has_type v TString) buf (bind_result (align_and_need 1 (unat n) buf off) (\<lambda>off.
     bind_result (read_bytes buf off (unat n)) (\<lambda>b. Inr (VString (string_of (strip_nul b)), off + unat n))))"
    using align_and_need_no_panic[of 1 "unat n" buf off]
    by (auto simp: safe_step_def result_simps read_bytes_def dest: align_and_need_Inr split: if_splits)
qed

lemma safe_dec_time: "safe_step (\<lambda>v. has_type v TTime) buf (dec_time buf off)"
  unfolding dec_time_def
  by (rule safe_stepI_bind[OF safe_dec_words(3)], clarify, rule safe_stepI_bind[OF safe_dec_words(3)])
    (auto simp: zero_time_def time_unix_def)

lemma safe_dec_duration: "safe_step (\<lambda>v. has_type v TDuration) buf (dec_duration buf off)"
  unfolding dec_duration_def
  by (rule safe_stepI_bind[OF safe_dec_words(3)], clarify, rule safe_stepI_bind[OF safe_dec_words(3)]) auto

lemma safe_dec_n:
  assumes "\<And>off. off \<le> length buf \<Longrightarrow> safe_step (\<lambda>v. has_type v t) buf (d buf off)"
  shows "off \<le> length buf \<Longrightarrow> safe_step (\<lambda>vs. length vs = n \<and> all_type vs t) buf (dec_n d n buf off)"
proof (induction n arbitrary: off)
  case (Suc n)
  show ?case unfolding dec_n.simps
  proof (rule safe_stepI_bind[OF assms[OF Suc.prems]], clarify)
    fix v off' assume v: "has_type v t" and "off' \<le> length buf"
    then show "safe_step (\<lambda>vs. length vs = Suc n \<and> all_type vs t) buf
        (bind_result (dec_n d n buf off') (\<lambda>(vs, off). Inr (v # vs, off)))"
      by (intro safe_stepI_bind[OF Suc.IH]) auto
  qed
qed simp

lemma has_type_zero_val: "has_type (zero_val t) t"
proof -
  have s: "all_type (replicate n v) t = (n = 0 \<or> has_type v t)" for n v t
    by (induction n) auto
  have f: "\<forall>p \<in> set fs. has_type (zero_val (snd p)) (snd p) \<Longrightarrow>
      fields_type (map (\<lambda>(x, t). (x, zero_val t)) fs) fs" for fs
    by (induction fs) auto
  show ?thesis
    by (induction t rule: zero_val.induct) (auto simp: s zero_time_def intro!: f)
qed

lemma safe_dec:
  "off \<le> length buf \<Longrightarrow> safe_step (\<lambda>v. has_type v t) buf (dec_value t buf off)"
  "off \<le> length buf \<Longrightarrow> safe_step (\<lambda>fs. fields_type fs ts) buf (dec_fields ts buf off)"
proof (induction t buf off and ts buf off rule: dec_value_dec_fields.induct)
  case (15 t buf off)
  show ?case unfolding dec_value.simps
  proof (rule safe_stepI_bind[OF safe_dec_words(3)], clarify)
    fix n :: "32 word" and off' assume o: "off' \<le> length buf"
    show "safe_step (\<lambda>v. has_type v (TSlice t)) buf (if unat n > length buf - off' then Inl err_sequence
        else dec_map VSlice (dec_n (dec_value t) (unat n) buf off'))"
      using 15 o by (auto simp: safe_step_def[of _ _ "Inl _"] panic_bounds_def err_sequence_def
        intro!: safe_dec_map[OF safe_dec_n])
  qed
next
  case (16 n t buf off)
  then show ?case by (auto intro!: safe_dec_map[OF safe_dec_n])
next
  case (17 fs buf off)
  then show ?case by (auto intro!: safe_dec_map)
next
  case (20 exported t fs buf off)
  show ?case
  proof (cases exported)
    case True
    with 20 show ?thesis
      by (auto intro!: safe_stepI_bind[of "\<lambda>v. has_type v t"] safe_stepI_bind[of "\<lambda>vs. fields_type vs fs"])
  next
    case False
    with 20 show ?thesis
      by (auto intro!: safe_stepI_bind[of "\<lambda>vs. fields_type vs fs"] simp: has_type_zero_val)
  qed
qed (auto intro!: safe_dec_map[OF safe_dec_words(1)] safe_dec_map[OF safe_dec_words(2)]
    safe_dec_map[OF safe_dec_words(3)] safe_dec_map[OF safe_dec_words(4)]
    safe_dec_string safe_dec_time safe_dec_duration
    simp: safe_step_def[of _ _ "Inl _"] panic_bounds_def err_unsupported_def)

section \<open>Properties\<close>

lemma unmarshal_marshal_bytes:
  assumes "enc_value v [] = Inr buf"
  shows "marshal v = Inr (encapsulation_le @ enc_align 4 buf)"
    and "unmarshal t (encapsulation_le @ enc_align 4 buf)
      = bind_result (dec_value t (enc_align 4 buf) 0) (\<lambda>(v, _). Inr v)"
  using assms by (simp_all add: marshal_def unmarshal_def encapsulation_le_def)

text \<open>C1. CDR round trip: a representable message value marshals, and unmarshalling the bytes
  into a value of its type gives it back.\<close>

theorem cdr_round_trip:
  assumes "has_type v t" and "representable v"
  shows "\<exists>data. marshal v = Inr data \<and> unmarshal t data = Inr v"
proof -
  obtain buf where buf: "enc_value v [] = Inr buf" using representable_encodes(1) assms(2) by blast
  have "dec_value t (buf @ replicate (pad 4 (length buf)) 0) 0 = Inr (v, length buf)"
    using dec_enc_all(1)[OF buf assms(2,1)] by simp
  with unmarshal_marshal_bytes(1)[OF buf] unmarshal_marshal_bytes(2)[OF buf, of t] show ?thesis by (simp add: enc_align_eq)
qed

theorem cdr_round_trip_witness:
  "\<exists>data. marshal (VStruct [(True, VString ''map''), (True, VTime 17 5), (True, VSlice [VFloat64 7])]) = Inr data
     \<and> unmarshal (TStruct [(True, TString), (True, TTime), (True, TSlice TFloat64)]) data
       = Inr (VStruct [(True, VString ''map''), (True, VTime 17 5), (True, VSlice [VFloat64 7])])"
  by (rule cdr_round_trip) (simp_all add: second_def)

text \<open>C2. The decoder is memory safe on every input: whatever the bytes and the type, it never
  reads outside the payload, and a value it returns has the requested type.\<close>

theorem cdr_unmarshal_safe:
  "unmarshal t data \<noteq> Inl panic_bounds \<and> (unmarshal t data = Inr v \<longrightarrow> has_type v t)"
proof -
  have "safe_step (\<lambda>v. has_type v t) (drop 4 data) (dec_value t (drop 4 data) 0)"
    by (rule safe_dec) simp
  then show ?thesis
    by (auto simp: unmarshal_def safe_step_def result_simps panic_bounds_def)
qed

theorem cdr_unmarshal_safe_witness:
  "unmarshal TBool [0, 1, 0, 0, 1] = Inr (VBool True) \<and> has_type (VBool True) TBool"
proof -
  have "unmarshal TBool [0, 1, 0, 0, 1] = Inr (VBool True)"
    by (simp add: unmarshal_def dec_map_def dec_byte_def dec_uint_def align_and_need_def read_bytes_def)
  with cdr_unmarshal_safe[of TBool "[0, 1, 0, 0, 1]" "VBool True"] show ?thesis by simp
qed

text \<open>The frame of a marshalled message: the four-byte little-endian encapsulation header,
  and a total length that is a multiple of four.\<close>

theorem cdr_marshal_frame:
  assumes "marshal v = Inr data"
  shows "take 4 data = [0, 1, 0, 0] \<and> 4 dvd length data"
proof -
  obtain buf where d: "data = encapsulation_le @ enc_align 4 buf"
    using assms by (auto simp: marshal_def result_simps)
  have "4 dvd length encapsulation_le + length (enc_align 4 buf)"
    by (rule dvd_add) (simp add: encapsulation_le_def numeral_eq_Suc, simp add: length_enc_align align_up_dvd)
  then have "4 dvd length data" by (simp only: d length_append)
  moreover have "take 4 data = [0, 1, 0, 0]" by (simp add: d encapsulation_le_def)
  ultimately show ?thesis by simp
qed

theorem cdr_marshal_frame_witness:
  "take 4 [0, 1, 0, 0, 1, 0, 0, 0 :: byte] = [0, 1, 0, 0] \<and> 4 dvd length [0, 1, 0, 0, 1, 0, 0, 0 :: byte]"
proof (rule cdr_marshal_frame)
  have pad4: "pad 4 (Suc 0) = 3" by (simp add: pad_def)
  show "marshal (VBool True) = Inr [0, 1, 0, 0, 1, 0, 0, 0]"
    using pad4 by (simp add: marshal_def encapsulation_le_def enc_align_eq numeral_3_eq_3)
qed

text \<open>A negative duration that is not a whole number of seconds does not survive the wire:
  the remainder is written as an unsigned word and read back as a positive nanosecond count,
  \<open>2 ^ 32\<close> too large.\<close>

theorem cdr_negative_duration:
  assumes "- second < d" and "d < 0"
  shows "\<exists>data. marshal (VDuration d) = Inr data \<and> unmarshal TDuration data = Inr (VDuration (d + 2 ^ 32))"
proof -
  have q: "go_quot d second = 0" using assms by (simp add: go_quot_def second_def)
  then have r: "go_rem d second = d" by (simp add: go_rem_def)
  have u: "uint (word_of_int d :: 32 word) = d + 2 ^ 32"
  proof -
    have "(d + 2 ^ 32) mod 2 ^ 32 = d mod 2 ^ 32" by simp
    moreover have "(d + 2 ^ 32) mod 2 ^ 32 = d + 2 ^ 32"
      by (rule mod_pos_pos_trivial) (use assms in \<open>simp_all add: second_def\<close>)
    ultimately show ?thesis by (simp add: uint_word_of_int)
  qed
  define b1 where "b1 = enc_u32 0 []"
  define buf where "buf = enc_u32 (word_of_int d) b1"
  have e: "enc_value (VDuration d) [] = Inr buf" by (simp add: q r b1_def buf_def)
  obtain x where x: "buf = b1 @ x" using extends_u(2)[of b1] by (auto simp: extends_def buf_def)
  have "dec_u32 (enc_align 4 buf) 0 = Inr (0, length b1)"
    using dec_u32_enc[of 0 "[]" "x @ replicate (pad 4 (length buf)) 0"] x
    by (simp add: b1_def enc_align_eq)
  moreover have "dec_u32 (enc_align 4 buf) (length b1) = Inr (word_of_int d, length buf)"
    using dec_u32_enc[of "word_of_int d" b1 "replicate (pad 4 (length buf)) 0"]
    by (simp add: buf_def enc_align_eq)
  ultimately show ?thesis
    by (simp add: unmarshal_marshal_bytes[OF e] dec_duration_def u)
qed

theorem cdr_negative_duration_witness:
  "\<exists>data. marshal (VDuration (- 500000000)) = Inr data
     \<and> unmarshal TDuration data = Inr (VDuration 3794967296)"
  using cdr_negative_duration[of "- 500000000"] by (simp add: second_def)

end
