(* ===== verification/Rmw_Zenoh.thy ===== *)
theory Rmw_Zenoh
imports Qos Cdr
begin

text \<open>
  The \<^verbatim>\<open>rmw_zenoh\<close> wire conventions (\<^verbatim>\<open>transport/rmwzenoh\<close>): key expressions, liveliness
  tokens and their parser, the QoS section, DDS type names (\<^verbatim>\<open>rosmsg.go\<close>), and the message
  attachment with its trace-context extension. The theorems are the round trips between each
  builder and its parser.
\<close>

section \<open>Names and key expressions\<close>

definition admin_space :: string where "admin_space = ''@ros2_lv''"
definition entity_node :: string where "entity_node = ''NN''"
definition entity_publisher :: string where "entity_publisher = ''MP''"
definition entity_subscription :: string where "entity_subscription = ''MS''"
definition entity_service :: string where "entity_service = ''SS''"
definition entity_client :: string where "entity_client = ''SC''"

lemmas entity_kinds = entity_node_def entity_publisher_def entity_subscription_def
  entity_service_def entity_client_def

definition strip_name :: "string \<Rightarrow> string" where
  "strip_name s = trim_char CHR ''/'' s"

definition mangle :: "string \<Rightarrow> string" where
  "mangle s = replace_char CHR ''/'' CHR ''%'' s"

definition demangle :: "string \<Rightarrow> string" where
  "demangle s = replace_char CHR ''%'' CHR ''/'' s"

definition topic_keyexpr :: "int \<Rightarrow> string \<Rightarrow> string \<Rightarrow> string \<Rightarrow> string" where
  "topic_keyexpr domain topic dds hash =
     itoa domain @ ''/'' @ strip_name topic @ ''/'' @ dds @ ''/'' @ hash"

definition qos_keyexpr :: "qos \<Rightarrow> string" where
  "qos_keyexpr q =
     (let rel = (if reliability q = BestEffort then ''2'' else '''');
          dur = (if durability q = TransientLocal then ''1'' else '''')
      in rel @ '':'' @ dur @ '':,'' @ itoa (depth q) @ '':,:,:,,'')"

definition node_token :: "int \<Rightarrow> string \<Rightarrow> int \<Rightarrow> int \<Rightarrow> string \<Rightarrow> string" where
  "node_token domain zid nid eid node =
     join ''/'' [admin_space, itoa domain, zid, itoa nid, itoa eid, entity_node, ''%'', ''%'', node]"

definition endpoint_token :: "int \<Rightarrow> string \<Rightarrow> int \<Rightarrow> int \<Rightarrow> string \<Rightarrow> string \<Rightarrow> string \<Rightarrow> string
    \<Rightarrow> string \<Rightarrow> qos \<Rightarrow> string" where
  "endpoint_token domain zid nid eid kind node topic dds hash q =
     join ''/'' [admin_space, itoa domain, zid, itoa nid, itoa eid, kind, ''%'', ''%'', node,
       mangle (''/'' @ strip_name topic), mangle dds, mangle hash, qos_keyexpr q]"

section \<open>DDS type names\<close>

text \<open>\<^verbatim>\<open>MessageInfo.DDSType\<close> and its inverse \<^verbatim>\<open>TypeFromDDS\<close>.\<close>

definition dds_type :: "string \<Rightarrow> string" where
  "dds_type name =
     (case split_on CHR ''/'' name of
        [a, b, c] \<Rightarrow> a @ ''::'' @ b @ ''::dds_::'' @ c @ ''_''
      | parts \<Rightarrow> join ''::'' parts)"

definition type_from_dds :: "string \<Rightarrow> string" where
  "type_from_dds dds =
     (let parts = split_str ''::'' dds in
      if length parts = 4 \<and> parts ! 2 = ''dds_'' \<and> suffix ''_'' (parts ! 3)
      then parts ! 0 @ ''/'' @ parts ! 1 @ ''/'' @ trim_suffix ''_'' (parts ! 3)
      else join ''/'' parts)"

section \<open>Parsing tokens\<close>

record entity =
  edomain :: int
  zid :: string
  nid :: int
  eid :: int
  ekind :: string
  enclave :: string
  namespace :: string
  enode :: string
  etopic :: string
  edds :: string
  etype :: string
  ehash :: string
  eqos :: qos

definition kind_word :: "string \<Rightarrow> string" where
  "kind_word kind =
     (if kind = entity_publisher then ''publisher''
      else if kind = entity_subscription then ''subscription''
      else if kind = entity_service then ''service''
      else if kind = entity_client then ''client''
      else if kind = entity_node then ''node'' else kind)"

definition entity_string :: "entity \<Rightarrow> string" where
  "entity_string e =
     (if ekind e = entity_node then ''node '' @ enode e
      else kind_word (ekind e) @ '' '' @ etopic e @ '' '' @ etype e @ '' ['' @ qname (eqos e) @ '']'')"

text \<open>The conductor profile a discovered QoS corresponds to, or the empty name.\<close>

definition profile_matches :: "reliability \<Rightarrow> durability \<Rightarrow> string \<Rightarrow> bool" where
  "profile_matches rel dur name =
     (let p = (case qos_profile name of None \<Rightarrow> qos_zero | Some p \<Rightarrow> p)
      in reliability p = rel \<and> durability p = dur)"

definition profile_name :: "qos \<Rightarrow> string" where
  "profile_name q =
     (case find (profile_matches (reliability q) (durability q)) [''reliable'', ''sensor'', ''transient''] of
        None \<Rightarrow> '''' | Some name \<Rightarrow> name)"

definition parse_reliability :: "string \<Rightarrow> reliability option" where
  "parse_reliability s =
     (if s = '''' then Some Reliable else if s = ''1'' then Some Reliable
      else if s = ''2'' then Some BestEffort else None)"

definition parse_durability :: "string \<Rightarrow> durability option" where
  "parse_durability s =
     (if s = '''' then Some Volatile else if s = ''1'' then Some TransientLocal
      else if s = ''2'' then Some Volatile else None)"

definition parse_depth :: "string \<Rightarrow> string \<Rightarrow> int result" where
  "parse_depth s section =
     (let history = split_on CHR '','' section in
      if length history > 1 \<and> history ! 1 \<noteq> ''''
      then (case atoi (history ! 1) of
              None \<Rightarrow> Inl (Errorf ''qos %q: history depth %q: %w'' [GStr s, GStr (history ! 1)])
            | Some d \<Rightarrow> Inr d)
      else Inr 0)"

definition parse_qos_keyexpr :: "string \<Rightarrow> qos result" where
  "parse_qos_keyexpr s =
     (let sections = split_on CHR '':'' s in
      if length sections < 3
      then Inl (Errorf ''qos %q: want at least 3 ':'-separated sections'' [GStr s])
      else (case parse_reliability (sections ! 0) of
        None \<Rightarrow> Inl (Errorf ''qos %q: unknown reliability %q'' [GStr s, GStr (sections ! 0)])
      | Some rel \<Rightarrow> (case parse_durability (sections ! 1) of
        None \<Rightarrow> Inl (Errorf ''qos %q: unknown durability %q'' [GStr s, GStr (sections ! 1)])
      | Some dur \<Rightarrow> bind_result (parse_depth s (sections ! 2)) (\<lambda>d.
          let q = \<lparr>qname = [], reliability = rel, durability = dur, depth = d\<rparr>
          in Inr (q\<lparr>qname := profile_name q\<rparr>)))))"

definition is_endpoint_kind :: "string \<Rightarrow> bool" where
  "is_endpoint_kind k \<longleftrightarrow>
     k = entity_publisher \<or> k = entity_subscription \<or> k = entity_service \<or> k = entity_client"

definition parse_int_segment :: "string \<Rightarrow> string \<Rightarrow> string \<Rightarrow> int result" where
  "parse_int_segment fmt keyexpr seg =
     (case atoi seg of None \<Rightarrow> Inl (Errorf fmt [GStr keyexpr, GStr seg]) | Some n \<Rightarrow> Inr n)"

definition parse_token :: "string \<Rightarrow> entity result" where
  "parse_token keyexpr =
     (let seg = split_on CHR ''/'' keyexpr in
      if length seg < 9 \<or> seg ! 0 \<noteq> admin_space
      then Inl (Errorf ''not a %s liveliness token: %q'' [GStr admin_space, GStr keyexpr])
      else
        bind_result (parse_int_segment ''token %q: domain %q: %w'' keyexpr (seg ! 1)) (\<lambda>domain.
        bind_result (parse_int_segment ''token %q: node id %q: %w'' keyexpr (seg ! 3)) (\<lambda>nid.
        bind_result (parse_int_segment ''token %q: entity id %q: %w'' keyexpr (seg ! 4)) (\<lambda>eid.
        let e = \<lparr>edomain = domain, zid = seg ! 2, nid = nid, eid = eid, ekind = seg ! 5,
                 enclave = demangle (seg ! 6), namespace = demangle (seg ! 7), enode = seg ! 8,
                 etopic = [], edds = [], etype = [], ehash = [], eqos = qos_zero\<rparr> in
        if ekind e = entity_node then
          (if length seg \<noteq> 9
           then Inl (Errorf ''token %q: a node token has 9 segments, got %d''
                       [GStr keyexpr, GInt (int (length seg))])
           else Inr e)
        else if \<not> is_endpoint_kind (ekind e)
        then Inl (Errorf ''token %q: unknown entity kind %q'' [GStr keyexpr, GStr (ekind e)])
        else if length seg \<noteq> 13
        then Inl (Errorf ''token %q: an endpoint token has 13 segments, got %d''
                    [GStr keyexpr, GInt (int (length seg))])
        else (case parse_qos_keyexpr (seg ! 12) of
                Inl err \<Rightarrow> Inl (Errorf ''token %q: %w'' [GStr keyexpr, GErr err])
              | Inr q \<Rightarrow> Inr (e\<lparr>etopic := demangle (seg ! 9), edds := demangle (seg ! 10),
                              etype := type_from_dds (demangle (seg ! 10)),
                              ehash := demangle (seg ! 11), eqos := q\<rparr>))))))"

section \<open>Attachments\<close>

definition encode_attachment :: "64 word \<Rightarrow> 64 word \<Rightarrow> byte list \<Rightarrow> byte list" where
  "encode_attachment seq ts gid = le_bytes 8 seq @ le_bytes 8 ts @ [word_of_nat (length gid)] @ gid"

definition decode_attachment :: "byte list \<Rightarrow> (64 word \<times> 64 word \<times> byte list) result" where
  "decode_attachment b =
     (if length b < 17 then Inl (Errorf ''attachment too short: %d bytes'' [GInt (int (length b))])
      else (let seq = word_of_nat (le_val (take 8 b));
                ts = word_of_nat (le_val (take 8 (drop 8 b)));
                n = unat (b ! 16)
            in if length b < 17 + n
               then Inl (Errorf ''attachment gid truncated: want %d bytes, have %d''
                           [GInt (int n), GInt (int (length b) - 17)])
               else Inr (seq, ts, take n (drop 17 b))))"

definition trace_magic :: "byte list" where
  "trace_magic = bytes_of ''CDTR''"

definition trace_extension_len :: nat where
  "trace_extension_len = 4 + 16 + 8 + 1"

definition append_trace_context :: "byte list \<Rightarrow> byte list \<Rightarrow> byte list \<Rightarrow> bool \<Rightarrow> byte list" where
  "append_trace_context att trace_id span_id sampled =
     att @ trace_magic @ trace_id @ span_id @ [if sampled then 1 else 0]"

text \<open>The Go arrays have 16 and 8 bytes; \<^const>\<open>None\<close> is the false of the last result.\<close>

definition extract_trace_context :: "byte list \<Rightarrow> (byte list \<times> byte list \<times> bool) option" where
  "extract_trace_context att =
     (if length att < trace_extension_len then None
      else (let ext = drop (length att - trace_extension_len) att in
            if take 4 ext \<noteq> trace_magic then None
            else Some (take 16 (drop 4 ext), take 8 (drop 20 ext), ext ! 28 = 1)))"

section \<open>Lemmas\<close>

lemma mangle_no_slash [simp]: "CHR ''/'' \<notin> set (mangle s)"
  by (simp add: mangle_def set_replace_char)

lemma demangle_mangle: "CHR ''%'' \<notin> set s \<Longrightarrow> demangle (mangle s) = s"
  by (simp add: demangle_def mangle_def replace_char_inverse)

lemma itoa_no_punct [simp]:
  "CHR ''/'' \<notin> set (itoa n)" "CHR '':'' \<notin> set (itoa n)" "CHR '','' \<notin> set (itoa n)"
  by (simp_all add: itoa_no digit_val_def)

lemma itoa_nonempty [simp]: "itoa n \<noteq> []"
  by (simp add: itoa_def)

lemma qos_keyexpr_no_slash [simp]: "CHR ''/'' \<notin> set (qos_keyexpr q)"
  by (simp add: qos_keyexpr_def Let_def)

definition in_int :: "int \<Rightarrow> bool" where
  "in_int n \<longleftrightarrow> min_int \<le> n \<and> n \<le> max_int"

lemma atoi_itoa' [simp]: "in_int n \<Longrightarrow> atoi (itoa n) = Some n"
  by (simp add: in_int_def atoi_itoa)

lemma qos_keyexpr_sections:
  "split_on CHR '':'' (qos_keyexpr q) =
     [if reliability q = BestEffort then ''2'' else '''',
      if durability q = TransientLocal then ''1'' else '''',
      CHR '','' # itoa (depth q), '','', '','', '',,'']"
proof -
  have j: "qos_keyexpr q = join '':''
     [if reliability q = BestEffort then ''2'' else '''',
      if durability q = TransientLocal then ''1'' else '''',
      CHR '','' # itoa (depth q), '','', '','', '',,'']"
    by (simp add: qos_keyexpr_def Let_def)
  show ?thesis unfolding j by (rule split_on_join) auto
qed

lemma parse_depth_itoa: "in_int n \<Longrightarrow> parse_depth s (CHR '','' # itoa n) = Inr n"
  by (simp add: parse_depth_def split_on_no_sep)

lemma parse_qos_qos_keyexpr:
  assumes "in_int (depth q)"
  shows "parse_qos_keyexpr (qos_keyexpr q) = Inr (q\<lparr>qname := profile_name q\<rparr>)"
proof -
  have r: "parse_reliability (if reliability q = BestEffort then ''2'' else '''') = Some (reliability q)"
    by (cases "reliability q") (simp_all add: parse_reliability_def)
  have d: "parse_durability (if durability q = TransientLocal then ''1'' else '''') = Some (durability q)"
    by (cases "durability q") (simp_all add: parse_durability_def)
  have p: "profile_name \<lparr>qname = [], reliability = reliability q, durability = durability q, depth = depth q\<rparr>
      = profile_name q"
    by (simp add: profile_name_def)
  show ?thesis
    by (simp add: parse_qos_keyexpr_def qos_keyexpr_sections r d parse_depth_itoa assms Let_def p)
qed

lemma profile_name_profile:
  assumes "qos_profile name = Some q"
  shows "profile_name q = qname q"
  using assms by (rule qos_profile_cases)
    (simp_all add: profile_name_def profile_matches_def qos_profile_def qos_profiles_def)

lemma split_str_no_colon: "CHR '':'' \<notin> set s \<Longrightarrow> split_str ''::'' s = [s]"
  by (induction s) (auto simp: prefix_def)

lemma split_str_colons_append:
  "CHR '':'' \<notin> set s \<Longrightarrow> split_str ''::'' (s @ ''::'' @ t) = s # split_str ''::'' t"
  by (induction s) (auto simp: prefix_def)

lemma split_on_three:
  assumes "split_on c s = [x, y, z]"
  shows "s = x @ c # y @ c # z"
  using join_split_on[of c s] assms by simp

section \<open>Properties\<close>

text \<open>A node's liveliness token parses back to the node it advertises, for any names
  without a slash.\<close>

theorem parse_node_token:
  assumes "in_int d" "in_int n" "in_int e" "CHR ''/'' \<notin> set z" "CHR ''/'' \<notin> set node"
  shows "parse_token (node_token d z n e node) =
    Inr \<lparr>edomain = d, zid = z, nid = n, eid = e, ekind = entity_node, enclave = ''/'',
      namespace = ''/'', enode = node, etopic = [], edds = [], etype = [], ehash = [], eqos = qos_zero\<rparr>"
proof -
  have "split_on CHR ''/'' (node_token d z n e node) =
      [admin_space, itoa d, z, itoa n, itoa e, entity_node, ''%'', ''%'', node]"
    unfolding node_token_def
    by (rule split_on_join) (use assms in \<open>auto simp: admin_space_def entity_kinds\<close>)
  then show ?thesis
    using assms by (simp add: parse_token_def parse_int_segment_def demangle_def Let_def)
qed

theorem parse_node_token_witness:
  "parse_token (node_token 0 ''z1'' 2 3 ''nav'') =
    Inr \<lparr>edomain = 0, zid = ''z1'', nid = 2, eid = 3, ekind = entity_node, enclave = ''/'',
      namespace = ''/'', enode = ''nav'', etopic = [], edds = [], etype = [], ehash = [], eqos = qos_zero\<rparr>"
  by (rule parse_node_token) (simp_all add: in_int_def min_int_def max_int_def)

text \<open>C3. An endpoint's liveliness token, built for a registered ROS type and one of the named
  QoS profiles, parses back to the same endpoint: topic with one leading slash, DDS and ROS type
  names, hash, and the profile itself.\<close>

theorem parse_endpoint_token:
  assumes "in_int d" "in_int n" "in_int e" "CHR ''/'' \<notin> set z" "CHR ''/'' \<notin> set node"
    and kind: "is_endpoint_kind kind"
    and topic: "CHR ''%'' \<notin> set topic" and hash: "CHR ''%'' \<notin> set hash"
    and ros: "split_on CHR ''/'' type = [pkg, ns, name]" "CHR '':'' \<notin> set type" "CHR ''%'' \<notin> set type"
    and q: "qos_profile profile = Some q"
  shows "parse_token (endpoint_token d z n e kind node topic (dds_type type) hash q) =
    Inr \<lparr>edomain = d, zid = z, nid = n, eid = e, ekind = kind, enclave = ''/'', namespace = ''/'',
      enode = node, etopic = ''/'' @ strip_name topic, edds = dds_type type, etype = type,
      ehash = hash, eqos = q\<rparr>"
proof -
  have k: "kind \<noteq> entity_node" "CHR ''/'' \<notin> set kind"
    using kind by (auto simp: is_endpoint_kind_def entity_kinds)
  have seg: "split_on CHR ''/'' (endpoint_token d z n e kind node topic (dds_type type) hash q) =
      [admin_space, itoa d, z, itoa n, itoa e, kind, ''%'', ''%'', node,
       mangle (''/'' @ strip_name topic), mangle (dds_type type), mangle hash, qos_keyexpr q]"
    unfolding endpoint_token_def
    by (rule split_on_join) (use assms k in \<open>auto simp: admin_space_def\<close>)
  have ty: "type = pkg @ CHR ''/'' # ns @ CHR ''/'' # name" using ros(1) by (rule split_on_three)
  have dds: "dds_type type = pkg @ ''::'' @ ns @ ''::'' @ ''dds_'' @ ''::'' @ name @ ''_''"
    by (simp add: dds_type_def ros(1))
  have "CHR '':'' \<notin> set pkg" "CHR '':'' \<notin> set ns" "CHR '':'' \<notin> set (name @ ''_'')"
    using ros(2) by (simp_all add: ty)
  then have ps: "split_str ''::'' (dds_type type) = [pkg, ns, ''dds_'', name @ ''_'']"
    unfolding dds by (subst split_str_colons_append, simp)+ (simp only: split_str_no_colon)
  have tfd: "type_from_dds (dds_type type) = type"
    unfolding type_from_dds_def ps by (simp add: ty)
  have "set (strip_name topic) \<subseteq> set topic"
    by (auto simp: strip_name_def trim_char_def dest!: set_dropWhileD)
  then have t: "demangle (mangle (''/'' @ strip_name topic)) = ''/'' @ strip_name topic"
    by (intro demangle_mangle) (use topic in auto)
  have "CHR ''%'' \<notin> set (dds_type type)" unfolding dds using ros(3) by (simp add: ty)
  then have dd: "demangle (mangle (dds_type type)) = dds_type type" by (rule demangle_mangle)
  have h: "demangle (mangle hash) = hash" using hash by (rule demangle_mangle)
  have qq: "parse_qos_keyexpr (qos_keyexpr q) = Inr q"
  proof -
    have "in_int (depth q)"
      using q by (rule qos_profile_cases) (simp_all add: in_int_def min_int_def max_int_def)
    then show ?thesis using profile_name_profile[OF q] by (simp add: parse_qos_qos_keyexpr)
  qed
  have pc: "demangle ''%'' = ''/''" by (simp add: demangle_def)
  show ?thesis
    using assms(1-3) kind k
    by (simp only: parse_token_def seg) (simp add: parse_int_segment_def Let_def t[simplified] dd tfd qq h pc)
qed

theorem parse_endpoint_token_witness:
  "parse_token (endpoint_token 0 ''z1'' 2 3 entity_publisher ''nav'' ''/cmd_vel/''
       (dds_type ''geometry_msgs/msg/Twist'') ''RIHS01_9c'' (the (qos_profile ''sensor''))) =
    Inr \<lparr>edomain = 0, zid = ''z1'', nid = 2, eid = 3, ekind = entity_publisher, enclave = ''/'',
      namespace = ''/'', enode = ''nav'', etopic = ''/'' @ strip_name ''/cmd_vel/'',
      edds = dds_type ''geometry_msgs/msg/Twist'', etype = ''geometry_msgs/msg/Twist'',
      ehash = ''RIHS01_9c'', eqos = the (qos_profile ''sensor'')\<rparr>"
  by (rule parse_endpoint_token[where profile = "''sensor''" and pkg = "''geometry_msgs''"
      and ns = "''msg''" and name = "''Twist''"])
    (simp_all add: in_int_def min_int_def max_int_def is_endpoint_kind_def qos_profile_def qos_profiles_def)

lemma decode_attachment_append:
  "decode_attachment (encode_attachment seq ts gid @ rest) = Inr (seq, ts, take (length gid mod 256) gid)"
proof -
  have n: "unat (word_of_nat (length gid) :: byte) = length gid mod 256"
    by (simp add: unat_of_nat)
  have le: "length gid mod 256 \<le> length gid" by simp
  have b: "encode_attachment seq ts gid @ rest =
      le_bytes 8 seq @ le_bytes 8 ts @ (word_of_nat (length gid) # gid @ rest)"
    by (simp add: encode_attachment_def)
  show ?thesis
    unfolding b decode_attachment_def using le by (simp add: n le_val_word64 nth_append Let_def)
qed

lemma length_trace_magic [simp]: "length trace_magic = 4"
  by (simp add: trace_magic_def)

text \<open>Attachment round trip, with the trace extension transparent: whatever follows it,
  an encoded attachment decodes to its three fields, the GID cut to its length modulo 256 (its
  length prefix is one byte); and the trace extension gives its context back.\<close>

theorem attachment_round_trip:
  assumes "length trace_id = 16" and "length span_id = 8"
  shows "decode_attachment (append_trace_context (encode_attachment seq ts gid) trace_id span_id sampled)
      = Inr (seq, ts, take (length gid mod 256) gid)
    \<and> decode_attachment (encode_attachment seq ts gid) = Inr (seq, ts, take (length gid mod 256) gid)
    \<and> extract_trace_context (append_trace_context (encode_attachment seq ts gid) trace_id span_id sampled)
      = Some (trace_id, span_id, sampled)"
proof (intro conjI)
  show "decode_attachment (append_trace_context (encode_attachment seq ts gid) trace_id span_id sampled)
      = Inr (seq, ts, take (length gid mod 256) gid)"
    unfolding append_trace_context_def by (rule decode_attachment_append)
  show "decode_attachment (encode_attachment seq ts gid) = Inr (seq, ts, take (length gid mod 256) gid)"
    using decode_attachment_append[of seq ts gid "[]"] by simp
  show "extract_trace_context (append_trace_context (encode_attachment seq ts gid) trace_id span_id sampled)
      = Some (trace_id, span_id, sampled)"
    using assms
    by (simp add: extract_trace_context_def append_trace_context_def trace_extension_len_def Let_def nth_append)
qed

theorem attachment_round_trip_witness:
  "decode_attachment (append_trace_context (encode_attachment 7 9 [1, 2]) (replicate 16 1) (replicate 8 2) True)
     = Inr (7, 9, [1, 2])
   \<and> extract_trace_context (append_trace_context (encode_attachment 7 9 [1, 2]) (replicate 16 1) (replicate 8 2) True)
     = Some (replicate 16 1, replicate 8 2, True)"
  using attachment_round_trip[of "replicate 16 1" "replicate 8 2" 7 9 "[1, 2]" True] by simp

end
