(* ===== verification/Lifecycle.thy ===== *)
theory Lifecycle
imports Go_Prelude "HOL-Library.Word"
begin

text \<open>
  The managed-node state machine (\<^verbatim>\<open>lifecycle_wire.go\<close>, \<^verbatim>\<open>lifecycle.go\<close>): states and
  transitions as the bytes of the ROS messages, the transition table, the two critical sections
  of \<^verbatim>\<open>lifecycle.transition\<close> around the hook, and the four lifecycle services.

  The mutex is released while a hook runs, so a transition is two atomic steps, \<open>lc_begin\<close> and
  \<open>lc_finish\<close>; \<open>transition\<close> composes them for one caller and \<open>lc_step\<close> interleaves any number of
  callers. What the Go code does besides moving the state (callbacks, events, metrics) is
  returned as a list of effects. Time stamps and log lines are left out.
\<close>

section \<open>States and transitions\<close>

type_synonym lstate = "8 word"
type_synonym ltransition = "8 word"

abbreviation StateUnknown :: lstate where "StateUnknown \<equiv> 0"
abbreviation StateUnconfigured :: lstate where "StateUnconfigured \<equiv> 1"
abbreviation StateInactive :: lstate where "StateInactive \<equiv> 2"
abbreviation StateActive :: lstate where "StateActive \<equiv> 3"
abbreviation StateFinalized :: lstate where "StateFinalized \<equiv> 4"
abbreviation StateConfiguring :: lstate where "StateConfiguring \<equiv> 10"
abbreviation StateCleaningUp :: lstate where "StateCleaningUp \<equiv> 11"
abbreviation StateShuttingDown :: lstate where "StateShuttingDown \<equiv> 12"
abbreviation StateActivating :: lstate where "StateActivating \<equiv> 13"
abbreviation StateDeactivating :: lstate where "StateDeactivating \<equiv> 14"
abbreviation StateErrorProcessing :: lstate where "StateErrorProcessing \<equiv> 15"

abbreviation TransitionCreate :: ltransition where "TransitionCreate \<equiv> 0"
abbreviation TransitionConfigure :: ltransition where "TransitionConfigure \<equiv> 1"
abbreviation TransitionCleanup :: ltransition where "TransitionCleanup \<equiv> 2"
abbreviation TransitionActivate :: ltransition where "TransitionActivate \<equiv> 3"
abbreviation TransitionDeactivate :: ltransition where "TransitionDeactivate \<equiv> 4"
abbreviation TransitionUnconfiguredShutdown :: ltransition where "TransitionUnconfiguredShutdown \<equiv> 5"
abbreviation TransitionInactiveShutdown :: ltransition where "TransitionInactiveShutdown \<equiv> 6"
abbreviation TransitionActiveShutdown :: ltransition where "TransitionActiveShutdown \<equiv> 7"
abbreviation TransitionDestroy :: ltransition where "TransitionDestroy \<equiv> 8"

definition state_string :: "lstate \<Rightarrow> string" where
  "state_string s =
     (if s = StateUnconfigured then ''unconfigured''
      else if s = StateInactive then ''inactive''
      else if s = StateActive then ''active''
      else if s = StateFinalized then ''finalized''
      else if s = StateConfiguring then ''configuring''
      else if s = StateCleaningUp then ''cleaningup''
      else if s = StateShuttingDown then ''shuttingdown''
      else if s = StateActivating then ''activating''
      else if s = StateDeactivating then ''deactivating''
      else if s = StateErrorProcessing then ''errorprocessing''
      else ''unknown'')"

definition transition_string :: "ltransition \<Rightarrow> string" where
  "transition_string t =
     (if t = TransitionCreate then ''create''
      else if t = TransitionConfigure then ''configure''
      else if t = TransitionCleanup then ''cleanup''
      else if t = TransitionActivate then ''activate''
      else if t = TransitionDeactivate then ''deactivate''
      else if t = TransitionUnconfiguredShutdown \<or> t = TransitionInactiveShutdown
        \<or> t = TransitionActiveShutdown then ''shutdown''
      else if t = TransitionDestroy then ''destroy''
      else ''unknown'')"

type_synonym state_msg = "lstate \<times> string"
type_synonym transition_msg = "ltransition \<times> string"

definition msg_of_state :: "lstate \<Rightarrow> state_msg" where
  "msg_of_state s = (s, state_string s)"

definition msg_of_transition :: "ltransition \<Rightarrow> transition_msg" where
  "msg_of_transition t = (t, transition_string t)"

definition transition_entries :: "((lstate \<times> ltransition) \<times> lstate) list" where
  "transition_entries =
    [((StateUnconfigured, TransitionConfigure), StateInactive),
     ((StateUnconfigured, TransitionUnconfiguredShutdown), StateFinalized),
     ((StateInactive, TransitionActivate), StateActive),
     ((StateInactive, TransitionCleanup), StateUnconfigured),
     ((StateInactive, TransitionInactiveShutdown), StateFinalized),
     ((StateActive, TransitionDeactivate), StateInactive),
     ((StateActive, TransitionActiveShutdown), StateFinalized)]"

definition transition_table :: "lstate \<Rightarrow> ltransition \<Rightarrow> lstate option" where
  "transition_table s t = map_of transition_entries (s, t)"

text \<open>A key missing from a Go map reads as the zero value, here \<^const>\<open>StateUnknown\<close>.\<close>

definition intermediate_state :: "ltransition \<Rightarrow> lstate" where
  "intermediate_state t =
     (case map_of
       [(TransitionConfigure, StateConfiguring),
        (TransitionCleanup, StateCleaningUp),
        (TransitionActivate, StateActivating),
        (TransitionDeactivate, StateDeactivating),
        (TransitionUnconfiguredShutdown, StateShuttingDown),
        (TransitionInactiveShutdown, StateShuttingDown),
        (TransitionActiveShutdown, StateShuttingDown)] t of
      None \<Rightarrow> StateUnknown | Some s \<Rightarrow> s)"

definition result_of :: "ltransition \<Rightarrow> lstate option" where
  "result_of t =
     (if t = TransitionConfigure then Some StateInactive
      else if t = TransitionActivate then Some StateActive
      else if t = TransitionDeactivate then Some StateInactive
      else if t = TransitionCleanup then Some StateUnconfigured
      else None)"

definition shutdown_for :: "lstate \<Rightarrow> ltransition option" where
  "shutdown_for s =
     (if s = StateUnconfigured then Some TransitionUnconfiguredShutdown
      else if s = StateInactive then Some TransitionInactiveShutdown
      else if s = StateActive then Some TransitionActiveShutdown
      else None)"

section \<open>The node's machine\<close>

text \<open>A hook, when the node implements it, is identified by a value the environment interprets
  when it runs.\<close>

record 'h hooks =
  configure :: "'h option"
  activate :: "'h option"
  deactivate :: "'h option"
  cleanup :: "'h option"
  shutdown :: "'h option"

definition for_transition :: "'h hooks \<Rightarrow> ltransition \<Rightarrow> 'h option" where
  "for_transition h t =
     (if t = TransitionConfigure then configure h
      else if t = TransitionActivate then activate h
      else if t = TransitionDeactivate then deactivate h
      else if t = TransitionCleanup then cleanup h
      else if t = TransitionUnconfiguredShutdown \<or> t = TransitionInactiveShutdown
        \<or> t = TransitionActiveShutdown then shutdown h
      else None)"

record ('h, 'c) lifecycle =
  lc_node :: string
  lc_hooks :: "'h hooks"
  lc_state :: lstate
  lc_publishes :: bool
  on_active :: "'c list"
  on_inactive :: "'c list"

text \<open>\<^verbatim>\<open>newLifecycle\<close>; the publisher and the callbacks are attached later, while binding.\<close>

definition new_lifecycle :: "string \<Rightarrow> 'h hooks \<Rightarrow> ('h, 'c) lifecycle" where
  "new_lifecycle node h = \<lparr>lc_node = node, lc_hooks = h, lc_state = StateUnconfigured,
     lc_publishes = False, on_active = [], on_inactive = []\<rparr>"

definition lc_active :: "('h, 'c) lifecycle \<Rightarrow> bool" where
  "lc_active l \<longleftrightarrow> lc_state l = StateActive"

text \<open>What the executor makes of a hook: the node may refuse the work, the hook may return
  (with or without an error), or the node may quit first.\<close>

datatype hook_run = Refused | Returned "goerror option" | Quit

definition run_hook :: "string \<Rightarrow> ('h \<Rightarrow> hook_run) \<Rightarrow> 'h option \<Rightarrow> goerror option" where
  "run_hook node env fn =
     (case fn of None \<Rightarrow> None
      | Some h \<Rightarrow> (case env h of
          Refused \<Rightarrow> Some (Errorf ''node %s is not accepting work'' [GStr node])
        | Returned err \<Rightarrow> err
        | Quit \<Rightarrow> Some (Errorf ''node %s shut down during transition'' [GStr node])))"

datatype 'c effect =
    Callback 'c
  | Gauge_state lstate
  | Count_transition string
  | Event transition_msg state_msg state_msg

definition publish_event :: "('h, 'c) lifecycle \<Rightarrow> ltransition \<Rightarrow> lstate \<Rightarrow> lstate \<Rightarrow> 'c effect list" where
  "publish_event l t start goal =
     (if \<not> lc_publishes l then []
      else [Event (msg_of_transition t) (msg_of_state start) (msg_of_state goal)])"

text \<open>The first critical section: look the transition up and enter its intermediate state.\<close>

definition lc_begin :: "ltransition \<Rightarrow> ('h, 'c) lifecycle
    \<Rightarrow> (lstate \<times> lstate) result \<times> ('h, 'c) lifecycle" where
  "lc_begin t l =
     (case transition_table (lc_state l) t of
        None \<Rightarrow> (Inl (Errorf ''transition %s is not valid from state %s''
                   [GStr (transition_string t), GStr (state_string (lc_state l))]), l)
      | Some goal \<Rightarrow> (Inr (lc_state l, goal), l\<lparr>lc_state := intermediate_state t\<rparr>))"

text \<open>The second one, with what follows it.\<close>

definition lc_finish :: "ltransition \<Rightarrow> lstate \<Rightarrow> lstate \<Rightarrow> goerror option \<Rightarrow> ('h, 'c) lifecycle
    \<Rightarrow> (bool \<times> goerror option) \<times> ('h, 'c) lifecycle \<times> 'c effect list" where
  "lc_finish t start goal err l =
     (case err of
        Some e \<Rightarrow> ((False, Some e), l\<lparr>lc_state := start\<rparr>, publish_event l t start StateErrorProcessing)
      | None \<Rightarrow>
          (let l' = l\<lparr>lc_state := goal\<rparr>;
               calls = (if goal = StateActive then map Callback (on_active l)
                        else if start = StateActive then map Callback (on_inactive l)
                        else [])
           in ((True, None), l',
               calls @ [Gauge_state goal, Count_transition (transition_string t)]
                 @ publish_event l t start goal)))"

text \<open>One caller of \<^verbatim>\<open>lifecycle.transition\<close>.\<close>

definition transition :: "('h \<Rightarrow> hook_run) \<Rightarrow> ltransition \<Rightarrow> ('h, 'c) lifecycle
    \<Rightarrow> (bool \<times> goerror option) \<times> ('h, 'c) lifecycle \<times> 'c effect list" where
  "transition env t l =
     (case lc_begin t l of
        (Inl e, l') \<Rightarrow> ((False, Some e), l', [])
      | (Inr (start, goal), l') \<Rightarrow>
          lc_finish t start goal (run_hook (lc_node l) env (for_transition (lc_hooks l) t)) l')"

section \<open>The services\<close>

definition change_state :: "('h \<Rightarrow> hook_run) \<Rightarrow> ltransition \<Rightarrow> ('h, 'c) lifecycle
    \<Rightarrow> bool \<times> ('h, 'c) lifecycle \<times> 'c effect list" where
  "change_state env t l = (let ((ok, _), l', eff) = transition env t l in (ok, l', eff))"

definition get_state :: "('h, 'c) lifecycle \<Rightarrow> state_msg" where
  "get_state l = msg_of_state (lc_state l)"

definition available_states :: "state_msg list" where
  "available_states = map msg_of_state
     [StateUnknown, StateUnconfigured, StateInactive, StateActive, StateFinalized,
      StateConfiguring, StateCleaningUp, StateShuttingDown, StateActivating, StateDeactivating,
      StateErrorProcessing]"

text \<open>The Go loop ranges over a map, so the order of this list means nothing.\<close>

definition available_transitions :: "('h, 'c) lifecycle
    \<Rightarrow> (transition_msg \<times> state_msg \<times> state_msg) list" where
  "available_transitions l =
     map (\<lambda>((from, t), goal). (msg_of_transition t, msg_of_state from, msg_of_state goal))
       (filter (\<lambda>((from, t), goal). from = lc_state l) transition_entries)"

section \<open>Lemmas\<close>

definition primary :: "lstate set" where
  "primary = {StateUnconfigured, StateInactive, StateActive, StateFinalized}"

lemma transition_table_Some:
  assumes "transition_table s t = Some g"
  shows "s \<in> {StateUnconfigured, StateInactive, StateActive} \<and> g \<in> primary
    \<and> intermediate_state t \<notin> primary \<and> transition_table (intermediate_state t) u = None
    \<and> s \<noteq> StateFinalized"
  using assms
  by (auto simp: transition_table_def transition_entries_def intermediate_state_def primary_def
      split: if_splits)

lemma transition_table_mem:
  "transition_table s t = Some g \<longleftrightarrow> ((s, t), g) \<in> set transition_entries"
  by (auto simp: transition_table_def transition_entries_def split: if_splits)

lemma lc_begin_Inr:
  "lc_begin t l = (Inr (s, g), l') \<longleftrightarrow>
     transition_table (lc_state l) t = Some g \<and> s = lc_state l \<and> l' = l\<lparr>lc_state := intermediate_state t\<rparr>"
  by (auto simp: lc_begin_def split: option.splits)

lemma lc_begin_Inl: "lc_begin t l = (Inl e, l') \<Longrightarrow> l' = l \<and> transition_table (lc_state l) t = None"
  by (auto simp: lc_begin_def split: option.splits)

lemma lc_finish_state:
  "lc_state (fst (snd (lc_finish t s g err l))) = (if err = None then g else s)"
  by (simp add: lc_finish_def Let_def split: option.splits)

lemma transition_cases:
  "transition env t l =
     (case transition_table (lc_state l) t of
        None \<Rightarrow> ((False, Some (Errorf ''transition %s is not valid from state %s''
                   [GStr (transition_string t), GStr (state_string (lc_state l))])), l, [])
      | Some g \<Rightarrow> lc_finish t (lc_state l) g (run_hook (lc_node l) env (for_transition (lc_hooks l) t))
                   (l\<lparr>lc_state := intermediate_state t\<rparr>))"
  by (simp add: transition_def lc_begin_def split: option.splits)

section \<open>Concurrent callers\<close>

text \<open>Callers between their two critical sections are kept with the transition they drive, the
  state it started from and its goal. A step is one critical section of one caller; the outcome
  of the hook is whatever the environment makes it.\<close>

record ('h, 'c) lc_system =
  machine :: "('h, 'c) lifecycle"
  flights :: "(ltransition \<times> lstate \<times> lstate) list"

inductive lc_step :: "('h, 'c) lc_system \<Rightarrow> ('h, 'c) lc_system \<Rightarrow> bool" where
  enter: "lc_begin t (machine x) = (Inr (s, g), l') \<Longrightarrow>
    lc_step x (x\<lparr>machine := l', flights := flights x @ [(t, s, g)]\<rparr>)"
| reject: "lc_begin t (machine x) = (Inl e, l') \<Longrightarrow> lc_step x (x\<lparr>machine := l'\<rparr>)"
| leave: "flights x = fs @ (t, s, g) # fs' \<Longrightarrow>
    lc_step x (x\<lparr>machine := fst (snd (lc_finish t s g err (machine x))), flights := fs @ fs'\<rparr>)"

inductive lc_reachable :: "('h, 'c) lc_system \<Rightarrow> bool" where
  init: "lc_reachable \<lparr>machine = new_lifecycle node h, flights = []\<rparr>"
| step: "lc_reachable x \<Longrightarrow> lc_step x y \<Longrightarrow> lc_reachable y"

text \<open>At most one caller is inside a transition; then the state is that transition's
  intermediate one, and otherwise it is primary.\<close>

definition lc_inv :: "('h, 'c) lc_system \<Rightarrow> bool" where
  "lc_inv x \<longleftrightarrow>
     (case flights x of
        [] \<Rightarrow> lc_state (machine x) \<in> primary
      | [(t, s, g)] \<Rightarrow> transition_table s t = Some g \<and> lc_state (machine x) = intermediate_state t
      | _ \<Rightarrow> False)"

lemma lc_inv_flight:
  assumes "lc_inv x" and "flights x = fs @ (t, s, g) # fs'"
  shows "fs = [] \<and> fs' = [] \<and> transition_table s t = Some g"
proof (cases fs)
  case Nil
  with assms show ?thesis by (cases fs') (auto simp: lc_inv_def)
next
  case (Cons a gs)
  obtain b hs where "gs @ (t, s, g) # fs' = b # hs" by (cases gs) auto
  with Cons assms show ?thesis by (cases a) (auto simp: lc_inv_def)
qed

lemma lc_step_inv: "lc_step x y \<Longrightarrow> lc_inv x \<Longrightarrow> lc_inv y"
proof (induction rule: lc_step.induct)
  case (enter t x s g l')
  then have b: "transition_table (lc_state (machine x)) t = Some g" "s = lc_state (machine x)"
    "l' = (machine x)\<lparr>lc_state := intermediate_state t\<rparr>"
    by (auto simp: lc_begin_Inr)
  have "flights x = []"
  proof (cases "flights x")
    case (Cons f fs)
    obtain u p q where f: "f = (u, p, q)" by (cases f)
    from lc_inv_flight[of x "[]" u p q fs] enter.prems Cons f
    have "fs = []" "transition_table p u = Some q" by auto
    with enter.prems Cons f b(1) transition_table_Some[of p u q t] show ?thesis
      by (auto simp: lc_inv_def)
  qed
  with b show ?case by (simp add: lc_inv_def)
next
  case (reject t x e l')
  then have "x\<lparr>machine := l'\<rparr> = x" using lc_begin_Inl[of t "machine x" e l'] by simp
  with reject show ?case by simp
next
  case (leave x fs t s g fs' err)
  then have "fs = [] \<and> fs' = [] \<and> transition_table s t = Some g"
    by (auto dest: lc_inv_flight)
  then show ?case
    using transition_table_Some[of s t g] by (auto simp: lc_inv_def lc_finish_state primary_def)
qed

lemma lc_reachable_inv: "lc_reachable x \<Longrightarrow> lc_inv x"
  by (induction rule: lc_reachable.induct)
    (auto simp: lc_inv_def new_lifecycle_def primary_def dest: lc_step_inv)

text \<open>The abstract machine of the ROS 2 managed-node design: only the primary state, moved by
  the edges of the table. The concrete system refines it: a node inside a transition stands
  for the state it left.\<close>

definition managed_edge :: "lstate \<Rightarrow> lstate \<Rightarrow> bool" where
  "managed_edge p q \<longleftrightarrow> (\<exists>t. transition_table p t = Some q)"

definition primary_of :: "('h, 'c) lc_system \<Rightarrow> lstate" where
  "primary_of x = (case flights x of [] \<Rightarrow> lc_state (machine x) | (t, s, g) # _ \<Rightarrow> s)"

lemma lc_step_refines:
  "lc_step x y \<Longrightarrow> lc_inv x \<Longrightarrow> primary_of y = primary_of x \<or> managed_edge (primary_of x) (primary_of y)"
proof (induction rule: lc_step.induct)
  case (enter t x s g l')
  then show ?case
    by (cases "flights x") (auto simp: primary_of_def lc_begin_Inr)
next
  case (reject t x e l')
  then have "x\<lparr>machine := l'\<rparr> = x" using lc_begin_Inl[of t "machine x" e l'] by simp
  then show ?case by simp
next
  case (leave x fs t s g fs' err)
  then have "fs = [] \<and> fs' = [] \<and> transition_table s t = Some g"
    by (auto dest: lc_inv_flight)
  with leave show ?case by (auto simp: primary_of_def lc_finish_state managed_edge_def)
qed

section \<open>Properties\<close>

text \<open>C4. However callers interleave, at most one transition of a node is between its two
  critical sections (so two hooks never run at once), and a node no transition is running on is
  in one of the four primary states.\<close>

theorem lifecycle_exclusive:
  assumes "lc_reachable x"
  shows "length (flights x) \<le> 1 \<and> (flights x = [] \<longrightarrow> lc_state (machine x) \<in> primary)"
proof -
  have "lc_inv x" using assms by (rule lc_reachable_inv)
  then show ?thesis
    by (cases "flights x"; cases "tl (flights x)") (auto simp: lc_inv_def)
qed

theorem lifecycle_exclusive_witness:
  "\<exists>x :: (nat, nat) lc_system. lc_reachable x \<and> length (flights x) = 1 \<and> lc_state (machine x) = StateConfiguring"
proof -
  define h :: "nat hooks" where "h = \<lparr>configure = None, activate = None, deactivate = None, cleanup = None, shutdown = None\<rparr>"
  define x :: "(nat, nat) lc_system" where "x = \<lparr>machine = new_lifecycle ''n'' h, flights = []\<rparr>"
  define y where "y = x\<lparr>machine := (machine x)\<lparr>lc_state := StateConfiguring\<rparr>,
    flights := [(TransitionConfigure, StateUnconfigured, StateInactive)]\<rparr>"
  have b: "lc_begin TransitionConfigure (machine x)
      = (Inr (StateUnconfigured, StateInactive), (machine x)\<lparr>lc_state := StateConfiguring\<rparr>)"
    by (simp add: lc_begin_def transition_table_def transition_entries_def intermediate_state_def
      x_def new_lifecycle_def)
  have "lc_step x y" using lc_step.enter[OF b] by (simp add: y_def x_def)
  moreover have "lc_reachable x" unfolding x_def by (rule lc_reachable.init)
  ultimately have r: "lc_reachable y" by (rule lc_reachable.step[rotated])
  have "length (flights y) \<le> 1" using lifecycle_exclusive[OF r] by simp
  then have "length (flights y) = 1" by (simp add: y_def)
  with r show ?thesis by (auto simp: y_def)
qed

text \<open>C5. Every step of a reachable system leaves the node's primary state alone or moves it
  along one edge of the managed-node table: the locked implementation, with its transition
  states and failing hooks, refines the table.\<close>

theorem lifecycle_refines_table:
  assumes "lc_reachable x" and "lc_step x y"
  shows "primary_of y = primary_of x \<or> managed_edge (primary_of x) (primary_of y)"
  using lc_step_refines[OF assms(2) lc_reachable_inv[OF assms(1)]] .

theorem lifecycle_refines_table_witness:
  "\<exists>x y :: (nat, nat) lc_system. lc_step x y \<and>
     (primary_of y = primary_of x \<or> managed_edge (primary_of x) (primary_of y))"
proof -
  define x :: "(nat, nat) lc_system" where "x = \<lparr>machine = new_lifecycle ''n''
     \<lparr>configure = None, activate = None, deactivate = None, cleanup = None, shutdown = None\<rparr>, flights = []\<rparr>"
  have r: "lc_reachable x" unfolding x_def by (rule lc_reachable.init)
  have "\<exists>e. lc_begin TransitionActivate (machine x) = (Inl e, machine x)"
    by (simp add: x_def lc_begin_def transition_table_def transition_entries_def new_lifecycle_def)
  then obtain e where "lc_begin TransitionActivate (machine x) = (Inl e, machine x)" by blast
  from lc_step.reject[OF this] have s: "lc_step x x" by simp
  from lifecycle_refines_table[OF r s] s show ?thesis by blast
qed

text \<open>What one call of \<^verbatim>\<open>transition\<close> does: it succeeds exactly when the table has the
  transition and the hook, if any, returns no error; it then leaves the node in the table's goal,
  runs the activation callbacks exactly when entering Active and the deactivation callbacks exactly
  when leaving it, and otherwise leaves the node where it started and runs no callback.\<close>

theorem transition_outcome:
  assumes "transition env t l = ((ok, err), l', eff)"
  shows "(ok \<longleftrightarrow> (\<exists>g. transition_table (lc_state l) t = Some g \<and>
              run_hook (lc_node l) env (for_transition (lc_hooks l) t) = None))
    \<and> (ok \<longleftrightarrow> err = None)
    \<and> (ok \<longrightarrow> transition_table (lc_state l) t = Some (lc_state l')
        \<and> {c. Callback c \<in> set eff} =
            (if lc_state l' = StateActive then set (on_active l)
             else if lc_state l = StateActive then set (on_inactive l) else {}))
    \<and> (\<not> ok \<longrightarrow> l' = l \<and> {c. Callback c \<in> set eff} = {})"
proof (cases "transition_table (lc_state l) t")
  case None
  then show ?thesis using assms by (auto simp: transition_cases)
next
  case (Some g)
  define r where "r = run_hook (lc_node l) env (for_transition (lc_hooks l) t)"
  have tr: "lc_finish t (lc_state l) g r (l\<lparr>lc_state := intermediate_state t\<rparr>) = ((ok, err), l', eff)"
    using assms Some by (simp add: transition_cases r_def)
  show ?thesis
  proof (cases r)
    case None
    with tr Some show ?thesis
      by (auto simp: r_def lc_finish_def Let_def publish_event_def split: if_split_asm)
  next
    case [simp]: (Some e)
    from tr have "\<not> ok" "err = Some e" "l' = l" "{c. Callback c \<in> set eff} = {}"
      by (auto simp: lc_finish_def publish_event_def split: if_split_asm)
    then show ?thesis by (simp add: r_def[symmetric])
  qed
qed

theorem transition_outcome_witness:
  "fst (transition (\<lambda>_. Returned None) TransitionActivate
      ((new_lifecycle ''n'' \<lparr>configure = None, activate = Some (0::nat), deactivate = None, cleanup = None,
          shutdown = None\<rparr>)\<lparr>lc_state := StateInactive, on_active := [7::nat]\<rparr>)) = (True, None)"
proof -
  define l where "l = (new_lifecycle ''n'' \<lparr>configure = None, activate = Some (0::nat), deactivate = None,
    cleanup = None, shutdown = None\<rparr>)\<lparr>lc_state := StateInactive, on_active := [7::nat]\<rparr>"
  obtain ok err l' eff where
    tr: "transition (\<lambda>_. Returned None) TransitionActivate l = ((ok, err), l', eff)"
    by (metis prod.collapse)
  have "transition_table (lc_state l) TransitionActivate = Some StateActive"
    "run_hook (lc_node l) (\<lambda>_. Returned None) (for_transition (lc_hooks l) TransitionActivate) = None"
    by (simp_all add: l_def new_lifecycle_def transition_table_def transition_entries_def run_hook_def
      for_transition_def)
  then have "ok" "err = None" using transition_outcome[OF tr] by auto
  then show ?thesis using tr by (simp add: l_def)
qed

text \<open>\<^verbatim>\<open>get_available_transitions\<close> is exact: it lists a transition, with the current state
  as its start and a goal, exactly when a \<^verbatim>\<open>change_state\<close> with that transition would be accepted
  and lead to that goal.\<close>

theorem available_transitions_exact:
  "(msg_of_transition t, s, msg_of_state g) \<in> set (available_transitions l) \<longleftrightarrow>
     s = get_state l \<and> fst (lc_begin t l) = Inr (lc_state l, g)"
proof -
  have "(msg_of_transition t, s, msg_of_state g) \<in> set (available_transitions l) \<longleftrightarrow>
      s = get_state l \<and> ((lc_state l, t), g) \<in> set transition_entries"
    by (force simp: available_transitions_def msg_of_transition_def msg_of_state_def get_state_def)
  also have "\<dots> \<longleftrightarrow> s = get_state l \<and> fst (lc_begin t l) = Inr (lc_state l, g)"
    unfolding transition_table_mem[symmetric] by (auto simp: lc_begin_def split: option.splits)
  finally show ?thesis .
qed

end
