(* ===== verification/Go_Time.thy ===== *)
theory Go_Time
imports Go_Prelude Complex_Main
begin

text \<open>
  Durations and rates: \<^verbatim>\<open>time.ParseDuration\<close>, which the tags \<^verbatim>\<open>timeout\<close> and \<^verbatim>\<open>backoff\<close> are read with,
  and \<^verbatim>\<open>ParseRate\<close> of \<^verbatim>\<open>timer.go\<close>. A duration is a number of nanoseconds. The fraction of a term
  (\<^verbatim>\<open>1.5s\<close>) is multiplied out exactly and rounded down, where the library multiplies in
  \<^verbatim>\<open>float64\<close>; the two can differ by a nanosecond.

  \<^verbatim>\<open>strconv.ParseFloat\<close> is an argument of \<open>parse_rate\<close>: it returns a real number, one of the two
  infinities, NaN, or an error (\<open>None\<close>).
\<close>

section \<open>ParseDuration\<close>

fun leading_int :: "nat \<Rightarrow> string \<Rightarrow> (nat \<times> string) option" where
  "leading_int x [] = Some (x, [])"
| "leading_int x (c # cs) =
     (case digit_val c of
        None \<Rightarrow> Some (x, c # cs)
      | Some d \<Rightarrow> if x > 2 ^ 63 div 10 \<or> x * 10 + d > 2 ^ 63 then None else leading_int (x * 10 + d) cs)"

fun leading_fraction :: "nat \<Rightarrow> nat \<Rightarrow> bool \<Rightarrow> string \<Rightarrow> nat \<times> nat \<times> string" where
  "leading_fraction x scale overflow [] = (x, scale, [])"
| "leading_fraction x scale overflow (c # cs) =
     (case digit_val c of
        None \<Rightarrow> (x, scale, c # cs)
      | Some d \<Rightarrow>
          if overflow \<or> x > (2 ^ 63 - 1) div 10 \<or> x * 10 + d > 2 ^ 63 then leading_fraction x scale True cs
          else leading_fraction (x * 10 + d) (scale * 10) False cs)"

definition unit_map :: "(string \<times> nat) list" where
  "unit_map = [(''ns'', 1), (''us'', 1000), ([CHR 0xC2, CHR 0xB5, CHR ''s''], 1000),
     ([CHR 0xCE, CHR 0xBC, CHR ''s''], 1000), (''ms'', 1000000), (''s'', 1000000000),
     (''m'', 60000000000), (''h'', 3600000000000)]"

definition unit_char :: "char \<Rightarrow> bool" where
  "unit_char c \<longleftrightarrow> c \<noteq> CHR ''.'' \<and> digit_val c = None"

text \<open>One term \<^verbatim>\<open>[0-9]*(\.[0-9]*)?[a-z]+\<close>: its value and what follows it.\<close>

definition dur_term :: "string \<Rightarrow> (nat \<times> string) option" where
  "dur_term s =
     (if \<not> (case s of [] \<Rightarrow> False | c # _ \<Rightarrow> c = CHR ''.'' \<or> digit_val c \<noteq> None) then None
      else case leading_int 0 s of
        None \<Rightarrow> None
      | Some (v, s1) \<Rightarrow>
          (let (f, scale, s2) = (case s1 of
                 c # cs \<Rightarrow> if c = CHR ''.'' then leading_fraction 0 1 False cs else (0, 1, s1)
               | [] \<Rightarrow> (0, 1, s1));
               pre = length s1 \<noteq> length s;
               post = (case s1 of c # cs \<Rightarrow> c = CHR ''.'' \<and> length s2 \<noteq> length cs | [] \<Rightarrow> False);
               u = takeWhile unit_char s2
           in if \<not> pre \<and> \<not> post then None
              else if u = [] then None
              else case map_of unit_map u of
                None \<Rightarrow> None
              | Some unit \<Rightarrow>
                  if v > 2 ^ 63 div unit then None
                  else (let w = v * unit + f * unit div scale
                        in if w > 2 ^ 63 then None else Some (w, dropWhile unit_char s2))))"

lemma leading_int_length: "leading_int x s = Some (v, r) \<Longrightarrow> length r \<le> length s"
  by (induction x s arbitrary: v r rule: leading_int.induct) (auto split: option.splits if_splits intro: le_SucI)

lemma leading_fraction_length: "leading_fraction x k b s = (f, g, r) \<Longrightarrow> length r \<le> length s"
  by (induction x k b s rule: leading_fraction.induct) (auto split: option.splits if_splits)

lemma dropWhile_shorter: "takeWhile P s \<noteq> [] \<Longrightarrow> length (dropWhile P s) < length s"
  by (cases s) (auto simp: le_imp_less_Suc length_dropWhile_le split: if_splits)

lemma dur_term_length: "dur_term s = Some (w, r) \<Longrightarrow> length r < length s"
proof -
  assume a: "dur_term s = Some (w, r)"
  then obtain v s1 where l: "leading_int 0 s = Some (v, s1)"
    by (auto simp: dur_term_def split: option.splits if_splits)
  obtain f scale s2 where fr: "(case s1 of
      c # cs \<Rightarrow> if c = CHR ''.'' then leading_fraction 0 1 False cs else (0, 1, s1)
    | [] \<Rightarrow> (0, 1, s1)) = (f, scale, s2)" by (metis prod_cases3)
  then have s2: "length s2 \<le> length s1"
    using leading_fraction_length by (fastforce split: list.splits if_splits)
  from a l fr have "takeWhile unit_char s2 \<noteq> []" "r = dropWhile unit_char s2"
    by (auto simp: dur_term_def Let_def split: option.splits if_splits)
  with dropWhile_shorter[of unit_char s2] leading_int_length[OF l] s2 show ?thesis by simp
qed

function dur_sum :: "nat \<Rightarrow> string \<Rightarrow> nat option" where
  "dur_sum d s =
     (if s = [] then Some d
      else case dur_term s of
        None \<Rightarrow> None
      | Some (v, rest) \<Rightarrow> if d + v > 2 ^ 63 then None else dur_sum (d + v) rest)"
  by pat_completeness auto
termination
  by (relation "measure (\<lambda>(d, s). length s)") (auto dest: dur_term_length)

declare dur_sum.simps [simp del]

definition parse_duration :: "string \<Rightarrow> int option" where
  "parse_duration s =
     (let (neg, body) = (case s of [] \<Rightarrow> (False, [])
                         | c # cs \<Rightarrow> if c = CHR ''-'' then (True, cs)
                                     else if c = CHR ''+'' then (False, cs) else (False, s))
      in if body = ''0'' then Some 0
         else if body = [] then None
         else case dur_sum 0 body of
           None \<Rightarrow> None
         | Some d \<Rightarrow> if neg then Some (- int d)
                     else if d > 2 ^ 63 - 1 then None else Some (int d))"

text \<open>The two conditions the tags are checked with.\<close>

definition positive_duration :: "string \<Rightarrow> bool" where
  "positive_duration s \<longleftrightarrow> (case parse_duration s of None \<Rightarrow> False | Some d \<Rightarrow> d > 0)"

definition nonnegative_duration :: "string \<Rightarrow> bool" where
  "nonnegative_duration s \<longleftrightarrow> (case parse_duration s of None \<Rightarrow> False | Some d \<Rightarrow> d \<ge> 0)"

section \<open>ParseRate\<close>

datatype float64 = Real real | PosInf | NegInf | NaN

text \<open>\<open>time.Duration(float64(time.Second) / f)\<close>; converting NaN or a value out of range has no
  defined result.\<close>

definition period_of :: "float64 \<Rightarrow> int option" where
  "period_of f =
     (case f of
        Real r \<Rightarrow> (let q = \<lfloor>1000000000 / r\<rfloor> in if q \<le> max_int then Some q else None)
      | PosInf \<Rightarrow> Some 0
      | NegInf \<Rightarrow> Some 0
      | NaN \<Rightarrow> None)"

definition not_positive :: "float64 \<Rightarrow> bool" where
  "not_positive f \<longleftrightarrow> (case f of Real r \<Rightarrow> r \<le> 0 | PosInf \<Rightarrow> False | NegInf \<Rightarrow> True | NaN \<Rightarrow> False)"

definition invalid_rate :: "string \<Rightarrow> goerror" where
  "invalid_rate s = Errorf ''invalid rate %q'' [GStr s]"

text \<open>A period of \<open>None\<close> is one the language leaves undefined.\<close>

definition parse_rate :: "(string \<Rightarrow> float64 option) \<Rightarrow> string \<Rightarrow> int option result" where
  "parse_rate parse_float s =
     (if suffix ''hz'' s then
        (case parse_float (trim_suffix ''hz'' s) of
           None \<Rightarrow> Inl (invalid_rate s)
         | Some f \<Rightarrow> if not_positive f then Inl (invalid_rate s) else Inr (period_of f))
      else
        (case parse_duration s of
           None \<Rightarrow> Inl (invalid_rate s)
         | Some d \<Rightarrow> if d \<le> 0 then Inl (invalid_rate s) else Inr (Some d)))"

lemma parse_duration_eval: "parse_duration ''30s'' = Some 30000000000" "parse_duration ''1.5h'' = Some 5400000000000"
  "parse_duration ''-2ms'' = Some (- 2000000)" "parse_duration ''2m30s'' = Some 150000000000"
  "parse_duration ''10'' = None" "parse_duration '''' = None" "parse_duration ''.s'' = None"
  by (simp_all add: parse_duration_def dur_sum.simps dur_term_def digit_val_def unit_map_def unit_char_def Let_def)

section \<open>Properties\<close>

text \<open>A rate \<^verbatim>\<open>ParseRate\<close> accepts is not always one a ticker accepts: a frequency above one per
  nanosecond, which the check for a positive number lets through, has the period zero, and
  \<^verbatim>\<open>time.NewTicker\<close> panics on it. Every other accepted rate whose period is defined is
  positive.\<close>

theorem parse_rate_period:
  assumes "parse_rate pf s = Inr (Some d)"
  shows "0 \<le> d \<and> (d = 0 \<longleftrightarrow> suffix ''hz'' s \<and> (\<exists>f. pf (trim_suffix ''hz'' s) = Some f \<and>
    (f = PosInf \<or> (\<exists>r. f = Real r \<and> r > 1000000000))))"
proof (cases "suffix ''hz'' s")
  case True
  then obtain f where f: "pf (trim_suffix ''hz'' s) = Some f" "\<not> not_positive f" "period_of f = Some d"
    using assms by (auto simp: parse_rate_def split: option.splits if_splits)
  show ?thesis
  proof (cases f)
    case (Real r)
    with f have r: "r > 0" "d = \<lfloor>1000000000 / r\<rfloor>"
      by (auto simp: not_positive_def period_of_def Let_def split: if_splits)
    then have "0 \<le> d" by simp
    moreover have "d = 0 \<longleftrightarrow> 1000000000 / r < 1"
      using r by (auto simp: floor_eq_iff)
    moreover have "1000000000 / r < 1 \<longleftrightarrow> r > 1000000000" using r(1) by (simp add: field_simps)
    ultimately show ?thesis using True f(1) Real by auto
  qed (use True f in \<open>auto simp: not_positive_def period_of_def\<close>)
next
  case False
  with assms show ?thesis by (auto simp: parse_rate_def split: option.splits if_splits)
qed

theorem parse_rate_period_witness:
  "parse_rate (\<lambda>s. if s = ''2e9'' then Some (Real 2000000000) else None) ''2e9hz'' = Inr (Some 0)
   \<and> (\<exists>r. r > (1000000000::real))"
proof -
  let ?pf = "\<lambda>s. if s = ''2e9'' then Some (Real 2000000000) else None"
  have p: "parse_rate ?pf ''2e9hz'' = Inr (Some 0)"
    by (simp add: parse_rate_def trim_suffix_def suffix_def not_positive_def period_of_def max_int_def)
  from parse_rate_period[OF p] obtain f where "?pf (trim_suffix ''hz'' ''2e9hz'') = Some f"
    "f = PosInf \<or> (\<exists>r. f = Real r \<and> r > 1000000000)" by blast
  then have "\<exists>r. r > (1000000000::real)" by (auto split: if_splits)
  with p show ?thesis by blast
qed

end
