(* ===== verification/Managed_Tags.thy ===== *)
theory Managed_Tags
imports Go_Time
begin

text \<open>
  The tags of a field that drives other managed nodes (\<^verbatim>\<open>lifecycle_client.go\<close>): the list of its nodes, in the order they
  are brought up, and the time a call to one of them may take.
\<close>

fun node_list_loop :: "string \<Rightarrow> string list \<Rightarrow> string list \<Rightarrow> string list result" where
  "node_list_loop tag [] out = Inr out"
| "node_list_loop tag (raw # raws) out =
     (let node = trim_space raw
      in if node = [] then Inl (Errorf ''empty node name in nodes:%q'' [GStr tag])
         else let node = trim_prefix ''/'' node
              in if node \<in> set out
                 then Inl (Errorf ''node %q is listed twice in nodes:%q'' [GStr node, GStr tag])
                 else node_list_loop tag raws (out @ [node]))"

definition parse_node_list :: "string \<Rightarrow> string list result" where
  "parse_node_list tag =
     (if trim_space tag = []
      then Inl (Errorf ''missing nodes tag (e.g. nodes:\"map_server,amcl,bt_navigator\")'' [])
      else node_list_loop tag (split_on (CHR '','') tag) [])"

definition client_timeout :: "string \<Rightarrow> int result" where
  "client_timeout tag =
     (if tag = [] then Inr (10 * 1000000000)
      else case parse_duration tag of
             None \<Rightarrow> Inl (Errorf ''invalid timeout %q'' [GStr tag])
           | Some d \<Rightarrow> if d \<le> 0 then Inl (Errorf ''invalid timeout %q'' [GStr tag]) else Inr d)"

end
