(* ===== verification/Bus.thy ===== *)
theory Bus
imports Qos "HOL-Library.AList"
begin

text \<open>
  The in-process transport (\<^verbatim>\<open>bus.go\<close>) and the transport registry (\<^verbatim>\<open>transport.go\<close>).

  Every operation of the bus is one critical section under its mutex, followed, for a publish
  and a subscribe, by calls of the subscribers' deliver functions outside it. The sections are
  functions on the state; \<open>bus_step\<close> interleaves the deliveries of any number of running calls.
  A deliver function and a service handler are identified by a number; a message of type
  \<^typ>\<open>'m\<close> stands for the value and its metadata.
\<close>

section \<open>The registry of transports\<close>

type_synonym ('o, 't) factories = "(string \<times> ('o \<Rightarrow> 't result)) list"

definition register_transport :: "string \<Rightarrow> ('o \<Rightarrow> 't result) \<Rightarrow> ('o, 't) factories \<Rightarrow> ('o, 't) factories" where
  "register_transport name factory fs = AList.update name factory fs"

definition new_transport :: "('o, 't) factories \<Rightarrow> string \<Rightarrow> 'o \<Rightarrow> 't result" where
  "new_transport fs name opts =
     (case map_of fs name of
        None \<Rightarrow> Inl (Errorf ''unknown transport %q (registered: %s); the zenoh transport requires importing conductor.dev/conductor/transport/zenoh and building with -tags zenoh''
                  [GStr name, GStr (join '', '' (sort (map fst fs)))])
      | Some factory \<Rightarrow> factory opts)"

section \<open>State and critical sections\<close>

record topic_spec =
  ts_topic :: string
  ts_qos :: qos
  ts_node :: string

text \<open>Go maps of slices read as nil where a key is missing, so they are total functions into
  lists.\<close>

record 'm bus =
  b_subs :: "string \<Rightarrow> nat list"
  b_pubs :: "string \<Rightarrow> string list"
  b_servers :: "string \<Rightarrow> nat option"
  b_latched :: "string \<Rightarrow> 'm list"

definition new_inproc :: "'m bus" where
  "new_inproc = \<lparr>b_subs = (\<lambda>_. []), b_pubs = (\<lambda>_. []), b_servers = (\<lambda>_. None), b_latched = (\<lambda>_. [])\<rparr>"

definition keep_of :: "qos \<Rightarrow> int" where
  "keep_of q = (if durability q = TransientLocal then (if depth q \<le> 0 then 1 else depth q) else 0)"

text \<open>\<^verbatim>\<open>Publisher\<close>: what it returns is the publish function, of which only \<^verbatim>\<open>keep\<close> is
  captured.\<close>

definition publisher :: "topic_spec \<Rightarrow> 'm bus \<Rightarrow> int \<times> 'm bus" where
  "publisher spec b =
     (keep_of (ts_qos spec),
      b\<lparr>b_pubs := (b_pubs b)(ts_topic spec := b_pubs b (ts_topic spec) @ [ts_node spec])\<rparr>)"

definition retain :: "int \<Rightarrow> 'm list \<Rightarrow> 'm \<Rightarrow> 'm list" where
  "retain keep old m =
     (let history = old @ [m]
      in if int (length history) > keep then drop (nat (int (length history) - keep)) history else history)"

text \<open>The publish function up to \<^verbatim>\<open>Unlock\<close>: the subscribers to deliver to.\<close>

definition publish_locked :: "string \<Rightarrow> int \<Rightarrow> 'm \<Rightarrow> 'm bus \<Rightarrow> nat list \<times> 'm bus" where
  "publish_locked topic keep m b =
     (b_subs b topic,
      if keep > 0 then b\<lparr>b_latched := (b_latched b)(topic := retain keep (b_latched b topic) m)\<rparr> else b)"

text \<open>\<^verbatim>\<open>Subscribe\<close> up to \<^verbatim>\<open>Unlock\<close>: the history to deliver to the new subscriber.\<close>

definition subscribe_locked :: "topic_spec \<Rightarrow> nat \<Rightarrow> 'm bus \<Rightarrow> 'm list \<times> 'm bus" where
  "subscribe_locked spec s b =
     (if durability (ts_qos spec) = TransientLocal then b_latched b (ts_topic spec) else [],
      b\<lparr>b_subs := (b_subs b)(ts_topic spec := b_subs b (ts_topic spec) @ [s])\<rparr>)"

definition serve :: "string \<Rightarrow> nat \<Rightarrow> 'm bus \<Rightarrow> goerror option \<times> 'm bus" where
  "serve service handle b =
     (case b_servers b service of
        Some _ \<Rightarrow> (Some (Errorf ''service %q already has a server'' [GStr service]), b)
      | None \<Rightarrow> (None, b\<lparr>b_servers := (b_servers b)(service \<mapsto> handle)\<rparr>))"

text \<open>A call through \<^verbatim>\<open>ServiceClient\<close>: the server is looked up per call; \<open>respond\<close> is the
  server's handler, with the time it takes in nanoseconds.\<close>

definition no_server :: "string \<Rightarrow> goerror" where
  "no_server service = Errorf ''service %q has no in-process server'' [GStr service]"

definition no_response :: "string \<Rightarrow> int \<Rightarrow> goerror" where
  "no_response service timeout =
     Errorf ''service %q: no response within %s'' [GStr service, GInt timeout]"

definition call_server :: "(nat \<Rightarrow> 'q \<Rightarrow> 'r result \<times> int) \<Rightarrow> string \<Rightarrow> 'q \<Rightarrow> int \<Rightarrow> 'm bus \<Rightarrow> 'r result" where
  "call_server respond service req timeout b =
     (case b_servers b service of
        None \<Rightarrow> Inl (no_server service)
      | Some h \<Rightarrow> (let (r, took) = respond h req in if took < timeout then r else Inl (no_response service timeout)))"

text \<open>The topics \<^verbatim>\<open>Start\<close> warns about.\<close>

definition start_warns :: "'m bus \<Rightarrow> string \<Rightarrow> bool" where
  "start_warns b topic \<longleftrightarrow> b_subs b topic \<noteq> [] \<and> b_pubs b topic = []"

section \<open>Calls in progress\<close>

text \<open>A running publish or subscribe is what it has left to deliver, in order. \<open>sent\<close> and
  \<open>joined\<close> record, for the specification only, what was published with which retention, and for
  each subscriber its topic, the history it was handed and how much had been published then.\<close>

record 'm bus_run =
  the_bus :: "'m bus"
  tasks :: "(nat \<times> 'm) list list"
  delivered :: "(nat \<times> 'm) list"
  sent :: "(string \<times> int \<times> 'm) list"
  joined :: "nat \<Rightarrow> (string \<times> 'm list \<times> nat) option"

definition start_publish :: "string \<Rightarrow> int \<Rightarrow> 'm \<Rightarrow> 'm bus_run \<Rightarrow> 'm bus_run" where
  "start_publish topic keep m x =
     (let (targets, b) = publish_locked topic keep m (the_bus x)
      in x\<lparr>the_bus := b, tasks := tasks x @ [map (\<lambda>s. (s, m)) targets],
           sent := sent x @ [(topic, keep, m)]\<rparr>)"

definition start_subscribe :: "topic_spec \<Rightarrow> nat \<Rightarrow> 'm bus_run \<Rightarrow> 'm bus_run" where
  "start_subscribe spec s x =
     (let (history, b) = subscribe_locked spec s (the_bus x)
      in x\<lparr>the_bus := b, tasks := tasks x @ [map (\<lambda>m. (s, m)) history],
           joined := (joined x)(s \<mapsto> (ts_topic spec, history, length (sent x)))\<rparr>)"

inductive bus_step :: "'m bus_run \<Rightarrow> 'm bus_run \<Rightarrow> bool" where
  declared: "bus_step x (x\<lparr>the_bus := snd (publisher spec (the_bus x))\<rparr>)"
| published: "bus_step x (start_publish topic keep m x)"
| subscribed: "joined x s = None \<Longrightarrow> bus_step x (start_subscribe spec s x)"
| deliver: "tasks x = ts @ (d # ds) # us \<Longrightarrow>
    bus_step x (x\<lparr>tasks := ts @ ds # us, delivered := delivered x @ [d]\<rparr>)"
| returned: "tasks x = ts @ [] # us \<Longrightarrow> bus_step x (x\<lparr>tasks := ts @ us\<rparr>)"

definition bus_init :: "'m bus_run" where
  "bus_init = \<lparr>the_bus = new_inproc, tasks = [], delivered = [], sent = [], joined = (\<lambda>_. None)\<rparr>"

inductive bus_reachable :: "'m bus_run \<Rightarrow> bool" where
  start: "bus_reachable bus_init"
| more: "bus_reachable x \<Longrightarrow> bus_step x y \<Longrightarrow> bus_reachable y"

text \<open>What a subscriber is entitled to: the history it was handed, then everything published on
  its topic since.\<close>

definition on_topic :: "string \<Rightarrow> (string \<times> int \<times> 'm) list \<Rightarrow> 'm list" where
  "on_topic topic es = map (\<lambda>(_, _, m). m) (filter (\<lambda>(t, _, _). t = topic) es)"

fun entitled :: "(string \<times> 'm list \<times> nat) option \<Rightarrow> (string \<times> int \<times> 'm) list \<Rightarrow> 'm list" where
  "entitled None es = []"
| "entitled (Some (topic, history, k)) es = history @ on_topic topic (drop k es)"

definition expected :: "'m bus_run \<Rightarrow> nat \<Rightarrow> 'm list" where
  "expected x s = entitled (joined x s) (sent x)"

definition for_sub :: "nat \<Rightarrow> (nat \<times> 'm) list \<Rightarrow> 'm list" where
  "for_sub s ds = map snd (filter (\<lambda>d. fst d = s) ds)"

definition received :: "'m bus_run \<Rightarrow> nat \<Rightarrow> 'm list" where
  "received x s = for_sub s (delivered x)"

definition undelivered :: "'m bus_run \<Rightarrow> nat \<Rightarrow> 'm list" where
  "undelivered x s = for_sub s (concat (tasks x))"


section \<open>Lemmas\<close>

lemmas bus_ops = start_publish_def start_subscribe_def publish_locked_def subscribe_locked_def
  publisher_def Let_def

lemma for_sub_append [simp]: "for_sub s (ds @ es) = for_sub s ds @ for_sub s es"
  by (simp add: for_sub_def)

lemma for_sub_Nil [simp]: "for_sub s [] = []"
  by (simp add: for_sub_def)

lemma for_sub_Cons [simp]: "for_sub s (d # ds) = (if fst d = s then snd d # for_sub s ds else for_sub s ds)"
  by (simp add: for_sub_def)

lemma for_sub_history [simp]: "for_sub s (map (Pair u) ms) = (if u = s then ms else [])"
  by (induction ms) auto

lemma for_sub_targets:
  "distinct us \<Longrightarrow> for_sub s (map (\<lambda>u. (u, m)) us) = (if s \<in> set us then [m] else [])"
  by (induction us) auto

lemma on_topic_append [simp]: "on_topic t (xs @ ys) = on_topic t xs @ on_topic t ys"
  by (simp add: on_topic_def)

lemma on_topic_Nil [simp]: "on_topic t [] = []"
  by (simp add: on_topic_def)

lemma on_topic_Cons [simp]:
  "on_topic t ((t', k, m) # es) = (if t' = t then m # on_topic t es else on_topic t es)"
  by (simp add: on_topic_def)

text \<open>The type invariant of the bus: subscribers are registered once, on the topic they joined.\<close>

definition bus_typed :: "'m bus_run \<Rightarrow> bool" where
  "bus_typed x \<longleftrightarrow>
     (\<forall>t. distinct (b_subs (the_bus x) t)) \<and>
     (\<forall>t s. s \<in> set (b_subs (the_bus x) t) \<longleftrightarrow> (\<exists>h k. joined x s = Some (t, h, k))) \<and>
     (\<forall>s t h k. joined x s = Some (t, h, k) \<longrightarrow> k \<le> length (sent x))"

definition owed :: "'m bus_run \<Rightarrow> bool" where
  "owed x \<longleftrightarrow> (\<forall>s. mset (received x s) + mset (undelivered x s) = mset (expected x s))"

lemma bus_typed_publish: "bus_typed x \<Longrightarrow> bus_typed (start_publish topic keep m x)"
  unfolding bus_typed_def by (auto simp: bus_ops intro: le_SucI)

lemma bus_typed_subscribe:
  assumes "bus_typed x" and "joined x s = None"
  shows "bus_typed (start_subscribe spec s x)"
proof -
  have "s \<notin> set (b_subs (the_bus x) t)" for t using assms by (auto simp: bus_typed_def)
  with assms show ?thesis by (auto simp: bus_typed_def bus_ops)
qed

lemma bus_step_typed: "bus_step x y \<Longrightarrow> bus_typed x \<Longrightarrow> bus_typed y"
  by (induction rule: bus_step.induct)
    (auto simp: bus_typed_publish bus_typed_subscribe, auto simp: bus_typed_def publisher_def)

lemma expected_publish:
  assumes "bus_typed x"
  shows "expected (start_publish topic keep m x) s =
     expected x s @ (if s \<in> set (b_subs (the_bus x) topic) then [m] else [])"
  using assms by (cases "joined x s") (auto simp: bus_typed_def expected_def bus_ops)

lemma owed_publish:
  assumes "bus_typed x" and "owed x"
  shows "owed (start_publish topic keep m x)"
proof -
  have d: "distinct (b_subs (the_bus x) topic)" using assms(1) by (simp add: bus_typed_def)
  have "received (start_publish topic keep m x) s = received x s"
    "undelivered (start_publish topic keep m x) s =
       undelivered x s @ (if s \<in> set (b_subs (the_bus x) topic) then [m] else [])" for s
    by (simp_all add: received_def undelivered_def bus_ops for_sub_targets[OF d])
  with assms(2) show ?thesis
    by (simp add: owed_def expected_publish[OF assms(1)] add.assoc[symmetric])
qed

lemma owed_subscribe:
  assumes "owed x" and "joined x s = None"
  shows "owed (start_subscribe spec s x)"
proof -
  have "received x s = []" "undelivered x s = []"
    using assms by (auto simp: owed_def expected_def dest: spec[of _ s])
  with assms show ?thesis
    by (auto simp: owed_def expected_def received_def undelivered_def bus_ops)
qed

lemma expected_cong: "joined y = joined x \<Longrightarrow> sent y = sent x \<Longrightarrow> expected y s = expected x s"
  by (simp add: expected_def)

lemma owed_deliver:
  assumes "owed x" and "tasks x = ts @ (d # ds) # us"
  shows "owed (x\<lparr>tasks := ts @ ds # us, delivered := delivered x @ [d]\<rparr>)"
  unfolding owed_def
proof
  fix s
  let ?y = "x\<lparr>tasks := ts @ ds # us, delivered := delivered x @ [d]\<rparr>"
  have "expected ?y s = expected x s" by (rule expected_cong) simp_all
  moreover have "mset (received x s) + mset (undelivered x s) = mset (expected x s)"
    using assms(1) by (simp add: owed_def)
  ultimately show "mset (received ?y s) + mset (undelivered ?y s) = mset (expected ?y s)"
    by (auto simp: received_def undelivered_def assms(2) ac_simps split: if_splits)
qed

lemma owed_return: "owed x \<Longrightarrow> tasks x = ts @ [] # us \<Longrightarrow> owed (x\<lparr>tasks := ts @ us\<rparr>)"
  by (simp add: owed_def received_def undelivered_def expected_def)

lemma owed_declare: "owed x \<Longrightarrow> owed (x\<lparr>the_bus := b\<rparr>)"
  unfolding owed_def
  using expected_cong[of "x\<lparr>the_bus := b\<rparr>" x] by (simp add: received_def undelivered_def)

lemma bus_step_owed: "bus_step x y \<Longrightarrow> bus_typed x \<Longrightarrow> owed x \<Longrightarrow> owed y"
  by (induction rule: bus_step.induct)
    (simp_all add: owed_publish owed_subscribe owed_deliver owed_declare owed_return)

lemma bus_reachable_inv: "bus_reachable x \<Longrightarrow> bus_typed x \<and> owed x"
proof (induction rule: bus_reachable.induct)
  case start
  show ?case
    by (simp add: bus_init_def new_inproc_def bus_typed_def owed_def expected_def received_def undelivered_def)
next
  case (more x y)
  then show ?case using bus_step_typed bus_step_owed by blast
qed

text \<open>Retention: what is kept of a topic is the end of what its publishers sent.\<close>

lemma length_retain: "keep > 0 \<Longrightarrow> int (length (retain keep old m)) \<le> keep"
  by (auto simp: retain_def Let_def)

lemma retain_last:
  "keep > 0 \<Longrightarrow> old = drop (length xs - nat keep) xs \<Longrightarrow>
   retain keep old m = drop (length (xs @ [m]) - nat keep) (xs @ [m])"
proof -
  assume k: "keep > 0" and old: "old = drop (length xs - nat keep) xs"
  define n where "n = nat keep"
  have n: "keep = int n" "0 < n" using k by (auto simp: n_def)
  show ?thesis
  proof (cases "length xs < n")
    case True
    with n old show ?thesis by (simp add: retain_def Let_def)
  next
    case False
    then have "length old = n" using n old by simp
    with n False show ?thesis by (simp add: retain_def Let_def old Suc_diff_le)
  qed
qed

text \<open>Publishers of one topic that all keep \<open>n\<close> messages.\<close>

definition keeps :: "'m bus_run \<Rightarrow> string \<Rightarrow> int \<Rightarrow> bool" where
  "keeps x topic n \<longleftrightarrow> (\<forall>(t, k, m) \<in> set (sent x). t = topic \<longrightarrow> k = n)"

definition last_of :: "int \<Rightarrow> 'm list \<Rightarrow> 'm list" where
  "last_of n ms = drop (length ms - nat n) ms"

lemma keeps_publish:
  "keeps (start_publish t k m x) topic n \<longleftrightarrow> keeps x topic n \<and> (t = topic \<longrightarrow> k = n)"
  by (auto simp: keeps_def bus_ops)

lemma bus_latched:
  "bus_reachable x \<Longrightarrow> 0 < n \<Longrightarrow> keeps x topic n \<Longrightarrow>
     b_latched (the_bus x) topic = last_of n (on_topic topic (sent x))"
proof (induction rule: bus_reachable.induct)
  case start
  show ?case by (simp add: bus_init_def new_inproc_def last_of_def)
next
  case (more x y)
  from more.hyps(2) more show ?case
  proof (cases rule: bus_step.cases)
    case (published t k m)
    with more have IH: "b_latched (the_bus x) topic = last_of n (on_topic topic (sent x))"
      "t = topic \<longrightarrow> k = n" by (auto simp: keeps_publish)
    show ?thesis
    proof (cases "t = topic")
      case True
      with published IH \<open>0 < n\<close> retain_last[of n "last_of n (on_topic topic (sent x))" "on_topic topic (sent x)" m]
      show ?thesis by (simp add: bus_ops last_of_def)
    next
      case False
      with published IH show ?thesis by (simp add: bus_ops)
    qed
  qed (auto simp: keeps_def bus_ops)
qed

text \<open>Once one message is published with retention, the topic keeps at least one for ever.\<close>

lemma retain_nonempty: "keep > 0 \<Longrightarrow> retain keep old m \<noteq> []"
  by (auto simp: retain_def Let_def)

section \<open>Sequential use\<close>

text \<open>\<^verbatim>\<open>publish\<close> and \<^verbatim>\<open>Subscribe\<close> run to their end by one caller: the locked section, then the
  loop of deliveries.\<close>

definition drain :: "'m bus_run \<Rightarrow> 'm bus_run" where
  "drain x = x\<lparr>tasks := [], delivered := delivered x @ concat (tasks x)\<rparr>"

definition publish :: "string \<Rightarrow> int \<Rightarrow> 'm \<Rightarrow> 'm bus_run \<Rightarrow> 'm bus_run" where
  "publish topic keep m x = drain (start_publish topic keep m x)"

definition subscribe :: "topic_spec \<Rightarrow> nat \<Rightarrow> 'm bus_run \<Rightarrow> 'm bus_run" where
  "subscribe spec s x = drain (start_subscribe spec s x)"

inductive bus_sequential :: "'m bus_run \<Rightarrow> bool" where
  seq_start: "bus_sequential bus_init"
| seq_declare: "bus_sequential x \<Longrightarrow> bus_sequential (x\<lparr>the_bus := snd (publisher spec (the_bus x))\<rparr>)"
| seq_publish: "bus_sequential x \<Longrightarrow> bus_sequential (publish topic keep m x)"
| seq_subscribe: "bus_sequential x \<Longrightarrow> joined x s = None \<Longrightarrow> bus_sequential (subscribe spec s x)"

text \<open>Draining is a run of delivery steps, so sequential use is one of the interleavings.\<close>

lemma reachable_task: "bus_reachable x \<Longrightarrow> tasks x = ts @ ds # us \<Longrightarrow>
    bus_reachable (x\<lparr>tasks := ts @ [] # us, delivered := delivered x @ ds\<rparr>)"
proof (induction ds arbitrary: x)
  case Nil
  then have "x\<lparr>tasks := ts @ [] # us, delivered := delivered x @ []\<rparr> = x"
    unfolding Nil.prems(2)[symmetric] by simp
  with Nil.prems(1) show ?case by (simp only:)
next
  case (Cons d ds)
  let ?y = "x\<lparr>tasks := ts @ ds # us, delivered := delivered x @ [d]\<rparr>"
  have "bus_reachable ?y" using Cons.prems by (blast intro: bus_reachable.more bus_step.deliver)
  from Cons.IH[OF this] show ?case by simp
qed

lemma reachable_drain:
  assumes "bus_reachable y" and "tasks y = [ds]"
  shows "bus_reachable (drain y)"
proof -
  have "bus_reachable (y\<lparr>tasks := [[]], delivered := delivered y @ ds\<rparr>)"
    using reachable_task[of y "[]" ds "[]"] assms by simp
  then have "bus_reachable (y\<lparr>tasks := [[]], delivered := delivered y @ ds\<rparr>\<lparr>tasks := [] @ []\<rparr>)"
    by (rule bus_reachable.more) (rule bus_step.returned, simp)
  with assms(2) show ?thesis by (cases y) (simp add: drain_def)
qed

lemma expected_simps [simp]:
  "expected (x\<lparr>tasks := ts, delivered := ds\<rparr>) s = expected x s"
  "expected (x\<lparr>the_bus := b\<rparr>) s = expected x s"
  "expected (x\<lparr>tasks := ts\<rparr>) s = expected x s"
  "expected (drain x) s = expected x s"
  by (simp_all add: expected_def drain_def)

lemma bus_typed_drain [simp]: "bus_typed (drain x) = bus_typed x"
  by (simp add: bus_typed_def drain_def)

lemma received_drain: "tasks x = [] \<Longrightarrow> received (drain (start_publish topic keep m x)) s
    = received x s @ for_sub s (map (\<lambda>s. (s, m)) (b_subs (the_bus x) topic))"
  by (simp add: drain_def bus_ops received_def)

lemma sequential_inv:
  "bus_sequential x \<Longrightarrow> tasks x = [] \<and> bus_typed x \<and> (\<forall>s. received x s = expected x s)"
proof (induction rule: bus_sequential.induct)
  case seq_start
  show ?case
    by (simp add: bus_init_def new_inproc_def bus_typed_def expected_def received_def)
next
  case (seq_declare x spec)
  then show ?case by (simp add: bus_typed_def publisher_def received_def)
next
  case (seq_publish x topic keep m)
  then have "distinct (b_subs (the_bus x) topic)" by (simp add: bus_typed_def)
  with seq_publish show ?case
    by (simp add: publish_def received_drain expected_publish bus_typed_publish for_sub_targets)
      (simp add: drain_def)
next
  case (seq_subscribe x s spec)
  then have "received x s = []" "expected x s = []" by (simp_all add: expected_def)
  with seq_subscribe show ?case
    by (auto simp: subscribe_def bus_typed_subscribe)
      (auto simp: drain_def bus_ops expected_def received_def)
qed


lemma sequential_reachable: "bus_sequential x \<Longrightarrow> bus_reachable x"
proof (induction rule: bus_sequential.induct)
  case (seq_publish x topic keep m)
  then have "bus_reachable (start_publish topic keep m x)" "tasks x = []"
    using sequential_inv by (blast intro: bus_reachable.more bus_step.published)+
  then show ?case unfolding publish_def by (auto intro!: reachable_drain simp: bus_ops)
next
  case (seq_subscribe x s spec)
  then have "bus_reachable (start_subscribe spec s x)" "tasks x = []"
    using sequential_inv by (blast intro: bus_reachable.more bus_step.subscribed)+
  then show ?case unfolding subscribe_def by (auto intro!: reachable_drain simp: bus_ops)
qed (blast intro: bus_reachable.intros bus_step.intros)+

section \<open>Properties\<close>

text \<open>The bus keeps its subscriber tables consistent however calls interleave: a subscriber is
  listed exactly on the topic it joined, and once.\<close>

theorem bus_tables_typed:
  assumes "bus_reachable x"
  shows "bus_typed x"
  using bus_reachable_inv[OF assms] by blast

theorem bus_tables_typed_witness:
  "bus_typed (start_subscribe \<lparr>ts_topic = ''map'', ts_qos = qos_zero, ts_node = ''nav''\<rparr> 1 (bus_init :: nat bus_run))"
  by (rule bus_tables_typed, rule bus_reachable.more[OF bus_reachable.start], rule bus_step.subscribed)
    (simp add: bus_init_def)

text \<open>C23. No message is lost and none is delivered twice: however publishes, subscriptions and
  their deliveries interleave, a subscriber has received only what it is entitled to (the history
  it was handed when it joined and every later message of its topic, each once), and all of it
  once no call is still delivering.\<close>

theorem bus_exactly_once:
  assumes "bus_reachable x"
  shows "mset (received x s) \<subseteq># mset (expected x s) \<and>
    (concat (tasks x) = [] \<longrightarrow> mset (received x s) = mset (expected x s))"
proof -
  have o: "mset (received x s) + mset (undelivered x s) = mset (expected x s)"
    using bus_reachable_inv[OF assms] by (simp add: owed_def)
  then have "mset (received x s) \<subseteq># mset (expected x s)" by (metis mset_subset_eq_add_left)
  moreover have "undelivered x s = []" if "concat (tasks x) = []"
    using that by (simp only: undelivered_def for_sub_Nil)
  ultimately show ?thesis using o by auto
qed

text \<open>The subscriber and the topic the examples use.\<close>

definition transient_spec :: topic_spec where
  "transient_spec = \<lparr>ts_topic = ''map'',
     ts_qos = \<lparr>qname = ''transient'', reliability = Reliable, durability = TransientLocal, depth = 1\<rparr>,
     ts_node = ''nav''\<rparr>"

theorem bus_exactly_once_witness:
  "mset (received (subscribe transient_spec 1 (publish ''map'' 1 (5::nat) bus_init)) 1) = {#5#}"
proof -
  let ?x = "subscribe transient_spec 1 (publish ''map'' 1 (5::nat) bus_init)"
  have s: "bus_sequential ?x"
    by (intro bus_sequential.intros) (simp add: publish_def drain_def bus_ops bus_init_def)
  have "tasks ?x = []" by (simp add: subscribe_def drain_def)
  moreover have "expected ?x 1 = [5]"
    by (simp add: expected_def subscribe_def publish_def drain_def bus_ops bus_init_def new_inproc_def
        retain_def transient_spec_def)
  ultimately show ?thesis
    using bus_exactly_once[OF sequential_reachable[OF s], of 1] by simp
qed

text \<open>Subscriptions and publishes that do not overlap are delivered in order: a subscriber has
  seen the history first and then every later message, in the order they were published.\<close>

theorem bus_in_order:
  assumes "bus_sequential x"
  shows "received x s = expected x s"
  using sequential_inv[OF assms] by blast

theorem bus_in_order_witness:
  "received (publish ''map'' 1 6 (subscribe transient_spec 1 (publish ''map'' 1 (5::nat) bus_init))) 1 = [5, 6]"
proof -
  let ?x = "publish ''map'' 1 6 (subscribe transient_spec 1 (publish ''map'' 1 (5::nat) bus_init))"
  have s: "bus_sequential ?x"
    by (intro bus_sequential.intros) (simp add: publish_def drain_def bus_ops bus_init_def)
  have "expected ?x 1 = [5, 6]"
    by (simp add: expected_def subscribe_def publish_def drain_def bus_ops bus_init_def new_inproc_def
        retain_def transient_spec_def)
  with bus_in_order[OF s] show ?thesis by simp
qed

text \<open>They may overlap, and then the order is not the promised one: a publish that takes its
  target list after a subscription is registered may deliver its message before the subscriber
  has been handed the older, retained one.\<close>

theorem late_join_reorders:
  "\<exists>x :: nat bus_run. bus_reachable x \<and> tasks x = [[], []] \<and> expected x 1 = [5, 6] \<and> received x 1 = [6, 5]"
proof -
  define a where "a = start_subscribe transient_spec 1 (publish ''map'' 1 (5::nat) bus_init)"
  define b where "b = start_publish ''map'' 1 6 a"
  define c where "c = b\<lparr>tasks := [[(1, 5)]] @ [] # [], delivered := delivered b @ [(1, 6)]\<rparr>"
  define d where "d = c\<lparr>tasks := [] @ [] # [[]], delivered := delivered c @ [(1, 5)]\<rparr>"
  note ev = publish_def drain_def bus_ops bus_init_def new_inproc_def retain_def transient_spec_def
  have "bus_sequential (publish ''map'' 1 (5::nat) bus_init)" by (intro bus_sequential.intros)
  then have "bus_reachable (publish ''map'' 1 (5::nat) bus_init)" by (rule sequential_reachable)
  then have "bus_reachable a" unfolding a_def
    by (rule bus_reachable.more) (rule bus_step.subscribed, simp add: ev)
  then have "bus_reachable b" unfolding b_def by (blast intro: bus_reachable.more bus_step.published)
  then have "bus_reachable c" unfolding c_def
    by (rule bus_reachable.more) (rule bus_step.deliver, simp add: a_def b_def ev)
  then have "bus_reachable d" unfolding d_def
    by (rule bus_reachable.more) (rule bus_step.deliver, simp add: c_def)
  moreover have "tasks d = [[], []]" "received d 1 = [6, 5]" "expected d 1 = [5, 6]"
    by (simp_all add: a_def b_def c_def d_def received_def expected_def ev)
  ultimately show ?thesis by blast
qed

text \<open>A transient-local subscriber that joins late is handed the end of what was published on
  its topic, as much of it as the publishers keep.\<close>

theorem late_join_history:
  assumes "bus_reachable x" and "joined x s = None"
    and "0 < n" and "keeps x (ts_topic spec) n"
    and "durability (ts_qos spec) = TransientLocal"
  shows "undelivered (start_subscribe spec s x) s = last_of n (on_topic (ts_topic spec) (sent x))"
proof -
  have "owed x" using bus_reachable_inv[OF assms(1)] by blast
  then have "undelivered x s = []" using assms(2) by (auto simp: owed_def expected_def dest: spec[of _ s])
  with assms(5) bus_latched[OF assms(1) assms(3,4)] show ?thesis
    by (simp add: undelivered_def bus_ops)
qed

theorem late_join_history_witness:
  "undelivered (start_subscribe transient_spec 1 (publish ''map'' 1 6 (publish ''map'' 1 (5::nat) bus_init))) 1 = [6]"
proof -
  let ?x = "publish ''map'' 1 6 (publish ''map'' 1 (5::nat) bus_init)"
  note ev = publish_def drain_def bus_ops bus_init_def transient_spec_def
  have "bus_sequential ?x" by (intro bus_sequential.intros)
  then have "bus_reachable ?x" by (rule sequential_reachable)
  moreover have "joined ?x 1 = None" "keeps ?x (ts_topic transient_spec) 1"
    "durability (ts_qos transient_spec) = TransientLocal" by (simp_all add: keeps_def ev)
  moreover have "on_topic (ts_topic transient_spec) (sent ?x) = [5, 6]" by (simp add: ev)
  ultimately show ?thesis using late_join_history[of ?x 1 1 transient_spec] by (simp add: last_of_def)
qed

end
