(* ===== verification/Lifecycle_Client.thy ===== *)
theory Lifecycle_Client
imports Lifecycle Managed_Tags Bus
begin

text \<open>
  Driving other managed nodes (\<^verbatim>\<open>lifecycle_client.go\<close>): the client field's state, every
  operation on it, and its declaration tags.

  What is outside the field (the nodes, the transport, the clock and the context of the caller)
  is a world of type \<^typ>\<open>'w\<close>, passed and returned by every call. The field holds, per declared
  node, the two call functions the transport returned for it. The locale \<open>managed_nodes\<close> states
  what the client relies on from the nodes behind those calls; it is interpreted on the model of
  \<^verbatim>\<open>lifecycle.go\<close> behind the in-process bus.
\<close>

section \<open>State\<close>

type_synonym 'w get_call = "int \<Rightarrow> 'w \<Rightarrow> state_msg result \<times> 'w"
type_synonym 'w change_call = "transition_msg \<Rightarrow> int \<Rightarrow> 'w \<Rightarrow> bool result \<times> 'w"

text \<open>\<^verbatim>\<open>calls\<close> is an atomic 64-bit counter; the map \<^verbatim>\<open>seen\<close> is an association list.\<close>

record 'w lclient =
  cl_nodes :: "string list"
  cl_timeout :: int
  cl_change :: "(string \<times> 'w change_call) list"
  cl_state :: "(string \<times> 'w get_call) list"
  cl_calls :: "64 word"
  cl_seen :: "(string \<times> lstate) list"

datatype client_error =
    CErr goerror
  | NotActiveErr "(string \<times> lstate) list"

definition sorted_nodes :: "(string \<times> lstate) list \<Rightarrow> string list" where
  "sorted_nodes states = sort (map fst states)"

text \<open>\<^verbatim>\<open>ErrNotActive.Error\<close>; a missing key of a Go map reads as zero, the unknown state.\<close>

definition state_at :: "(string \<times> lstate) list \<Rightarrow> string \<Rightarrow> lstate" where
  "state_at states n = (case map_of states n of None \<Rightarrow> StateUnknown | Some s \<Rightarrow> s)"

definition not_active_string :: "(string \<times> lstate) list \<Rightarrow> string" where
  "not_active_string states = ''not active: '' @
     join '', '' (map (\<lambda>n. n @ '' is '' @ state_string (state_at states n)) (sorted_nodes states))"

section \<open>Single calls\<close>

definition observe :: "string \<Rightarrow> lstate \<Rightarrow> 'w lclient \<Rightarrow> 'w lclient" where
  "observe node s c = c\<lparr>cl_seen := AList.update node s (cl_seen c)\<rparr>"

definition undeclared :: "string \<Rightarrow> 'w lclient \<Rightarrow> goerror" where
  "undeclared node c = Errorf ''conductor: %q is not one of this field's declared nodes (%s)''
     [GStr node, GStr (join '', '' (cl_nodes c))]"

text \<open>\<^verbatim>\<open>State\<close>.\<close>

definition query :: "string \<Rightarrow> 'w lclient \<times> 'w \<Rightarrow> lstate result \<times> 'w lclient \<times> 'w" where
  "query node = (\<lambda>(c, w).
     (case map_of (cl_state c) node of
        None \<Rightarrow> (Inl (undeclared node c), c, w)
      | Some f \<Rightarrow>
          (let c = c\<lparr>cl_calls := cl_calls c + 1\<rparr>;
               (r, w) = f (cl_timeout c) w
           in case r of
                Inl err \<Rightarrow> (Inl (Errorf ''%s/get_state: %w'' [GStr node, GErr err]),
                            observe node StateUnknown c, w)
              | Inr m \<Rightarrow> (Inr (fst m), observe node (fst m) c, w))))"

text \<open>\<^verbatim>\<open>Transition\<close>; a nil error is \<^const>\<open>None\<close>.\<close>

definition drive :: "string \<Rightarrow> ltransition \<Rightarrow> 'w lclient \<times> 'w \<Rightarrow> goerror option \<times> 'w lclient \<times> 'w" where
  "drive node t = (\<lambda>(c, w).
     (case map_of (cl_change c) node of
        None \<Rightarrow> (Some (undeclared node c), c, w)
      | Some f \<Rightarrow>
          (let c = c\<lparr>cl_calls := cl_calls c + 1\<rparr>;
               (r, w) = f (msg_of_transition t) (cl_timeout c) w
           in case r of
                Inl err \<Rightarrow> (Some (Errorf ''%s/change_state %s: %w'' [GStr node, GStr (transition_string t), GErr err]), c, w)
              | Inr ok \<Rightarrow>
                  if \<not> ok then (Some (Errorf ''%s refused to %s'' [GStr node, GStr (transition_string t)]), c, w)
                  else (None, (case result_of t of Some s \<Rightarrow> observe node s c | None \<Rightarrow> c), w))))"

section \<open>Queries\<close>

definition summary_worst :: "'w lclient \<Rightarrow> lstate" where
  "summary_worst c = foldl (\<lambda>worst node. case map_of (cl_seen c) node of
       None \<Rightarrow> worst | Some s \<Rightarrow> if s = StateActive then worst else s) StateUnknown (cl_nodes c)"

definition summary :: "'w lclient \<Rightarrow> string" where
  "summary c =
     (let n = length (cl_nodes c);
          active = length (filter (\<lambda>node. map_of (cl_seen c) node = Some StateActive) (cl_nodes c))
      in if cl_seen c = [] then itoa (int n) @ '' node(s), not yet asked''
         else if active = n then itoa (int n) @ '' node(s), all active''
         else itoa (int active) @ '' of '' @ itoa (int n) @ '' node(s) active, one is ''
           @ state_string (summary_worst c))"

fun states_loop :: "string list \<Rightarrow> (string \<times> lstate) list \<Rightarrow> 'w lclient \<times> 'w
    \<Rightarrow> (string \<times> lstate) list \<times> 'w lclient \<times> 'w" where
  "states_loop [] out cw = (out, cw)"
| "states_loop (node # ns) out cw =
     (let (r, cw) = query node cw;
          s = (case r of Inl _ \<Rightarrow> StateUnknown | Inr s \<Rightarrow> s)
      in states_loop ns (AList.update node s out) cw)"

definition states :: "'w lclient \<times> 'w \<Rightarrow> (string \<times> lstate) list \<times> 'w lclient \<times> 'w" where
  "states cw = states_loop (cl_nodes (fst cw)) [] cw"

fun not_active_loop :: "string list \<Rightarrow> 'w lclient \<times> 'w \<Rightarrow> string list \<times> 'w lclient \<times> 'w" where
  "not_active_loop [] cw = ([], cw)"
| "not_active_loop (node # ns) cw =
     (let (r, cw) = query node cw;
          (out, cw) = not_active_loop ns cw
      in (if r = Inr StateActive then out else node # out, cw))"

definition not_active :: "'w lclient \<times> 'w \<Rightarrow> string list \<times> 'w lclient \<times> 'w" where
  "not_active cw = not_active_loop (cl_nodes (fst cw)) cw"

section \<open>Driving several nodes\<close>

text \<open>\<^verbatim>\<open>each\<close> stops at the first error.\<close>

fun each :: "ltransition \<Rightarrow> string list \<Rightarrow> 'w lclient \<times> 'w \<Rightarrow> goerror option \<times> 'w lclient \<times> 'w" where
  "each t [] cw = (None, cw)"
| "each t (node # ns) cw =
     (case drive node t cw of
        (Some e, cw) \<Rightarrow> (Some e, cw)
      | (None, cw) \<Rightarrow> each t ns cw)"

definition or_all :: "'w lclient \<Rightarrow> string list \<Rightarrow> string list" where
  "or_all c ns = (if ns = [] then cl_nodes c else ns)"

definition configure_nodes :: "string list \<Rightarrow> 'w lclient \<times> 'w \<Rightarrow> goerror option \<times> 'w lclient \<times> 'w" where
  "configure_nodes ns cw = each TransitionConfigure (or_all (fst cw) ns) cw"

definition activate_nodes :: "string list \<Rightarrow> 'w lclient \<times> 'w \<Rightarrow> goerror option \<times> 'w lclient \<times> 'w" where
  "activate_nodes ns cw = each TransitionActivate (or_all (fst cw) ns) cw"

definition deactivate_nodes :: "string list \<Rightarrow> 'w lclient \<times> 'w \<Rightarrow> goerror option \<times> 'w lclient \<times> 'w" where
  "deactivate_nodes ns cw = each TransitionDeactivate (rev (or_all (fst cw) ns)) cw"

definition cleanup_nodes :: "string list \<Rightarrow> 'w lclient \<times> 'w \<Rightarrow> goerror option \<times> 'w lclient \<times> 'w" where
  "cleanup_nodes ns cw = each TransitionCleanup (rev (or_all (fst cw) ns)) cw"

text \<open>\<^verbatim>\<open>Shutdown\<close> goes on after an error; \<^verbatim>\<open>errors.Join\<close> of the list is nil when it is empty.\<close>

fun shutdown_loop :: "string list \<Rightarrow> 'w lclient \<times> 'w \<Rightarrow> goerror list \<times> 'w lclient \<times> 'w" where
  "shutdown_loop [] cw = ([], cw)"
| "shutdown_loop (node # ns) cw =
     (case query node cw of
        (Inl err, cw) \<Rightarrow> (let (es, cw) = shutdown_loop ns cw in (err # es, cw))
      | (Inr s, cw) \<Rightarrow>
          (case shutdown_for s of
             None \<Rightarrow> shutdown_loop ns cw
           | Some t \<Rightarrow>
               (let (e, cw) = drive node t cw;
                    (es, cw) = shutdown_loop ns cw
                in (case e of None \<Rightarrow> es | Some err \<Rightarrow> err # es, cw))))"

definition shutdown_nodes :: "string list \<Rightarrow> 'w lclient \<times> 'w \<Rightarrow> goerror list \<times> 'w lclient \<times> 'w" where
  "shutdown_nodes ns cw = shutdown_loop (rev (or_all (fst cw) ns)) cw"

section \<open>Bringing the stack up\<close>

text \<open>One pass of \<^verbatim>\<open>BringUp\<close>; \<open>ctx_err\<close> is the context's error, read from the world.\<close>

fun bring_up_pass :: "('w \<Rightarrow> goerror option) \<Rightarrow> ltransition \<Rightarrow> lstate \<Rightarrow> lstate \<Rightarrow> string list
    \<Rightarrow> 'w lclient \<times> 'w \<Rightarrow> goerror option \<times> 'w lclient \<times> 'w" where
  "bring_up_pass ctx_err t from to [] cw = (None, cw)"
| "bring_up_pass ctx_err t from to (node # ns) cw =
     (case ctx_err (snd cw) of Some err \<Rightarrow> (Some err, cw)
      | None \<Rightarrow>
        (case query node cw of
           (Inl err, cw) \<Rightarrow> (Some err, cw)
         | (Inr s, cw) \<Rightarrow>
             if s = to \<or> s = StateActive then bring_up_pass ctx_err t from to ns cw
             else if s = from then
               (case drive node t cw of
                  (Some err, cw) \<Rightarrow> (Some err, cw)
                | (None, cw) \<Rightarrow> bring_up_pass ctx_err t from to ns cw)
             else (Some (Errorf ''%s is %s, so it cannot %s''
                     [GStr node, GStr (state_string s), GStr (transition_string t)]), cw)))"

definition bring_up :: "('w \<Rightarrow> goerror option) \<Rightarrow> 'w lclient \<times> 'w \<Rightarrow> goerror option \<times> 'w lclient \<times> 'w" where
  "bring_up ctx_err cw =
     (case bring_up_pass ctx_err TransitionConfigure StateUnconfigured StateInactive (cl_nodes (fst cw)) cw of
        (Some err, cw) \<Rightarrow> (Some err, cw)
      | (None, cw) \<Rightarrow>
          bring_up_pass ctx_err TransitionActivate StateInactive StateActive (cl_nodes (fst cw)) cw)"

text \<open>\<^verbatim>\<open>AwaitActive\<close> polls until every node is active, the deadline has passed or the context is
  done. \<open>now\<close> reads the clock; \<open>pause\<close> is the select between the context and a 200 ms timer,
  with the context's error when that came first. The result is \<^const>\<open>None\<close> when the turns allowed by
  \<open>fuel\<close> do not suffice.\<close>

definition poll_interval :: int where "poll_interval = 200 * 1000000"

fun await_loop :: "('w \<Rightarrow> int) \<Rightarrow> ('w \<Rightarrow> goerror option \<times> 'w) \<Rightarrow> nat \<Rightarrow> int \<Rightarrow> 'w lclient \<times> 'w
    \<Rightarrow> (client_error option \<times> 'w lclient \<times> 'w) option" where
  "await_loop now pause 0 deadline cw = None"
| "await_loop now pause (Suc fuel) deadline cw =
     (let (ss, cw) = states cw
      in if \<forall>(n, s) \<in> set ss. s = StateActive then Some (None, cw)
         else if now (snd cw) > deadline then Some (Some (NotActiveErr ss), cw)
         else (case pause (snd cw) of
                 (Some err, w) \<Rightarrow> Some (Some (CErr err), fst cw, w)
               | (None, w) \<Rightarrow> await_loop now pause fuel deadline (fst cw, w)))"

definition await_active :: "('w \<Rightarrow> int) \<Rightarrow> ('w \<Rightarrow> goerror option \<times> 'w) \<Rightarrow> nat \<Rightarrow> int \<Rightarrow> 'w lclient \<times> 'w
    \<Rightarrow> (client_error option \<times> 'w lclient \<times> 'w) option" where
  "await_active now pause fuel timeout cw = await_loop now pause fuel (now (snd cw) + timeout) cw"

section \<open>Declaration\<close>

text \<open>\<^verbatim>\<open>bind\<close> without the record of the endpoint: \<open>dial_change\<close> and \<open>dial_state\<close> are the
  transport's \<^verbatim>\<open>ServiceClient\<close> for the two service types.\<close>

definition bind_lifecycle :: "(string \<Rightarrow> 'w change_call result) \<Rightarrow> (string \<Rightarrow> 'w get_call result)
    \<Rightarrow> string \<Rightarrow> string \<Rightarrow> 'w lclient result" where
  "bind_lifecycle dial_change dial_state nodes_tag timeout_tag =
     bind_result (parse_node_list nodes_tag) (\<lambda>ns.
     bind_result (client_timeout timeout_tag) (\<lambda>timeout.
     bind_result (map_result (\<lambda>n.
         bind_result (dial_change (n @ ''/change_state'')) (\<lambda>f.
         bind_result (dial_state (n @ ''/get_state'')) (\<lambda>g. Inr (n, f, g)))) ns) (\<lambda>cs.
       Inr \<lparr>cl_nodes = ns, cl_timeout = timeout,
            cl_change = map (\<lambda>(n, f, g). (n, f)) cs, cl_state = map (\<lambda>(n, f, g). (n, g)) cs,
            cl_calls = 0, cl_seen = []\<rparr>)))"


section \<open>What the client relies on\<close>

text \<open>A bound field: its call functions are those of the declared nodes.\<close>

definition wired :: "(string \<Rightarrow> 'w get_call) \<Rightarrow> (string \<Rightarrow> 'w change_call) \<Rightarrow> 'w lclient \<Rightarrow> bool" where
  "wired get change c \<longleftrightarrow> cl_state c = map (\<lambda>n. (n, get n)) (cl_nodes c)
     \<and> cl_change c = map (\<lambda>n. (n, change n)) (cl_nodes c)"

lemma wired_calls:
  "wired get change c \<Longrightarrow> n \<in> set (cl_nodes c) \<Longrightarrow>
     map_of (cl_state c) n = Some (get n) \<and> map_of (cl_change c) n = Some (change n)"
  by (simp add: wired_def map_of_map_restrict restrict_map_def)

lemma wired_simps [simp]:
  "wired get change (observe n s c) = wired get change c"
  "wired get change (c\<lparr>cl_calls := k\<rparr>) = wired get change c"
  "cl_nodes (observe n s c) = cl_nodes c"
  by (simp_all add: wired_def observe_def)

text \<open>The nodes behind the calls: \<open>st\<close> is the true state of each. A call to one node leaves the
  others alone; asking changes no state and answers truly; a reported success is an edge of the
  table, and after a refusal, an error or a timeout the node is where it was or where the
  transition leads.\<close>

locale managed_nodes =
  fixes get :: "string \<Rightarrow> 'w get_call"
    and change :: "string \<Rightarrow> 'w change_call"
    and st :: "'w \<Rightarrow> string \<Rightarrow> lstate"
  assumes get_keeps: "get n d w = (r, w') \<Longrightarrow> st w' = st w"
    and get_true: "get n d w = (Inr m, w') \<Longrightarrow> fst m = st w n"
    and change_other: "change n u d w = (ok, w') \<Longrightarrow> k \<noteq> n \<Longrightarrow> st w' k = st w k"
    and change_ok: "change n (msg_of_transition t) d w = (Inr True, w') \<Longrightarrow>
      transition_table (st w n) t = Some (st w' n)"
    and change_fail: "change n (msg_of_transition t) d w = (ok, w') \<Longrightarrow>
      st w' n = st w n \<or> transition_table (st w n) t = Some (st w' n)"
begin

lemma query_spec:
  assumes "wired get change c" and "n \<in> set (cl_nodes c)" and "query n (c, w) = (r, c', w')"
  shows "wired get change c' \<and> cl_nodes c' = cl_nodes c \<and> st w' = st w \<and> (\<forall>s. r = Inr s \<longrightarrow> s = st w n)"
proof -
  obtain a v where g: "get n (cl_timeout c) w = (a, v)" by fastforce
  with assms(3) wired_calls[OF assms(1,2)] have
    "(r, c', w') = (case a of
        Inl err \<Rightarrow> (Inl (Errorf ''%s/get_state: %w'' [GStr n, GErr err]),
          observe n StateUnknown (c\<lparr>cl_calls := cl_calls c + 1\<rparr>), v)
      | Inr m \<Rightarrow> (Inr (fst m), observe n (fst m) (c\<lparr>cl_calls := cl_calls c + 1\<rparr>), v))"
    by (cases a) (simp_all add: query_def Let_def)
  with assms(1) get_keeps[OF g] g get_true show ?thesis by (cases a) auto
qed

lemma drive_spec:
  assumes "wired get change c" and "n \<in> set (cl_nodes c)" and "drive n t (c, w) = (r, c', w')"
  shows "wired get change c' \<and> cl_nodes c' = cl_nodes c \<and> (\<forall>k. k \<noteq> n \<longrightarrow> st w' k = st w k)
    \<and> (r = None \<longrightarrow> transition_table (st w n) t = Some (st w' n))
    \<and> (st w' n = st w n \<or> transition_table (st w n) t = Some (st w' n))"
proof -
  obtain a v where g: "change n (msg_of_transition t) (cl_timeout c) w = (a, v)" by fastforce
  let ?c = "c\<lparr>cl_calls := cl_calls c + 1\<rparr>"
  from assms(3) wired_calls[OF assms(1,2)] g have
    "(r, c', w') = (case a of
        Inl err \<Rightarrow> (Some (Errorf ''%s/change_state %s: %w'' [GStr n, GStr (transition_string t), GErr err]), ?c, v)
      | Inr ok \<Rightarrow> if \<not> ok then (Some (Errorf ''%s refused to %s'' [GStr n, GStr (transition_string t)]), ?c, v)
          else (None, (case result_of t of Some s \<Rightarrow> observe n s ?c | None \<Rightarrow> ?c), v))"
    by (cases a) (simp_all add: drive_def Let_def split: if_splits)
  with assms(1) g change_ok[of n t _ w] change_fail[OF g] change_other[OF g] show ?thesis
    by (cases a) (auto split: if_splits option.splits)
qed

text \<open>What a pass of \<^verbatim>\<open>BringUp\<close> does, whether it succeeds or not: each of its nodes stays or moves
  along the pass's edge, and after a pass without an error each is where the pass leads or was
  already active.\<close>

lemma pass_spec:
  assumes "wired get change c" and "set ns \<subseteq> set (cl_nodes c)" and "transition_table from t = Some to"
    and "from \<noteq> to" and "from \<noteq> StateActive"
    and "bring_up_pass ctx t from to ns (c, w) = (r, c', w')"
  shows "wired get change c' \<and> cl_nodes c' = cl_nodes c
    \<and> (\<forall>k. st w' k = st w k \<or> (k \<in> set ns \<and> st w k = from \<and> st w' k = to))
    \<and> (r = None \<longrightarrow> (\<forall>k \<in> set ns. st w' k = to \<or> st w' k = StateActive))"
  using assms
proof (induction ns arbitrary: c w)
  case (Cons n ns)
  show ?case
  proof (cases "ctx w")
    case (Some e)
    with Cons.prems show ?thesis by auto
  next
    case ctx: None
    obtain q c1 w1 where q: "query n (c, w) = (q, c1, w1)" by (metis prod_cases3)
    from query_spec[OF Cons.prems(1) _ q] Cons.prems(2) have
      c1: "wired get change c1" "cl_nodes c1 = cl_nodes c" "st w1 = st w" "\<And>s. q = Inr s \<Longrightarrow> s = st w n"
      by auto
    have sub: "set ns \<subseteq> set (cl_nodes c1)" "n \<in> set (cl_nodes c1)" using Cons.prems(2) c1(2) by auto
    show ?thesis
    proof (cases q)
      case (Inl e)
      with Cons.prems q ctx c1 show ?thesis by auto
    next
      case (Inr s)
      then have s: "s = st w n" using c1(4) by simp
      consider (there) "s = to \<or> s = StateActive" | (go) "s = from" "s \<noteq> to" "s \<noteq> StateActive"
        | (no) "s \<noteq> from" "s \<noteq> to" "s \<noteq> StateActive" by blast
      then show ?thesis
      proof cases
        case there
        then have rest: "bring_up_pass ctx t from to ns (c1, w1) = (r, c', w')"
          using Cons.prems(6) q ctx Inr by simp
        from Cons.IH[OF c1(1) sub(1) Cons.prems(3-5) rest] c1 s there Cons.prems(4,5)
        show ?thesis by (auto dest: spec[of _ n])
      next
        case go
        obtain e c2 w2 where d: "drive n t (c1, w1) = (e, c2, w2)" by (metis prod_cases3)
        from drive_spec[OF c1(1) sub(2) d] c1 s go Cons.prems(3) have
          c2: "wired get change c2" "cl_nodes c2 = cl_nodes c" "\<And>k. k \<noteq> n \<Longrightarrow> st w2 k = st w k"
            "e = None \<Longrightarrow> st w2 n = to" "st w2 n = from \<or> st w2 n = to" by auto
        show ?thesis
        proof (cases e)
          case None
          then have rest: "bring_up_pass ctx t from to ns (c2, w2) = (r, c', w')"
            using Cons.prems(6) q ctx Inr go d by simp
          have "set ns \<subseteq> set (cl_nodes c2)" using Cons.prems(2) c2(2) by simp
          from Cons.IH[OF c2(1) this Cons.prems(3-5) rest] c2 None s go Cons.prems(4)
          show ?thesis by (auto dest: spec[of _ n]) (metis c2(3))+
        next
          case (Some err)
          with Cons.prems(6) q ctx Inr go d have "r = Some err" "c' = c2" "w' = w2" by simp_all
          with c2 s go show ?thesis by auto metis+
        qed
      next
        case no
        with Cons.prems(6) q ctx Inr c1 show ?thesis by auto
      qed
    qed
  qed
qed auto

end

lemma edge_simps:
  "transition_table StateUnconfigured TransitionConfigure = Some StateInactive"
  "transition_table StateInactive TransitionActivate = Some StateActive"
  by (simp_all add: transition_table_def transition_entries_def)

text \<open>What \<^verbatim>\<open>BringUp\<close> does to the stack, whether it succeeds or not.\<close>

definition climbed :: "lstate \<Rightarrow> lstate \<Rightarrow> bool" where
  "climbed p q \<longleftrightarrow> q = p \<or> (p, q) \<in> {(StateUnconfigured, StateInactive), (StateInactive, StateActive),
     (StateUnconfigured, StateActive)}"

context managed_nodes
begin

lemma bring_up_spec:
  assumes "wired get change c" and "bring_up ctx (c, w) = (r, c', w')"
  shows "wired get change c' \<and> cl_nodes c' = cl_nodes c
    \<and> (\<forall>k. climbed (st w k) (st w' k) \<and> (k \<notin> set (cl_nodes c) \<longrightarrow> st w' k = st w k))
    \<and> (r = None \<longrightarrow> (\<forall>k \<in> set (cl_nodes c). st w' k = StateActive))
    \<and> ((\<exists>k \<in> set (cl_nodes c). st w' k = StateUnconfigured) \<longrightarrow>
         (\<forall>k. st w' k = StateActive \<longleftrightarrow> st w k = StateActive))"
proof -
  obtain r1 c1 w1 where p1:
    "bring_up_pass ctx TransitionConfigure StateUnconfigured StateInactive (cl_nodes c) (c, w) = (r1, c1, w1)"
    by (metis prod_cases3)
  from pass_spec[OF assms(1) subset_refl edge_simps(1) _ _ p1]
  have s1: "wired get change c1" "cl_nodes c1 = cl_nodes c"
    "\<And>k. st w1 k = st w k \<or> k \<in> set (cl_nodes c) \<and> st w k = StateUnconfigured \<and> st w1 k = StateInactive"
    "r1 = None \<Longrightarrow> \<forall>k \<in> set (cl_nodes c). st w1 k = StateInactive \<or> st w1 k = StateActive" by auto
  show ?thesis
  proof (cases r1)
    case (Some e)
    with assms(2) p1 have "r = Some e" "c' = c1" "w' = w1" by (auto simp: bring_up_def)
    moreover have "st w1 k = StateActive \<longleftrightarrow> st w k = StateActive" for k using s1(3)[of k] by auto
    ultimately show ?thesis using s1 by (fastforce simp: climbed_def)
  next
    case None
    with assms(2) p1 s1(2) have
      p2: "bring_up_pass ctx TransitionActivate StateInactive StateActive (cl_nodes c) (c1, w1) = (r, c', w')"
      by (auto simp: bring_up_def)
    from pass_spec[OF s1(1) _ edge_simps(2) _ _ p2] s1(2)
    have s2: "wired get change c'" "cl_nodes c' = cl_nodes c"
      "\<And>k. st w' k = st w1 k \<or> k \<in> set (cl_nodes c) \<and> st w1 k = StateInactive \<and> st w' k = StateActive"
      "r = None \<Longrightarrow> \<forall>k \<in> set (cl_nodes c). st w' k = StateActive" by auto
    have cl: "climbed (st w k) (st w' k) \<and> (k \<notin> set (cl_nodes c) \<longrightarrow> st w' k = st w k)" for k
      using s1(3)[of k] s2(3)[of k] by (auto simp: climbed_def)
    have "st w' k \<noteq> StateUnconfigured" if "k \<in> set (cl_nodes c)" for k
      using s1(4)[OF None] s2(3)[of k] that by auto
    with cl s2 show ?thesis by blast
  qed
qed

lemma states_loop_spec:
  assumes "wired get change c" and "set ns \<subseteq> set (cl_nodes c)" and "states_loop ns out (c, w) = (ss, c', w')"
  shows "wired get change c' \<and> cl_nodes c' = cl_nodes c \<and> st w' = st w
    \<and> fst ` set ss = fst ` set out \<union> set ns
    \<and> (\<forall>n \<in> set ns. \<forall>s. map_of ss n = Some s \<longrightarrow> s = StateUnknown \<or> s = st w n)
    \<and> (\<forall>n. n \<notin> set ns \<longrightarrow> map_of ss n = map_of out n)"
  using assms
proof (induction ns arbitrary: c w out)
  case (Cons n ns)
  obtain q c1 w1 where q: "query n (c, w) = (q, c1, w1)" by (metis prod_cases3)
  define s where "s = (case q of Inl _ \<Rightarrow> StateUnknown | Inr s \<Rightarrow> s)"
  from query_spec[OF Cons.prems(1) _ q] Cons.prems(2) have
    c1: "wired get change c1" "cl_nodes c1 = cl_nodes c" "st w1 = st w" "s = StateUnknown \<or> s = st w n"
    by (auto simp: s_def split: sum.splits)
  have rest: "states_loop ns (AList.update n s out) (c1, w1) = (ss, c', w')"
    using Cons.prems(3) q by (simp add: s_def)
  have "set ns \<subseteq> set (cl_nodes c1)" using Cons.prems(2) c1(2) by simp
  from Cons.IH[OF c1(1) this rest] c1 show ?case
    by (cases "n \<in> set ns") (auto simp: dom_update update_conv')
qed auto

lemma states_spec:
  assumes "wired get change c" and "states (c, w) = (ss, c', w')"
  shows "wired get change c' \<and> cl_nodes c' = cl_nodes c \<and> st w' = st w
    \<and> fst ` set ss = set (cl_nodes c) \<and> (\<forall>n s. map_of ss n = Some s \<longrightarrow> s = StateUnknown \<or> s = st w n)"
proof -
  have "states_loop (cl_nodes c) [] (c, w) = (ss, c', w')" using assms(2) by (simp add: states_def)
  note l = states_loop_spec[OF assms(1) subset_refl this]
  have "s = StateUnknown \<or> s = st w n" if "map_of ss n = Some s" for n s
  proof -
    have "n \<in> set (cl_nodes c)" using l that by (cases "n \<in> set (cl_nodes c)") simp_all
    with l that show ?thesis by blast
  qed
  with l show ?thesis by simp
qed

end

text \<open>Nodes that answer: whoever asks is answered in time, a transition the table has succeeds,
  and the caller's context stays alive.\<close>

locale willing_nodes = managed_nodes get change st
  for get :: "string \<Rightarrow> 'w get_call" and change :: "string \<Rightarrow> 'w change_call" and st :: "'w \<Rightarrow> string \<Rightarrow> lstate" +
  fixes live :: "'w \<Rightarrow> int \<Rightarrow> string set \<Rightarrow> bool"
    and ctx :: "'w \<Rightarrow> goerror option"
  assumes live_ctx: "live w d N \<Longrightarrow> ctx w = None"
    and live_get: "live w d N \<Longrightarrow> n \<in> N \<Longrightarrow> \<exists>m w'. get n d w = (Inr m, w') \<and> live w' d N"
    and live_change: "live w d N \<Longrightarrow> n \<in> N \<Longrightarrow> transition_table (st w n) t \<noteq> None \<Longrightarrow>
      \<exists>w'. change n (msg_of_transition t) d w = (Inr True, w') \<and> live w' d N"
begin

lemma query_live:
  assumes "wired get change c" and "live w (cl_timeout c) (set (cl_nodes c))" and "n \<in> set (cl_nodes c)"
  obtains c' w' where "query n (c, w) = (Inr (st w n), c', w')" "live w' (cl_timeout c) (set (cl_nodes c))"
    "wired get change c'" "cl_nodes c' = cl_nodes c" "st w' = st w" "cl_timeout c' = cl_timeout c"
proof -
  obtain m w' where g: "get n (cl_timeout c) w = (Inr m, w')" "live w' (cl_timeout c) (set (cl_nodes c))"
    using live_get[OF assms(2,3)] by blast
  show thesis
    by (rule that[of "observe n (fst m) (c\<lparr>cl_calls := cl_calls c + 1\<rparr>)" w'])
      (use g assms(1) wired_calls[OF assms(1,3)] get_true[OF g(1)] get_keeps[OF g(1)] in
        \<open>simp_all add: query_def observe_def wired_def\<close>)
qed

lemma drive_live:
  assumes "wired get change c" and "live w (cl_timeout c) (set (cl_nodes c))" and "n \<in> set (cl_nodes c)"
    and "transition_table (st w n) t \<noteq> None"
  obtains c' w' where "drive n t (c, w) = (None, c', w')" "live w' (cl_timeout c) (set (cl_nodes c))"
    "cl_timeout c' = cl_timeout c"
proof -
  obtain w' where g: "change n (msg_of_transition t) (cl_timeout c) w = (Inr True, w')"
    "live w' (cl_timeout c) (set (cl_nodes c))"
    using live_change[OF assms(2-4)] by blast
  show thesis
    by (rule that[of "case result_of t of Some s \<Rightarrow> observe n s (c\<lparr>cl_calls := cl_calls c + 1\<rparr>)
        | None \<Rightarrow> c\<lparr>cl_calls := cl_calls c + 1\<rparr>" w'])
      (use g assms(1) wired_calls[OF assms(1,3)] in
        \<open>simp_all add: drive_def observe_def wired_def split: option.splits\<close>)
qed

lemma pass_live:
  assumes "wired get change c" and "live w (cl_timeout c) (set (cl_nodes c))"
    and "set ns \<subseteq> set (cl_nodes c)" and "transition_table from t = Some to"
    and "from \<noteq> to" and "from \<noteq> StateActive"
    and "\<forall>n \<in> set ns. st w n \<in> {from, to, StateActive}"
  shows "\<exists>c' w'. bring_up_pass ctx t from to ns (c, w) = (None, c', w')
    \<and> live w' (cl_timeout c) (set (cl_nodes c)) \<and> cl_timeout c' = cl_timeout c"
  using assms
proof (induction ns arbitrary: c w)
  case (Cons n ns)
  have ctx: "ctx w = None" using Cons.prems(2) by (rule live_ctx)
  have n: "n \<in> set (cl_nodes c)" using Cons.prems(3) by simp
  obtain c1 w1 where q: "query n (c, w) = (Inr (st w n), c1, w1)"
    "live w1 (cl_timeout c) (set (cl_nodes c))" "wired get change c1" "cl_nodes c1 = cl_nodes c"
    "st w1 = st w" "cl_timeout c1 = cl_timeout c"
    using query_live[OF Cons.prems(1,2) n] by metis
  show ?case
  proof (cases "st w n = to \<or> st w n = StateActive")
    case True
    with Cons.IH[of c1 w1] Cons.prems q ctx show ?thesis by auto
  next
    case False
    with Cons.prems(7) have s: "st w n = from" by auto
    obtain c2 w2 where d: "drive n t (c1, w1) = (None, c2, w2)"
      "live w2 (cl_timeout c1) (set (cl_nodes c1))" "cl_timeout c2 = cl_timeout c1"
      using drive_live[of c1 w1 n t] q n s Cons.prems(4) by auto
    have sp: "wired get change c2" "cl_nodes c2 = cl_nodes c" "\<And>k. k \<noteq> n \<Longrightarrow> st w2 k = st w k" "st w2 n = to"
      using drive_spec[OF q(3) _ d(1)] q n s Cons.prems(4) by auto
    have "\<forall>k \<in> set ns. st w2 k \<in> {from, to, StateActive}"
      using Cons.prems(7) sp(3,4) by (metis insert_iff list.set_intros(2))
    with Cons.IH[of c2 w2] Cons.prems q d sp have
      "\<exists>c' w'. bring_up_pass ctx t from to ns (c2, w2) = (None, c', w')
        \<and> live w' (cl_timeout c) (set (cl_nodes c)) \<and> cl_timeout c' = cl_timeout c" by auto
    with False q d s ctx show ?thesis by auto
  qed
qed auto

lemma bring_up_live:
  assumes "wired get change c" and "live w (cl_timeout c) (set (cl_nodes c))"
    and "\<forall>n \<in> set (cl_nodes c). st w n \<in> {StateUnconfigured, StateInactive, StateActive}"
  shows "\<exists>c' w'. bring_up ctx (c, w) = (None, c', w')"
proof -
  obtain c1 w1 where p1:
    "bring_up_pass ctx TransitionConfigure StateUnconfigured StateInactive (cl_nodes c) (c, w) = (None, c1, w1)"
    "live w1 (cl_timeout c) (set (cl_nodes c))" "cl_timeout c1 = cl_timeout c"
    using pass_live[OF assms(1,2) subset_refl edge_simps(1)] assms(3) by auto
  from pass_spec[OF assms(1) subset_refl edge_simps(1) _ _ p1(1)]
  have s1: "wired get change c1" "cl_nodes c1 = cl_nodes c"
    "\<forall>k \<in> set (cl_nodes c). st w1 k = StateInactive \<or> st w1 k = StateActive" by auto
  then have "\<exists>c' w'. bring_up_pass ctx TransitionActivate StateInactive StateActive (cl_nodes c1) (c1, w1) = (None, c', w')"
    using pass_live[OF s1(1) _ subset_refl edge_simps(2), of w1] p1 by auto
  with p1 s1(2) show ?thesis by (simp add: bring_up_def)
qed

end


text \<open>A round asks every node once; \<open>round_start\<close> is the world a round, counted from 0, starts in, after the pause of the one before.\<close>

definition asked_all :: "(string \<Rightarrow> 'w get_call) \<Rightarrow> int \<Rightarrow> string list \<Rightarrow> 'w \<Rightarrow> 'w" where
  "asked_all get d ns w = fold (\<lambda>n w. snd (get n d w)) ns w"

definition round_start :: "(string \<Rightarrow> 'w get_call) \<Rightarrow> ('w \<Rightarrow> goerror option \<times> 'w) \<Rightarrow> int \<Rightarrow> string list \<Rightarrow> nat \<Rightarrow> 'w \<Rightarrow> 'w" where
  "round_start get pause d ns k w = ((\<lambda>v. snd (pause (asked_all get d ns v))) ^^ k) w"

lemma round_start_simps:
  "round_start get pause d ns 0 w = w"
  "round_start get pause d ns (Suc k) w = round_start get pause d ns k (snd (pause (asked_all get d ns w)))"
  using funpow_swap1[of "\<lambda>v. snd (pause (asked_all get d ns v))" k w] by (simp_all add: round_start_def)

text \<open>Waiting: asking takes time, and a pause that was not cut short takes at least the polling
  interval. \<open>answers\<close> tells which nodes would answer a question in time; as the states, it is the same all through a round,
  while nothing at all is assumed of what becomes of the nodes, and of their answering, during a pause.\<close>

locale polled_nodes = managed_nodes get change st
  for get :: "string \<Rightarrow> 'w get_call" and change :: "string \<Rightarrow> 'w change_call" and st :: "'w \<Rightarrow> string \<Rightarrow> lstate" +
  fixes now :: "'w \<Rightarrow> int"
    and pause :: "'w \<Rightarrow> goerror option \<times> 'w"
    and answers :: "'w \<Rightarrow> int \<Rightarrow> string \<Rightarrow> bool"
  assumes get_time: "get n d w = (r, w') \<Longrightarrow> 0 \<le> d \<Longrightarrow> now w \<le> now w'"
    and pause_time: "pause w = (None, w') \<Longrightarrow> now w + poll_interval \<le> now w'"
    and get_answers: "get n d w = (r, w') \<Longrightarrow> (\<exists>m. r = Inr m) \<longleftrightarrow> answers w d n"
    and answers_keep: "get n d w = (r, w') \<Longrightarrow> answers w' = answers w"
begin

definition seen_in :: "'w \<Rightarrow> int \<Rightarrow> string \<Rightarrow> lstate" where
  "seen_in w d n = (if answers w d n then st w n else StateUnknown)"

lemma query_exact:
  assumes "wired get change c" and "n \<in> set (cl_nodes c)" and "query n (c, w) = (r, c', w')"
  shows "w' = snd (get n (cl_timeout c) w) \<and> cl_timeout c' = cl_timeout c \<and> answers w' = answers w
    \<and> (0 \<le> cl_timeout c \<longrightarrow> now w \<le> now w')
    \<and> (case r of Inl _ \<Rightarrow> StateUnknown | Inr s \<Rightarrow> s) = seen_in w (cl_timeout c) n"
proof -
  obtain a v where g: "get n (cl_timeout c) w = (a, v)" by fastforce
  with assms(3) wired_calls[OF assms(1,2)] get_time[OF g] get_answers[OF g] answers_keep[OF g] get_true[of n _ w] show ?thesis
    by (cases a) (auto simp: query_def Let_def observe_def seen_in_def)
qed

lemma states_loop_exact:
  assumes "wired get change c" and "set ns \<subseteq> set (cl_nodes c)" and "states_loop ns out (c, w) = (ss, c', w')"
  shows "w' = asked_all get (cl_timeout c) ns w \<and> cl_timeout c' = cl_timeout c \<and> answers w' = answers w
    \<and> (0 \<le> cl_timeout c \<longrightarrow> now w \<le> now w') \<and> (distinct (map fst out) \<longrightarrow> distinct (map fst ss))
    \<and> (\<forall>n \<in> set ns. map_of ss n = Some (seen_in w (cl_timeout c) n))"
  using assms
proof (induction ns arbitrary: c w out)
  case (Cons n ns)
  obtain q c1 w1 where q: "query n (c, w) = (q, c1, w1)" by (metis prod_cases3)
  have n: "n \<in> set (cl_nodes c)" using Cons.prems(2) by simp
  note qs = query_spec[OF Cons.prems(1) n q] and qt = query_exact[OF Cons.prems(1) n q]
  then have rest: "states_loop ns (AList.update n (seen_in w (cl_timeout c) n) out) (c1, w1) = (ss, c', w')"
    using Cons.prems(3) q by (auto simp: Let_def)
  have sub: "set ns \<subseteq> set (cl_nodes c1)" using Cons.prems(2) qs by simp
  have "answers w1 = answers w" "st w1 = st w" using qs qt by blast+
  then have same: "seen_in w1 (cl_timeout c) = seen_in w (cl_timeout c)" unfolding seen_in_def by (simp cong: if_cong)
  from qs have w1: "wired get change c1" by blast
  note IH = Cons.IH[OF w1 sub rest]
  have "map_of ss n = Some (seen_in w (cl_timeout c) n)" if "n \<notin> set ns"
    using states_loop_spec[OF w1 sub rest] that by (simp add: update_conv')
  with IH qt same show ?case by (auto simp: asked_all_def distinct_update)
qed (simp add: asked_all_def)

lemma states_exact:
  assumes "wired get change c" and "states (c, w) = (ss, c', w')"
  shows "w' = asked_all get (cl_timeout c) (cl_nodes c) w \<and> wired get change c' \<and> cl_nodes c' = cl_nodes c \<and> cl_timeout c' = cl_timeout c
    \<and> st w' = st w \<and> answers w' = answers w \<and> (0 \<le> cl_timeout c \<longrightarrow> now w \<le> now w')
    \<and> (\<forall>n s. (n, s) \<in> set ss \<longleftrightarrow> n \<in> set (cl_nodes c) \<and> s = seen_in w (cl_timeout c) n)"
proof -
  have l: "states_loop (cl_nodes c) [] (c, w) = (ss, c', w')" using assms(2) by (simp add: states_def)
  note e = states_loop_exact[OF assms(1) subset_refl l] and sp = states_spec[OF assms]
  have d: "distinct (map fst ss)" using e by simp
  have "(n, s) \<in> set ss \<longleftrightarrow> n \<in> set (cl_nodes c) \<and> s = seen_in w (cl_timeout c) n" for n s
  proof -
    have "(n, s) \<in> set ss \<longleftrightarrow> map_of ss n = Some s" using d by (simp add: map_of_eq_Some_iff)
    moreover have "n \<in> set (cl_nodes c)" if "map_of ss n = Some s" using sp map_of_SomeD[OF that] by (metis fst_conv image_eqI)
    ultimately show ?thesis using e by (metis option.inject)
  qed
  with e sp show ?thesis by blast
qed

text \<open>Every declared node answers, and is active.\<close>

definition all_up :: "'w \<Rightarrow> int \<Rightarrow> string list \<Rightarrow> bool" where
  "all_up w d ns \<longleftrightarrow> (\<forall>n \<in> set ns. answers w d n \<and> st w n = StateActive)"

lemma all_active_up:
  assumes "\<forall>n s. (n, s) \<in> set ss \<longleftrightarrow> n \<in> set ns \<and> s = seen_in w d n"
  shows "(\<forall>(n, s) \<in> set ss. s = StateActive) \<longleftrightarrow> all_up w d ns"
proof -
  have "(\<forall>(n, s) \<in> set ss. s = StateActive) \<longleftrightarrow> (\<forall>n \<in> set ns. seen_in w d n = StateActive)" using assms by auto
  then show ?thesis by (auto simp: all_up_def seen_in_def split: if_splits)
qed

lemma await_loop_returns:
  assumes "wired get change c" and "0 \<le> cl_timeout c" and "0 < fuel"
    and "deadline < now w + (int fuel - 1) * poll_interval"
  shows "\<exists>res. await_loop now pause fuel deadline (c, w) = Some res"
  using assms
proof (induction fuel arbitrary: c w)
  case (Suc f)
  obtain ss c1 w1 where ss: "states (c, w) = (ss, c1, w1)" by (metis prod_cases3)
  note sp = states_exact[OF Suc.prems(1) ss]
  then have t: "now w \<le> now w1" "cl_timeout c1 = cl_timeout c" using Suc.prems(2) by auto
  show ?case
  proof (cases "(\<forall>(n, s) \<in> set ss. s = StateActive) \<or> now w1 > deadline")
    case True
    then show ?thesis using ss by auto
  next
    case False
    obtain e w2 where p: "pause w1 = (e, w2)" by fastforce
    show ?thesis
    proof (cases e)
      case (Some err)
      with False ss p show ?thesis by auto
    next
      case None
      with p have "now w1 + poll_interval \<le> now w2" using pause_time by blast
      moreover have "0 < f" using Suc.prems(4) False t(1) by (cases f) auto
      ultimately have "deadline < now w2 + (int f - 1) * poll_interval"
        using Suc.prems(4) t(1) by (simp add: algebra_simps)
      with Suc.IH[of c1 w2] sp t(2) Suc.prems(2) \<open>0 < f\<close> False ss p None show ?thesis by auto
    qed
  qed
qed simp

text \<open>What the wait returns, by the round it ended in: the first to find every node up, or to end after the deadline, or whose
  pause was cut short.\<close>

lemma await_loop_exact:
  assumes "wired get change c" and "await_loop now pause fuel deadline (c, w) = Some (r, c', w')"
    and "d = cl_timeout c" and "ns = cl_nodes c"
  shows "\<exists>k. (\<forall>j < k. \<not> all_up (round_start get pause d ns j w) d ns \<and> now (asked_all get d ns (round_start get pause d ns j w)) \<le> deadline)
    \<and> (case r of
         None \<Rightarrow> all_up (round_start get pause d ns k w) d ns \<and> all_up w' d ns \<and> w' = asked_all get d ns (round_start get pause d ns k w)
       | Some (NotActiveErr ss) \<Rightarrow> \<not> all_up (round_start get pause d ns k w) d ns \<and> \<not> all_up w' d ns
           \<and> w' = asked_all get d ns (round_start get pause d ns k w) \<and> deadline < now w'
           \<and> (\<forall>n s. (n, s) \<in> set ss \<longleftrightarrow> n \<in> set ns \<and> s = seen_in w' d n)
       | Some (CErr e) \<Rightarrow> \<not> all_up (round_start get pause d ns k w) d ns
           \<and> now (asked_all get d ns (round_start get pause d ns k w)) \<le> deadline
           \<and> pause (asked_all get d ns (round_start get pause d ns k w)) = (Some e, w'))"
  using assms
proof (induction fuel arbitrary: c w)
  case (Suc f)
  obtain ss c1 w1 where ss: "states (c, w) = (ss, c1, w1)" by (metis prod_cases3)
  note sp = states_exact[OF Suc.prems(1) ss, folded Suc.prems(3,4)]
  have up: "(\<forall>(n, s) \<in> set ss. s = StateActive) \<longleftrightarrow> all_up w d ns" using all_active_up sp by blast
  have same: "answers w1 = answers w" "st w1 = st w" using sp by blast+
  then have seen: "seen_in w1 d = seen_in w d" "all_up w1 d ns = all_up w d ns" unfolding seen_in_def all_up_def by (simp_all cong: if_cong)
  consider (all) "all_up w d ns" | (late) "\<not> all_up w d ns" "now w1 > deadline" | (wait) "\<not> all_up w d ns" "\<not> now w1 > deadline" by blast
  then show ?case
  proof cases
    case all
    with Suc.prems(2) ss up have "r = None" "w' = w1" by auto
    with all sp seen show ?thesis by (intro exI[of _ 0]) (simp add: round_start_simps)
  next
    case late
    with Suc.prems(2) ss up have "r = Some (NotActiveErr ss)" "w' = w1" by (auto simp: Let_def split: if_splits)
    with late sp seen show ?thesis by (intro exI[of _ 0]) (simp add: round_start_simps)
  next
    case wait
    obtain e w2 where p: "pause w1 = (e, w2)" by fastforce
    show ?thesis
    proof (cases e)
      case (Some err)
      with Suc.prems(2) wait ss up p have "r = Some (CErr err)" "w' = w2" by (auto simp: Let_def split: if_splits)
      with wait sp p Some show ?thesis by (intro exI[of _ 0]) (simp add: round_start_simps)
    next
      case None
      with Suc.prems(2) wait ss up p have "await_loop now pause f deadline (c1, w2) = Some (r, c', w')"
        by (auto simp: Let_def split: if_splits)
      from Suc.IH[OF _ this] sp obtain k where k:
        "\<forall>j < k. \<not> all_up (round_start get pause d ns j w2) d ns \<and> now (asked_all get d ns (round_start get pause d ns j w2)) \<le> deadline"
        "case r of
         None \<Rightarrow> all_up (round_start get pause d ns k w2) d ns \<and> all_up w' d ns \<and> w' = asked_all get d ns (round_start get pause d ns k w2)
       | Some (NotActiveErr ss) \<Rightarrow> \<not> all_up (round_start get pause d ns k w2) d ns \<and> \<not> all_up w' d ns
           \<and> w' = asked_all get d ns (round_start get pause d ns k w2) \<and> deadline < now w'
           \<and> (\<forall>n s. (n, s) \<in> set ss \<longleftrightarrow> n \<in> set ns \<and> s = seen_in w' d n)
       | Some (CErr e) \<Rightarrow> \<not> all_up (round_start get pause d ns k w2) d ns
           \<and> now (asked_all get d ns (round_start get pause d ns k w2)) \<le> deadline
           \<and> pause (asked_all get d ns (round_start get pause d ns k w2)) = (Some e, w')"
        by auto
      have w2: "w2 = snd (pause (asked_all get d ns w))" using p sp by simp
      have "\<forall>j < Suc k. \<not> all_up (round_start get pause d ns j w) d ns \<and> now (asked_all get d ns (round_start get pause d ns j w)) \<le> deadline"
        using k(1) wait sp w2 by (auto simp: less_Suc_eq_0_disj round_start_simps)
      with k(2) show ?thesis unfolding w2 round_start_simps(2)[symmetric] by blast
    qed
  qed
qed simp

end

section \<open>The nodes of this framework\<close>

text \<open>The managed nodes of \<^verbatim>\<open>lifecycle.go\<close> behind the in-process bus, as a world: each served
  machine, what its hooks return when they run, the time a call on it takes, the clock and the
  error of the caller's context. A call that times out still runs to its end.\<close>

record ('h, 'c) fleet_world =
  fw_machine :: "string \<Rightarrow> ('h, 'c) lifecycle option"
  fw_env :: "string \<Rightarrow> 'h \<Rightarrow> hook_run"
  fw_delay :: "string \<Rightarrow> nat"
  fw_now :: int
  fw_ctx :: "goerror option"

definition answer_in_time :: "string \<Rightarrow> int \<Rightarrow> nat \<Rightarrow> 'r \<Rightarrow> 'r result" where
  "answer_in_time service d delay r = (if int delay < d then Inr r else Inl (no_response service d))"

definition fleet_get :: "string \<Rightarrow> ('h, 'c) fleet_world get_call" where
  "fleet_get n d w =
     (case fw_machine w n of
        None \<Rightarrow> (Inl (no_server (n @ ''/get_state'')), w)
      | Some l \<Rightarrow> (answer_in_time (n @ ''/get_state'') d (fw_delay w n) (get_state l),
          w\<lparr>fw_now := fw_now w + min d (int (fw_delay w n))\<rparr>))"

definition fleet_change :: "string \<Rightarrow> ('h, 'c) fleet_world change_call" where
  "fleet_change n m d w =
     (case fw_machine w n of
        None \<Rightarrow> (Inl (no_server (n @ ''/change_state'')), w)
      | Some l \<Rightarrow>
          (let (ok, l', eff) = change_state (fw_env w n) (fst m) l
           in (answer_in_time (n @ ''/change_state'') d (fw_delay w n) ok,
               w\<lparr>fw_machine := (fw_machine w)(n \<mapsto> l'),
                 fw_now := fw_now w + min d (int (fw_delay w n))\<rparr>)))"

definition fleet_state :: "('h, 'c) fleet_world \<Rightarrow> string \<Rightarrow> lstate" where
  "fleet_state w n = (case fw_machine w n of None \<Rightarrow> StateUnknown | Some l \<Rightarrow> lc_state l)"

text \<open>The wait between two rounds: \<open>meanwhile\<close> is whatever happens in the world during it, to the machines, to their hooks, to
  the time they take and to the context; only the clock does not run back, and has run for the interval when the context
  is not done.\<close>

definition fleet_pause :: "(('h, 'c) fleet_world \<Rightarrow> ('h, 'c) fleet_world) \<Rightarrow> ('h, 'c) fleet_world \<Rightarrow> goerror option \<times> ('h, 'c) fleet_world" where
  "fleet_pause meanwhile w =
     (let v = meanwhile w
      in (fw_ctx v, v\<lparr>fw_now := max (fw_now v) (case fw_ctx v of Some _ \<Rightarrow> fw_now w | None \<Rightarrow> fw_now w + poll_interval)\<rparr>))"

definition fleet_answers :: "('h, 'c) fleet_world \<Rightarrow> int \<Rightarrow> string \<Rightarrow> bool" where
  "fleet_answers w d n \<longleftrightarrow> fw_machine w n \<noteq> None \<and> int (fw_delay w n) < d"

text \<open>Every declared node is served, answers within the timeout, and its hooks succeed.\<close>

definition fleet_live :: "('h, 'c) fleet_world \<Rightarrow> int \<Rightarrow> string set \<Rightarrow> bool" where
  "fleet_live w d N \<longleftrightarrow> fw_ctx w = None \<and>
     (\<forall>n \<in> N. fw_machine w n \<noteq> None \<and> int (fw_delay w n) < d \<and> fw_env w n = (\<lambda>_. Returned None))"

lemma run_hook_willing: "\<forall>h. env h = Returned None \<Longrightarrow> run_hook node env fn = None"
  by (auto simp: run_hook_def split: option.splits)

lemma change_state_spec:
  assumes "change_state env t l = (ok, l', eff)"
  shows "(ok \<longrightarrow> transition_table (lc_state l) t = Some (lc_state l'))
    \<and> (\<not> ok \<longrightarrow> lc_state l' = lc_state l)
    \<and> ((\<forall>h. env h = Returned None) \<longrightarrow> transition_table (lc_state l) t \<noteq> None \<longrightarrow> ok)"
  using assms run_hook_willing[of env "lc_node l" "for_transition (lc_hooks l) t"]
  by (cases "run_hook (lc_node l) env (for_transition (lc_hooks l) t)")
    (auto simp: change_state_def transition_cases lc_finish_def Let_def
      split: option.splits prod.splits)

lemma fleet_change_Some:
  assumes "fw_machine w n = Some l" and "change_state (fw_env w n) t l = (ok, l', eff)"
  shows "fleet_change n (msg_of_transition t) d w =
    (answer_in_time (n @ ''/change_state'') d (fw_delay w n) ok,
     w\<lparr>fw_machine := (fw_machine w)(n \<mapsto> l'), fw_now := fw_now w + min d (int (fw_delay w n))\<rparr>)"
  using assms by (simp add: fleet_change_def msg_of_transition_def)

interpretation fleet: managed_nodes fleet_get fleet_change fleet_state
proof
  fix n :: string and d r and w w' :: "('a, 'b) fleet_world"
  show "fleet_get n d w = (r, w') \<Longrightarrow> fleet_state w' = fleet_state w"
    by (auto simp: fleet_get_def fleet_state_def fun_eq_iff split: option.splits)
next
  fix n :: string and d m and w w' :: "('a, 'b) fleet_world"
  show "fleet_get n d w = (Inr m, w') \<Longrightarrow> fst m = fleet_state w n"
    by (auto simp: fleet_get_def fleet_state_def answer_in_time_def get_state_def msg_of_state_def
        split: option.splits if_splits)
next
  fix n k :: string and u d ok and w w' :: "('a, 'b) fleet_world"
  show "fleet_change n u d w = (ok, w') \<Longrightarrow> k \<noteq> n \<Longrightarrow> fleet_state w' k = fleet_state w k"
    by (auto simp: fleet_change_def fleet_state_def split: option.splits prod.splits)
next
  fix n :: string and t d and w w' :: "('a, 'b) fleet_world"
  assume a: "fleet_change n (msg_of_transition t) d w = (Inr True, w')"
  then obtain l where l: "fw_machine w n = Some l" by (auto simp: fleet_change_def split: option.splits)
  obtain ok l' eff where c: "change_state (fw_env w n) t l = (ok, l', eff)" by (metis prod_cases3)
  from a fleet_change_Some[OF l c] l change_state_spec[OF c]
  show "transition_table (fleet_state w n) t = Some (fleet_state w' n)"
    by (auto simp: fleet_state_def answer_in_time_def split: if_splits)
next
  fix n :: string and t d ok and w w' :: "('a, 'b) fleet_world"
  assume a: "fleet_change n (msg_of_transition t) d w = (ok, w')"
  show "fleet_state w' n = fleet_state w n \<or> transition_table (fleet_state w n) t = Some (fleet_state w' n)"
  proof (cases "fw_machine w n")
    case None
    with a show ?thesis by (auto simp: fleet_change_def)
  next
    case (Some l)
    obtain b l' eff where c: "change_state (fw_env w n) t l = (b, l', eff)" by (metis prod_cases3)
    from a fleet_change_Some[OF Some c] Some change_state_spec[OF c] show ?thesis
      by (cases b) (auto simp: fleet_state_def)
  qed
qed

interpretation fleet: willing_nodes fleet_get fleet_change fleet_state fleet_live fw_ctx
proof
  fix w :: "('a, 'b) fleet_world" and d N
  show "fleet_live w d N \<Longrightarrow> fw_ctx w = None" by (simp add: fleet_live_def)
next
  fix w :: "('a, 'b) fleet_world" and d N n
  assume "fleet_live w d N" "n \<in> N"
  then have "fw_machine w n \<noteq> None" "int (fw_delay w n) < d" unfolding fleet_live_def by blast+
  then obtain l where "fw_machine w n = Some l" "int (fw_delay w n) < d" by blast
  then have "fleet_get n d w = (Inr (get_state l), w\<lparr>fw_now := fw_now w + min d (int (fw_delay w n))\<rparr>)"
    by (simp add: fleet_get_def answer_in_time_def)
  moreover have "fleet_live (w\<lparr>fw_now := fw_now w + min d (int (fw_delay w n))\<rparr>) d N"
    using \<open>fleet_live w d N\<close> by (simp add: fleet_live_def)
  ultimately show "\<exists>m w'. fleet_get n d w = (Inr m, w') \<and> fleet_live w' d N" by blast
next
  fix w :: "('a, 'b) fleet_world" and d N n t
  assume a: "fleet_live w d N" "n \<in> N" "transition_table (fleet_state w n) t \<noteq> None"
  have "fw_machine w n \<noteq> None" using a(1,2) unfolding fleet_live_def by blast
  then obtain l where l: "fw_machine w n = Some l" by blast
  obtain ok l' eff where c: "change_state (fw_env w n) t l = (ok, l', eff)" by (metis prod_cases3)
  have ok using change_state_spec[OF c] a l by (auto simp: fleet_live_def fleet_state_def)
  let ?w = "w\<lparr>fw_machine := (fw_machine w)(n \<mapsto> l'), fw_now := fw_now w + min d (int (fw_delay w n))\<rparr>"
  have "fleet_change n (msg_of_transition t) d w = (Inr True, ?w)"
    using fleet_change_Some[OF l c, of d] a \<open>ok\<close> by (simp add: fleet_live_def answer_in_time_def)
  moreover have "fleet_live ?w d N" using a by (simp add: fleet_live_def)
  ultimately show "\<exists>w'. fleet_change n (msg_of_transition t) d w = (Inr True, w') \<and> fleet_live w' d N"
    by blast
qed

interpretation fleet: polled_nodes fleet_get fleet_change fleet_state fw_now "fleet_pause meanwhile" fleet_answers for meanwhile
proof
  fix n :: string and d r and w w' :: "('a, 'b) fleet_world"
  show "fleet_get n d w = (r, w') \<Longrightarrow> 0 \<le> d \<Longrightarrow> fw_now w \<le> fw_now w'"
    by (auto simp: fleet_get_def split: option.splits)
next
  fix w w' :: "('a, 'b) fleet_world"
  show "fleet_pause meanwhile w = (None, w') \<Longrightarrow> fw_now w + poll_interval \<le> fw_now w'"
    by (auto simp: fleet_pause_def Let_def split: option.splits)
next
  fix n :: string and d r and w w' :: "('a, 'b) fleet_world"
  assume "fleet_get n d w = (r, w')"
  then show "(\<exists>m. r = Inr m) \<longleftrightarrow> fleet_answers w d n" "fleet_answers w' = fleet_answers w"
    by (auto simp: fleet_get_def fleet_answers_def answer_in_time_def fun_eq_iff split: option.splits if_splits)
qed


section \<open>Binding\<close>

lemma node_list_loop_distinct:
  "node_list_loop tag raws out = Inr ns \<Longrightarrow> distinct out \<Longrightarrow> distinct ns \<and> length ns = length out + length raws"
  by (induction raws arbitrary: out) (auto simp: Let_def split: if_splits)

lemma parse_node_list_distinct: "parse_node_list tag = Inr ns \<Longrightarrow> distinct ns \<and> ns \<noteq> []"
proof -
  assume a: "parse_node_list tag = Inr ns"
  then have "node_list_loop tag (split_on (CHR '','') tag) [] = Inr ns"
    by (simp add: parse_node_list_def split: if_splits)
  from node_list_loop_distinct[OF this] show ?thesis
    by (cases ns) auto
qed

text \<open>Go slices and map iteration aside, a field that binds is wired to the nodes it names.\<close>

lemma bind_calls:
  assumes "list_all2 (\<lambda>n c. bind_result (dial_change (n @ ''/change_state'')) (\<lambda>f.
      bind_result (dial_state (n @ ''/get_state'')) (\<lambda>g. Inr (n, f, g))) = Inr c) ns cs"
    and "\<And>n f. dial_change (n @ ''/change_state'') = Inr f \<Longrightarrow> f = change n"
    and "\<And>n f. dial_state (n @ ''/get_state'') = Inr f \<Longrightarrow> f = get n"
  shows "cs = map (\<lambda>n. (n, change n, get n)) ns"
  using assms(1)
  by (induction rule: list_all2_induct) (auto simp: result_simps dest: assms(2,3))

lemma bind_wired:
  assumes "bind_lifecycle dial_change dial_state nodes timeout = Inr c"
    and "\<And>n f. dial_change (n @ ''/change_state'') = Inr f \<Longrightarrow> f = change n"
    and "\<And>n f. dial_state (n @ ''/get_state'') = Inr f \<Longrightarrow> f = get n"
  shows "wired get change c \<and> parse_node_list nodes = Inr (cl_nodes c) \<and> 0 < cl_timeout c"
proof -
  from assms(1) obtain ns d cs where p: "parse_node_list nodes = Inr ns" "client_timeout timeout = Inr d"
    and l: "list_all2 (\<lambda>n c. bind_result (dial_change (n @ ''/change_state'')) (\<lambda>f.
      bind_result (dial_state (n @ ''/get_state'')) (\<lambda>g. Inr (n, f, g))) = Inr c) ns cs"
    and c: "c = \<lparr>cl_nodes = ns, cl_timeout = d, cl_change = map (\<lambda>(n, f, g). (n, f)) cs,
       cl_state = map (\<lambda>(n, f, g). (n, g)) cs, cl_calls = 0, cl_seen = []\<rparr>"
    by (auto simp: bind_lifecycle_def bind_result_Inr map_result_Inr)
  from p(2) have "0 < d" by (auto simp: client_timeout_def split: if_splits option.splits)
  moreover have "cs = map (\<lambda>n. (n, change n, get n)) ns" using bind_calls[OF l assms(2,3)] .
  ultimately show ?thesis using p(1) by (auto simp: c wired_def)
qed

section \<open>Properties\<close>

text \<open>C21. What \<^verbatim>\<open>BringUp\<close> does to managed nodes of this framework, whatever fails on the way: with
  no error every declared node is Active; a declared node only ever climbs from Unconfigured over
  Inactive to Active, other nodes are left alone; and while some declared node is still
  Unconfigured, no node has been activated, so a node that cannot configure is found before any of
  its peers starts publishing.\<close>

theorem bring_up_order:
  assumes "wired fleet_get fleet_change c" and "bring_up ctx (c, w) = (r, c', w')"
  shows "(\<forall>k. climbed (fleet_state w k) (fleet_state w' k)
        \<and> (k \<notin> set (cl_nodes c) \<longrightarrow> fleet_state w' k = fleet_state w k))
    \<and> (r = None \<longrightarrow> (\<forall>k \<in> set (cl_nodes c). fleet_state w' k = StateActive))
    \<and> ((\<exists>k \<in> set (cl_nodes c). fleet_state w' k = StateUnconfigured) \<longrightarrow>
         (\<forall>k. fleet_state w' k = StateActive \<longleftrightarrow> fleet_state w k = StateActive))"
  using fleet.bring_up_spec[OF assms] by blast

text \<open>The stack the examples use: a map server, and a node whose configure hook \<open>bad\<close> decides.\<close>

definition stack_hooks :: "nat hooks" where
  "stack_hooks = \<lparr>configure = Some 0, activate = None, deactivate = None, cleanup = None, shutdown = None\<rparr>"

definition stack_world :: "goerror option \<Rightarrow> (nat, nat) fleet_world" where
  "stack_world bad = \<lparr>fw_machine = [''map'' \<mapsto> new_lifecycle ''map'' stack_hooks, ''amcl'' \<mapsto> new_lifecycle ''amcl'' stack_hooks],
     fw_env = (\<lambda>n h. if n = ''amcl'' then Returned bad else Returned None),
     fw_delay = (\<lambda>_. 1000), fw_now = 0, fw_ctx = None\<rparr>"

definition stack_client :: "(nat, nat) fleet_world lclient" where
  "stack_client = \<lparr>cl_nodes = [''map'', ''amcl''], cl_timeout = 10000,
     cl_change = [(''map'', fleet_change ''map''), (''amcl'', fleet_change ''amcl'')],
     cl_state = [(''map'', fleet_get ''map''), (''amcl'', fleet_get ''amcl'')], cl_calls = 0, cl_seen = []\<rparr>"

lemma stack_wired: "wired fleet_get fleet_change stack_client"
  by (simp add: wired_def stack_client_def)

lemma stack_live: "fleet_live (stack_world None) 10000 {''map'', ''amcl''}"
  by (simp add: fleet_live_def stack_world_def)

lemma stack_unconfigured:
  "n \<in> {''map'', ''amcl''} \<Longrightarrow> fleet_state (stack_world b) n = StateUnconfigured"
  by (auto simp: fleet_state_def stack_world_def new_lifecycle_def)

theorem bring_up_order_witness:
  "\<exists>c' w'. bring_up fw_ctx (stack_client, stack_world None) = (None, c', w')
     \<and> fleet_state w' ''map'' = StateActive \<and> fleet_state w' ''amcl'' = StateActive"
proof -
  have "\<exists>c' w'. bring_up fw_ctx (stack_client, stack_world None) = (None, c', w')"
    using fleet.bring_up_live[OF stack_wired, of "stack_world None"] stack_live stack_unconfigured
    by (simp add: stack_client_def)
  then obtain c' w' where b: "bring_up fw_ctx (stack_client, stack_world None) = (None, c', w')" by blast
  from bring_up_order[OF stack_wired b] b show ?thesis by (auto simp: stack_client_def)
qed

text \<open>\<^verbatim>\<open>BringUp\<close> is safe to retry: after an attempt that failed anywhere, on a stack no node of
  which was finalized or in transition, a further attempt in which the nodes answer and their
  hooks succeed brings every declared node to Active.\<close>

theorem bring_up_retry:
  assumes "wired fleet_get fleet_change c"
    and "\<forall>n \<in> set (cl_nodes c). fleet_state w n \<in> {StateUnconfigured, StateInactive, StateActive}"
    and "bring_up ctx (c, w) = (Some e, c', w')"
    and "fleet_live v (cl_timeout c') (set (cl_nodes c'))"
    and "fleet_state v = fleet_state w'"
  shows "\<exists>c'' v'. bring_up fw_ctx (c', v) = (None, c'', v')
    \<and> (\<forall>n \<in> set (cl_nodes c). fleet_state v' n = StateActive)"
proof -
  note s = fleet.bring_up_spec[OF assms(1,3)]
  have "\<forall>n \<in> set (cl_nodes c'). fleet_state v n \<in> {StateUnconfigured, StateInactive, StateActive}"
  proof
    fix n assume "n \<in> set (cl_nodes c')"
    then have "fleet_state w n \<in> {StateUnconfigured, StateInactive, StateActive}" using assms(2) s by auto
    moreover have "climbed (fleet_state w n) (fleet_state v n)" using s assms(5) by simp
    ultimately show "fleet_state v n \<in> {StateUnconfigured, StateInactive, StateActive}"
      by (auto simp: climbed_def)
  qed
  with s assms(4) obtain c'' v' where b: "bring_up fw_ctx (c', v) = (None, c'', v')"
    using fleet.bring_up_live by blast
  from fleet.bring_up_spec[OF _ b] s b show ?thesis by auto
qed

theorem bring_up_retry_witness:
  "\<exists>c' w' c'' v'. bring_up (\<lambda>_. Some (Errorf ''context canceled'' [])) (stack_client, stack_world None)
       = (Some (Errorf ''context canceled'' []), c', w')
     \<and> bring_up fw_ctx (c', stack_world None) = (None, c'', v') \<and> fleet_state v' ''amcl'' = StateActive"
proof -
  have b: "bring_up (\<lambda>_. Some (Errorf ''context canceled'' [])) (stack_client, stack_world None)
       = (Some (Errorf ''context canceled'' []), stack_client, stack_world None)"
    by (simp add: bring_up_def stack_client_def)
  have "\<exists>c'' v'. bring_up fw_ctx (stack_client, stack_world None) = (None, c'', v')
    \<and> (\<forall>n \<in> set (cl_nodes stack_client). fleet_state v' n = StateActive)"
    by (rule bring_up_retry[OF stack_wired _ b])
      (use stack_live stack_unconfigured in \<open>auto simp: stack_client_def\<close>)
  with b show ?thesis by (auto simp: stack_client_def)
qed

text \<open>The nodes are up for a caller with a timeout of \<open>d\<close>: each answers in time, and is active.\<close>

definition fleet_up :: "('h, 'c) fleet_world \<Rightarrow> int \<Rightarrow> string list \<Rightarrow> bool" where
  "fleet_up w d ns \<longleftrightarrow> (\<forall>n \<in> set ns. fleet_answers w d n \<and> fleet_state w n = StateActive)"

text \<open>C22. \<^verbatim>\<open>AwaitActive\<close> waits for the nodes, whatever becomes of them while it pauses between two rounds of questions (\<open>meanwhile\<close> is any
  change of the world; during one round the nodes are as they are). It returns: one turn of the loop more than the timeout has polling
  intervals, and one to notice, always suffices. It returns in the first round that finds the nodes up, with nil, and then every declared node is
  active in the world it returns in, and answers; or after the first round that is over past the deadline, with the error, which
  tells of every declared node the state it is in, or that it is unknown when the node does not answer in time,
  and one of them is not active; or, when the context was done during a pause, with the context's error.\<close>

theorem await_active_returns:
  assumes "wired fleet_get fleet_change c" and "0 \<le> cl_timeout c" and "0 \<le> timeout"
    and "nat (timeout div poll_interval) + 2 \<le> fuel"
    and "d = cl_timeout c" and "ns = cl_nodes c" and "start = (\<lambda>k. round_start fleet_get (fleet_pause meanwhile) d ns k w)"
  shows "\<exists>r c' w' k. await_active fw_now (fleet_pause meanwhile) fuel timeout (c, w) = Some (r, c', w')
    \<and> (\<forall>j < k. \<not> fleet_up (start j) d ns \<and> fw_now (asked_all fleet_get d ns (start j)) \<le> fw_now w + timeout)
    \<and> (case r of
         None \<Rightarrow> fleet_up (start k) d ns \<and> w' = asked_all fleet_get d ns (start k) \<and> fleet_up w' d ns
       | Some (NotActiveErr ss) \<Rightarrow> \<not> fleet_up (start k) d ns \<and> w' = asked_all fleet_get d ns (start k) \<and> \<not> fleet_up w' d ns
           \<and> fw_now w + timeout < fw_now w'
           \<and> (\<forall>n s. (n, s) \<in> set ss \<longleftrightarrow> n \<in> set ns \<and> s = (if fleet_answers w' d n then fleet_state w' n else StateUnknown))
       | Some (CErr e) \<Rightarrow> \<not> fleet_up (start k) d ns \<and> fw_now (asked_all fleet_get d ns (start k)) \<le> fw_now w + timeout
           \<and> fw_ctx w' = Some e \<and> fleet_pause meanwhile (asked_all fleet_get d ns (start k)) = (Some e, w'))"
proof -
  have "timeout < (timeout div poll_interval + 1) * poll_interval"
    by (simp add: poll_interval_def algebra_simps)
  moreover have "(timeout div poll_interval + 1) * poll_interval \<le> (int fuel - 1) * poll_interval"
    using assms(3,4) by (intro mult_right_mono) (auto simp: poll_interval_def nat_le_iff)
  ultimately have "fw_now w + timeout < fw_now w + (int fuel - 1) * poll_interval" by simp
  moreover have "0 < fuel" using assms(4) by simp
  ultimately obtain res where r: "await_loop fw_now (fleet_pause meanwhile) fuel (fw_now w + timeout) (c, w) = Some res"
    using fleet.await_loop_returns[OF assms(1,2)] by blast
  obtain a b v where res: "res = (a, b, v)" by (metis prod_cases3)
  have up: "fleet.all_up = (fleet_up :: ('a, 'b) fleet_world \<Rightarrow> int \<Rightarrow> string list \<Rightarrow> bool)"
    by (simp add: fleet.all_up_def fleet_up_def fun_eq_iff)
  have ctx: "fleet_pause meanwhile u = (Some e, v) \<Longrightarrow> fw_ctx v = Some e" for u e
    by (auto simp: fleet_pause_def Let_def)
  from fleet.await_loop_exact[OF assms(1) r[unfolded res] assms(5,6), unfolded up, folded assms(7)[THEN fun_cong]]
  obtain k where "\<forall>j < k. \<not> fleet_up (start j) d ns \<and> fw_now (asked_all fleet_get d ns (start j)) \<le> fw_now w + timeout"
    "case a of
         None \<Rightarrow> fleet_up (start k) d ns \<and> fleet_up v d ns \<and> v = asked_all fleet_get d ns (start k)
       | Some (NotActiveErr ss) \<Rightarrow> \<not> fleet_up (start k) d ns \<and> \<not> fleet_up v d ns \<and> v = asked_all fleet_get d ns (start k)
           \<and> fw_now w + timeout < fw_now v \<and> (\<forall>n s. (n, s) \<in> set ss \<longleftrightarrow> n \<in> set ns \<and> s = fleet.seen_in v d n)
       | Some (CErr e) \<Rightarrow> \<not> fleet_up (start k) d ns \<and> fw_now (asked_all fleet_get d ns (start k)) \<le> fw_now w + timeout
           \<and> fleet_pause meanwhile (asked_all fleet_get d ns (start k)) = (Some e, v)"
    by (elim exE conjE) (rule that; assumption)
  then show ?thesis
    using r ctx unfolding res await_active_def
    by (intro exI[of _ a] exI[of _ b] exI[of _ v] exI[of _ k])
      (auto simp: fleet.seen_in_def split: option.split client_error.split)
qed

text \<open>The map server is up from the start; the other node comes up during the first pause.\<close>

definition amcl_comes_up :: "(nat, nat) fleet_world \<Rightarrow> (nat, nat) fleet_world" where
  "amcl_comes_up w = w\<lparr>fw_machine := (\<lambda>n. map_option (\<lambda>l. l\<lparr>lc_state := StateActive\<rparr>) (fw_machine w n))\<rparr>"

theorem await_active_returns_witness:
  "\<exists>c' w'. await_active fw_now (fleet_pause amcl_comes_up) 3 200000000 (stack_client, stack_world None) = Some (None, c', w')
     \<and> fleet_up w' 10000 [''map'', ''amcl'']"
proof -
  let ?c = stack_client and ?w = "stack_world None"
  let ?start = "\<lambda>k. round_start fleet_get (fleet_pause amcl_comes_up) 10000 [''map'', ''amcl''] k ?w"
  obtain r c' w' k where a: "await_active fw_now (fleet_pause amcl_comes_up) 3 200000000 (?c, ?w) = Some (r, c', w')"
    and r: "r = None \<Longrightarrow> fleet_up w' 10000 [''map'', ''amcl'']"
    using await_active_returns[OF stack_wired, of 200000000 3 10000 "[''map'', ''amcl'']" ?start amcl_comes_up ?w]
    by (fastforce simp: stack_client_def poll_interval_def)
  have "map_option fst (await_active fw_now (fleet_pause amcl_comes_up) 3 200000000 (?c, ?w)) = Some None" by code_simp
  with a r show ?thesis by auto
qed

text \<open>A slash alone is not a node name, but the tag parser accepts it: it tests for the empty name
  before it strips the leading slash.\<close>

theorem slash_names_no_node: "parse_node_list ''map,/'' = Inr [''map'', []]"
  by (simp add: parse_node_list_def trim_space_def is_space_def trim_prefix_def of_char_def)

end
