(* ===== verification/Frames.thy ===== *)
theory Frames
imports Go_Prelude
begin

text \<open>
  The declared transform tree (\<^verbatim>\<open>frames.go\<close>): its links, the queries the checker and the runtime
  make of it, the structural check, and the breadth-first search behind \<^verbatim>\<open>Lookup\<close> and
  \<^verbatim>\<open>Connects\<close>. A \<^verbatim>\<open>nil\<close> tree is \<^term>\<open>None\<close>. The geometry of a link (its \<^verbatim>\<open>XYZ\<close> and \<^verbatim>\<open>RPY\<close>) is
  a value of any type and the rigid motions it is turned into are an argument of \<open>lookup\<close>.
  Reading and parsing \<^verbatim>\<open>frames.json\<close> is not modelled, only what is done with the parsed lists.
\<close>

section \<open>The tree\<close>

record 'v transform =
  parent :: string
  child :: string
  pose :: 'v
  dynamic :: bool
  by_node :: string

definition ours :: "'v transform \<Rightarrow> bool" where
  "ours t \<longleftrightarrow> \<not> dynamic t \<and> by_node t = ''''"

definition or_unknown :: "string \<Rightarrow> string" where
  "or_unknown s = (if s = '''' then ''an external node'' else s)"

definition transform_string :: "'v transform \<Rightarrow> string" where
  "transform_string t =
     (if dynamic t then parent t @ '' -> '' @ child t @ '' (dynamic, by '' @ or_unknown (by_node t) @ '')''
      else if by_node t \<noteq> '''' then parent t @ '' -> '' @ child t @ '' (fixed, by '' @ by_node t @ '')''
      else parent t @ '' -> '' @ child t)"

record 'v frame_tree =
  path_name :: string
  transforms :: "'v transform list"

definition load_frames :: "string \<Rightarrow> 'v transform list \<Rightarrow> 'v transform list \<Rightarrow> 'v frame_tree result" where
  "load_frames p static_tfs dynamic_tfs =
     (let tfs = map (\<lambda>t. t\<lparr>dynamic := False\<rparr>) static_tfs @ map (\<lambda>t. t\<lparr>dynamic := True\<rparr>) dynamic_tfs
      in if \<exists>t \<in> set tfs. parent t = '''' \<or> child t = ''''
         then Inl (Errorf ''%s: every transform needs a parent and a child'' [GStr p])
         else Inr \<lparr>path_name = p, transforms = tfs\<rparr>)"

definition tfs_of :: "'v frame_tree option \<Rightarrow> 'v transform list" where
  "tfs_of t = (case t of None \<Rightarrow> [] | Some t \<Rightarrow> transforms t)"

definition fixed_transforms :: "'v frame_tree option \<Rightarrow> 'v transform list" where
  "fixed_transforms t = filter (\<lambda>tf. \<not> dynamic tf) (tfs_of t)"

definition published :: "'v frame_tree option \<Rightarrow> 'v transform list" where
  "published t = filter ours (tfs_of t)"

definition frames :: "'v frame_tree option \<Rightarrow> string list" where
  "frames t = sort (foldl append_once [] (concat (map (\<lambda>tf. [parent tf, child tf]) (tfs_of t))))"

definition has_frame :: "'v frame_tree option \<Rightarrow> string \<Rightarrow> bool" where
  "has_frame t f \<longleftrightarrow> (\<exists>tf \<in> set (tfs_of t). parent tf = f \<or> child tf = f)"

definition roots :: "'v frame_tree option \<Rightarrow> string list" where
  "roots t = filter (\<lambda>f. f \<notin> set (map child (tfs_of t))) (frames t)"

section \<open>The structural check\<close>

record frame_problem =
  kind :: string
  problem_msg :: goerror

definition parents_of :: "'v transform list \<Rightarrow> string \<Rightarrow> 'v transform list" where
  "parents_of tfs c = filter (\<lambda>tf. child tf = c) tfs"

definition all_frames :: "'v transform list \<Rightarrow> string set" where
  "all_frames tfs = parent ` set tfs \<union> child ` set tfs"

lemma finite_all_frames [simp]: "finite (all_frames tfs)"
  by (simp add: all_frames_def)

lemma parents_of_Cons: "parents_of tfs c = p # ps \<Longrightarrow> p \<in> set tfs \<and> child p = c"
proof -
  assume "parents_of tfs c = p # ps"
  then have "p \<in> set (parents_of tfs c)" by simp
  then show ?thesis by (simp add: parents_of_def)
qed

text \<open>The walk up the first parent of each frame, from \<open>f\<close>, for as long as it meets new frames:
  does it come back to \<open>f\<close>?\<close>

function cycle_walk :: "'v transform list \<Rightarrow> string \<Rightarrow> string list \<Rightarrow> string \<Rightarrow> bool" where
  "cycle_walk tfs f seen cur =
     (case parents_of tfs cur of
        [] \<Rightarrow> False
      | p # _ \<Rightarrow>
          if parent p = f then True
          else if parent p \<in> set seen then False
          else cycle_walk tfs f (parent p # seen) (parent p))"
  by pat_completeness auto
termination
proof (relation "measure (\<lambda>(tfs, f, seen, cur). card (all_frames tfs - set seen))", simp)
  fix tfs :: "'v transform list" and f seen cur p ps
  assume p: "parents_of tfs cur = p # ps" and new: "parent p \<notin> set seen"
  from parents_of_Cons[OF p] have "parent p \<in> all_frames tfs" by (auto simp: all_frames_def)
  with new have "all_frames tfs - set (parent p # seen) \<subset> all_frames tfs - set seen" by auto
  then show "((tfs, f, parent p # seen, parent p), tfs, f, seen, cur)
      \<in> measure (\<lambda>(tfs, f, seen, cur). card (all_frames tfs - set seen))"
    by (simp add: psubset_card_mono)
qed

declare cycle_walk.simps [simp del]

definition multiple_parents :: "'v transform list \<Rightarrow> frame_problem list" where
  "multiple_parents tfs =
     map (\<lambda>c. \<lparr>kind = ''multiple_parents'',
         problem_msg = Errorf ''frame %q has %d parents (%s); in a transform tree a frame has exactly one''
           [GStr c, GInt (int (length (parents_of tfs c))),
            GStr (join '', '' (map parent (parents_of tfs c)))]\<rparr>)
       (filter (\<lambda>c. 1 < length (parents_of tfs c)) (sort (foldl append_once [] (map child tfs))))"

definition cycles_of :: "'v frame_tree option \<Rightarrow> frame_problem list" where
  "cycles_of t =
     map (\<lambda>f. \<lparr>kind = ''cycle'',
         problem_msg = Errorf ''frames %q and its parents form a cycle'' [GStr f]\<rparr>)
       (filter (\<lambda>f. cycle_walk (tfs_of t) f [f] f) (frames t))"

definition disconnected :: "'v frame_tree option \<Rightarrow> frame_problem list" where
  "disconnected t =
     (if 1 < length (roots t)
      then [\<lparr>kind = ''disconnected'',
        problem_msg = Errorf ''the tree has %d roots (%s); a transform tree has one, and frames under different roots cannot be transformed between''
          [GInt (int (length (roots t))), GStr (join '', '' (roots t))]\<rparr>]
      else [])"

definition check :: "'v frame_tree option \<Rightarrow> frame_problem list" where
  "check t =
     (if tfs_of t = [] then []
      else multiple_parents (tfs_of t) @ cycles_of t @ disconnected t)"

section \<open>Paths\<close>

record 'v link =
  tf :: "'v transform"
  inverse :: bool

text \<open>One iteration of the loop over the transforms: the frame a link leads to from \<open>cur\<close>.\<close>

definition traverse :: "string \<Rightarrow> 'v transform \<Rightarrow> (string \<times> 'v link) option" where
  "traverse cur x =
     (if parent x = cur then Some (child x, \<lparr>tf = x, inverse = False\<rparr>)
      else if child x = cur then Some (parent x, \<lparr>tf = x, inverse = True\<rparr>)
      else None)"

text \<open>The inner loop: an early return with the path, or the sets it leaves.\<close>

fun bfs_scan :: "'v transform list \<Rightarrow> string \<Rightarrow> string \<Rightarrow> 'v link list \<Rightarrow> string list
    \<Rightarrow> (string \<times> 'v link list) list \<Rightarrow> 'v link list + (string list \<times> (string \<times> 'v link list) list)" where
  "bfs_scan [] source cur via seen queue = Inr (seen, queue)"
| "bfs_scan (x # xs) source cur via seen queue =
     (case traverse cur x of
        None \<Rightarrow> bfs_scan xs source cur via seen queue
      | Some (nxt, l) \<Rightarrow>
          if nxt \<in> set seen then bfs_scan xs source cur via seen queue
          else if nxt = source then Inl (via @ [l])
          else bfs_scan xs source cur via (nxt # seen) (queue @ [(nxt, via @ [l])]))"

lemma traverse_frames: "traverse cur x = Some (nxt, l) \<Longrightarrow> nxt \<in> {parent x, child x}"
  by (auto simp: traverse_def split: if_splits)

lemma bfs_scan_measure:
  assumes "finite F" and "\<forall>x \<in> set xs. parent x \<in> F \<and> child x \<in> F"
    and "bfs_scan xs source cur via seen queue = Inr (seen', queue')"
  shows "length queue' + card (F - set seen') \<le> length queue + card (F - set seen)"
  using assms
proof (induction xs source cur via seen queue rule: bfs_scan.induct)
  case (2 x xs source cur via seen queue)
  show ?case
  proof (cases "traverse cur x")
    case None
    with 2 show ?thesis by simp
  next
    case (Some nl)
    obtain nxt l where nl: "nl = (nxt, l)" by (cases nl)
    show ?thesis
    proof (cases "nxt \<in> set seen \<or> nxt = source")
      case True
      with 2 Some nl show ?thesis by (auto split: if_splits)
    next
      case False
      have "nxt \<in> F" using traverse_frames[OF Some[unfolded nl]] 2(5) by auto
      then have "Suc (card (F - set (nxt # seen))) = card (F - set seen)"
        using False 2(4) by (metis DiffI Diff_insert card.remove finite_Diff list.set(2))
      moreover have "length queue' + card (F - set seen')
          \<le> length (queue @ [(nxt, via @ [l])]) + card (F - set (nxt # seen))"
        using 2 Some nl False by auto
      ultimately show ?thesis by simp
    qed
  qed
qed simp

function bfs :: "'v transform list \<Rightarrow> string \<Rightarrow> string list \<Rightarrow> (string \<times> 'v link list) list
    \<Rightarrow> 'v link list option" where
  "bfs tfs source seen [] = None"
| "bfs tfs source seen ((cur, via) # queue) =
     (case bfs_scan tfs source cur via seen queue of
        Inl links \<Rightarrow> Some links
      | Inr (seen', queue') \<Rightarrow> bfs tfs source seen' queue')"
  by pat_completeness auto
termination
proof (relation "measure (\<lambda>(tfs, source, seen, queue). length queue + card (all_frames tfs - set seen))", simp)
  fix tfs :: "'v transform list" and source seen cur via queue r seen' queue'
  assume "bfs_scan tfs source cur via seen queue = Inr r" "(seen', queue') = r"
  then have "length queue' + card (all_frames tfs - set seen') \<le> length queue + card (all_frames tfs - set seen)"
    by (intro bfs_scan_measure[of _ tfs source cur via]) (auto simp: all_frames_def)
  then show "((tfs, source, seen', queue'), tfs, source, seen, (cur, via) # queue)
      \<in> measure (\<lambda>(tfs, source, seen, queue). length queue + card (all_frames tfs - set seen))"
    by simp
qed

definition path :: "'v frame_tree option \<Rightarrow> string \<Rightarrow> string \<Rightarrow> 'v link list result" where
  "path t target source =
     (case t of
        None \<Rightarrow> Inl (Errorf ''no transform tree is declared (add frames.json)'' [])
      | Some tree \<Rightarrow>
          if \<not> has_frame t target then Inl (Errorf ''unknown frame %q'' [GStr target])
          else if \<not> has_frame t source then Inl (Errorf ''unknown frame %q'' [GStr source])
          else if target = source then Inr []
          else (case bfs (transforms tree) source [target] [(target, [])] of
                  Some via \<Rightarrow> Inr via
                | None \<Rightarrow> Inl (Errorf ''no transform connects %q and %q'' [GStr target, GStr source])))"

text \<open>\<^verbatim>\<open>Lookup\<close>, over the rigid motions given by their identity, composition, inverse and the
  motion of one link.\<close>

record ('v, 'm) motions =
  unit_motion :: 'm
  then_motion :: "'m \<Rightarrow> 'm \<Rightarrow> 'm"
  inverse_motion :: "'m \<Rightarrow> 'm"
  isometry :: "'v \<Rightarrow> 'm"

fun compose_links :: "('v, 'm) motions \<Rightarrow> string \<Rightarrow> string \<Rightarrow> 'v link list \<Rightarrow> 'm \<Rightarrow> 'm result" where
  "compose_links M target source [] out = Inr out"
| "compose_links M target source (l # ls) out =
     (if dynamic (tf l)
      then Inl (Errorf ''the path from %s to %s crosses the dynamic transform %s; look it up against tf at runtime''
             [GStr source, GStr target, GStr (transform_string (tf l))])
      else compose_links M target source ls
             (then_motion M out (if inverse l then inverse_motion M (isometry M (pose (tf l)))
                                 else isometry M (pose (tf l)))))"

definition lookup :: "('v, 'm) motions \<Rightarrow> 'v frame_tree option \<Rightarrow> string \<Rightarrow> string \<Rightarrow> 'm result" where
  "lookup M t target source =
     bind_result (path t target source) (\<lambda>links. compose_links M target source links (unit_motion M))"

definition connects :: "'v frame_tree option \<Rightarrow> string \<Rightarrow> string \<Rightarrow> goerror option" where
  "connects t a b = (case path t a b of Inl e \<Rightarrow> Some e | Inr _ \<Rightarrow> None)"

section \<open>Lemmas on the queries\<close>

lemma set_frames: "set (frames t) = all_frames (tfs_of t)"
  by (auto simp: frames_def foldl_append_once_set all_frames_def)

lemma has_frame_iff: "has_frame t f \<longleftrightarrow> f \<in> all_frames (tfs_of t)"
  by (auto simp: has_frame_def all_frames_def)

lemma sorted_frames [simp]: "sorted (frames t)" "distinct (frames t)"
  by (simp_all add: frames_def foldl_append_once_distinct)

lemma set_roots: "set (roots t) = all_frames (tfs_of t) - child ` set (tfs_of t)"
  by (auto simp: roots_def set_frames)

section \<open>The check excludes cycles and separate trees\<close>

text \<open>\<open>up\<close> steps from a frame to its first parent, \<open>joined\<close> along any link in either direction.\<close>

definition up :: "'v transform list \<Rightarrow> (string \<times> string) set" where
  "up tfs = {(c, p). \<exists>x xs. parents_of tfs c = x # xs \<and> p = parent x}"

definition joined :: "'v transform list \<Rightarrow> (string \<times> string) set" where
  "joined tfs = {(a, b). \<exists>x \<in> set tfs. (parent x = a \<and> child x = b) \<or> (child x = a \<and> parent x = b)}"

lemma up_unique: "(c, p) \<in> up tfs \<Longrightarrow> (c, q) \<in> up tfs \<Longrightarrow> p = q"
  by (auto simp: up_def)

lemma up_joined: "up tfs \<subseteq> joined tfs"
  by (auto simp: up_def joined_def dest: parents_of_Cons)

lemma joined_sym: "(a, b) \<in> joined tfs \<Longrightarrow> (b, a) \<in> joined tfs"
  by (auto simp: joined_def)

lemma joined_rtrancl_sym: "(a, b) \<in> (joined tfs)\<^sup>* \<Longrightarrow> (b, a) \<in> (joined tfs)\<^sup>*"
  by (induction rule: rtrancl_induct) (auto intro: converse_rtrancl_into_rtrancl joined_sym)

lemma joined_frames: "(a, b) \<in> joined tfs \<Longrightarrow> a \<in> all_frames tfs \<and> b \<in> all_frames tfs"
  by (auto simp: joined_def all_frames_def)

lemma finite_up: "finite (up tfs)"
proof (rule finite_subset)
  show "up tfs \<subseteq> all_frames tfs \<times> all_frames tfs"
  proof (rule subrelI)
    fix c p assume "(c, p) \<in> up tfs"
    then have "(c, p) \<in> joined tfs" using up_joined[of tfs] by blast
    then show "(c, p) \<in> all_frames tfs \<times> all_frames tfs" using joined_frames by simp
  qed
qed simp

lemma has_parent_up: "c \<in> child ` set tfs \<Longrightarrow> \<exists>p. (c, p) \<in> up tfs"
proof -
  assume "c \<in> child ` set tfs"
  then have "parents_of tfs c \<noteq> []" by (auto simp: parents_of_def filter_empty_conv)
  then show ?thesis by (cases "parents_of tfs c") (auto simp: up_def)
qed

lemma closed_trancl:
  assumes "(a, b) \<in> r\<^sup>+" and "a \<in> S" and "\<And>x y. x \<in> S \<Longrightarrow> (x, y) \<in> r \<Longrightarrow> y \<in> S \<and> y \<noteq> f"
  shows "b \<in> S \<and> b \<noteq> f"
  using assms(1,2) by (induction rule: trancl_induct) (auto dest: assms(3))

text \<open>Every frame the walk has left behind has its first parent among the frames seen, and that
  parent is not \<open>f\<close>: once a frame repeats, \<open>f\<close> can no longer be met.\<close>

lemma cycle_walk_complete:
  assumes "(cur, f) \<in> (up tfs)\<^sup>+" and "cur \<in> set seen"
    and "\<And>x y. x \<in> set seen \<Longrightarrow> x \<noteq> cur \<Longrightarrow> (x, y) \<in> up tfs \<Longrightarrow> y \<in> set seen \<and> y \<noteq> f"
  shows "cycle_walk tfs f seen cur"
  using assms
proof (induction tfs f seen cur rule: cycle_walk.induct)
  case (1 tfs f seen cur)
  from 1(2) obtain q where q: "(cur, q) \<in> up tfs" "(q, f) \<in> (up tfs)\<^sup>*"
    by (meson tranclD)
  then obtain p ps where p: "parents_of tfs cur = p # ps" "q = parent p" by (auto simp: up_def)
  consider "q = f" | "q \<noteq> f" "q \<in> set seen" | "q \<noteq> f" "q \<notin> set seen" by blast
  then show ?case
  proof cases
    case 1
    with p show ?thesis by (subst cycle_walk.simps) simp
  next
    case 2
    have "f \<noteq> f"
      using closed_trancl[OF 1(2), of "set seen" f] 1(3,4) q(1) 2 up_unique by metis
    then show ?thesis by simp
  next
    case 3
    then have t: "(q, f) \<in> (up tfs)\<^sup>+" using q(2) by (meson rtranclD)
    have "cycle_walk tfs f (parent p # seen) (parent p)"
    proof (rule "1.IH"[OF p(1)])
      show "\<And>x y. x \<in> set (parent p # seen) \<Longrightarrow> x \<noteq> parent p \<Longrightarrow> (x, y) \<in> up tfs
          \<Longrightarrow> y \<in> set (parent p # seen) \<and> y \<noteq> f"
        using 1(4) q(1) 3 p(2) up_unique by (metis list.set_intros(1,2) set_ConsD)
    qed (use 3 p t in auto)
    with 3 p show ?thesis by (subst cycle_walk.simps) simp
  qed
qed

lemma check_acyclic:
  assumes "check t = []"
  shows "acyclic (up (tfs_of t))"
proof (rule acyclicI, rule allI, rule notI)
  fix f
  assume c: "(f, f) \<in> (up (tfs_of t))\<^sup>+"
  then have "cycle_walk (tfs_of t) f [f] f" by (rule cycle_walk_complete) auto
  moreover have f: "f \<in> set (frames t)"
    using tranclD[OF c] up_joined[of "tfs_of t"] joined_frames[of f _ "tfs_of t"] by (auto simp: set_frames)
  ultimately have "cycles_of t \<noteq> []" by (auto simp: cycles_of_def filter_empty_conv)
  then have "tfs_of t = []" using assms by (auto simp: check_def split: if_splits)
  with f show False by (simp add: set_frames all_frames_def)
qed

lemma reaches_root:
  assumes "acyclic (up tfs)" and "f \<in> all_frames tfs"
  shows "\<exists>r. (f, r) \<in> (up tfs)\<^sup>* \<and> r \<in> all_frames tfs - child ` set tfs"
proof -
  have "wf ((up tfs)\<inverse>)" using finite_up assms(1) by (rule finite_acyclic_wf_converse)
  then show ?thesis using assms(2)
  proof (induction f rule: wf_induct_rule)
    case (less f)
    show ?case
    proof (cases "f \<in> child ` set tfs")
      case True
      then obtain p where p: "(f, p) \<in> up tfs" using has_parent_up by blast
      then have "p \<in> all_frames tfs" using up_joined[of tfs] joined_frames[of f p tfs] by blast
      with less.IH[of p] p show ?thesis by (auto intro: converse_rtrancl_into_rtrancl)
    next
      case False
      with less.prems show ?thesis by blast
    qed
  qed
qed

lemma check_connected:
  assumes "check t = []" and "a \<in> all_frames (tfs_of t)" and "b \<in> all_frames (tfs_of t)"
  shows "(a, b) \<in> (joined (tfs_of t))\<^sup>*"
proof -
  from reaches_root[OF check_acyclic[OF assms(1)] assms(2)]
  obtain r where r: "(a, r) \<in> (up (tfs_of t))\<^sup>*" "r \<in> set (roots t)" by (auto simp: set_roots)
  from reaches_root[OF check_acyclic[OF assms(1)] assms(3)]
  obtain s where s: "(b, s) \<in> (up (tfs_of t))\<^sup>*" "s \<in> set (roots t)" by (auto simp: set_roots)
  have "disconnected t = []" using assms by (auto simp: check_def all_frames_def split: if_splits)
  then have "length (roots t) \<le> 1" by (auto simp: disconnected_def split: if_splits)
  then have "r = s" using r(2) s(2) by (cases "roots t"; cases "tl (roots t)") auto
  then have "(a, r) \<in> (joined (tfs_of t))\<^sup>*" "(b, r) \<in> (joined (tfs_of t))\<^sup>*"
    using r s up_joined by (meson rtrancl_mono subsetD)+
  then show ?thesis using joined_rtrancl_sym by (meson rtrancl_trans)
qed

section \<open>The search\<close>

definition link_from :: "'v link \<Rightarrow> string" where
  "link_from l = (if inverse l then child (tf l) else parent (tf l))"

definition link_to :: "'v link \<Rightarrow> string" where
  "link_to l = (if inverse l then parent (tf l) else child (tf l))"

fun chain :: "'v transform list \<Rightarrow> string \<Rightarrow> 'v link list \<Rightarrow> string \<Rightarrow> bool" where
  "chain tfs a [] b \<longleftrightarrow> a = b"
| "chain tfs a (l # ls) b \<longleftrightarrow> tf l \<in> set tfs \<and> link_from l = a \<and> chain tfs (link_to l) ls b"

lemma chain_snoc:
  "chain tfs a (ls @ [l]) b \<longleftrightarrow> (\<exists>c. chain tfs a ls c \<and> tf l \<in> set tfs \<and> link_from l = c \<and> link_to l = b)"
  by (induction ls arbitrary: a) auto

lemma traverse_link:
  "traverse cur x = Some (nxt, l) \<Longrightarrow> tf l = x \<and> link_from l = cur \<and> link_to l = nxt"
  by (auto simp: traverse_def link_from_def link_to_def split: if_splits)

text \<open>What holds of a route in the queue: it is a chain of declared links from the target that
  visits no frame twice, and every frame on it has been seen.\<close>

definition route :: "'v transform list \<Rightarrow> string \<Rightarrow> string set \<Rightarrow> string \<Rightarrow> 'v link list \<Rightarrow> bool" where
  "route tfs target seen fr via \<longleftrightarrow>
     chain tfs target via fr \<and> distinct (target # map link_to via)
     \<and> set (target # map link_to via) \<subseteq> seen"

lemma route_mono: "route tfs target S fr via \<Longrightarrow> S \<subseteq> T \<Longrightarrow> route tfs target T fr via"
  by (auto simp: route_def)

lemma route_snoc:
  assumes "route tfs target S cur via" and "traverse cur x = Some (nxt, l)" and "x \<in> set tfs" and "nxt \<notin> S"
  shows "route tfs target (insert nxt S) nxt (via @ [l])"
  using assms traverse_link[OF assms(2)] by (auto simp: route_def chain_snoc)

lemma bfs_scan_routes:
  assumes "set xs \<subseteq> set tfs" and "route tfs target (set seen) cur via"
    and "\<forall>(fr, v) \<in> set queue. route tfs target (set seen) fr v"
  shows "case bfs_scan xs source cur via seen queue of
      Inl links \<Rightarrow> (\<exists>S. route tfs target S source links)
    | Inr (seen', queue') \<Rightarrow> \<forall>(fr, v) \<in> set queue'. route tfs target (set seen') fr v"
  using assms
proof (induction xs source cur via seen queue rule: bfs_scan.induct)
  case (2 x xs source cur via seen queue)
  show ?case
  proof (cases "traverse cur x")
    case None
    with 2 show ?thesis by simp
  next
    case (Some nl)
    obtain nxt l where nl: "nl = (nxt, l)" by (cases nl)
    note tr = Some[unfolded nl]
    show ?thesis
    proof (cases "nxt \<in> set seen")
      case True
      with 2 tr show ?thesis by simp
    next
      case False
      have new: "route tfs target (set (nxt # seen)) nxt (via @ [l])"
        using route_snoc[OF "2.prems"(2) tr _ False] "2.prems"(1) by simp
      show ?thesis
      proof (cases "nxt = source")
        case True
        with tr False new show ?thesis by auto
      next
        case ns: False
        have "route tfs target (set (nxt # seen)) cur via"
          "\<forall>(fr, v) \<in> set (queue @ [(nxt, via @ [l])]). route tfs target (set (nxt # seen)) fr v"
          using "2.prems"(2,3) new by (auto intro: route_mono)
        with "2.IH"(3)[OF tr refl False ns] "2.prems"(1) tr False ns show ?thesis
          by (auto split: sum.splits)
      qed
    qed
  qed
qed simp

lemma bfs_route:
  assumes "bfs tfs source seen queue = Some links"
    and "\<forall>(fr, v) \<in> set queue. route tfs target (set seen) fr v"
  shows "\<exists>S. route tfs target S source links"
  using assms
proof (induction tfs source seen queue rule: bfs.induct)
  case (2 tfs source seen cur via queue)
  from 2(3) have "case bfs_scan tfs source cur via seen queue of
      Inl links \<Rightarrow> (\<exists>S. route tfs target S source links)
    | Inr (seen', queue') \<Rightarrow> \<forall>(fr, v) \<in> set queue'. route tfs target (set seen') fr v"
    by (intro bfs_scan_routes) auto
  with 2 show ?case by (auto split: sum.splits)
qed simp

lemma bfs_scan_closes:
  assumes "bfs_scan xs source cur via seen queue = Inr (seen', queue')"
    and "cur \<in> set seen" and "source \<notin> set seen"
  shows "set seen \<subseteq> set seen' \<and> source \<notin> set seen' \<and> (\<forall>y. (cur, y) \<in> joined xs \<longrightarrow> y \<in> set seen')
    \<and> set seen' \<subseteq> set seen \<union> fst ` set queue' \<and> set queue \<subseteq> set queue'
    \<and> fst ` set queue' \<subseteq> fst ` set queue \<union> set seen'"
  using assms
proof (induction xs source cur via seen queue rule: bfs_scan.induct)
  case (2 x xs source cur via seen queue)
  have j: "(cur, y) \<in> joined (x # xs) \<longleftrightarrow> (cur, y) \<in> joined xs \<or> (parent x = cur \<and> child x = y) \<or> (child x = cur \<and> parent x = y)" for y
    by (auto simp: joined_def)
  show ?case
  proof (cases "traverse cur x")
    case None
    then have "parent x \<noteq> cur" "child x \<noteq> cur" by (auto simp: traverse_def split: if_splits)
    with 2 None show ?thesis by (auto simp: j)
  next
    case (Some nl)
    obtain nxt l where nl: "nl = (nxt, l)" by (cases nl)
    note tr = Some[unfolded nl]
    have y: "y = nxt \<or> y = cur" if "(parent x = cur \<and> child x = y) \<or> (child x = cur \<and> parent x = y)" for y
      using that tr by (auto simp: traverse_def split: if_splits)
    show ?thesis
    proof (cases "nxt \<in> set seen")
      case True
      with 2 tr have "bfs_scan xs source cur via seen queue = Inr (seen', queue')" by simp
      note ih = "2.IH"(2)[OF tr refl True this "2.prems"(2,3)]
      have "\<forall>y. (cur, y) \<in> joined (x # xs) \<longrightarrow> y \<in> set seen'"
      proof (intro allI impI)
        fix z assume "(cur, z) \<in> joined (x # xs)"
        then have "(cur, z) \<in> joined xs \<or> z = nxt \<or> z = cur" using y unfolding j by blast
        then show "z \<in> set seen'" using ih True "2.prems"(2) by blast
      qed
      then show ?thesis using ih by blast
    next
      case False
      have ns: "nxt \<noteq> source"
        and sc: "bfs_scan xs source cur via (nxt # seen) (queue @ [(nxt, via @ [l])]) = Inr (seen', queue')"
        using "2.prems"(1) tr False by (auto split: if_splits)
      have ih: "set (nxt # seen) \<subseteq> set seen'" "source \<notin> set seen'" "\<forall>y. (cur, y) \<in> joined xs \<longrightarrow> y \<in> set seen'"
        "set seen' \<subseteq> set (nxt # seen) \<union> fst ` set queue'" "set (queue @ [(nxt, via @ [l])]) \<subseteq> set queue'"
        "fst ` set queue' \<subseteq> fst ` set (queue @ [(nxt, via @ [l])]) \<union> set seen'"
        using "2.IH"(3)[OF tr refl False ns sc] "2.prems"(2,3) ns by auto
      have q: "nxt \<in> fst ` set queue'" using ih(5) by force
      have "\<forall>y. (cur, y) \<in> joined (x # xs) \<longrightarrow> y \<in> set seen'"
      proof (intro allI impI)
        fix z assume "(cur, z) \<in> joined (x # xs)"
        then have "(cur, z) \<in> joined xs \<or> z = nxt \<or> z = cur" using y unfolding j by blast
        then show "z \<in> set seen'" using ih(1,3) "2.prems"(2) by auto
      qed
      moreover have "set seen' \<subseteq> set seen \<union> fst ` set queue'" using ih(4) q by auto
      moreover have "fst ` set queue' \<subseteq> fst ` set queue \<union> set seen'" using ih(1,6) by auto
      moreover have "set seen \<subseteq> set seen'" "set queue \<subseteq> set queue'" using ih(1,5) by auto
      ultimately show ?thesis using ih(2) by blast
    qed
  qed
qed (auto simp: joined_def)

lemma bfs_None:
  assumes "bfs tfs source seen queue = None" and "source \<notin> set seen" and "fst ` set queue \<subseteq> set seen"
    and "\<And>x y. x \<in> set seen \<Longrightarrow> x \<notin> fst ` set queue \<Longrightarrow> (x, y) \<in> joined tfs \<Longrightarrow> y \<in> set seen"
  shows "\<exists>S. set seen \<subseteq> S \<and> source \<notin> S \<and> (\<forall>x y. x \<in> S \<longrightarrow> (x, y) \<in> joined tfs \<longrightarrow> y \<in> S)"
  using assms
proof (induction tfs source seen queue rule: bfs.induct)
  case (1 tfs source seen)
  then show ?case by (intro exI[of _ "set seen"]) auto
next
  case (2 tfs source seen cur via queue)
  then obtain seen' queue' where sc: "bfs_scan tfs source cur via seen queue = Inr (seen', queue')"
    by (auto split: sum.splits)
  with 2 have b: "bfs tfs source seen' queue' = None" by simp

  have cs: "cur \<in> set seen" using 2(4) by simp
  note c = bfs_scan_closes[OF sc cs 2(3)]
  have "fst ` set queue \<subseteq> set seen'" using c 2(4) by auto
  with c have q: "fst ` set queue' \<subseteq> set seen'" by blast
  have cl: "\<And>x y. x \<in> set seen' \<Longrightarrow> x \<notin> fst ` set queue' \<Longrightarrow> (x, y) \<in> joined tfs \<Longrightarrow> y \<in> set seen'"
  proof -
    fix x y assume a: "x \<in> set seen'" "x \<notin> fst ` set queue'" "(x, y) \<in> joined tfs"
    show "y \<in> set seen'"
    proof (cases "x = cur")
      case True
      with a(3) c show ?thesis by blast
    next
      case False
      have "x \<in> set seen" using a(1,2) c by blast
      moreover have "x \<notin> fst ` set queue" using a(2) c by blast
      ultimately have "y \<in> set seen" using 2(5)[of x y] False a(3) by simp
      with c show ?thesis by blast
    qed
  qed
  have ns: "source \<notin> set seen'" and sub: "set seen \<subseteq> set seen'" using c by blast+
  have "\<exists>S. set seen' \<subseteq> S \<and> source \<notin> S \<and> (\<forall>x y. x \<in> S \<longrightarrow> (x, y) \<in> joined tfs \<longrightarrow> y \<in> S)"
    by (rule 2(1)[OF sc refl b ns q]) (rule cl)
  then obtain S where S: "set seen' \<subseteq> S" "source \<notin> S" "\<forall>x y. x \<in> S \<longrightarrow> (x, y) \<in> joined tfs \<longrightarrow> y \<in> S"
    by (elim exE conjE)
  show ?case by (intro exI[of _ S] conjI) (use S sub in \<open>simp_all add: subset_trans[OF sub]\<close>)
qed

lemma path_None_unconnected:
  assumes "bfs tfs source [target] [(target, [])] = None" and "target \<noteq> source"
  shows "(target, source) \<notin> (joined tfs)\<^sup>*"
proof
  assume j: "(target, source) \<in> (joined tfs)\<^sup>*"
  from bfs_None[OF assms(1)] assms(2) obtain S where
    "target \<in> S" "source \<notin> S" "\<forall>x y. x \<in> S \<longrightarrow> (x, y) \<in> joined tfs \<longrightarrow> y \<in> S"
    by auto
  from j have "source \<in> S"
    by (induction rule: rtrancl_induct)
      (use \<open>target \<in> S\<close> \<open>\<forall>x y. x \<in> S \<longrightarrow> (x, y) \<in> joined tfs \<longrightarrow> y \<in> S\<close> in auto)
  with \<open>source \<notin> S\<close> show False by simp
qed

lemma chain_joined: "chain tfs a ls b \<Longrightarrow> (a, b) \<in> (joined tfs)\<^sup>*"
proof (induction ls arbitrary: a)
  case (Cons l ls)
  then have "(a, link_to l) \<in> joined tfs"
    by (auto simp: joined_def link_from_def link_to_def split: if_splits)
  with Cons show ?case by (auto intro: converse_rtrancl_into_rtrancl)
qed simp

lemma path_route:
  assumes "path t target source = Inr links"
  shows "chain (tfs_of t) target links source \<and> distinct (target # map link_to links)"
proof -
  obtain tree where t: "t = Some tree" using assms by (cases t) (auto simp: path_def)
  show ?thesis
  proof (cases "target = source")
    case True
    with assms t show ?thesis by (auto simp: path_def split: if_splits)
  next
    case False
    with assms t have b: "bfs (transforms tree) source [target] [(target, [])] = Some links"
      by (auto simp: path_def split: if_splits option.splits)
    obtain S where "route (transforms tree) target S source links"
      using bfs_route[OF b, of target] by (auto simp: route_def)
    with t show ?thesis by (auto simp: route_def tfs_of_def)
  qed
qed

lemma path_exists:
  "(\<exists>links. path t a b = Inr links) \<longleftrightarrow>
     has_frame t a \<and> has_frame t b \<and> (a, b) \<in> (joined (tfs_of t))\<^sup>*" (is "?l \<longleftrightarrow> ?r")
proof
  assume ?l
  then show ?r using path_route[of t a b] chain_joined[of "tfs_of t" a _ b]
    by (auto simp: path_def split: option.splits if_splits)
next
  assume r: ?r
  then obtain tree where t: "t = Some tree" by (cases t) (auto simp: has_frame_def tfs_of_def)
  then have "a = b \<or> (\<exists>v. bfs (transforms tree) b [a] [(a, [])] = Some v)"
    using r path_None_unconnected[of "transforms tree" b a]
    by (cases "bfs (transforms tree) b [a] [(a, [])]") (auto simp: tfs_of_def)
  then show ?l using r t by (auto simp: path_def)
qed

lemma connects_None: "connects t a b = None \<longleftrightarrow> (\<exists>links. path t a b = Inr links)"
  by (auto simp: connects_def split: sum.splits)

lemma cycle_walk_sound: "cycle_walk tfs f seen cur \<Longrightarrow> (f, cur) \<in> (up tfs)\<^sup>* \<Longrightarrow> (f, f) \<in> (up tfs)\<^sup>+"
proof (induction tfs f seen cur rule: cycle_walk.induct)
  case (1 tfs f seen cur)
  then obtain p ps where p: "parents_of tfs cur = p # ps"
    by (subst (asm) (2) cycle_walk.simps) (auto split: list.splits)
  then have s: "(cur, parent p) \<in> up tfs" by (auto simp: up_def)
  show ?case
  proof (cases "parent p = f")
    case True
    with s 1(3) show ?thesis by (metis rtrancl_into_trancl1)
  next
    case False
    with 1(2) p have "parent p \<notin> set seen" "cycle_walk tfs f (parent p # seen) (parent p)"
      by (subst (asm) cycle_walk.simps; simp split: if_splits)+
    with "1.IH"[OF p False] 1(3) s show ?thesis by (auto intro: rtrancl_into_rtrancl)
  qed
qed

lemma cycle_walk_iff: "cycle_walk tfs f [f] f \<longleftrightarrow> (f, f) \<in> (up tfs)\<^sup>+"
  using cycle_walk_sound[of tfs f "[f]" f] cycle_walk_complete[of f f tfs "[f]"] by auto

lemma compose_links_ok:
  "(\<exists>m. compose_links M target source links out = Inr m) \<longleftrightarrow> (\<forall>l \<in> set links. \<not> dynamic (tf l))"
  by (induction links arbitrary: out) auto

lemma lookup_ok:
  "(\<exists>m. lookup M t target source = Inr m) \<longleftrightarrow>
     (\<exists>links. path t target source = Inr links \<and> (\<forall>l \<in> set links. \<not> dynamic (tf l)))"
  using compose_links_ok[of M target source _ "unit_motion M"] by (auto simp: lookup_def result_simps)

section \<open>Properties\<close>

text \<open>C7. A transform tree the structural check accepts is one tree: any two declared frames are
  joined, so \<^verbatim>\<open>Connects\<close> never fails on them. The check's three kinds of problem are all that can
  separate two frames.\<close>

theorem frames_check_connects:
  assumes "check t = []" and "has_frame t a" and "has_frame t b"
  shows "connects t a b = None"
  using check_connected[OF assms(1)] assms(2,3) by (simp add: connects_None path_exists has_frame_iff)

definition sample_tree :: "nat frame_tree" where
  "sample_tree = \<lparr>path_name = ''frames.json'', transforms =
    [\<lparr>parent = ''base'', child = ''laser'', pose = 1, dynamic = False, by_node = ''''\<rparr>,
     \<lparr>parent = ''odom'', child = ''base'', pose = 2, dynamic = True, by_node = ''ekf''\<rparr>,
     \<lparr>parent = ''base'', child = ''cam'', pose = 3, dynamic = False, by_node = ''''\<rparr>]\<rparr>"

lemma sample_tree_check: "check (Some sample_tree) = []"
  by (simp add: check_def sample_tree_def tfs_of_def multiple_parents_def cycles_of_def disconnected_def
    roots_def frames_def parents_of_def append_once_def cycle_walk.simps)

theorem frames_check_connects_witness: "connects (Some sample_tree) ''laser'' ''odom'' = None"
  by (rule frames_check_connects[OF sample_tree_check]) (simp_all add: has_frame_def tfs_of_def sample_tree_def)

text \<open>\<^verbatim>\<open>Connects\<close> decides connectivity: it returns no error exactly when both frames are
  declared and a sequence of links, each taken in either direction, leads from one to the other.
  The breadth-first search always ends and misses nothing.\<close>

theorem connects_iff_joined:
  "connects t a b = None \<longleftrightarrow> has_frame t a \<and> has_frame t b \<and> (a, b) \<in> (joined (tfs_of t))\<^sup>*"
  by (simp add: connects_None path_exists)

text \<open>The route a lookup composes is a route: it starts at the target, each link is a declared
  transform taken from the frame the last one led to, it ends at the source, and no frame is
  visited twice.\<close>

theorem path_is_route:
  assumes "path t target source = Inr links"
  shows "chain (tfs_of t) target links source \<and> distinct (target # map link_to links)"
  using assms by (rule path_route)

theorem path_is_route_witness:
  "\<exists>links. path (Some sample_tree) ''laser'' ''cam'' = Inr links \<and> chain (transforms sample_tree) ''laser'' links ''cam''"
proof -
  have "\<exists>links. path (Some sample_tree) ''laser'' ''cam'' = Inr links"
    by (simp add: path_def has_frame_def tfs_of_def sample_tree_def traverse_def)
  then obtain links where p: "path (Some sample_tree) ''laser'' ''cam'' = Inr links" by blast
  then show ?thesis using path_is_route[OF p] by (auto simp: tfs_of_def)
qed

text \<open>\<^verbatim>\<open>Lookup\<close>, on every branch: the error of the route search, else an error naming the
  first dynamic link met from the target, else the motions of the links composed from the target
  to the source, those taken from child to parent inverted.\<close>

theorem lookup_spec:
  "lookup M t target source =
    (case path t target source of
       Inl e \<Rightarrow> Inl e
     | Inr links \<Rightarrow>
         (case find (\<lambda>l. dynamic (tf l)) links of
            Some l \<Rightarrow> Inl (Errorf ''the path from %s to %s crosses the dynamic transform %s; look it up against tf at runtime''
                [GStr source, GStr target, GStr (transform_string (tf l))])
          | None \<Rightarrow> Inr (foldl (then_motion M) (unit_motion M)
              (map (\<lambda>l. (if inverse l then inverse_motion M else id) (isometry M (pose (tf l)))) links))))"
proof -
  have "compose_links M target source links out =
      (case find (\<lambda>l. dynamic (tf l)) links of
            Some l \<Rightarrow> Inl (Errorf ''the path from %s to %s crosses the dynamic transform %s; look it up against tf at runtime''
                [GStr source, GStr target, GStr (transform_string (tf l))])
          | None \<Rightarrow> Inr (foldl (then_motion M) out
              (map (\<lambda>l. (if inverse l then inverse_motion M else id) (isometry M (pose (tf l)))) links)))"
    for links out
    by (induction links arbitrary: out) (simp_all split: option.splits)
  then show ?thesis by (simp add: lookup_def split: sum.splits)
qed

text \<open>The check reports a cycle exactly when there is one: some frame is reached from itself
  along first parents. The walk ends on every tree, cyclic or not.\<close>

theorem check_cycles_exact:
  "(\<exists>p \<in> set (check t). kind p = ''cycle'') \<longleftrightarrow> \<not> acyclic (up (tfs_of t))"
proof -
  have "(\<exists>p \<in> set (check t). kind p = ''cycle'') \<longleftrightarrow> tfs_of t \<noteq> [] \<and> (\<exists>p \<in> set (cycles_of t). kind p = ''cycle'')"
    by (auto simp: check_def multiple_parents_def disconnected_def)
  also have "\<dots> \<longleftrightarrow> (\<exists>f \<in> set (frames t). (f, f) \<in> (up (tfs_of t))\<^sup>+)"
    by (auto simp: cycles_of_def cycle_walk_iff set_frames all_frames_def)
  also have "\<dots> \<longleftrightarrow> (\<exists>f. (f, f) \<in> (up (tfs_of t))\<^sup>+)"
  proof -
    have "f \<in> set (frames t)" if "(f, f) \<in> (up (tfs_of t))\<^sup>+" for f
      using tranclD[OF that] up_joined[of "tfs_of t"] joined_frames[of f _ "tfs_of t"]
      by (auto simp: set_frames)
    then show ?thesis by blast
  qed
  finally show ?thesis by (simp add: acyclic_def)
qed

end
