(* ===== verification/Geometry.thy ===== *)
theory Geometry
imports Frames Complex_Main
begin

text \<open>
  The rigid motions of \<^verbatim>\<open>frames.go\<close>: quaternions, their action on points, composition and
  inverse, and the motion of a declared transform. The arithmetic is an argument, \<open>ar\<close>: the Go code
  computes in \<^verbatim>\<open>float64\<close>, of which only the formulas are known here (on machines where the compiler fuses a
  product and a sum, those of the source). What is shown of every arithmetic holds of \<^verbatim>\<open>float64\<close>,
  rounding, overflow and NaN included; what is shown of the \<open>exact\<close> one, over the real numbers, is what the
  formulas were written for.
\<close>

section \<open>Formulas\<close>

record 'f arith =
  ar_zero :: 'f
  ar_one :: 'f
  ar_two :: 'f
  ar_add :: "'f \<Rightarrow> 'f \<Rightarrow> 'f"
  ar_sub :: "'f \<Rightarrow> 'f \<Rightarrow> 'f"
  ar_mul :: "'f \<Rightarrow> 'f \<Rightarrow> 'f"
  ar_div :: "'f \<Rightarrow> 'f \<Rightarrow> 'f"
  ar_neg :: "'f \<Rightarrow> 'f"
  ar_sin :: "'f \<Rightarrow> 'f"
  ar_cos :: "'f \<Rightarrow> 'f"

definition exact :: "real arith" where
  "exact = \<lparr>ar_zero = 0, ar_one = 1, ar_two = 2, ar_add = (+), ar_sub = (-), ar_mul = (*), ar_div = (/), ar_neg = uminus,
     ar_sin = sin, ar_cos = cos\<rparr>"

type_synonym 'f vec3 = "'f \<times> 'f \<times> 'f"
type_synonym 'f quat = "'f \<times> 'f \<times> 'f \<times> 'f"

definition cross :: "'f arith \<Rightarrow> 'f vec3 \<Rightarrow> 'f vec3 \<Rightarrow> 'f vec3" where
  "cross ar = (\<lambda>(a0, a1, a2) (b0, b1, b2).
     (ar_sub ar (ar_mul ar a1 b2) (ar_mul ar a2 b1),
      ar_sub ar (ar_mul ar a2 b0) (ar_mul ar a0 b2),
      ar_sub ar (ar_mul ar a0 b1) (ar_mul ar a1 b0)))"

definition add3 :: "'f arith \<Rightarrow> 'f vec3 \<Rightarrow> 'f vec3 \<Rightarrow> 'f vec3" where
  "add3 ar = (\<lambda>(a0, a1, a2) (b0, b1, b2). (ar_add ar a0 b0, ar_add ar a1 b1, ar_add ar a2 b2))"

definition quat_mul :: "'f arith \<Rightarrow> 'f quat \<Rightarrow> 'f quat \<Rightarrow> 'f quat" where
  "quat_mul ar = (\<lambda>(ax, ay, az, aw) (bx, by', bz, bw).
     (let p = ar_add ar; m = ar_sub ar; t = ar_mul ar
      in (m (p (p (t aw bx) (t ax bw)) (t ay bz)) (t az by'),
          p (p (m (t aw by') (t ax bz)) (t ay bw)) (t az bx),
          p (m (p (t aw bz) (t ax by')) (t ay bx)) (t az bw),
          m (m (m (t aw bw) (t ax bx)) (t ay by')) (t az bz))))"

definition quat_conj :: "'f arith \<Rightarrow> 'f quat \<Rightarrow> 'f quat" where
  "quat_conj ar = (\<lambda>(x, y, z, w). (ar_neg ar x, ar_neg ar y, ar_neg ar z, w))"

definition rotate :: "'f arith \<Rightarrow> 'f quat \<Rightarrow> 'f vec3 \<Rightarrow> 'f vec3" where
  "rotate ar = (\<lambda>(q0, q1, q2, q3) (v0, v1, v2).
    (let p = ar_add ar; m = ar_mul ar; u = (q0, q1, q2);
         (t0, t1, t2) = cross ar u (v0, v1, v2);
         t = (m (ar_two ar) (p t0 (m q3 v0)), m (ar_two ar) (p t1 (m q3 v1)), m (ar_two ar) (p t2 (m q3 v2)));
         (c0, c1, c2) = cross ar u t
     in (p v0 c0, p v1 c1, p v2 c2)))"

definition quat_from_rpy :: "'f arith \<Rightarrow> 'f vec3 \<Rightarrow> 'f quat" where
  "quat_from_rpy ar = (\<lambda>(r0, r1, r2).
    (let half = (\<lambda>r. ar_div ar r (ar_two ar)); t3 = (\<lambda>a b c. ar_mul ar (ar_mul ar a b) c); p = ar_add ar; m = ar_sub ar;
         cr = ar_cos ar (half r0); sr = ar_sin ar (half r0);
         cp = ar_cos ar (half r1); sp = ar_sin ar (half r1);
         cy = ar_cos ar (half r2); sy = ar_sin ar (half r2)
     in (m (t3 sr cp cy) (t3 cr sp sy),
         p (t3 cr sp cy) (t3 sr cp sy),
         m (t3 cr cp sy) (t3 sr sp cy),
         p (t3 cr cp cy) (t3 sr sp sy))))"

record 'f isometry =
  translation :: "'f vec3"
  rotation :: "'f quat"

definition iso_then :: "'f arith \<Rightarrow> 'f isometry \<Rightarrow> 'f isometry \<Rightarrow> 'f isometry" where
  "iso_then ar a b = \<lparr>translation = add3 ar (translation a) (rotate ar (rotation a) (translation b)),
     rotation = quat_mul ar (rotation a) (rotation b)\<rparr>"

definition iso_inverse :: "'f arith \<Rightarrow> 'f isometry \<Rightarrow> 'f isometry" where
  "iso_inverse ar a =
     (let q = quat_conj ar (rotation a); (t0, t1, t2) = rotate ar q (translation a)
      in \<lparr>translation = (ar_neg ar t0, ar_neg ar t1, ar_neg ar t2), rotation = q\<rparr>)"

definition iso_apply :: "'f arith \<Rightarrow> 'f isometry \<Rightarrow> 'f vec3 \<Rightarrow> 'f vec3" where
  "iso_apply ar a p = add3 ar (translation a) (rotate ar (rotation a) p)"

text \<open>The pose of a link is its \<^verbatim>\<open>XYZ\<close> and \<^verbatim>\<open>RPY\<close>; \<open>isometry_of\<close> is \<^verbatim>\<open>Transform.Isometry\<close>, and
  \<open>go_motions\<close> what \<^verbatim>\<open>Lookup\<close> composes with.\<close>

definition isometry_of :: "'f arith \<Rightarrow> 'f vec3 \<times> 'f vec3 \<Rightarrow> 'f isometry" where
  "isometry_of ar p = \<lparr>translation = fst p, rotation = quat_from_rpy ar (snd p)\<rparr>"

definition go_motions :: "'f arith \<Rightarrow> ('f vec3 \<times> 'f vec3, 'f isometry) motions" where
  "go_motions ar = \<lparr>unit_motion = \<lparr>translation = (ar_zero ar, ar_zero ar, ar_zero ar), rotation = (ar_zero ar, ar_zero ar, ar_zero ar, ar_one ar)\<rparr>,
     then_motion = iso_then ar, inverse_motion = iso_inverse ar, isometry = isometry_of ar\<rparr>"

definition link_motion :: "'f arith \<Rightarrow> ('f vec3 \<times> 'f vec3) link \<Rightarrow> 'f isometry" where
  "link_motion ar l = (if inverse l then iso_inverse ar else id) (isometry_of ar (pose (tf l)))"

section \<open>The route of a lookup\<close>

lemma chain_declared: "chain tfs a ls b \<Longrightarrow> l \<in> set ls \<Longrightarrow> tf l \<in> set tfs"
  by (induction ls arbitrary: a) auto

lemma compose_links_fold:
  "compose_links (go_motions ar) target source links out = Inr m \<Longrightarrow>
     (\<forall>l \<in> set links. \<not> dynamic (tf l)) \<and> m = foldl (iso_then ar) out (map (link_motion ar) links)"
  by (induction links arbitrary: out) (auto simp: go_motions_def link_motion_def split: if_splits)

lemma compose_links_all:
  "\<forall>l \<in> set links. \<not> dynamic (tf l) \<Longrightarrow>
     compose_links (go_motions ar) target source links out = Inr (foldl (iso_then ar) out (map (link_motion ar) links))"
  by (induction links arbitrary: out) (auto simp: go_motions_def link_motion_def)

text \<open>C19. \<^verbatim>\<open>Lookup\<close> composes the declared transforms of one route from the target frame to the source frame, in order, with
  those that are walked from child to parent inverted: no frame is met twice, no transform of the route is dynamic,
  and every one is declared. It is so in every arithmetic, that of the program's floating point included; nothing is
  said of rounding. And a lookup between two frames joined by transforms none of which is dynamic never fails.\<close>

theorem lookup_motion:
  fixes t :: "('f vec3 \<times> 'f vec3) frame_tree option"
  shows "(\<forall>m. lookup (go_motions ar) t target source = Inr m \<longrightarrow>
      (\<exists>links. chain (tfs_of t) target links source \<and> distinct (target # map link_to links) \<and> (\<forall>l \<in> set links. \<not> dynamic (tf l))
         \<and> m = foldl (iso_then ar) (unit_motion (go_motions ar)) (map (link_motion ar) links)))
    \<and> (has_frame t target \<and> has_frame t source \<and> (target, source) \<in> (joined (tfs_of t))\<^sup>* \<and> (\<forall>x \<in> set (tfs_of t). \<not> dynamic x)
        \<longrightarrow> (\<exists>m. lookup (go_motions ar) t target source = Inr m))"
proof (intro conjI allI impI)
  fix m assume "lookup (go_motions ar) t target source = Inr m"
  then obtain links where p: "path t target source = Inr links"
    and c: "compose_links (go_motions ar) target source links (unit_motion (go_motions ar)) = Inr m"
    by (auto simp: lookup_def result_simps)
  with compose_links_fold[OF c] path_route[OF p] show "\<exists>links. chain (tfs_of t) target links source \<and> distinct (target # map link_to links)
      \<and> (\<forall>l \<in> set links. \<not> dynamic (tf l)) \<and> m = foldl (iso_then ar) (unit_motion (go_motions ar)) (map (link_motion ar) links)"
    by blast
next
  assume a: "has_frame t target \<and> has_frame t source \<and> (target, source) \<in> (joined (tfs_of t))\<^sup>* \<and> (\<forall>x \<in> set (tfs_of t). \<not> dynamic x)"
  then obtain links where p: "path t target source = Inr links" using path_exists by blast
  have "\<forall>l \<in> set links. tf l \<in> set (tfs_of t)" using chain_declared path_route[OF p] by blast
  with a have "\<forall>l \<in> set links. \<not> dynamic (tf l)" by blast
  then show "\<exists>m. lookup (go_motions ar) t target source = Inr m" using p compose_links_all[of links ar] by (simp add: lookup_def)
qed

section \<open>Exact arithmetic\<close>

lemma exact_simps [simp]:
  "ar_zero exact = 0" "ar_one exact = 1" "ar_two exact = 2" "ar_add exact = (+)" "ar_sub exact = (-)" "ar_mul exact = (*)"
  "ar_div exact = (/)" "ar_neg exact = uminus" "ar_sin exact = sin" "ar_cos exact = cos"
  by (simp_all add: exact_def)

lemma exact_formulas [simp]:
  "cross exact (a0, a1, a2) (b0, b1, b2) = (a1 * b2 - a2 * b1, a2 * b0 - a0 * b2, a0 * b1 - a1 * b0)"
  "add3 exact (a0, a1, a2) (b0, b1, b2) = (a0 + b0, a1 + b1, a2 + b2)"
  "quat_conj exact (x, y, z, w) = (- x, - y, - z, w)"
  by (simp_all add: cross_def add3_def quat_conj_def)

lemma exact_quat_mul [simp]:
  "quat_mul exact (ax, ay, az, aw) (bx, by', bz, bw) =
    (aw * bx + ax * bw + ay * bz - az * by', aw * by' - ax * bz + ay * bw + az * bx,
     aw * bz + ax * by' - ay * bx + az * bw, aw * bw - ax * bx - ay * by' - az * bz)"
  by (simp add: quat_mul_def Let_def)

lemma exact_rotate [simp]:
  "rotate exact (q0, q1, q2, q3) (v0, v1, v2) =
    (let (t0, t1, t2) = cross exact (q0, q1, q2) (v0, v1, v2);
         (c0, c1, c2) = cross exact (q0, q1, q2) (2 * (t0 + q3 * v0), 2 * (t1 + q3 * v1), 2 * (t2 + q3 * v2))
     in (v0 + c0, v1 + c1, v2 + c2))"
  by (simp add: rotate_def Let_def)

fun norm2 :: "real quat \<Rightarrow> real" where
  "norm2 (x, y, z, w) = x * x + y * y + z * z + w * w"

definition rigid :: "real isometry \<Rightarrow> bool" where
  "rigid a \<longleftrightarrow> norm2 (rotation a) = 1"

lemma norm2_mul: "norm2 (quat_mul exact a b) = norm2 a * norm2 b"
  by (cases a; cases b) (simp add: algebra_simps)

lemma norm2_conj: "norm2 (quat_conj exact a) = norm2 a"
  by (cases a) simp

lemma rigid_then: "rigid a \<Longrightarrow> rigid b \<Longrightarrow> rigid (iso_then exact a b)"
  by (simp add: rigid_def iso_then_def norm2_mul)

lemma rigid_inverse: "rigid a \<Longrightarrow> rigid (iso_inverse exact a)"
  by (simp add: rigid_def iso_inverse_def Let_def norm2_conj split: prod.splits)

lemma cos_sq: "cos x * cos x = 1 - sin x * sin (x :: real)"
  using sin_cos_squared_add3[of x] by linarith

lemma norm2_rpy: "norm2 (quat_from_rpy exact r) = 1"
proof -
  obtain a b c where r: "r = (a, b, c)" by (cases r)
  define cr sr cp sp cy sy where d: "cr = cos (a/2)" "sr = sin (a/2)" "cp = cos (b/2)" "sp = sin (b/2)"
    "cy = cos (c/2)" "sy = sin (c/2)"
  have "norm2 (quat_from_rpy exact r) = (cr*cr + sr*sr) * (cp*cp + sp*sp) * (cy*cy + sy*sy)"
    by (simp add: r quat_from_rpy_def Let_def d[symmetric] algebra_simps)
  also have "\<dots> = 1" by (simp add: d cos_sq)
  finally show ?thesis .
qed

lemma rigid_isometry_of: "rigid (isometry_of exact p)"
  by (simp add: rigid_def isometry_of_def norm2_rpy)

text \<open>The action of a quaternion in its homogeneous form, which composes for every quaternion and
  is \<open>rotate\<close> for the unit ones.\<close>

fun conjugate :: "real quat \<Rightarrow> real vec3 \<Rightarrow> real vec3" where
  "conjugate (x, y, z, w) (v0, v1, v2) =
    (let k = w * w - x * x - y * y - z * z; d = 2 * (x * v0 + y * v1 + z * v2)
     in (k * v0 + d * x + 2 * w * (y * v2 - z * v1),
         k * v1 + d * y + 2 * w * (z * v0 - x * v2),
         k * v2 + d * z + 2 * w * (x * v1 - y * v0)))"

lemma conjugate_mul: "conjugate (quat_mul exact a b) v = conjugate a (conjugate b v)"
  by (cases a; cases b; cases v) (simp add: Let_def algebra_simps)

lemma rotate_conjugate:
  assumes "norm2 q = 1"
  shows "rotate exact q v = conjugate q v"
proof -
  obtain x y z w a b c where q: "q = (x, y, z, w)" "v = (a, b, c)" by (cases q; cases v)
  have k: "w * w = 1 - x * x - y * y - z * z" using assms q by simp
  show ?thesis by (simp add: q Let_def k algebra_simps)
qed

lemma rotate_mul:
  "norm2 a = 1 \<Longrightarrow> norm2 b = 1 \<Longrightarrow> rotate exact (quat_mul exact a b) v = rotate exact a (rotate exact b v)"
  by (simp add: rotate_conjugate norm2_mul conjugate_mul)

lemma conjugate_add3: "conjugate q (add3 exact u v) = add3 exact (conjugate q u) (conjugate q v)"
  by (cases q; cases u; cases v) (simp add: Let_def algebra_simps)

lemma conjugate_minus: "conjugate q (- a, - b, - c) = (case conjugate q (a, b, c) of (x, y, z) \<Rightarrow> (- x, - y, - z))"
  by (cases q) (simp add: Let_def algebra_simps)

lemma conjugate_conj:
  assumes "norm2 q = 1"
  shows "conjugate (quat_conj exact q) (conjugate q v) = v" "conjugate q (conjugate (quat_conj exact q) v) = v"
proof -
  obtain x y z w where q: "q = (x, y, z, w)" by (cases q)
  have "quat_mul exact (quat_conj exact q) q = (0, 0, 0, 1)" "quat_mul exact q (quat_conj exact q) = (0, 0, 0, 1)"
    using assms by (simp_all add: q algebra_simps)
  then show "conjugate (quat_conj exact q) (conjugate q v) = v" "conjugate q (conjugate (quat_conj exact q) v) = v"
    by (cases v; simp add: conjugate_mul[symmetric] Let_def)+
qed

lemma add3_assoc: "add3 exact (add3 exact a b) c = add3 exact a (add3 exact b c)"
  by (cases a; cases b; cases c) simp

lemma apply_then: "rigid a \<Longrightarrow> rigid b \<Longrightarrow> iso_apply exact (iso_then exact a b) p = iso_apply exact a (iso_apply exact b p)"
  by (simp add: iso_apply_def iso_then_def rigid_def rotate_conjugate norm2_mul conjugate_mul
    conjugate_add3 add3_assoc)

lemma apply_inverse:
  assumes "rigid a"
  shows "iso_apply exact (iso_inverse exact a) (iso_apply exact a p) = p" "iso_apply exact a (iso_apply exact (iso_inverse exact a) p) = p"
proof -
  define q t where qt: "q = rotation a" "t = translation a"
  have n: "norm2 q = 1" "norm2 (quat_conj exact q) = 1" using assms by (simp_all add: rigid_def qt norm2_conj)
  obtain r0 r1 r2 where r: "conjugate (quat_conj exact q) t = (r0, r1, r2)" by (cases "conjugate (quat_conj exact q) t")
  have inv: "iso_inverse exact a = \<lparr>translation = (- r0, - r1, - r2), rotation = quat_conj exact q\<rparr>"
    by (simp add: iso_inverse_def Let_def qt[symmetric] rotate_conjugate n r)
  show "iso_apply exact (iso_inverse exact a) (iso_apply exact a p) = p"
    by (cases p) (simp add: inv iso_apply_def qt[symmetric] rotate_conjugate n conjugate_add3 r conjugate_conj)
  have t: "conjugate q (r0, r1, r2) = t" using conjugate_conj(2)[OF n(1), of t] r by simp
  show "iso_apply exact a (iso_apply exact (iso_inverse exact a) p) = p"
    by (cases p; cases t) (simp add: inv iso_apply_def qt[symmetric] rotate_conjugate n conjugate_add3
      conjugate_minus t conjugate_conj)
qed

section \<open>Lookups as exact motions\<close>

lemma rigid_link_motion: "rigid (link_motion exact l)"
  by (simp add: link_motion_def rigid_isometry_of rigid_inverse)

lemma apply_unit: "iso_apply exact (unit_motion (go_motions exact)) p = p"
  by (cases p) (simp add: go_motions_def iso_apply_def Let_def)

lemma rigid_unit: "rigid (unit_motion (go_motions exact))"
  by (simp add: go_motions_def rigid_def)

lemma fold_links_rigid:
  "rigid out \<Longrightarrow> rigid (foldl (iso_then exact) out (map (link_motion exact) links))
     \<and> (\<forall>p. iso_apply exact (foldl (iso_then exact) out (map (link_motion exact) links)) p
          = iso_apply exact out (foldr (\<lambda>l. iso_apply exact (link_motion exact l)) links p))"
  by (induction links arbitrary: out) (simp_all add: rigid_then rigid_link_motion apply_then)

text \<open>In exact arithmetic a lookup is the motion it claims to be, which takes a point given in the source frame
  through the links of a route, one after the other, to the target frame; and \<^verbatim>\<open>Inverse\<close> undoes it.\<close>

theorem exact_lookup:
  assumes "lookup (go_motions exact) t target source = Inr m"
  shows "(\<exists>links. chain (tfs_of t) target links source \<and> (\<forall>p. iso_apply exact m p = foldr (\<lambda>l. iso_apply exact (link_motion exact l)) links p))
    \<and> iso_apply exact (iso_inverse exact m) (iso_apply exact m p) = p \<and> iso_apply exact m (iso_apply exact (iso_inverse exact m) p) = p"
proof -
  from assms obtain links where p: "path t target source = Inr links"
    and c: "compose_links (go_motions exact) target source links (unit_motion (go_motions exact)) = Inr m"
    by (auto simp: lookup_def result_simps)
  note m = conjunct2[OF compose_links_fold[OF c]]
  note f = fold_links_rigid[OF rigid_unit, of links, folded m]
  then have "rigid m" by blast
  moreover have "\<forall>p. iso_apply exact m p = foldr (\<lambda>l. iso_apply exact (link_motion exact l)) links p" using f by (simp add: apply_unit)
  ultimately show ?thesis using path_route[OF p] by (simp add: apply_inverse) blast
qed

section \<open>Witnesses\<close>

definition two_links :: "(real vec3 \<times> real vec3) frame_tree" where
  "two_links = \<lparr>path_name = ''frames.json'', transforms =
    [\<lparr>parent = ''base'', child = ''laser'', pose = ((1, 0, 2), (0, 0, 0)), dynamic = False, by_node = ''''\<rparr>,
     \<lparr>parent = ''base'', child = ''cam'', pose = ((0, 3, 0), (0, 0, 0)), dynamic = False, by_node = ''''\<rparr>]\<rparr>"

lemma two_links_path: "\<exists>links. path (Some two_links) ''cam'' ''laser'' = Inr links"
  by (simp add: path_def has_frame_def tfs_of_def two_links_def traverse_def)

theorem lookup_motion_witness:
  "\<exists>m links. lookup (go_motions exact) (Some two_links) ''cam'' ''laser'' = Inr m
    \<and> chain (transforms two_links) ''cam'' links ''laser''
    \<and> m = foldl (iso_then exact) (unit_motion (go_motions exact)) (map (link_motion exact) links)"
proof -
  have "has_frame (Some two_links) ''cam''" "has_frame (Some two_links) ''laser''" "(''cam'', ''laser'') \<in> (joined (tfs_of (Some two_links)))\<^sup>*"
    using two_links_path path_exists[of "Some two_links" "''cam''" "''laser''"] by blast+
  moreover have "list_all (\<lambda>x. \<not> dynamic x) (tfs_of (Some two_links))" by (simp add: tfs_of_def two_links_def)
  ultimately obtain m where m: "lookup (go_motions exact) (Some two_links) ''cam'' ''laser'' = Inr m"
    using conjunct2[OF lookup_motion[of exact "Some two_links" "''cam''" "''laser''"]] unfolding list_all_iff by blast
  with conjunct1[OF lookup_motion[of exact "Some two_links" "''cam''" "''laser''"]] show ?thesis by (auto simp: tfs_of_def)
qed

end
