(* ===== verification/Sim_Clock.thy ===== *)
theory Sim_Clock
imports Go_Prelude
begin

text \<open>
  The simulated clock (\<^verbatim>\<open>simClock\<close> of \<^verbatim>\<open>clock.go\<close>): time moves when a \<^verbatim>\<open>/clock\<close> message
  arrives, and the waiters made by \<^verbatim>\<open>After\<close> and \<^verbatim>\<open>Ticker\<close> fire as it passes their deadlines. A time
  is a number of nanoseconds, \<^verbatim>\<open>time.Time{}\<close> is 0, and a waiter has an identity, by which its
  one-slot channel is kept in \<open>chans\<close>. A call is one atomic step, the sends \<^verbatim>\<open>Set\<close> makes after
  unlocking included: a send into a full channel is dropped.
\<close>

record sim_waiter =
  w_id :: nat
  w_at :: int
  w_after :: int
  w_anchored :: bool
  w_period :: int
  w_stopped :: bool

record sim_clock =
  now :: int
  clock_started :: bool
  waiters :: "sim_waiter list"
  chans :: "nat \<Rightarrow> int option"
  next_id :: nat

definition new_sim_clock :: sim_clock where
  "new_sim_clock = \<lparr>now = 0, clock_started = False, waiters = [], chans = (\<lambda>_. None), next_id = 0\<rparr>"

definition anchor :: "int \<Rightarrow> sim_waiter \<Rightarrow> sim_waiter" where
  "anchor t w = (if \<not> w_anchored w then w\<lparr>w_at := t + w_after w, w_anchored := True\<rparr> else w)"

definition pull_back :: "int \<Rightarrow> sim_waiter \<Rightarrow> sim_waiter" where
  "pull_back t w = (if w_at w > t then w\<lparr>w_at := t\<rparr> else w)"

text \<open>The loop over the waiters: those that fire, and those kept.\<close>

fun sweep :: "int \<Rightarrow> sim_waiter list \<Rightarrow> sim_waiter list \<times> sim_waiter list" where
  "sweep t [] = ([], [])"
| "sweep t (w # ws) =
     (let (fired, kept) = sweep t ws
      in if w_stopped w then (fired, kept)
         else if \<not> w_anchored w then (fired, w # kept)
         else if w_at w \<le> t then
           (if w_period w > 0 then (w # fired, w\<lparr>w_at := t + w_period w\<rparr> # kept) else (w # fired, kept))
         else (fired, w # kept))"

definition send :: "int \<Rightarrow> (nat \<Rightarrow> int option) \<Rightarrow> sim_waiter \<Rightarrow> nat \<Rightarrow> int option" where
  "send t cs w = (case cs (w_id w) of None \<Rightarrow> cs(w_id w \<mapsto> t) | Some _ \<Rightarrow> cs)"

definition sim_set :: "int \<Rightarrow> sim_clock \<Rightarrow> sim_clock \<times> sim_waiter list" where
  "sim_set t c =
     (let first = \<not> clock_started c;
          reset = clock_started c \<and> t < now c;
          ws1 = (if first then map (anchor t) (waiters c) else waiters c);
          ws2 = (if reset then map (pull_back t) ws1 else ws1);
          (fired, kept) = sweep t ws2
      in (c\<lparr>now := t, clock_started := True, waiters := kept, chans := foldl (send t) (chans c) fired\<rparr>, fired))"

definition sim_after :: "int \<Rightarrow> sim_clock \<Rightarrow> sim_clock \<times> nat" where
  "sim_after d c =
     (c\<lparr>waiters := waiters c @ [\<lparr>w_id = next_id c, w_at = now c + d, w_after = d,
          w_anchored = clock_started c, w_period = 0, w_stopped = False\<rparr>],
        next_id := Suc (next_id c)\<rparr>, next_id c)"

definition sim_ticker :: "int \<Rightarrow> sim_clock \<Rightarrow> sim_clock \<times> nat" where
  "sim_ticker p c =
     (c\<lparr>waiters := waiters c @ [\<lparr>w_id = next_id c, w_at = now c + p, w_after = p,
          w_anchored = clock_started c, w_period = p, w_stopped = False\<rparr>],
        next_id := Suc (next_id c)\<rparr>, next_id c)"

text \<open>The stop function a ticker returns, and a receive on a waiter's channel.\<close>

definition sim_stop :: "nat \<Rightarrow> sim_clock \<Rightarrow> sim_clock" where
  "sim_stop i c = c\<lparr>waiters := map (\<lambda>w. if w_id w = i then w\<lparr>w_stopped := True\<rparr> else w) (waiters c)\<rparr>"

definition sim_receive :: "nat \<Rightarrow> sim_clock \<Rightarrow> sim_clock" where
  "sim_receive i c = c\<lparr>chans := (chans c)(i := None)\<rparr>"

definition pending :: "sim_clock \<Rightarrow> nat" where
  "pending c = length (filter (\<lambda>w. \<not> w_stopped w) (waiters c))"

section \<open>Lemmas\<close>

lemma sweep_spec:
  "sweep t ws =
     (filter (\<lambda>w. \<not> w_stopped w \<and> w_anchored w \<and> w_at w \<le> t) ws,
      map (\<lambda>w. if w_anchored w \<and> w_at w \<le> t then w\<lparr>w_at := t + w_period w\<rparr> else w)
        (filter (\<lambda>w. \<not> w_stopped w \<and> \<not> (w_anchored w \<and> w_at w \<le> t \<and> w_period w \<le> 0)) ws))"
  by (induction ws) auto

inductive clock_reachable :: "sim_clock \<Rightarrow> bool" where
  new: "clock_reachable new_sim_clock"
| tick: "clock_reachable c \<Longrightarrow> clock_reachable (fst (sim_set t c))"
| "after": "clock_reachable c \<Longrightarrow> clock_reachable (fst (sim_after d c))"
| ticker: "clock_reachable c \<Longrightarrow> clock_reachable (fst (sim_ticker p c))"
| stop: "clock_reachable c \<Longrightarrow> clock_reachable (sim_stop i c)"
| receive: "clock_reachable c \<Longrightarrow> clock_reachable (sim_receive i c)"

text \<open>Before the first message no waiter has a deadline; from then on each has one. Identities are
  not reused.\<close>

definition clock_inv :: "sim_clock \<Rightarrow> bool" where
  "clock_inv c \<longleftrightarrow> (\<forall>w \<in> set (waiters c). w_anchored w = clock_started c)
     \<and> distinct (map w_id (waiters c)) \<and> (\<forall>w \<in> set (waiters c). w_id w < next_id c)"

lemma map_w_id_updates [simp]:
  "w_id (anchor t w) = w_id w" "w_id (pull_back t w) = w_id w" "w_anchored (anchor t w)"
  "w_anchored (pull_back t w) = w_anchored w"
  by (auto simp: anchor_def pull_back_def)

lemma clock_inv_set: "clock_inv c \<Longrightarrow> clock_inv (fst (sim_set t c))"
proof -
  assume inv: "clock_inv c"
  define ws where "ws = (let ws1 = (if \<not> clock_started c then map (anchor t) (waiters c) else waiters c)
    in if clock_started c \<and> t < now c then map (pull_back t) ws1 else ws1)"
  have ws: "\<forall>w \<in> set ws. w_anchored w" "distinct (map w_id ws)" "\<forall>w \<in> set ws. w_id w < next_id c"
    using inv by (auto simp: ws_def clock_inv_def Let_def o_def)
  have "waiters (fst (sim_set t c)) = snd (sweep t ws)" "clock_started (fst (sim_set t c))"
    "next_id (fst (sim_set t c)) = next_id c"
    by (simp_all add: sim_set_def ws_def Let_def split: prod.splits)
  moreover have "map w_id (snd (sweep t ws)) = map w_id (filter (\<lambda>w. \<not> w_stopped w \<and> \<not> (w_anchored w \<and> w_at w \<le> t \<and> w_period w \<le> 0)) ws)"
    by (auto simp: sweep_spec)
  moreover have "\<forall>w \<in> set (snd (sweep t ws)). w_anchored w \<and> w_id w < next_id c"
    using ws by (auto simp: sweep_spec)
  ultimately show ?thesis using ws(2) by (auto simp: clock_inv_def distinct_map_filter)
qed

lemma clock_reachable_inv: "clock_reachable c \<Longrightarrow> clock_inv c"
proof (induction rule: clock_reachable.induct)
  case (tick c t)
  then show ?case by (simp add: clock_inv_set)
next
  case (stop c i)
  have "map w_id (waiters (sim_stop i c)) = map w_id (waiters c)" by (auto simp: sim_stop_def)
  moreover have "next_id (sim_stop i c) = next_id c" "clock_started (sim_stop i c) = clock_started c"
    "\<forall>w \<in> set (waiters (sim_stop i c)). \<exists>v \<in> set (waiters c). w_id w = w_id v \<and> w_anchored w = w_anchored v"
    by (auto simp: sim_stop_def)
  ultimately show ?case using stop.IH by (auto simp: clock_inv_def)
qed (auto simp: clock_inv_def new_sim_clock_def sim_after_def sim_ticker_def sim_receive_def)

section \<open>Properties\<close>

text \<open>C20. Which waiters a \<^verbatim>\<open>/clock\<close> message fires. The first message turns waits into deadlines
  counted from it, so nothing with time still to wait fires on it; a message that goes back in time
  fires every waiter; any other fires those whose deadline it has reached. A stopped waiter never
  fires.\<close>

theorem sim_set_fires:
  assumes "clock_reachable c"
  shows "map w_id (snd (sim_set t c)) = map w_id (filter (\<lambda>w. \<not> w_stopped w \<and>
     (if \<not> clock_started c then w_after w \<le> 0 else t < now c \<or> w_at w \<le> t)) (waiters c))"
proof -
  have a: "\<forall>w \<in> set (waiters c). w_anchored w = clock_started c"
    using clock_reachable_inv[OF assms] by (simp add: clock_inv_def)
  have e: "snd (sim_set t c) = fst (sweep t (if \<not> clock_started c then map (anchor t) (waiters c)
      else if t < now c then map (pull_back t) (waiters c) else waiters c))"
    by (simp add: sim_set_def Let_def split: prod.splits)
  have f: "fst (sweep t (map g (waiters c))) = map g (filter (\<lambda>w. \<not> w_stopped (g w) \<and> w_anchored (g w) \<and> w_at (g w) \<le> t) (waiters c))"
    for g by (simp add: sweep_spec filter_map o_def)
  consider "\<not> clock_started c" | "clock_started c" "t < now c" | "clock_started c" "\<not> t < now c" by blast
  then show ?thesis
  proof cases
    case 1
    then have "filter (\<lambda>w. \<not> w_stopped (anchor t w) \<and> w_anchored (anchor t w) \<and> w_at (anchor t w) \<le> t) (waiters c)
        = filter (\<lambda>w. \<not> w_stopped w \<and> w_after w \<le> 0) (waiters c)"
      using a by (intro filter_cong) (auto simp: anchor_def)
    with 1 show ?thesis unfolding e by (simp add: f o_def)
  next
    case 2
    then have "filter (\<lambda>w. \<not> w_stopped (pull_back t w) \<and> w_anchored (pull_back t w) \<and> w_at (pull_back t w) \<le> t) (waiters c)
        = filter (\<lambda>w. \<not> w_stopped w) (waiters c)"
      using a by (intro filter_cong) (auto simp: pull_back_def)
    with 2 show ?thesis unfolding e by (simp add: f o_def)
  next
    case 3
    then have "filter (\<lambda>w. \<not> w_stopped w \<and> w_anchored w \<and> w_at w \<le> t) (waiters c)
        = filter (\<lambda>w. \<not> w_stopped w \<and> (t < now c \<or> w_at w \<le> t)) (waiters c)"
      using a by (intro filter_cong) auto
    with 3 show ?thesis unfolding e by (simp add: sweep_spec)
  qed
qed

definition waiting_clock :: sim_clock where
  "waiting_clock = fst (sim_after 30 (fst (sim_ticker 5 new_sim_clock)))"

lemma waiting_clock_reachable: "clock_reachable waiting_clock"
  unfolding waiting_clock_def by (intro clock_reachable.intros)

theorem sim_set_fires_witness: "map w_id (snd (sim_set 1000 waiting_clock)) = []"
  unfolding sim_set_fires[OF waiting_clock_reachable]
  by (simp add: waiting_clock_def sim_after_def sim_ticker_def new_sim_clock_def)

text \<open>No waiter is lost: after a message, a waiter that was not stopped is still waiting unless
  it was a one-shot that has just fired, and one that is still waiting has a deadline ahead of the
  clock.\<close>

theorem sim_set_keeps:
  assumes "clock_reachable c"
  shows "map w_id (waiters (fst (sim_set t c))) = map w_id (filter (\<lambda>w. \<not> w_stopped w \<and>
      \<not> (w_id w \<in> w_id ` set (snd (sim_set t c)) \<and> w_period w \<le> 0)) (waiters c))
    \<and> (\<forall>w \<in> set (waiters (fst (sim_set t c))). t < w_at w)"
proof -
  note inv = clock_reachable_inv[OF assms, unfolded clock_inv_def]
  define g where "g = (if \<not> clock_started c then anchor t else if t < now c then pull_back t else id)"
  have g: "w_id (g w) = w_id w" "w_stopped (g w) = w_stopped w" "w_period (g w) = w_period w" for w
    by (simp_all add: g_def anchor_def pull_back_def)
  have ga: "w_anchored (g w)" if "w \<in> set (waiters c)" for w
    using inv that by (auto simp: g_def anchor_def pull_back_def)
  have e: "snd (sim_set t c) = fst (sweep t (map g (waiters c)))"
    "waiters (fst (sim_set t c)) = snd (sweep t (map g (waiters c)))"
    by (simp_all add: sim_set_def Let_def g_def split: prod.splits)
  have ids: "w_id w \<in> w_id ` set (snd (sim_set t c)) \<longleftrightarrow> \<not> w_stopped w \<and> w_at (g w) \<le> t"
    if w: "w \<in> set (waiters c)" for w
  proof -
    have "w_id w \<in> w_id ` set (snd (sim_set t c)) \<longleftrightarrow>
        (\<exists>v \<in> set (waiters c). w_id v = w_id w \<and> \<not> w_stopped v \<and> w_at (g v) \<le> t)"
      unfolding e by (auto simp: sweep_spec g ga image_iff)
    also have "\<dots> \<longleftrightarrow> \<not> w_stopped w \<and> w_at (g w) \<le> t"
      using inv w by (auto simp: distinct_map dest: inj_onD)
    finally show ?thesis .
  qed
  have "map w_id (waiters (fst (sim_set t c))) = map w_id (filter (\<lambda>w. \<not> w_stopped w \<and> \<not> (w_at (g w) \<le> t \<and> w_period w \<le> 0)) (waiters c))"
    unfolding e by (simp add: sweep_spec filter_map o_def g if_distrib[of w_id] cong: if_cong)
      (rule arg_cong[where f = "map w_id"], rule filter_cong, auto simp: ga)
  also have "\<dots> = map w_id (filter (\<lambda>w. \<not> w_stopped w \<and>
      \<not> (w_id w \<in> w_id ` set (snd (sim_set t c)) \<and> w_period w \<le> 0)) (waiters c))"
    by (rule arg_cong[where f = "map w_id"], rule filter_cong) (auto simp: ids)
  finally show ?thesis unfolding e by (auto simp: sweep_spec ga)
qed

theorem sim_set_keeps_witness: "map w_id (waiters (fst (sim_set 1000 waiting_clock))) = [0, 1]"
proof -
  have f: "snd (sim_set 1000 waiting_clock) = []"
    by (simp add: sim_set_def waiting_clock_def sim_after_def sim_ticker_def new_sim_clock_def anchor_def)
  from sim_set_keeps[OF waiting_clock_reachable, of 1000]
  have "map w_id (waiters (fst (sim_set 1000 waiting_clock))) = map w_id (filter (\<lambda>w. \<not> w_stopped w) (waiters waiting_clock))"
    unfolding f by simp
  then show ?thesis by (simp add: waiting_clock_def sim_after_def sim_ticker_def new_sim_clock_def)
qed

end
