(* ===== verification/App_Model.thy ===== *)
theory App_Model
imports Frames
begin

text \<open>
  The application model the scanner produces (\<^verbatim>\<open>internal/scan/scan.go\<close>), which the checker, the
  generators and deployment work on: one record per Go struct. Maps are partial functions. The
  fields of \<^verbatim>\<open>App\<close> that only environments, deployment and the dashboard read are left out, and the
  pose of a transform is a value of any type.
\<close>

record endpoint_decl =
  ep_field :: string
  ep_topic :: string
  ep_qos :: string
  ep_frame :: string
  ep_gotype :: string
  ep_file :: string
  ep_line :: int

record service_decl =
  sv_field :: string
  sv_service :: string
  sv_req :: string
  sv_res :: string
  sv_file :: string
  sv_line :: int

record action_decl =
  ac_field :: string
  ac_action :: string
  ac_goal :: string
  ac_feedback :: string
  ac_result :: string
  ac_file :: string
  ac_line :: int

record timer_decl =
  tm_field :: string
  tm_rate :: string
  tm_file :: string
  tm_line :: int

record mission_decl =
  ms_field :: string
  ms_name :: string
  ms_start :: string
  ms_file :: string
  ms_line :: int

record step_decl =
  st_field :: string
  st_name :: string
  st_next :: string
  st_fail :: string
  st_timeout :: string
  st_retry :: string
  st_backoff :: string
  st_file :: string
  st_line :: int

record call =
  cl_method :: string
  cl_recv :: string
  cl_in :: string
  cl_args :: "string list"
  cl_file :: string
  cl_line :: int

record tf_decl =
  td_field :: string
  td_file :: string
  td_line :: int

record group_decl =
  gr_field :: string
  gr_name :: string
  gr_file :: string
  gr_line :: int

record lifecycle_decl =
  lf_field :: string
  lf_nodes :: "string list"
  lf_timeout :: string
  lf_file :: string
  lf_line :: int

record method_sig =
  params :: int
  results :: int

record external =
  ex_topic :: string
  ex_type :: string
  ex_role :: string
  ex_qos :: string

record named_state =
  ns_name :: string
  ns_joints :: "string list"

record planning_group =
  pg_name :: string
  pg_base :: string
  pg_tip :: string
  pg_links :: "string list"
  pg_joints :: "string list"
  pg_subgroups :: "string list"
  pg_states :: "named_state list"

record semantics =
  sem_path :: string
  sem_groups :: "planning_group list"

record param_decl =
  pd_field :: string
  pd_name :: string
  pd_default :: string
  pd_gotype :: string

record node_decl =
  nd_struct :: string
  nd_name :: string
  nd_file :: string
  nd_line :: int
  subs :: "endpoint_decl list"
  pubs :: "endpoint_decl list"
  services :: "service_decl list"
  clients :: "service_decl list"
  actions :: "action_decl list"
  action_clients :: "action_decl list"
  nd_params :: "param_decl list"
  timers :: "timer_decl list"
  missions :: "mission_decl list"
  steps :: "step_decl list"
  tf_field :: "tf_decl option"
  lifecycles :: "lifecycle_decl list"
  groups :: "group_decl list"
  methods :: "string \<Rightarrow> method_sig option"
  calls :: "call list"

record 'v app =
  app_name :: string
  app_dir :: string
  nodes :: "node_decl list"
  messages :: "string \<Rightarrow> string option"
  stamped :: "string \<Rightarrow> bool option"
  externals :: "external list"
  app_frames :: "'v frame_tree option"
  frames_file :: string
  app_semantics :: "semantics option"
  groups_file :: string

text \<open>\<^verbatim>\<open>fmt.Sprintf("%s:%d", file, line)\<close>.\<close>

definition pos :: "string \<Rightarrow> int \<Rightarrow> string" where
  "pos file line = file @ '':'' @ itoa line"

text \<open>A node with nothing in it, and an application with no nodes; the scanner fills them in.\<close>

definition empty_node :: "string \<Rightarrow> node_decl" where
  "empty_node name = \<lparr>nd_struct = name, nd_name = name, nd_file = ''app.go'', nd_line = 1,
     subs = [], pubs = [], services = [], clients = [], actions = [], action_clients = [],
     nd_params = [], timers = [], missions = [], steps = [], tf_field = None, lifecycles = [], groups = [],
     methods = (\<lambda>_. None), calls = []\<rparr>"

definition empty_app :: "'v app" where
  "empty_app = \<lparr>app_name = ''app'', app_dir = ''/app'', nodes = [], messages = (\<lambda>_. None),
     stamped = (\<lambda>_. None), externals = [], app_frames = None, frames_file = [],
     app_semantics = None, groups_file = []\<rparr>"

section \<open>Planning groups\<close>

definition semantics_group :: "semantics option \<Rightarrow> string \<Rightarrow> planning_group option" where
  "semantics_group s name =
     (case s of None \<Rightarrow> None | Some s \<Rightarrow> find (\<lambda>g. pg_name g = name) (sem_groups s))"

definition semantics_names :: "semantics option \<Rightarrow> string list" where
  "semantics_names s = (case s of None \<Rightarrow> [] | Some s \<Rightarrow> sort (map pg_name (sem_groups s)))"

definition load_semantics :: "string \<Rightarrow> planning_group list \<Rightarrow> semantics result" where
  "load_semantics file gs =
     (if \<exists>g \<in> set gs. pg_name g = '''' then Inl (Errorf ''%s: every group needs a name'' [GStr file])
      else Inr \<lparr>sem_path = file, sem_groups = gs\<rparr>)"

end
