(* ===== verification/Graph_Issue.thy ===== *)
theory Graph_Issue
imports App_Model
begin

text \<open>
  What the checker reports (\<^verbatim>\<open>Issue\<close>, \<^verbatim>\<open>checkHandler\<close>, \<^verbatim>\<open>keys\<close>, \<^verbatim>\<open>Errors\<close> of
  \<^verbatim>\<open>internal/graph/graph.go\<close>). The closure \<^verbatim>\<open>add\<close> appends to one slice, so a check is the list of
  issues it adds, and checks made one after the other are lists appended. A message is kept
  unrendered, as its format and arguments.
\<close>

datatype severity = Error | Warning

record issue =
  severity :: severity
  code :: string
  msg :: goerror
  at_pos :: string

definition add :: "severity \<Rightarrow> string \<Rightarrow> string \<Rightarrow> string \<Rightarrow> goarg list \<Rightarrow> issue" where
  "add sev c p fmt args = \<lparr>severity = sev, code = c, msg = Errorf fmt args, at_pos = p\<rparr>"

definition errors :: "issue list \<Rightarrow> bool" where
  "errors issues \<longleftrightarrow> (\<exists>i \<in> set issues. severity i = Error)"

definition check_handler :: "node_decl \<Rightarrow> string \<Rightarrow> method_sig \<Rightarrow> string \<Rightarrow> issue list" where
  "check_handler n field want p =
     (case methods n (''On'' @ field) of
        None \<Rightarrow> [add Error ''CND003'' p ''node %s: missing handler method On%s'' [GStr (nd_name n), GStr field]]
      | Some got \<Rightarrow>
          if got \<noteq> want
          then [add Error ''CND003'' p ''node %s: handler On%s must take %d parameter(s) and return %d value(s), has %d and %d''
            [GStr (nd_name n), GStr field, GInt (params want), GInt (results want), GInt (params got), GInt (results got)]]
          else [])"

text \<open>\<^verbatim>\<open>keys\<close> of a set given as the list of what was put in it.\<close>

definition key_list :: "string list \<Rightarrow> string" where
  "key_list ks = join '' vs '' (sort (remdups ks))"

lemma add_severity [simp]: "severity (add s c p f as) = s" "code (add s c p f as) = c"
  by (simp_all add: add_def)

lemma errors_append [simp]: "errors (xs @ ys) \<longleftrightarrow> errors xs \<or> errors ys"
  by (auto simp: errors_def)

lemma errors_Nil [simp]: "\<not> errors []"
  by (simp add: errors_def)

lemma errors_Cons [simp]: "errors (x # xs) \<longleftrightarrow> severity x = Error \<or> errors xs"
  by (auto simp: errors_def)

lemma errors_concat: "errors (concat xss) \<longleftrightarrow> (\<exists>xs \<in> set xss. errors xs)"
  by (induction xss) auto

lemma errors_concat_map [simp]: "errors (concat (map f xs)) \<longleftrightarrow> (\<exists>x \<in> set xs. errors (f x))"
  by (simp add: errors_concat)

lemma check_handler_bad: "errors (check_handler n field want p) \<longleftrightarrow> methods n (''On'' @ field) \<noteq> Some want"
  by (auto simp: check_handler_def split: option.splits)

lemma check_handler_errors: "\<not> errors (check_handler n field want p) \<longleftrightarrow> methods n (''On'' @ field) = Some want"
  by (auto simp: check_handler_def split: option.splits)

end
