(* ===== verification/Mission.thy ===== *)
theory Mission
imports Go_Time "HOL-Library.Word"
begin

text \<open>
  Missions at run time (\<^verbatim>\<open>mission.go\<close>): a node's steps, the checks made while wiring them, and the
  runner that executes one step after another. The environment of a run is a list of visits, one
  for each turn of the loop in \<^verbatim>\<open>missionRunner.run\<close>: what the handler returned, and what happened to
  the contexts meanwhile. A run given a shorter list is one that is still going on. Time stamps,
  metrics, spans and log lines are left out.
\<close>

section \<open>Errors of a step\<close>

text \<open>Error values as \<^verbatim>\<open>errors.As\<close> and \<^verbatim>\<open>errors.Is\<close> see them: \<^verbatim>\<open>ErrGoto\<close> is the sentinel of
  \<^verbatim>\<open>Task.Goto\<close>, \<^verbatim>\<open>ErrWrap\<close> an error that wraps another.\<close>

datatype terr =
    ErrCanceled
  | ErrDeadline
  | ErrGoto string
  | ErrMsg string "goarg list"
  | ErrWrap string "goarg list" terr

fun as_goto :: "terr \<Rightarrow> string option" where
  "as_goto (ErrGoto step) = Some step"
| "as_goto (ErrWrap f args e) = as_goto e"
| "as_goto _ = None"

fun is_canceled :: "terr \<Rightarrow> bool" where
  "is_canceled ErrCanceled = True"
| "is_canceled (ErrWrap f args e) = is_canceled e"
| "is_canceled _ = False"

section \<open>Steps and wiring\<close>

datatype mission_status = Idle | Running | Done | Failed | Canceled

abbreviation step_done :: string where "step_done \<equiv> ''done''"
abbreviation step_failed :: string where "step_failed \<equiv> ''failed''"

record step_def =
  sd_name :: string
  sd_field :: string
  sd_next :: string
  sd_fail :: string
  sd_timeout :: int
  sd_retry :: int
  sd_backoff :: int

text \<open>\<^verbatim>\<open>parseCount\<close> multiplies in \<^verbatim>\<open>int\<close>, 64 bits wide, without an overflow check.\<close>

fun count_digits :: "64 word \<Rightarrow> string \<Rightarrow> 64 word option" where
  "count_digits n [] = Some n"
| "count_digits n (c # cs) =
     (case digit_val c of None \<Rightarrow> None | Some d \<Rightarrow> count_digits (n * 10 + of_nat d) cs)"

definition parse_count :: "string \<Rightarrow> 64 word option" where
  "parse_count s = (case count_digits 0 s of None \<Rightarrow> None | Some n \<Rightarrow> if s = [] then None else Some n)"

text \<open>\<^verbatim>\<open>Step.bind\<close>, after its handler has been found: the tags of the field.\<close>

record step_tags =
  tag_next :: string
  tag_fail :: string
  tag_timeout :: string
  tag_backoff :: string
  tag_retry :: string

definition bind_step :: "string \<Rightarrow> string \<Rightarrow> step_tags \<Rightarrow> step_def result" where
  "bind_step name field tags =
     bind_result
       (if tag_timeout tags = '''' then Inr 0
        else case parse_duration (tag_timeout tags) of
          None \<Rightarrow> Inl (Errorf ''invalid timeout %q'' [GStr (tag_timeout tags)])
        | Some d \<Rightarrow> if d \<le> 0 then Inl (Errorf ''invalid timeout %q'' [GStr (tag_timeout tags)]) else Inr d)
     (\<lambda>timeout. bind_result
       (if tag_backoff tags = '''' then Inr 0
        else case parse_duration (tag_backoff tags) of
          None \<Rightarrow> Inl (Errorf ''invalid backoff %q'' [GStr (tag_backoff tags)])
        | Some d \<Rightarrow> if d < 0 then Inl (Errorf ''invalid backoff %q'' [GStr (tag_backoff tags)]) else Inr d)
     (\<lambda>backoff. bind_result
       (if tag_retry tags = '''' then Inr 0
        else case parse_count (tag_retry tags) of
          None \<Rightarrow> Inl (Errorf ''invalid retry %q'' [GStr (tag_retry tags)])
        | Some n \<Rightarrow> Inr (sint n))
     (\<lambda>retry. Inr \<lparr>sd_name = name, sd_field = field,
        sd_next = (if tag_next tags = '''' then step_done else tag_next tags), sd_fail = tag_fail tags,
        sd_timeout = timeout, sd_retry = retry, sd_backoff = backoff\<rparr>)))"

record mission_state =
  m_status :: mission_status
  m_step :: string
  m_attempt :: int
  m_err :: "terr option"

text \<open>\<open>r_context\<close> is the run's context once \<^verbatim>\<open>start_\<close> has made one: is it canceled? \<open>r_entered\<close> is
  the sequence of steps entered, of which \<^verbatim>\<open>transitions\<close> is the length and \<^verbatim>\<open>entries\<close> of a
  step the number of its occurrences.\<close>

record runner =
  r_node :: string
  r_name :: string
  r_start :: string
  r_steps :: "step_def list"
  r_state :: mission_state
  r_context :: "bool option"
  r_entered :: "(string \<times> int) list"

definition lookup_step :: "step_def list \<Rightarrow> string \<Rightarrow> step_def option" where
  "lookup_step steps name = find (\<lambda>d. sd_name d = name) steps"

definition declared_step :: "step_def list \<Rightarrow> string \<Rightarrow> bool" where
  "declared_step steps name \<longleftrightarrow> lookup_step steps name \<noteq> None"

fun wire_steps :: "string \<Rightarrow> step_def list \<Rightarrow> step_def list \<Rightarrow> step_def list result" where
  "wire_steps mission order [] = Inr order"
| "wire_steps mission order (d # ds) =
     (if declared_step order (sd_name d)
      then Inl (Errorf ''mission %s: two steps named %q'' [GStr mission, GStr (sd_name d)])
      else wire_steps mission (order @ [d]) ds)"

definition bad_target :: "step_def list \<Rightarrow> step_def \<Rightarrow> string option" where
  "bad_target steps d =
     find (\<lambda>target. \<not> (target = '''' \<or> target = step_done \<or> target = step_failed) \<and> \<not> declared_step steps target)
       [sd_next d, sd_fail d]"

fun check_targets :: "string \<Rightarrow> step_def list \<Rightarrow> step_def list \<Rightarrow> goerror option" where
  "check_targets mission steps [] = None"
| "check_targets mission steps (d # ds) =
     (case bad_target steps d of
        Some target \<Rightarrow> Some (Errorf ''mission %s: step %s names %q, which is not a declared step''
          [GStr mission, GStr (sd_name d), GStr target])
      | None \<Rightarrow> check_targets mission steps ds)"

text \<open>\<^verbatim>\<open>wireMission\<close>: the runner \<^verbatim>\<open>Mission.bind\<close> made, if the node has one, and the node's steps.\<close>

definition new_runner :: "string \<Rightarrow> string \<Rightarrow> string \<Rightarrow> runner" where
  "new_runner node name start = \<lparr>r_node = node, r_name = name, r_start = start, r_steps = [],
     r_state = \<lparr>m_status = Idle, m_step = '''', m_attempt = 0, m_err = None\<rparr>,
     r_context = None, r_entered = []\<rparr>"

definition wire_mission :: "string \<Rightarrow> runner option \<Rightarrow> step_def list \<Rightarrow> runner option result" where
  "wire_mission node mission steps =
     (case mission of
        None \<Rightarrow>
          (case steps of
             [] \<Rightarrow> Inr None
           | d # _ \<Rightarrow> Inl (Errorf ''node %s declares step %s but no conductor.Mission field'' [GStr node, GStr (sd_field d)]))
      | Some r \<Rightarrow>
          bind_result (wire_steps (r_name r) [] steps) (\<lambda>order.
            if order = [] then Inl (Errorf ''mission %s declares no steps'' [GStr (r_name r)])
            else if \<not> declared_step order (r_start r)
              then Inl (Errorf ''mission %s starts at %q, which is not a declared step'' [GStr (r_name r), GStr (r_start r)])
            else case check_targets (r_name r) order order of
              Some e \<Rightarrow> Inl e
            | None \<Rightarrow> Inr (Some (r\<lparr>r_steps := order, r_state := (r_state r)\<lparr>m_step := r_start r\<rparr>\<rparr>))))"

section \<open>The runner\<close>

definition start_mission :: "runner \<Rightarrow> runner \<times> bool" where
  "start_mission r =
     (if m_status (r_state r) = Running then (r, False)
      else (r\<lparr>r_context := Some False,
             r_state := \<lparr>m_status = Running, m_step = r_start r, m_attempt = 1, m_err = None\<rparr>\<rparr>, True))"

text \<open>\<^verbatim>\<open>stop\<close> up to its wait: canceling the context, if a run ever had one.\<close>

definition cancel_mission :: "runner \<Rightarrow> runner" where
  "cancel_mission r = (case r_context r of None \<Rightarrow> r | Some _ \<Rightarrow> r\<lparr>r_context := Some True\<rparr>)"

definition canceled_ctx :: "runner \<Rightarrow> bool" where
  "canceled_ctx r \<longleftrightarrow> r_context r = Some True"

definition enter :: "string \<Rightarrow> int \<Rightarrow> runner \<Rightarrow> runner" where
  "enter step attempt r = r\<lparr>r_entered := r_entered r @ [(step, attempt)],
     r_state := (r_state r)\<lparr>m_step := step, m_attempt := attempt\<rparr>\<rparr>"

definition set_err :: "terr \<Rightarrow> runner \<Rightarrow> runner" where
  "set_err e r = r\<lparr>r_state := (r_state r)\<lparr>m_err := Some e\<rparr>\<rparr>"

definition finish :: "mission_status \<Rightarrow> terr option \<Rightarrow> runner \<Rightarrow> runner" where
  "finish status err r =
     (let s1 = (r_state r)\<lparr>m_status := status\<rparr>;
          s2 = (if err \<noteq> None then s1\<lparr>m_err := err\<rparr> else s1);
          s3 = (case status of Done \<Rightarrow> s2\<lparr>m_step := step_done\<rparr> | Failed \<Rightarrow> s2\<lparr>m_step := step_failed\<rparr> | _ \<Rightarrow> s2)
      in r\<lparr>r_state := s3\<rparr>)"

text \<open>One turn of the loop as the environment decides it: whether the run's context was canceled
  before the turn or while the handler ran, what the handler returned, whether the step's own
  deadline had canceled its context by then, and whether the backoff was slept to its end.\<close>

record visit =
  v_cancel_before :: bool
  v_cancel_during :: bool
  v_return :: "terr option"
  v_deadline :: bool
  v_slept :: bool

definition run_step :: "step_def \<Rightarrow> visit \<Rightarrow> terr option" where
  "run_step d v =
     (case v_return v of
        Some e \<Rightarrow> if sd_timeout d > 0 \<and> v_deadline v \<and> is_canceled e then Some ErrDeadline else Some e
      | None \<Rightarrow> None)"

text \<open>Where the loop goes: to another turn with the variables \<^verbatim>\<open>step\<close>, \<^verbatim>\<open>attempt\<close> and \<^verbatim>\<open>cause\<close>, or
  out.\<close>

datatype loop = Turn string int "terr option" | Ended

definition note_cancel :: "bool \<Rightarrow> runner \<Rightarrow> runner" where
  "note_cancel b r = (if b then cancel_mission r else r)"

definition after_step :: "step_def \<Rightarrow> int \<Rightarrow> visit \<Rightarrow> terr option \<Rightarrow> runner \<Rightarrow> runner \<times> loop" where
  "after_step d attempt v err r =
     (case err of
        None \<Rightarrow> (r, Turn (sd_next d) 1 None)
      | Some e \<Rightarrow>
          (case as_goto e of
             Some jump \<Rightarrow>
               if \<not> declared_step (r_steps r) jump \<and> jump \<noteq> step_done \<and> jump \<noteq> step_failed
               then (finish Failed (Some (ErrMsg ''step %s: Goto(%q): no such step'' [GStr (sd_name d), GStr jump])) r, Ended)
               else (r, Turn jump 1 None)
           | None \<Rightarrow>
               if canceled_ctx r then (finish Canceled None r, Ended)
               else if attempt \<le> sd_retry d then
                 (if sd_backoff d > 0 \<and> \<not> v_slept v then (finish Canceled None r, Ended)
                  else (r, Turn (sd_name d) (attempt + 1) None))
               else if sd_fail d \<noteq> '''' then (set_err e r, Turn (sd_fail d) 1 (Some e))
               else (finish Failed (Some (ErrWrap ''step %s: %w'' [GStr (sd_name d)] e)) r, Ended)))"

definition run_turn :: "visit \<Rightarrow> string \<Rightarrow> int \<Rightarrow> terr option \<Rightarrow> runner \<Rightarrow> runner \<times> loop" where
  "run_turn v step attempt cause r0 =
     (let r = note_cancel (v_cancel_before v) r0
      in if canceled_ctx r then (finish Canceled None r, Ended)
         else if step = step_done then (finish Done None r, Ended)
         else if step = step_failed then (finish Failed (m_err (r_state r)) r, Ended)
         else case lookup_step (r_steps r) step of
           None \<Rightarrow> (finish Failed (Some (ErrMsg ''no step %q in mission %s'' [GStr step, GStr (r_name r)])) r, Ended)
         | Some d \<Rightarrow>
             after_step d attempt v (run_step d v) (note_cancel (v_cancel_during v) (enter step attempt r)))"

fun run_loop :: "visit list \<Rightarrow> runner \<times> loop \<Rightarrow> runner \<times> loop" where
  "run_loop [] s = s"
| "run_loop vs (r, Ended) = (r, Ended)"
| "run_loop (v # vs) (r, Turn step attempt cause) = run_loop vs (run_turn v step attempt cause r)"

definition run_mission :: "visit list \<Rightarrow> runner \<Rightarrow> runner \<times> loop" where
  "run_mission vs r = run_loop vs (r, Turn (r_start r) 1 None)"

section \<open>Wiring makes a closed machine\<close>

definition terminal_name :: "string \<Rightarrow> bool" where
  "terminal_name s \<longleftrightarrow> s = step_done \<or> s = step_failed"

definition target_ok :: "step_def list \<Rightarrow> string \<Rightarrow> bool" where
  "target_ok steps s \<longleftrightarrow> declared_step steps s \<or> terminal_name s"

definition machine_ok :: "step_def list \<Rightarrow> bool" where
  "machine_ok steps \<longleftrightarrow> distinct (map sd_name steps) \<and>
     (\<forall>d \<in> set steps. (sd_next d = '''' \<or> target_ok steps (sd_next d)) \<and> (sd_fail d = '''' \<or> target_ok steps (sd_fail d)))"

lemma lookup_step_Some: "lookup_step steps s = Some d \<Longrightarrow> d \<in> set steps \<and> sd_name d = s"
  by (auto simp: lookup_step_def dest: find_SomeD)

lemma declared_step_iff: "declared_step steps s \<longleftrightarrow> s \<in> sd_name ` set steps"
  by (auto simp: declared_step_def lookup_step_def find_None_iff)

lemma wire_steps_Inr: "wire_steps m acc ds = Inr order \<Longrightarrow> distinct (map sd_name acc)
    \<Longrightarrow> order = acc @ ds \<and> distinct (map sd_name order)"
proof (induction m acc ds rule: wire_steps.induct)
  case (2 m acc d ds)
  then have "\<not> declared_step acc (sd_name d)" by (auto split: if_splits)
  moreover from this have "wire_steps m (acc @ [d]) ds = Inr order" using 2(2) by simp
  moreover have "distinct (map sd_name (acc @ [d]))"
    using 2(3) \<open>\<not> declared_step acc (sd_name d)\<close> by (simp add: declared_step_iff)
  ultimately have "order = (acc @ [d]) @ ds \<and> distinct (map sd_name order)" using 2(1) by blast
  then show ?case by (metis append.assoc append_Cons append_Nil)
qed simp

lemma bad_target_None: "bad_target steps d = None \<longleftrightarrow>
    (sd_next d = '''' \<or> target_ok steps (sd_next d)) \<and> (sd_fail d = '''' \<or> target_ok steps (sd_fail d))"
  by (auto simp: bad_target_def target_ok_def terminal_name_def)

lemma check_targets_None: "check_targets m steps ds = None \<longleftrightarrow> (\<forall>d \<in> set ds. bad_target steps d = None)"
  by (induction ds) (auto split: option.splits)

lemma wire_mission_ok:
  assumes "wire_mission node (Some r0) steps = Inr (Some r)"
  shows "r_steps r = steps \<and> machine_ok steps \<and> declared_step steps (r_start r)
    \<and> r = r0\<lparr>r_steps := steps, r_state := (r_state r0)\<lparr>m_step := r_start r0\<rparr>\<rparr>
    \<and> r_entered r = r_entered r0 \<and> m_status (r_state r) = m_status (r_state r0)"
  using assms
  by (auto simp: wire_mission_def result_simps machine_ok_def check_targets_None bad_target_None
    split: if_splits option.splits dest!: wire_steps_Inr)

section \<open>The run's invariant\<close>

text \<open>A step field with an empty \<^verbatim>\<open>next\<close> tag does not reach the runner: binding fills it in.\<close>

definition nexts_set :: "step_def list \<Rightarrow> bool" where
  "nexts_set steps \<longleftrightarrow> (\<forall>d \<in> set steps. sd_next d \<noteq> '''')"

definition attempt_ok :: "step_def list \<Rightarrow> string \<Rightarrow> int \<Rightarrow> bool" where
  "attempt_ok steps s a \<longleftrightarrow> 1 \<le> a \<and> (\<forall>d. lookup_step steps s = Some d \<longrightarrow> a \<le> max 0 (sd_retry d) + 1)"

definition entered_ok :: "step_def list \<Rightarrow> (string \<times> int) \<Rightarrow> bool" where
  "entered_ok steps = (\<lambda>(s, a). declared_step steps s \<and> \<not> terminal_name s \<and> attempt_ok steps s a)"

definition run_inv :: "runner \<times> loop \<Rightarrow> bool" where
  "run_inv = (\<lambda>(r, l). machine_ok (r_steps r) \<and> nexts_set (r_steps r)
     \<and> (\<forall>e \<in> set (r_entered r). entered_ok (r_steps r) e)
     \<and> (case l of
          Turn s a c \<Rightarrow> m_status (r_state r) = Running \<and> target_ok (r_steps r) s \<and> attempt_ok (r_steps r) s a
        | Ended \<Rightarrow> m_status (r_state r) \<in> {Done, Failed, Canceled}))"

lemma runner_updates [simp]:
  "r_steps (note_cancel b r) = r_steps r" "r_entered (note_cancel b r) = r_entered r"
  "r_state (note_cancel b r) = r_state r" "r_steps (enter s a r) = r_steps r"
  "r_entered (enter s a r) = r_entered r @ [(s, a)]" "m_status (r_state (enter s a r)) = m_status (r_state r)"
  "r_steps (finish st e r) = r_steps r" "r_entered (finish st e r) = r_entered r"
  "m_status (r_state (finish st e r)) = st" "r_context (finish st e r) = r_context r"
  "r_steps (set_err e' r) = r_steps r" "r_entered (set_err e' r) = r_entered r"
  "m_status (r_state (set_err e' r)) = m_status (r_state r)"
  "r_start (note_cancel b r) = r_start r" "r_start (enter s a r) = r_start r"
  "r_start (finish st e r) = r_start r" "r_start (set_err e' r) = r_start r"
  by (simp_all add: note_cancel_def cancel_mission_def enter_def finish_def set_err_def Let_def
    split: option.splits mission_status.splits)

lemma attempt_ok_1: "attempt_ok steps s 1"
  by (simp add: attempt_ok_def)

lemma after_step_inv:
  assumes "machine_ok (r_steps r)" and "nexts_set (r_steps r)" and "\<forall>e \<in> set (r_entered r). entered_ok (r_steps r) e"
    and "m_status (r_state r) = Running" and "lookup_step (r_steps r) s = Some d" and "attempt_ok (r_steps r) s a"
  shows "run_inv (after_step d a v err r)"
proof -
  have d: "d \<in> set (r_steps r)" "sd_name d = s" using lookup_step_Some[OF assms(5)] by auto
  have t: "target_ok (r_steps r) (sd_next d)" "sd_fail d \<noteq> '''' \<Longrightarrow> target_ok (r_steps r) (sd_fail d)"
    "target_ok (r_steps r) s"
    using assms(1,2) d by (auto simp: machine_ok_def nexts_set_def target_ok_def declared_step_iff)
  have "attempt_ok (r_steps r) s (a + 1)" if "a \<le> sd_retry d"
    using that assms(5,6) by (auto simp: attempt_ok_def)
  then show ?thesis
    using assms(1-4) t d(2)
    by (auto simp: run_inv_def after_step_def attempt_ok_1 target_ok_def terminal_name_def split: option.splits)
qed

lemma run_turn_inv:
  assumes "run_inv (r, Turn s a c)"
  shows "run_inv (run_turn v s a c r)"
proof -
  note i = assms[unfolded run_inv_def, simplified]
  show ?thesis
  proof (cases "canceled_ctx (note_cancel (v_cancel_before v) r) \<or> s = step_done \<or> s = step_failed
      \<or> lookup_step (r_steps r) s = None")
    case True
    then show ?thesis using i
      by (auto simp: run_turn_def Let_def run_inv_def split: option.splits)
  next
    case False
    then obtain d where d: "lookup_step (r_steps r) s = Some d" by blast
    define r' where "r' = note_cancel (v_cancel_during v) (enter s a (note_cancel (v_cancel_before v) r))"
    have e: "run_turn v s a c r = after_step d a v (run_step d v) r'"
      using False d by (simp add: run_turn_def Let_def r'_def)
    show ?thesis unfolding e
    proof (rule after_step_inv)
      show "\<forall>e \<in> set (r_entered r'). entered_ok (r_steps r') e"
        using i False d by (auto simp: r'_def entered_ok_def declared_step_def terminal_name_def)
      show "lookup_step (r_steps r') s = Some d" using d by (simp add: r'_def)
    qed (use i in \<open>simp_all add: r'_def\<close>)
  qed
qed

lemma run_loop_inv: "run_inv s \<Longrightarrow> run_inv (run_loop vs s)"
  by (induction vs s rule: run_loop.induct) (simp_all add: run_turn_inv)

lemma run_loop_steps: "r_steps (fst (run_loop vs s)) = r_steps (fst s)"
proof (induction vs s rule: run_loop.induct)
  case (3 v vs r step attempt cause)
  have "r_steps (fst (run_turn v step attempt cause r)) = r_steps r"
    by (auto simp: run_turn_def Let_def after_step_def split: option.splits)
  with 3 show ?case by simp
qed simp_all

lemma started_run_inv:
  assumes "wire_mission node (Some (new_runner node name start)) steps = Inr (Some r)"
    and "nexts_set steps" and "start_mission r = (r', True)"
  shows "run_inv (r', Turn (r_start r') 1 None) \<and> r_steps r' = steps"
proof -
  from wire_mission_ok[OF assms(1)]
  have w: "r_steps r = steps" "machine_ok steps" "declared_step steps (r_start r)" "r_entered r = []"
    "m_status (r_state r) = Idle"
    by (blast, blast, blast, metis new_runner_def runner.select_convs(7),
      metis mission_state.select_convs(1) new_runner_def runner.select_convs(5))
  then show ?thesis using assms(2,3)
    by (auto simp: run_inv_def start_mission_def attempt_ok_1 target_ok_def)
qed

section \<open>Where a run can go\<close>

text \<open>The environment respects \<open>G\<close> when no handler returns a \<^verbatim>\<open>Goto\<close> outside the targets \<open>G\<close> gives
  for its step. A run then follows the edges the tags and \<open>G\<close> make.\<close>

fun obeys :: "(string \<Rightarrow> string list) \<Rightarrow> visit list \<Rightarrow> runner \<times> loop \<Rightarrow> bool" where
  "obeys G [] s = True"
| "obeys G (v # vs) (r, Ended) = True"
| "obeys G (v # vs) (r, Turn s a c) =
     ((if declared_step (r_steps r) s
       then (case run_step (the (lookup_step (r_steps r) s)) v of
               None \<Rightarrow> True
             | Some e \<Rightarrow> (case as_goto e of None \<Rightarrow> True | Some t \<Rightarrow> t \<in> set (G s)))
       else True) \<and> obeys G vs (run_turn v s a c r))"

definition step_edges :: "step_def list \<Rightarrow> (string \<Rightarrow> string list) \<Rightarrow> (string \<times> string) set" where
  "step_edges steps G = {(s, t). \<exists>d. lookup_step steps s = Some d \<and>
     (t = sd_next d \<or> (t = sd_fail d \<and> t \<noteq> '''') \<or> t \<in> set (G s))}"

definition reach_inv :: "(string \<Rightarrow> string list) \<Rightarrow> string \<Rightarrow> runner \<times> loop \<Rightarrow> bool" where
  "reach_inv G start = (\<lambda>(r, l).
     (\<forall>(s, a) \<in> set (r_entered r). declared_step (r_steps r) s \<and> (start, s) \<in> (step_edges (r_steps r) G)\<^sup>*)
     \<and> (case l of Turn s a c \<Rightarrow> (start, s) \<in> (step_edges (r_steps r) G)\<^sup>* | Ended \<Rightarrow> True))"

lemma run_turn_reach:
  assumes "reach_inv G start (r, Turn s a c)" and "obeys G (v # vs) (r, Turn s a c)"
  shows "reach_inv G start (run_turn v s a c r)"
proof -
  let ?E = "step_edges (r_steps r) G"
  have s: "(start, s) \<in> ?E\<^sup>*" and e: "\<forall>(s, a) \<in> set (r_entered r). declared_step (r_steps r) s \<and> (start, s) \<in> ?E\<^sup>*"
    using assms(1) by (auto simp: reach_inv_def)
  show ?thesis
  proof (cases "lookup_step (r_steps r) s")
    case None
    then show ?thesis using e by (auto simp: run_turn_def Let_def reach_inv_def)
  next
    case (Some d)
    have n: "(start, sd_next d) \<in> ?E\<^sup>*" "sd_fail d \<noteq> '''' \<Longrightarrow> (start, sd_fail d) \<in> ?E\<^sup>*" "sd_name d = s"
      using s Some lookup_step_Some by (auto simp: step_edges_def intro: rtrancl_into_rtrancl)
    have g: "(start, t) \<in> ?E\<^sup>*" if "run_step d v = Some x" "as_goto x = Some t" for x t
      using assms(2) Some that s by (auto simp: declared_step_def step_edges_def intro: rtrancl_into_rtrancl)
    have ds: "declared_step (r_steps r) s" using Some by (simp add: declared_step_def)
    show ?thesis using e s n g Some ds
      by (auto simp: run_turn_def Let_def reach_inv_def after_step_def split: option.splits)
  qed
qed

lemma run_loop_reach: "reach_inv G start s \<Longrightarrow> obeys G vs s \<Longrightarrow> reach_inv G start (run_loop vs s)"
proof (induction vs s rule: run_loop.induct)
  case (3 v vs r step attempt cause)
  then show ?case using run_turn_reach[OF 3(2,3)] by simp
qed simp_all

lemma lookup_step_distinct: "distinct (map sd_name steps) \<Longrightarrow> d \<in> set steps \<Longrightarrow> lookup_step steps (sd_name d) = Some d"
  by (induction steps) (auto simp: lookup_step_def)

lemma start_entered:
  assumes "wire_mission node (Some (new_runner node name start)) steps = Inr (Some r)" "start_mission r = (r', True)"
  shows "r_entered r' = []"
  using wire_mission_ok[OF assms(1)] assms(2) by (auto simp: start_mission_def new_runner_def split: if_splits)

section \<open>The steps a run enters\<close>

text \<open>One turn of the loop: it enters nothing and ends, or it enters the step it is at, and then goes where the
  outcome of the step's handler says.\<close>

definition plain_failure :: "step_def \<Rightarrow> visit \<Rightarrow> bool" where
  "plain_failure d v \<longleftrightarrow> (\<exists>e. run_step d v = Some e \<and> as_goto e = None)"

text \<open>The step that comes after \<open>s\<close>, entered for the \<open>a\<close>-th time in a row.\<close>

definition successor :: "step_def list \<Rightarrow> visit \<Rightarrow> string \<times> int \<Rightarrow> string \<times> int" where
  "successor steps v = (\<lambda>(s, a).
     case lookup_step steps s of
       None \<Rightarrow> (s, a)
     | Some d \<Rightarrow>
         (case run_step d v of
            None \<Rightarrow> (sd_next d, 1)
          | Some e \<Rightarrow>
              (case as_goto e of
                 Some jump \<Rightarrow> (jump, 1)
               | None \<Rightarrow> if a \<le> sd_retry d then (s, a + 1) else (sd_fail d, 1))))"

lemma run_turn_enters:
  assumes "run_turn v s a c r = (r', l)"
  shows "r_steps r' = r_steps r \<and> (r_entered r' = r_entered r \<and> l = Ended \<or> r_entered r' = r_entered r @ [(s, a)]
     \<and> (\<forall>t b c'. l = Turn t b c' \<longrightarrow> (t, b) = successor (r_steps r) v (s, a)))"
proof (cases "lookup_step (r_steps r) s")
  case None
  with assms show ?thesis by (auto simp: run_turn_def Let_def split: if_splits)
next
  case (Some d)
  define r0 where "r0 = note_cancel (v_cancel_before v) r"
  show ?thesis
  proof (cases "canceled_ctx r0 \<or> s = step_done \<or> s = step_failed")
    case True
    then have "\<exists>st e. run_turn v s a c r = (finish st e r0, Ended)"
      unfolding run_turn_def Let_def r0_def[symmetric] by (cases "canceled_ctx r0"; cases "s = step_done") auto
    with assms show ?thesis by (auto simp: r0_def)
  next
    case False
    define r1 where "r1 = note_cancel (v_cancel_during v) (enter s a r0)"
    have "after_step d a v (run_step d v) r1 = (r', l)" using assms Some False by (simp add: run_turn_def Let_def r0_def r1_def)
    moreover have "sd_name d = s" using Some by (auto dest: lookup_step_Some)
    ultimately have "r_steps r' = r_steps r1 \<and> r_entered r' = r_entered r1 \<and> (\<forall>t b c'. l = Turn t b c' \<longrightarrow> (t, b) = successor (r_steps r) v (s, a))"
      using Some unfolding after_step_def successor_def
      by (cases "run_step d v"; cases "as_goto (the (run_step d v))") (auto split: if_splits)
    then show ?thesis by (simp add: r0_def r1_def)
  qed
qed

text \<open>So the steps a run enters follow one another: \<open>es\<close> are those it has entered, one for each of its first visits.\<close>

definition follows :: "step_def list \<Rightarrow> visit list \<Rightarrow> (string \<times> int) list \<Rightarrow> bool" where
  "follows steps vs es \<longleftrightarrow> length es \<le> length vs
     \<and> (\<forall>i. Suc i < length es \<longrightarrow> es ! Suc i = successor steps (vs ! i) (es ! i))"

lemma run_loop_follows:
  assumes "run_loop vs (r, Turn s a c) = (r', l)"
  shows "\<exists>es. r_entered r' = r_entered r @ es \<and> follows (r_steps r) vs es \<and> (es \<noteq> [] \<longrightarrow> hd es = (s, a))"
  using assms
proof (induction vs arbitrary: r s a c)
  case Nil
  then show ?case by (simp add: follows_def)
next
  case (Cons v vs)
  obtain r1 l1 where t: "run_turn v s a c r = (r1, l1)" by fastforce
  have ended: "run_loop vs (x, Ended) = (x, Ended)" for x by (cases vs) simp_all
  note e = run_turn_enters[OF t]
  show ?case
  proof (cases l1)
    case Ended
    then have "r' = r1" using Cons.prems t ended by simp
    with e show ?thesis by (auto simp: follows_def)
  next
    case (Turn t1 b1 c1)
    then have en: "r_steps r1 = r_steps r" "r_entered r1 = r_entered r @ [(s, a)]" "(t1, b1) = successor (r_steps r) v (s, a)"
      using e by auto
    have "run_loop vs (r1, Turn t1 b1 c1) = (r', l)" using Cons.prems t Turn by simp
    from Cons.IH[OF this] obtain es where es: "r_entered r' = r_entered r1 @ es" "follows (r_steps r1) vs es"
      "es \<noteq> [] \<longrightarrow> hd es = (t1, b1)" by blast
    have "follows (r_steps r) (v # vs) ((s, a) # es)"
    proof -
      have "((s, a) # es) ! Suc i = successor (r_steps r) ((v # vs) ! i) (((s, a) # es) ! i)" if "Suc i < length ((s, a) # es)" for i
        using that es(2,3) en(1,3) by (cases i) (auto simp: follows_def hd_conv_nth)
      with es(2) show ?thesis by (simp add: follows_def)
    qed
    with es(1) en(2) show ?thesis by (intro exI[of _ "(s, a) # es"]) simp
  qed
qed

text \<open>In a stretch of entries of one step, each but the last of which failed, the attempts count up.\<close>

lemma attempts_count_up:
  assumes "follows steps vs es" "lookup_step steps s = Some d" "sd_fail d \<noteq> s"
    and "i + k < length es" "\<forall>j \<le> k. fst (es ! (i + j)) = s" "\<forall>j < k. plain_failure d (vs ! (i + j))"
  shows "snd (es ! (i + k)) = snd (es ! i) + int k"
  using assms(4-6)
proof (induction k)
  case (Suc k)
  have ih: "snd (es ! (i + k)) = snd (es ! i) + int k" using Suc by simp
  have at: "fst (es ! (i + k)) = s" "fst (es ! (i + Suc k)) = s"
    using Suc.prems(2)[rule_format, of k] Suc.prems(2)[rule_format, of "Suc k"] by simp_all
  obtain e where e: "run_step d (vs ! (i + k)) = Some e" "as_goto e = None" using Suc.prems(3) by (auto simp: plain_failure_def)
  have "es ! Suc (i + k) = successor steps (vs ! (i + k)) (es ! (i + k))" using assms(1) Suc.prems(1) by (simp add: follows_def)
  then have "es ! (i + Suc k) = (if snd (es ! (i + k)) \<le> sd_retry d then (s, snd (es ! (i + k)) + 1) else (sd_fail d, 1))"
    using at(1) e assms(2) by (cases "es ! (i + k)") (simp add: successor_def)
  with at(2) assms(3) ih show ?case by (auto split: if_splits)
qed simp

section \<open>Properties\<close>


definition fetch :: step_def where
  "fetch = \<lparr>sd_name = ''fetch'', sd_field = ''Fetch'', sd_next = ''done'', sd_fail = ''dock'', sd_timeout = 0, sd_retry = 1, sd_backoff = 0\<rparr>"
definition dock :: step_def where
  "dock = \<lparr>sd_name = ''dock'', sd_field = ''Dock'', sd_next = ''done'', sd_fail = '''', sd_timeout = 0, sd_retry = 0, sd_backoff = 0\<rparr>"

definition wired :: runner where
  "wired = (new_runner ''n'' ''trip'' ''fetch'')\<lparr>r_steps := [fetch, dock],
     r_state := \<lparr>m_status = Idle, m_step = ''fetch'', m_attempt = 0, m_err = None\<rparr>\<rparr>"

definition returns :: "terr option \<Rightarrow> visit" where
  "returns e = \<lparr>v_cancel_before = False, v_cancel_during = False, v_return = e, v_deadline = False, v_slept = True\<rparr>"

lemmas mission_eval = fetch_def dock_def wired_def returns_def new_runner_def run_mission_def run_turn_def run_step_def
  after_step_def note_cancel_def cancel_mission_def canceled_ctx_def enter_def set_err_def finish_def
  lookup_step_def declared_step_def start_mission_def

lemma wired_ok: "wire_mission ''n'' (Some (new_runner ''n'' ''trip'' ''fetch'')) [fetch, dock] = Inr (Some wired)"
  by (simp add: wire_mission_def mission_eval bad_target_def)


text \<open>Canceling stops a mission at the next turn: once the run's context is canceled no further
  step is entered, and the mission ends Canceled with the error it had.\<close>

theorem cancel_stops:
  assumes "canceled_ctx r" and "vs \<noteq> []"
  shows "run_loop vs (r, Turn s a c) = (finish Canceled None r, Ended)
    \<and> m_status (r_state (finish Canceled None r)) = Canceled"
proof -
  obtain v ws where vs: "vs = v # ws" using assms(2) by (cases vs) auto
  have "note_cancel b r = r" for b using assms(1)
    by (cases r) (auto simp: note_cancel_def cancel_mission_def canceled_ctx_def)
  then have "run_turn v s a c r = (finish Canceled None r, Ended)" using assms(1) by (simp add: run_turn_def Let_def)
  moreover have "run_loop ws (x, Ended) = (x, Ended)" for x by (cases ws) simp_all
  ultimately show ?thesis by (simp add: vs)
qed

theorem cancel_stops_witness:
  "run_loop [returns None] (cancel_mission (fst (start_mission wired)), Turn ''fetch'' 1 None)
     = (finish Canceled None (cancel_mission (fst (start_mission wired))), Ended)"
proof -
  have "canceled_ctx (cancel_mission (fst (start_mission wired)))" by (simp add: mission_eval)
  from cancel_stops[OF this, of "[returns None]"] show ?thesis by simp
qed

text \<open>A count is read modulo the word size: \<^verbatim>\<open>parseCount\<close> accepts exactly the non-empty digit
  strings, and returns their value wrapped to 64 bits.\<close>

theorem parse_count_wraps:
  "parse_count s = Some w \<longleftrightarrow> (\<exists>n. parse_digits s = Some n \<and> w = of_nat n)"
proof -
  have "count_digits (of_nat m) s = map_option of_nat (digits_val m s)" for m
  proof (induction s arbitrary: m)
    case (Cons c s)
    have "(of_nat m * 10 + of_nat d :: 64 word) = of_nat (m * 10 + d)" for d by simp
    with Cons show ?case by (simp split: option.splits del: of_nat_add of_nat_mult)
  qed simp
  from this[of 0] show ?thesis by (cases "digits_val 0 s") (auto simp: parse_count_def parse_digits_def)
qed

text \<open>A mission that recovers through a fail branch and completes still reports the error it
  recovered from: the runner never clears the error the branch stored, so \<^verbatim>\<open>Mission.Err\<close> of a mission
  that is Done need not be nil.\<close>

theorem done_keeps_error:
  "(let (r, l) = run_mission [returns (Some (ErrMsg ''jammed'' [])), returns (Some (ErrMsg ''jammed'' [])),
        returns None, returns None] (fst (start_mission wired))
    in l = Ended \<and> m_status (r_state r) = Done \<and> m_err (r_state r) = Some (ErrMsg ''jammed'' []))"
  by (simp add: mission_eval)

text \<open>Restarting a mission whose step outlives the wait of \<^verbatim>\<open>stop\<close> loses it: the status is still
  Running, so \<^verbatim>\<open>start_\<close> does nothing, and the canceled run then ends Canceled.\<close>

theorem restart_lost:
  assumes "m_status (r_state r) = Running" and "r_context r = Some False"
  shows "start_mission (cancel_mission r) = (cancel_mission r, False)
    \<and> m_status (r_state (fst (run_loop (v # vs) (cancel_mission r, Turn s a c)))) = Canceled"
proof -
  have c: "canceled_ctx (cancel_mission r)" "m_status (r_state (cancel_mission r)) = Running"
    using assms by (simp_all add: cancel_mission_def canceled_ctx_def)
  have "note_cancel b (cancel_mission r) = cancel_mission r" for b
    using assms(2) by (cases r) (simp add: note_cancel_def cancel_mission_def)
  then have "run_turn v s a c (cancel_mission r) = (finish Canceled None (cancel_mission r), Ended)"
    using c(1) by (simp add: run_turn_def Let_def)
  moreover have "run_loop vs (x, Ended) = (x, Ended)" for x by (cases vs) simp_all
  ultimately show ?thesis using c by (simp add: start_mission_def)
qed

theorem restart_lost_witness:
  "snd (start_mission (cancel_mission (fst (start_mission wired)))) = False"
proof -
  have "m_status (r_state (fst (start_mission wired))) = Running" "r_context (fst (start_mission wired)) = Some False"
    by (simp_all add: mission_eval)
  from restart_lost[OF this] show ?thesis by simp
qed

text \<open>A step named \<^verbatim>\<open>done\<close> passes the wiring checks and is never run: its name ends the mission
  before its handler is looked up.\<close>

theorem step_named_done_never_runs:
  "(\<exists>r. wire_mission ''n'' (Some (new_runner ''n'' ''trip'' ''done'')) [fetch\<lparr>sd_name := ''done'', sd_fail := ''''\<rparr>] = Inr (Some r)
     \<and> fst (run_mission [returns None] (fst (start_mission r)))
       = (fst (start_mission r))\<lparr>r_state := \<lparr>m_status = Done, m_step = ''done'', m_attempt = 1, m_err = None\<rparr>\<rparr>
     \<and> r_entered (fst (run_mission [returns None] (fst (start_mission r)))) = [])"
  by (simp add: wire_mission_def mission_eval bad_target_def)

end
