(* ===== verification/Graph_Missions.thy ===== *)
theory Graph_Missions
imports Graph_Issue Mission
begin

text \<open>
  The static side of missions (\<^verbatim>\<open>internal/graph/mission.go\<close>): the declared machine of each node
  with the transitions its tags and its literal \<^verbatim>\<open>Goto\<close> calls make, the walk that marks the reachable
  steps, and the checks. The last section relates it to the runner of theory \<^verbatim>\<open>Mission\<close>.
\<close>

section \<open>Machines\<close>

record machine_step =
  k_name :: string
  k_next :: string
  k_fail :: string
  k_gotos :: "string list"
  k_timeout :: string
  k_retry :: string
  k_backoff :: string
  k_reachable :: bool
  k_pos :: string

record machine =
  mc_node :: string
  mc_name :: string
  mc_start :: string
  mc_steps :: "machine_step list"
  mc_pos :: string

definition step_targets :: "machine_step \<Rightarrow> string list" where
  "step_targets s =
     foldl (\<lambda>out t. if t = '''' then out else append_once out t) [] ([k_next s, k_fail s] @ k_gotos s)"

definition is_goto :: "step_decl \<Rightarrow> call \<Rightarrow> bool" where
  "is_goto s c \<longleftrightarrow> cl_method c = ''Goto'' \<and> cl_in c = ''On'' @ st_field s \<and> length (cl_args c) = 1"

definition goto_targets :: "node_decl \<Rightarrow> step_decl \<Rightarrow> string list" where
  "goto_targets n s = foldl (\<lambda>out c. if is_goto s c then append_once out (hd (cl_args c)) else out) [] (calls n)"

text \<open>\<^verbatim>\<open>index\<close> keeps the last step of a name.\<close>

definition step_named :: "machine_step list \<Rightarrow> string \<Rightarrow> machine_step option" where
  "step_named mss name = find (\<lambda>s. k_name s = name) (rev mss)"

lemma step_named_mem: "step_named mss n = Some s \<Longrightarrow> s \<in> set mss \<and> k_name s = n"
  by (auto simp: step_named_def dest: find_SomeD)

text \<open>The recursive walk, with the calls still to make as a list: a call's own calls come before
  those its caller has left.\<close>

function walk :: "machine_step list \<Rightarrow> string list \<Rightarrow> string list \<Rightarrow> string list" where
  "walk mss [] seen = seen"
| "walk mss (name # todo) seen =
     (case step_named mss name of
        None \<Rightarrow> walk mss todo seen
      | Some s \<Rightarrow>
          if name \<in> set seen then walk mss todo seen
          else walk mss (step_targets s @ todo) (name # seen))"
  by pat_completeness auto
termination
proof (relation "(\<lambda>(mss, todo, seen). card (k_name ` set mss - set seen)) <*mlex*>
    measure (\<lambda>(mss, todo, seen). length todo)", goal_cases)
  case (2 mss name todo seen)
  then show ?case by (intro mlex_leq) simp_all
next
  case (3 mss name todo seen s)
  then show ?case by (intro mlex_leq) simp_all
next
  case (4 mss name todo seen s)
  then have "name \<in> k_name ` set mss" using step_named_mem by force
  with 4 have "k_name ` set mss - set (name # seen) \<subset> k_name ` set mss - set seen" by auto
  then show ?case by (intro mlex_less) (simp add: psubset_card_mono)
qed (simp add: wf_mlex)

text \<open>Only the step the index holds for a name is marked.\<close>

fun mark :: "string list \<Rightarrow> machine_step list \<Rightarrow> machine_step list" where
  "mark seen [] = []"
| "mark seen (s # ss) =
     s\<lparr>k_reachable := k_name s \<in> set seen \<and> k_name s \<notin> k_name ` set ss\<rparr> # mark seen ss"

definition mark_reachable :: "machine \<Rightarrow> machine" where
  "mark_reachable m = m\<lparr>mc_steps := mark (walk (mc_steps m) [mc_start m] []) (mc_steps m)\<rparr>"

definition machine_step_of :: "node_decl \<Rightarrow> step_decl \<Rightarrow> machine_step" where
  "machine_step_of n s = \<lparr>k_name = st_name s, k_next = (if st_next s = '''' then step_done else st_next s),
     k_fail = st_fail s, k_gotos = goto_targets n s, k_timeout = st_timeout s, k_retry = st_retry s,
     k_backoff = st_backoff s, k_reachable = False, k_pos = pos (st_file s) (st_line s)\<rparr>"

definition machine_of :: "node_decl \<Rightarrow> mission_decl \<Rightarrow> machine" where
  "machine_of n m = mark_reachable \<lparr>mc_node = nd_name n, mc_name = ms_name m, mc_start = ms_start m,
     mc_steps = map (machine_step_of n) (steps n), mc_pos = pos (ms_file m) (ms_line m)\<rparr>"

definition machines :: "'v app \<Rightarrow> machine list" where
  "machines app =
     sort_key mc_node (concat (map (\<lambda>n. case missions n of [] \<Rightarrow> [] | m # _ \<Rightarrow> [machine_of n m]) (nodes app)))"

section \<open>The checks\<close>

definition terminal_step :: "string \<Rightarrow> bool" where
  "terminal_step name \<longleftrightarrow> name = step_done \<or> name = step_failed"

definition step_list :: "step_decl list \<Rightarrow> string" where
  "step_list ss = join '', '' (sort (map st_name ss))"

definition check_start :: "node_decl \<Rightarrow> mission_decl \<Rightarrow> issue list" where
  "check_start n m =
     (let p = pos (ms_file m) (ms_line m) in
      if ms_start m = '''' then [add Error ''CND041'' p ''node %s: mission %s is missing a start tag (e.g. start:%q)''
        [GStr (nd_name n), GStr (ms_name m), GStr (st_name (hd (steps n)))]]
      else if ms_start m \<notin> st_name ` set (steps n) then
        [add Error ''CND041'' p ''node %s: mission %s starts at %q, which is not a step of this node (declared: %s)''
          [GStr (nd_name n), GStr (ms_name m), GStr (ms_start m), GStr (step_list (steps n))]]
      else [])"

definition check_target :: "node_decl \<Rightarrow> step_decl \<Rightarrow> string \<Rightarrow> string \<Rightarrow> issue list" where
  "check_target n s tag target =
     (if target = '''' \<or> terminal_step target then []
      else if target \<notin> st_name ` set (steps n) then
        [add Error ''CND040'' (pos (st_file s) (st_line s))
          ''node %s: step %s has %s:%q, which is not a step of this node (declared: %s, or %s/%s to end the mission)''
          [GStr (nd_name n), GStr (st_name s), GStr tag, GStr target, GStr (step_list (steps n)), GStr step_done, GStr step_failed]]
      else [])"

definition check_goto :: "node_decl \<Rightarrow> step_decl \<Rightarrow> call \<Rightarrow> issue list" where
  "check_goto n s c =
     (if \<not> is_goto s c then []
      else if hd (cl_args c) \<notin> st_name ` set (steps n) \<and> \<not> terminal_step (hd (cl_args c)) then
        [add Error ''CND040'' (pos (cl_file c) (cl_line c))
          ''node %s: step %s calls Goto(%q), which is not a step of this node (declared: %s)''
          [GStr (nd_name n), GStr (st_name s), GStr (hd (cl_args c)), GStr (step_list (steps n))]]
      else [])"

definition check_step :: "node_decl \<Rightarrow> step_decl \<Rightarrow> issue list" where
  "check_step n s =
     (let p = pos (st_file s) (st_line s) in
      check_handler n (st_field s) \<lparr>params = 1, results = 1\<rparr> p
      @ check_target n s ''next'' (st_next s) @ check_target n s ''fail'' (st_fail s)
      @ concat (map (check_goto n s) (calls n))
      @ (if st_timeout s \<noteq> '''' \<and> \<not> positive_duration (st_timeout s)
         then [add Error ''CND043'' p ''node %s: step %s has an invalid timeout %q'' [GStr (nd_name n), GStr (st_name s), GStr (st_timeout s)]] else [])
      @ (if st_backoff s \<noteq> '''' \<and> \<not> nonnegative_duration (st_backoff s)
         then [add Error ''CND043'' p ''node %s: step %s has an invalid backoff %q'' [GStr (nd_name n), GStr (st_name s), GStr (st_backoff s)]] else [])
      @ (if st_retry s \<noteq> '''' \<and> atoi (st_retry s) = None
         then [add Error ''CND043'' p ''node %s: step %s has an invalid retry count %q'' [GStr (nd_name n), GStr (st_name s), GStr (st_retry s)]] else []))"

definition check_mission :: "node_decl \<Rightarrow> issue list" where
  "check_mission n =
     (case missions n of
        [] \<Rightarrow> (case steps n of
                [] \<Rightarrow> []
              | s # _ \<Rightarrow> [add Error ''CND041'' (pos (st_file s) (st_line s))
                  ''node %s declares step %s but no conductor.Mission field to run it'' [GStr (nd_name n), GStr (st_field s)]])
      | [m] \<Rightarrow>
          if steps n = [] then [add Error ''CND041'' (pos (ms_file m) (ms_line m))
            ''node %s: mission %s declares no steps'' [GStr (nd_name n), GStr (ms_name m)]]
          else check_start n m @ concat (map (check_step n) (steps n))
      | _ # m # _ \<Rightarrow> [add Error ''CND041'' (pos (ms_file m) (ms_line m))
            ''node %s declares %d missions; a node runs one mission'' [GStr (nd_name n), GInt (int (length (missions n)))]])"

definition unreachable_steps :: "machine \<Rightarrow> issue list" where
  "unreachable_steps m =
     concat (map (\<lambda>s. if k_reachable s then []
       else [add Warning ''CND042'' (k_pos s) ''node %s: step %s is unreachable from %s (nothing transitions to it)''
         [GStr (mc_node m), GStr (k_name s), GStr (mc_start m)]]) (mc_steps m))"

definition validate_missions :: "'v app \<Rightarrow> issue list" where
  "validate_missions app = concat (map check_mission (nodes app)) @ concat (map unreachable_steps (machines app))"

section \<open>The walk marks what is reachable\<close>

definition target_edges :: "machine_step list \<Rightarrow> (string \<times> string) set" where
  "target_edges mss = {(a, b). \<exists>s. step_named mss a = Some s \<and> b \<in> set (step_targets s)}"

lemma set_step_targets: "set (step_targets s) = {t. t \<noteq> '''' \<and> (t = k_next s \<or> t = k_fail s \<or> t \<in> set (k_gotos s))}"
proof -
  have "set (foldl (\<lambda>out t. if t = '''' then out else append_once out t) acc ts) = set acc \<union> {t \<in> set ts. t \<noteq> ''''}"
    for acc ts
    by (induction ts arbitrary: acc) auto
  from this[of "[]" "[k_next s, k_fail s] @ k_gotos s"] show ?thesis unfolding step_targets_def by auto
qed

lemma walk_mono: "set seen \<subseteq> set (walk mss todo seen)"
  by (induction mss todo seen rule: walk.induct) (auto split: option.splits)

lemma walk_sound:
  "x \<in> set (walk mss todo seen) \<Longrightarrow> x \<in> set seen \<or> (step_named mss x \<noteq> None \<and> (\<exists>t \<in> set todo. (t, x) \<in> (target_edges mss)\<^sup>*))"
proof (induction mss todo seen rule: walk.induct)
  case (2 mss name todo seen)
  show ?case
  proof (cases "step_named mss name = None \<or> name \<in> set seen")
    case True
    with 2 show ?thesis by (auto split: option.splits if_splits)
  next
    case False
    then obtain s where s: "step_named mss name = Some s" by (cases "step_named mss name") auto
    with False 2 have "x \<in> set (name # seen) \<or> (step_named mss x \<noteq> None \<and>
        (\<exists>t \<in> set (step_targets s @ todo). (t, x) \<in> (target_edges mss)\<^sup>*))" by simp
    moreover have "(name, x) \<in> (target_edges mss)\<^sup>*" if "t \<in> set (step_targets s)" "(t, x) \<in> (target_edges mss)\<^sup>*" for t
      using that s by (auto simp: target_edges_def intro: converse_rtrancl_into_rtrancl)
    ultimately show ?thesis using s by auto
  qed
qed simp

lemma walk_closed:
  assumes "\<And>a b. a \<in> set seen \<Longrightarrow> (a, b) \<in> target_edges mss \<Longrightarrow> step_named mss b \<noteq> None \<Longrightarrow> b \<in> set seen \<union> set todo"
  shows "(\<forall>t \<in> set todo. step_named mss t \<noteq> None \<longrightarrow> t \<in> set (walk mss todo seen))
    \<and> (\<forall>a b. a \<in> set (walk mss todo seen) \<longrightarrow> (a, b) \<in> target_edges mss \<longrightarrow> step_named mss b \<noteq> None
        \<longrightarrow> b \<in> set (walk mss todo seen))"
  using assms
proof (induction mss todo seen rule: walk.induct)
  case (1 mss seen)
  then show ?case by auto
next
  case (2 mss name todo seen)
  show ?case
  proof (cases "step_named mss name = None \<or> name \<in> set seen")
    case True
    then have w: "walk mss (name # todo) seen = walk mss todo seen" by (auto split: option.splits)
    have "\<And>a b. a \<in> set seen \<Longrightarrow> (a, b) \<in> target_edges mss \<Longrightarrow> step_named mss b \<noteq> None \<Longrightarrow> b \<in> set seen \<union> set todo"
      using 2(4) True by fastforce
    then show ?thesis unfolding w using 2(1,2) True walk_mono[of seen mss todo]
      by (cases "step_named mss name") auto
  next
    case False
    then obtain s where s: "step_named mss name = Some s" by (cases "step_named mss name") auto
    have w: "walk mss (name # todo) seen = walk mss (step_targets s @ todo) (name # seen)"
      using s False by simp
    have c: "b \<in> set (name # seen) \<union> set (step_targets s @ todo)"
      if "a \<in> set (name # seen)" "(a, b) \<in> target_edges mss" "step_named mss b \<noteq> None" for a b
      using that 2(4)[of a b] s by (auto simp: target_edges_def)
    have "name \<in> set (walk mss (step_targets s @ todo) (name # seen))"
      using walk_mono[of "name # seen" mss "step_targets s @ todo"] by auto
    then show ?thesis unfolding w using 2(3)[OF s _ c] False by auto
  qed
qed

lemma walk_reachable:
  "set (walk mss [start] []) = {n. step_named mss n \<noteq> None \<and> (start, n) \<in> (target_edges mss)\<^sup>*}"
proof (intro set_eqI iffI)
  fix x assume "x \<in> {n. step_named mss n \<noteq> None \<and> (start, n) \<in> (target_edges mss)\<^sup>*}"
  then have x: "step_named mss x \<noteq> None" "(start, x) \<in> (target_edges mss)\<^sup>*" by auto
  note c = walk_closed[of "[]" mss "[start]"]
  have "step_named mss x \<noteq> None \<longrightarrow> x \<in> set (walk mss [start] [])"
    using x(2)
  proof (induction rule: rtrancl_induct)
    case base
    show ?case using c by auto
  next
    case (step y z)
    then have "step_named mss y \<noteq> None" by (auto simp: target_edges_def)
    with step c show ?case by auto
  qed
  with x show "x \<in> set (walk mss [start] [])" by simp
qed (use walk_sound[of _ mss "[start]" "[]"] in auto)

declare walk.simps [simp del]

lemma mark_names [simp]: "map k_name (mark seen ss) = map k_name ss"
  by (induction ss) auto

lemma mark_mem: "distinct (map k_name ss) \<Longrightarrow>
  mark seen ss = map (\<lambda>s. s\<lparr>k_reachable := k_name s \<in> set seen\<rparr>) ss"
  by (induction ss) auto

lemma step_named_distinct: "distinct (map k_name mss) \<Longrightarrow> step_named mss n = find (\<lambda>s. k_name s = n) mss"
proof (induction mss)
  case (Cons s mss)
  have "find P (xs @ [y]) = (case find P xs of None \<Rightarrow> if P y then Some y else None | Some z \<Rightarrow> Some z)" for P xs and y :: machine_step
    by (induction xs) auto
  with Cons show ?case
    by (auto simp: step_named_def split: option.splits simp: find_None_iff find_None_iff2 dest!: find_SomeD)
qed (simp add: step_named_def)

section \<open>From the declarations to the runner\<close>

text \<open>The tags a step field carries at run time are those the scanner read.\<close>

definition tags_of :: "step_decl \<Rightarrow> step_tags" where
  "tags_of s = \<lparr>tag_next = st_next s, tag_fail = st_fail s, tag_timeout = st_timeout s,
     tag_backoff = st_backoff s, tag_retry = st_retry s\<rparr>"

definition bind_steps :: "node_decl \<Rightarrow> step_def list result" where
  "bind_steps n = map_result (\<lambda>s. bind_step (st_name s) (st_field s) (tags_of s)) (steps n)"

lemma bind_step_Inr:
  "bind_step name field (tags_of s) = Inr d \<Longrightarrow>
     sd_name d = name \<and> sd_field d = field \<and> sd_fail d = st_fail s
     \<and> sd_next d = (if st_next s = '''' then step_done else st_next s)"
  by (auto simp: bind_step_def result_simps tags_of_def split: if_splits option.splits)

lemma bind_step_total:
  assumes "st_timeout s \<noteq> '''' \<longrightarrow> positive_duration (st_timeout s)"
    and "st_backoff s \<noteq> '''' \<longrightarrow> nonnegative_duration (st_backoff s)"
    and "st_retry s \<noteq> '''' \<longrightarrow> parse_count (st_retry s) \<noteq> None"
  shows "\<exists>d. bind_step name field (tags_of s) = Inr d"
  using assms
  by (auto simp: bind_step_def tags_of_def positive_duration_def nonnegative_duration_def split: option.splits)

lemma check_step_clean:
  "\<not> errors (check_step n s) \<longleftrightarrow>
     methods n (''On'' @ st_field s) = Some \<lparr>params = 1, results = 1\<rparr>
     \<and> (\<forall>t \<in> {st_next s, st_fail s}. t = '''' \<or> terminal_step t \<or> t \<in> st_name ` set (steps n))
     \<and> (\<forall>c \<in> set (calls n). is_goto s c \<longrightarrow> hd (cl_args c) \<in> st_name ` set (steps n) \<or> terminal_step (hd (cl_args c)))
     \<and> (st_timeout s \<noteq> '''' \<longrightarrow> positive_duration (st_timeout s))
     \<and> (st_backoff s \<noteq> '''' \<longrightarrow> nonnegative_duration (st_backoff s))
     \<and> (st_retry s \<noteq> '''' \<longrightarrow> atoi (st_retry s) \<noteq> None)"
proof -
  have t: "\<not> errors (check_target n s tag t) \<longleftrightarrow> t = '''' \<or> terminal_step t \<or> t \<in> st_name ` set (steps n)" for tag t
    by (simp add: check_target_def)
  have g: "errors (check_goto n s c) \<longleftrightarrow>
      \<not> (is_goto s c \<longrightarrow> hd (cl_args c) \<in> st_name ` set (steps n) \<or> terminal_step (hd (cl_args c)))" for c
    by (auto simp: check_goto_def)
  have i: "\<not> errors (if P then [add Error c p f as] else []) \<longleftrightarrow> \<not> P" for P c p f as
    by simp
  show ?thesis
    unfolding check_step_def Let_def errors_append de_Morgan_disj check_handler_errors errors_concat_map i t g
    by (simp only: ball_simps bex_simps not_not de_Morgan_conj imp_conv_disj Set.ball_simps(7) simp_thms conj_assoc)
qed

lemma wire_steps_total: "distinct (map sd_name (acc @ ds)) \<Longrightarrow> wire_steps m acc ds = Inr (acc @ ds)"
proof (induction m acc ds rule: wire_steps.induct)
  case (2 m acc d ds)
  then have "\<not> declared_step acc (sd_name d)" by (auto simp: declared_step_iff)
  with 2 show ?case by simp
qed simp

lemma bound_steps:
  assumes "bind_steps n = Inr ds"
  shows "map sd_name ds = map st_name (steps n)"
    "list_all2 (\<lambda>s d. sd_name d = st_name s \<and> sd_fail d = st_fail s
      \<and> sd_next d = (if st_next s = '''' then step_done else st_next s)) (steps n) ds"
proof -
  have "list_all2 (\<lambda>s d. bind_step (st_name s) (st_field s) (tags_of s) = Inr d) (steps n) ds"
    using assms by (simp add: bind_steps_def map_result_Inr)
  then show l: "list_all2 (\<lambda>s d. sd_name d = st_name s \<and> sd_fail d = st_fail s
      \<and> sd_next d = (if st_next s = '''' then step_done else st_next s)) (steps n) ds"
    by (rule list_all2_mono) (auto dest: bind_step_Inr)
  then show "map sd_name ds = map st_name (steps n)"
    by (induction rule: list_all2_induct) auto
qed

lemma list_all2_right: "list_all2 P xs ys \<Longrightarrow> y \<in> set ys \<Longrightarrow> \<exists>x \<in> set xs. P x y"
  by (induction rule: list_all2_induct) auto

section \<open>Properties\<close>

text \<open>What the checker accepts, the runtime wires: if a node with one mission has no mission
  error, its steps have different names and each retry tag is a count, then every step binds and
  the mission passes all the checks made before it can start.\<close>

theorem checked_mission_wires:
  assumes "\<not> errors (check_mission n)" and "missions n = [m]" and "distinct (map st_name (steps n))"
    and "\<forall>s \<in> set (steps n). st_retry s \<noteq> '''' \<longrightarrow> parse_count (st_retry s) \<noteq> None"
  shows "\<exists>ds r. bind_steps n = Inr ds
    \<and> wire_mission (nd_name n) (Some (new_runner (nd_name n) (ms_name m) (ms_start m))) ds = Inr (Some r)"
proof -
  have ne: "steps n \<noteq> []" and st: "\<not> errors (check_start n m)" and cs: "\<forall>s \<in> set (steps n). \<not> errors (check_step n s)"
    using assms(1,2) by (auto simp: check_mission_def split: if_splits)
  have "\<exists>d. bind_step (st_name s) (st_field s) (tags_of s) = Inr d" if "s \<in> set (steps n)" for s
    using bind_step_total cs assms(4) that by (simp add: check_step_clean)
  then obtain f where "\<forall>s \<in> set (steps n). bind_step (st_name s) (st_field s) (tags_of s) = Inr (f s)" by metis
  then have b: "bind_steps n = Inr (map f (steps n))"
    by (simp add: bind_steps_def map_result_Inr list_all2_conv_all_nth)
  define ds where "ds = map f (steps n)"
  note bs = bound_steps[OF b[folded ds_def]]
  have names: "sd_name ` set ds = st_name ` set (steps n)" using bs(1) by (metis list.set_map)
  have "ms_start m \<in> st_name ` set (steps n)" using st by (auto simp: check_start_def Let_def split: if_splits)
  moreover have "bad_target ds d = None" if d: "d \<in> set ds" for d
  proof -
    obtain s where s: "s \<in> set (steps n)" "sd_fail d = st_fail s" "sd_next d = (if st_next s = '''' then step_done else st_next s)"
      using list_all2_right[OF bs(2) d] by blast
    then show ?thesis using cs
      by (auto simp: bad_target_None target_ok_def terminal_name_def declared_step_iff names check_step_clean terminal_step_def)
  qed
  moreover have "wire_steps (ms_name m) [] ds = Inr ds"
    using wire_steps_total[of "[]" ds] assms(3) bs(1) by simp
  moreover have "ds \<noteq> []" using ne by (simp add: ds_def)
  ultimately have "\<exists>r. wire_mission (nd_name n) (Some (new_runner (nd_name n) (ms_name m) (ms_start m))) ds = Inr (Some r)"
    by (auto simp: wire_mission_def new_runner_def declared_step_iff names check_targets_None split: option.splits)
  then show ?thesis using b by (auto simp: ds_def)
qed

definition step_field :: "string \<Rightarrow> string \<Rightarrow> string \<Rightarrow> string \<Rightarrow> string \<Rightarrow> step_decl" where
  "step_field field name nxt fl retry = \<lparr>st_field = field, st_name = name, st_next = nxt, st_fail = fl,
     st_timeout = '''', st_retry = retry, st_backoff = '''', st_file = ''app.go'', st_line = 3\<rparr>"

definition courier :: "string \<Rightarrow> node_decl" where
  "courier retry = (empty_node ''courier'')\<lparr>
     missions := [\<lparr>ms_field = ''Trip'', ms_name = ''trip'', ms_start = ''pickup'', ms_file = ''app.go'', ms_line = 2\<rparr>],
     steps := [step_field ''Pickup'' ''pickup'' ''dropoff'' '''' retry, step_field ''Dropoff'' ''dropoff'' '''' '''' ''''],
     methods := [''OnPickup'' \<mapsto> \<lparr>params = 1, results = 1\<rparr>, ''OnDropoff'' \<mapsto> \<lparr>params = 1, results = 1\<rparr>]\<rparr>"

lemmas courier_eval = courier_def step_field_def empty_node_def check_mission_def check_start_def check_step_def
  check_handler_def check_target_def terminal_step_def Let_def

theorem checked_mission_wires_witness:
  "\<exists>ds r. bind_steps (courier ''3'') = Inr ds
    \<and> wire_mission ''courier'' (Some (new_runner ''courier'' ''trip'' ''pickup'')) ds = Inr (Some r)"
proof -
  have "\<not> errors (check_mission (courier ''3''))"
    by (simp add: courier_eval atoi_def parse_digits_def digit_val_def min_int_def max_int_def)
  moreover have "missions (courier ''3'') = [\<lparr>ms_field = ''Trip'', ms_name = ''trip'', ms_start = ''pickup'',
      ms_file = ''app.go'', ms_line = 2\<rparr>]" "distinct (map st_name (steps (courier ''3'')))"
    by (simp_all add: courier_eval)
  moreover have "\<forall>s \<in> set (steps (courier ''3'')). st_retry s \<noteq> '''' \<longrightarrow> parse_count (st_retry s) \<noteq> None"
    by (simp add: courier_eval parse_count_def digit_val_def)
  ultimately show ?thesis
    using checked_mission_wires[of "courier ''3''"] by (simp add: courier_def empty_node_def)
qed

text \<open>The hypothesis on retry tags is needed: the checker reads them with \<^verbatim>\<open>strconv.Atoi\<close>, which
  takes a sign, and the runtime with \<^verbatim>\<open>parseCount\<close>, which does not, so a tag \<^verbatim>\<open>retry:"-1"\<close> passes
  the check and fails to bind.\<close>

theorem retry_checked_not_bound:
  "check_mission (courier ''-1'') = []
   \<and> bind_steps (courier ''-1'') = Inl (Errorf ''invalid retry %q'' [GStr ''-1''])"
  by (simp add: courier_eval atoi_def parse_digits_def digit_val_def min_int_def max_int_def
    bind_steps_def bind_step_def tags_of_def parse_count_def)

text \<open>\<^verbatim>\<open>markReachable\<close> marks exactly the steps a chain of \<^verbatim>\<open>next\<close>, \<^verbatim>\<open>fail\<close> and literal
  \<^verbatim>\<open>Goto\<close> targets leads to from the start step.\<close>

theorem mark_reachable_exact:
  assumes "distinct (map k_name (mc_steps m))"
  shows "mc_steps (mark_reachable m) =
    map (\<lambda>s. s\<lparr>k_reachable := (mc_start m, k_name s) \<in> (target_edges (mc_steps m))\<^sup>*\<rparr>) (mc_steps m)"
proof -
  have "step_named (mc_steps m) (k_name s) \<noteq> None" if "s \<in> set (mc_steps m)" for s
    using that by (auto simp: step_named_def find_None_iff)
  then show ?thesis by (auto simp: mark_reachable_def mark_mem[OF assms] walk_reachable)
qed

definition two_steps :: machine where
  "two_steps = \<lparr>mc_node = ''courier'', mc_name = ''trip'', mc_start = ''dropoff'',
     mc_steps = map (machine_step_of (courier '''')) (steps (courier '''')), mc_pos = pos ''app.go'' 2\<rparr>"

theorem mark_reachable_exact_witness: "map k_reachable (mc_steps (mark_reachable two_steps)) = [False, True]"
proof -
  define reach where "reach = (target_edges (mc_steps two_steps))\<^sup>*"
  have d: "distinct (map k_name (mc_steps two_steps))"
    by (simp add: two_steps_def courier_eval machine_step_of_def)
  have edges: "target_edges (mc_steps two_steps) \<subseteq> {(''pickup'', ''dropoff''), (''dropoff'', ''done'')}"
    by (auto simp: target_edges_def step_named_def set_step_targets two_steps_def courier_eval
      machine_step_of_def goto_targets_def split: if_splits)
  have "x \<in> {''dropoff'', ''done''}" if "(''dropoff'', x) \<in> reach" for x
    using that unfolding reach_def by (induction rule: rtrancl_induct) (use edges in auto)
  then have "(''dropoff'', ''pickup'') \<notin> reach" by fastforce
  moreover have "(''dropoff'', ''dropoff'') \<in> reach" by (simp add: reach_def)
  moreover have "map k_reachable (mc_steps (mark_reachable two_steps)) = map (\<lambda>s. (mc_start two_steps, k_name s) \<in> reach) (mc_steps two_steps)"
    by (simp add: mark_reachable_exact[OF d] reach_def)
  ultimately show ?thesis by (simp add: two_steps_def courier_eval machine_step_of_def)
qed

text \<open>A step the checker calls unreachable is never run: as long as handlers return only the
  \<^verbatim>\<open>Goto\<close> targets written in them as literals, every step a wired mission enters is marked
  reachable in the machine the checker draws.\<close>

theorem unreachable_never_entered:
  assumes "bind_steps n = Inr ds" and "distinct (map st_name (steps n))" and "start = ms_start m"
    and "wire_mission (nd_name n) (Some (new_runner (nd_name n) (ms_name m) start)) ds = Inr (Some r)"
    and "obeys (\<lambda>name. concat (map (goto_targets n) (filter (\<lambda>s. st_name s = name) (steps n)))) vs
           (fst (start_mission r), Turn start 1 None)"
    and "'''' \<notin> set (map st_name (steps n))"
    and "(name, a) \<in> set (r_entered (fst (run_mission vs (fst (start_mission r)))))"
  shows "\<exists>k \<in> set (mc_steps (machine_of n m)). k_name k = name \<and> k_reachable k"
proof -
  define mss where "mss = map (machine_step_of n) (steps n)"
  let ?G = "\<lambda>name. concat (map (goto_targets n) (filter (\<lambda>s. st_name s = name) (steps n)))"
  have dn: "distinct (map k_name mss)" using assms(2) by (simp add: mss_def machine_step_of_def o_def)
  note bs = bound_steps[OF assms(1)]
  from wire_mission_ok[OF assms(4)] have w: "r_steps r = ds"
    "r_entered r = r_entered (new_runner (nd_name n) (ms_name m) start)"
    "r = (new_runner (nd_name n) (ms_name m) start)\<lparr>r_steps := ds,
      r_state := (r_state (new_runner (nd_name n) (ms_name m) start))\<lparr>m_step := r_start (new_runner (nd_name n) (ms_name m) start)\<rparr>\<rparr>"
    by blast+
  have rs: "r_start r = start" by (subst w(3)) (simp add: new_runner_def)
  define r' where "r' = fst (start_mission r)"
  have r': "r_steps r' = ds" "r_entered r' = []" "r_start r' = start"
    using w(1,2) rs by (simp_all add: r'_def start_mission_def new_runner_def)
  have "reach_inv ?G start (r', Turn start 1 None)" by (simp add: reach_inv_def r')
  then have "reach_inv ?G start (run_mission vs r')"
    using run_loop_reach assms(5) by (simp add: run_mission_def r' r'_def[symmetric])
  moreover have "r_steps (fst (run_mission vs r')) = ds" by (simp add: run_mission_def run_loop_steps r')
  ultimately have e: "declared_step ds name" "(start, name) \<in> (step_edges ds ?G)\<^sup>*"
    using assms(7) by (auto simp: reach_inv_def r'_def[symmetric] split: prod.splits)
  have edge: "(x, y) \<in> target_edges mss \<or> y = ''''" if "(x, y) \<in> step_edges ds ?G" for x y
  proof -
    have "\<exists>d. lookup_step ds x = Some d \<and> (y = sd_next d \<or> (y = sd_fail d \<and> y \<noteq> '''') \<or> y \<in> set (?G x))"
      using that by (simp only: step_edges_def mem_Collect_eq prod.case)
    then obtain d where d: "lookup_step ds x = Some d" "y = sd_next d \<or> (y = sd_fail d \<and> y \<noteq> '''') \<or> y \<in> set (?G x)"
      by (elim exE conjE)
    obtain s where s: "s \<in> set (steps n)" "sd_name d = st_name s" "sd_fail d = st_fail s"
      "sd_next d = (if st_next s = '''' then step_done else st_next s)"
      using list_all2_right[OF bs(2)] lookup_step_Some[OF d(1)] by blast
    have x: "st_name s = x" using s(2) lookup_step_Some[OF d(1)] by simp
    have "find (\<lambda>k. k_name k = x) mss = Some (machine_step_of n s)"
    proof -
      have "machine_step_of n s \<in> set mss" "k_name (machine_step_of n s) = x"
        using s(1) x by (auto simp: mss_def machine_step_of_def)
      with dn show ?thesis by (induction mss) auto
    qed
    then have f: "step_named mss x = Some (machine_step_of n s)" using step_named_distinct[OF dn] by simp
    have "set (?G x) = set (goto_targets n s)"
      using assms(2) s(1) x by (auto simp: distinct_map dest: inj_onD)
    then show ?thesis using d(2) s f
      by (auto simp: target_edges_def set_step_targets machine_step_of_def)
  qed
  have "(start, name) \<in> (target_edges mss)\<^sup>* \<or> name = ''''"
    using e(2)
  proof (induction rule: rtrancl_induct)
    case (step y z)
    have "step_named mss '''' = None"
      using assms(6) by (force simp: step_named_def find_None_iff mss_def machine_step_of_def)
    have "lookup_step ds '''' = None"
      using assms(6) bs(1) declared_step_iff[of ds "''''"] by (metis declared_step_def list.set_map)
    then have "y \<noteq> ''''" using step(2) by (auto simp: step_edges_def)
    with step edge show ?case by (auto intro: rtrancl_into_rtrancl)
  qed simp
  moreover have nm: "name \<in> st_name ` set (steps n)" using e(1) bs(1) by (metis declared_step_iff list.set_map)
  moreover from nm have "name \<noteq> ''''" using assms(6) by force
  ultimately have "(start, name) \<in> (target_edges mss)\<^sup>*" by simp
  with nm show ?thesis
    using mark_reachable_exact[of "\<lparr>mc_node = nd_name n, mc_name = ms_name m, mc_start = ms_start m, mc_steps = mss, mc_pos = pos (ms_file m) (ms_line m)\<rparr>"]
      dn assms(3) by (auto simp: machine_of_def mss_def[symmetric]) (auto simp: mss_def machine_step_of_def)
qed

theorem unreachable_never_entered_witness:
  "\<exists>k \<in> set (mc_steps (machine_of (courier '''') \<lparr>ms_field = ''Trip'', ms_name = ''trip'', ms_start = ''pickup'',
      ms_file = ''app.go'', ms_line = 2\<rparr>)). k_name k = ''dropoff'' \<and> k_reachable k"
proof -
  let ?md = "\<lparr>ms_field = ''Trip'', ms_name = ''trip'', ms_start = ''pickup'', ms_file = ''app.go'', ms_line = 2\<rparr>"
  let ?ds = "[\<lparr>sd_name = ''pickup'', sd_field = ''Pickup'', sd_next = ''dropoff'', sd_fail = '''', sd_timeout = 0, sd_retry = 0, sd_backoff = 0\<rparr>,
    \<lparr>sd_name = ''dropoff'', sd_field = ''Dropoff'', sd_next = ''done'', sd_fail = '''', sd_timeout = 0, sd_retry = 0, sd_backoff = 0\<rparr>]"
  let ?r = "(new_runner ''courier'' ''trip'' ''pickup'')\<lparr>r_steps := ?ds,
     r_state := \<lparr>m_status = Idle, m_step = ''pickup'', m_attempt = 0, m_err = None\<rparr>\<rparr>"
  have a: "bind_steps (courier '''') = Inr ?ds"
    by (simp add: courier_eval bind_steps_def bind_step_def tags_of_def)
  have b: "distinct (map st_name (steps (courier '''')))" "'''' \<notin> set (map st_name (steps (courier '''')))"
    by (simp_all add: courier_eval)
  have c: "wire_mission (nd_name (courier '''')) (Some (new_runner (nd_name (courier '''')) (ms_name ?md) ''pickup'')) ?ds = Inr (Some ?r)"
    by (simp add: courier_eval wire_mission_def declared_step_def lookup_step_def bad_target_def new_runner_def)
  have d: "obeys G [returns None, returns None] (fst (start_mission ?r), Turn ''pickup'' 1 None)" for G
    by (simp add: mission_eval)
  have e: "(''dropoff'', 1) \<in> set (r_entered (fst (run_mission [returns None, returns None] (fst (start_mission ?r)))))"
    by (simp add: mission_eval)
  show ?thesis by (rule unreachable_never_entered[OF a b(1) _ c d b(2) e]) simp
qed

end
