(* ===== verification/Graph_Build.thy ===== *)
theory Graph_Build
imports Graph_Missions
begin

text \<open>
  The topic graph (\<^verbatim>\<open>Build\<close> of \<^verbatim>\<open>internal/graph/graph.go\<close>): every topic, service and action name with
  the endpoints that use it, those of external nodes included. A Go map from names to pointers
  that is only extended and updated is a list of entries in order of first use, and
  \<open>upsert\<close> is the get-or-create the three closures of \<^verbatim>\<open>Build\<close> perform.
\<close>

section \<open>Entries created on first use\<close>

fun upsert :: "('a \<Rightarrow> 'k) \<Rightarrow> ('k \<Rightarrow> 'a) \<Rightarrow> 'k \<Rightarrow> ('a \<Rightarrow> 'a) \<Rightarrow> 'a list \<Rightarrow> 'a list" where
  "upsert key mk k f [] = [f (mk k)]"
| "upsert key mk k f (x # xs) = (if key x = k then f x # xs else x # upsert key mk k f xs)"

text \<open>A sequence of updates, each for one name.\<close>

definition collect :: "('a \<Rightarrow> 'k) \<Rightarrow> ('k \<Rightarrow> 'a) \<Rightarrow> ('k \<times> ('a \<Rightarrow> 'a)) list \<Rightarrow> 'a list" where
  "collect key mk = foldl (\<lambda>xs (k, f). upsert key mk k f xs) []"

definition keeps_key :: "('a \<Rightarrow> 'k) \<Rightarrow> ('k \<Rightarrow> 'a) \<Rightarrow> ('k \<times> ('a \<Rightarrow> 'a)) list \<Rightarrow> bool" where
  "keeps_key key mk evs \<longleftrightarrow> (\<forall>k. key (mk k) = k) \<and> (\<forall>(k, f) \<in> set evs. \<forall>x. key (f x) = key x)"

lemma upsert_keys:
  assumes "\<And>x. key (f x) = key x" and "key (mk k) = k"
  shows "map key (upsert key mk k f xs) = append_once (map key xs) k"
  using assms by (induction xs) (auto simp: append_once_def)

lemma upsert_find:
  assumes "\<And>x. key (f x) = key x" and "key (mk k) = k"
  shows "find (\<lambda>x. key x = l) (upsert key mk k f xs) =
    (if l = k then Some (f (case find (\<lambda>x. key x = l) xs of None \<Rightarrow> mk k | Some x \<Rightarrow> x))
     else find (\<lambda>x. key x = l) xs)"
  using assms by (induction xs) auto

lemma foldl_upsert_find:
  assumes "keeps_key key mk evs"
  shows "find (\<lambda>x. key x = l) (foldl (\<lambda>xs (k, f). upsert key mk k f xs) xs evs) =
    (if \<exists>f. (l, f) \<in> set evs \<or> find (\<lambda>x. key x = l) xs \<noteq> None
     then Some (foldl (\<lambda>x f. f x) (case find (\<lambda>x. key x = l) xs of None \<Rightarrow> mk l | Some x \<Rightarrow> x)
       (map snd (filter (\<lambda>(k, f). k = l) evs)))
     else None)"
  using assms
proof (induction evs arbitrary: xs)
  case Nil
  then show ?case by (auto split: option.splits)
next
  case (Cons e evs)
  obtain k f where e: "e = (k, f)" by (cases e)
  have k: "\<And>x. key (f x) = key x" "key (mk k) = k" "keeps_key key mk evs"
    using Cons.prems by (auto simp: keeps_key_def e)
  show ?case
    by (auto simp: e Cons.IH[OF k(3)] upsert_find[of key f mk k l xs, OF k(1,2)] split: option.splits)
qed

lemma foldl_upsert_keys:
  assumes "keeps_key key mk evs"
  shows "map key (foldl (\<lambda>xs (k, f). upsert key mk k f xs) xs evs) = foldl append_once (map key xs) (map fst evs)"
  using assms by (induction evs arbitrary: xs) (auto simp: keeps_key_def upsert_keys)

lemma collect_keys:
  "keeps_key key mk evs \<Longrightarrow> map key (collect key mk evs) = foldl append_once [] (map fst evs)"
  using foldl_upsert_keys[of key mk evs "[]"] by (simp add: collect_def)

text \<open>The entry of a name holds the updates for that name, in order.\<close>

lemma collect_mem:
  assumes "keeps_key key mk evs"
  shows "x \<in> set (collect key mk evs) \<longleftrightarrow>
    (\<exists>k \<in> fst ` set evs. x = foldl (\<lambda>x f. f x) (mk k) (map snd (filter (\<lambda>(l, f). l = k) evs)))"
proof -
  let ?xs = "collect key mk evs"
  have ks: "map key ?xs = foldl append_once [] (map fst evs)" using collect_keys[OF assms] .
  then have d: "distinct (map key ?xs)" by (simp add: foldl_append_once_distinct)
  have f: "find (\<lambda>x. key x = l) ?xs = (if l \<in> fst ` set evs
      then Some (foldl (\<lambda>x f. f x) (mk l) (map snd (filter (\<lambda>(k, f). k = l) evs))) else None)" for l
    using foldl_upsert_find[OF assms, of l "[]"] by (force simp: collect_def)
  have m: "x \<in> set ?xs \<longleftrightarrow> find (\<lambda>y. key y = key x) ?xs = Some x" for x
  proof
    assume "x \<in> set ?xs"
    then obtain us vs where s: "?xs = us @ x # vs" by (auto simp: in_set_conv_decomp)
    with d have "key x \<notin> key ` set us" by auto
    then show "find (\<lambda>y. key y = key x) ?xs = Some x" unfolding s by (induction us) auto
  qed (auto dest: find_SomeD)
  have kf: "key (foldl (\<lambda>x f. f x) (mk k) (map snd (filter (\<lambda>(l, f). l = k) es))) = k"
    if "set es \<subseteq> set evs" for k es
    using that assms
    by (induction es rule: rev_induct) (auto simp: keeps_key_def)
  show ?thesis
  proof
    assume "x \<in> set ?xs"
    then have "find (\<lambda>y. key y = key x) ?xs = Some x" using m by blast
    then show "\<exists>k \<in> fst ` set evs. x = foldl (\<lambda>x f. f x) (mk k) (map snd (filter (\<lambda>(l, f). l = k) evs))"
      using f[of "key x"] by (metis option.distinct(1) option.inject)
  next
    assume "\<exists>k \<in> fst ` set evs. x = foldl (\<lambda>x f. f x) (mk k) (map snd (filter (\<lambda>(l, f). l = k) evs))"
    then obtain k where k: "k \<in> fst ` set evs"
      "x = foldl (\<lambda>x f. f x) (mk k) (map snd (filter (\<lambda>(l, f). l = k) evs))" by blast
    then have "find (\<lambda>y. key y = k) ?xs = Some x" by (simp add: f)
    then show "x \<in> set ?xs" by (auto dest: find_SomeD)
  qed
qed

section \<open>The graph\<close>

record endpoint =
  e_node :: string
  e_external :: bool
  e_gotype :: string
  e_rostype :: string
  e_qos :: string
  e_pos :: string

record topic =
  t_name :: string
  t_pubs :: "endpoint list"
  t_subs :: "endpoint list"

record svc_endpoint =
  s_node :: string
  s_external :: bool
  s_req :: string
  s_res :: string
  s_rostype :: string
  s_pos :: string

text \<open>\<^verbatim>\<open>Service\<close> and \<^verbatim>\<open>ActionName\<close> are the same struct.\<close>

record service =
  sv_name :: string
  servers :: "svc_endpoint list"
  callers :: "svc_endpoint list"

definition topic_ros_type :: "topic \<Rightarrow> string" where
  "topic_ros_type t =
     (case find (\<lambda>e. e_rostype e \<noteq> '''') (t_pubs t @ t_subs t) of None \<Rightarrow> '''' | Some e \<Rightarrow> e_rostype e)"

definition endpoint_of :: "'v app \<Rightarrow> node_decl \<Rightarrow> endpoint_decl \<Rightarrow> endpoint" where
  "endpoint_of app n e = \<lparr>e_node = nd_name n, e_external = False, e_gotype = ep_gotype e,
     e_rostype = (case messages app (ep_gotype e) of None \<Rightarrow> '''' | Some r \<Rightarrow> r),
     e_qos = ep_qos e, e_pos = pos (ep_file e) (ep_line e)\<rparr>"

definition svc_endpoint_of :: "node_decl \<Rightarrow> service_decl \<Rightarrow> svc_endpoint" where
  "svc_endpoint_of n s = \<lparr>s_node = nd_name n, s_external = False, s_req = sv_req s, s_res = sv_res s,
     s_rostype = '''', s_pos = pos (sv_file s) (sv_line s)\<rparr>"

definition act_endpoint_of :: "node_decl \<Rightarrow> action_decl \<Rightarrow> svc_endpoint" where
  "act_endpoint_of n a = \<lparr>s_node = nd_name n, s_external = False, s_req = ac_goal a, s_res = ac_result a,
     s_rostype = '''', s_pos = pos (ac_file a) (ac_line a)\<rparr>"

definition external_endpoint :: "external \<Rightarrow> endpoint" where
  "external_endpoint e = \<lparr>e_node = ''(external)'', e_external = True, e_gotype = '''',
     e_rostype = ex_type e, e_qos = ex_qos e, e_pos = ''''\<rparr>"

definition external_svc :: "external \<Rightarrow> svc_endpoint" where
  "external_svc e = \<lparr>s_node = ''(external)'', s_external = True, s_req = '''', s_res = '''',
     s_rostype = ex_type e, s_pos = ''''\<rparr>"

definition new_topic :: "string \<Rightarrow> topic" where
  "new_topic name = \<lparr>t_name = name, t_pubs = [], t_subs = []\<rparr>"

definition new_service :: "string \<Rightarrow> service" where
  "new_service name = \<lparr>sv_name = name, servers = [], callers = []\<rparr>"

definition add_pub :: "endpoint \<Rightarrow> topic \<Rightarrow> topic" where "add_pub e t = t\<lparr>t_pubs := t_pubs t @ [e]\<rparr>"
definition add_sub :: "endpoint \<Rightarrow> topic \<Rightarrow> topic" where "add_sub e t = t\<lparr>t_subs := t_subs t @ [e]\<rparr>"
definition add_server :: "svc_endpoint \<Rightarrow> service \<Rightarrow> service" where
  "add_server e s = s\<lparr>servers := servers s @ [e]\<rparr>"
definition add_caller :: "svc_endpoint \<Rightarrow> service \<Rightarrow> service" where
  "add_caller e s = s\<lparr>callers := callers s @ [e]\<rparr>"

text \<open>The updates each loop of \<^verbatim>\<open>Build\<close> makes, in program order.\<close>

definition topic_events :: "'v app \<Rightarrow> (string \<times> (topic \<Rightarrow> topic)) list" where
  "topic_events app =
     concat (map (\<lambda>n.
         map (\<lambda>p. (ep_topic p, add_pub (endpoint_of app n p))) (filter (\<lambda>p. ep_topic p \<noteq> '''') (pubs n))
         @ map (\<lambda>s. (ep_topic s, add_sub (endpoint_of app n s))) (filter (\<lambda>s. ep_topic s \<noteq> '''') (subs n)))
       (nodes app))
     @ concat (map (\<lambda>e.
         if ex_role e = ''publisher'' then [(ex_topic e, add_pub (external_endpoint e))]
         else if ex_role e = ''subscriber'' then [(ex_topic e, add_sub (external_endpoint e))]
         else []) (externals app))"

definition service_events :: "'v app \<Rightarrow> (string \<times> (service \<Rightarrow> service)) list" where
  "service_events app =
     concat (map (\<lambda>n.
         map (\<lambda>s. (sv_service s, add_server (svc_endpoint_of n s))) (filter (\<lambda>s. sv_service s \<noteq> '''') (services n))
         @ map (\<lambda>c. (sv_service c, add_caller (svc_endpoint_of n c))) (filter (\<lambda>c. sv_service c \<noteq> '''') (clients n)))
       (nodes app))
     @ concat (map (\<lambda>e.
         if ex_role e = ''server'' then [(ex_topic e, add_server (external_svc e))]
         else if ex_role e = ''client'' then [(ex_topic e, add_caller (external_svc e))]
         else []) (externals app))"

definition action_events :: "'v app \<Rightarrow> (string \<times> (service \<Rightarrow> service)) list" where
  "action_events app =
     concat (map (\<lambda>n.
         map (\<lambda>a. (ac_action a, add_server (act_endpoint_of n a))) (filter (\<lambda>a. ac_action a \<noteq> '''') (actions n))
         @ map (\<lambda>a. (ac_action a, add_caller (act_endpoint_of n a))) (filter (\<lambda>a. ac_action a \<noteq> '''') (action_clients n)))
       (nodes app))
     @ concat (map (\<lambda>e.
         if ex_role e = ''action_server'' then [(ex_topic e, add_server (external_svc e))]
         else if ex_role e = ''action_client'' then [(ex_topic e, add_caller (external_svc e))]
         else []) (externals app))"

record 'v graph =
  g_app :: "'v app"
  g_topics :: "topic list"
  g_services :: "service list"
  g_actions :: "service list"
  g_machines :: "machine list"
  g_frames :: "'v frame_tree option"

definition build :: "'v app \<Rightarrow> 'v graph" where
  "build app =
     \<lparr>g_app = app,
      g_topics = sort_key t_name (collect t_name new_topic (topic_events app)),
      g_services = sort_key sv_name (collect sv_name new_service (service_events app)),
      g_actions = sort_key sv_name (collect sv_name new_service (action_events app)),
      g_machines = machines app,
      g_frames = app_frames app\<rparr>"

section \<open>What is in the graph\<close>

lemma collect_sorted:
  assumes "keeps_key key mk evs"
  shows "sort_key key (collect key mk evs) =
    map (\<lambda>k. foldl (\<lambda>x f. f x) (mk k) (map snd (filter (\<lambda>(l, f). l = k) evs)))
      (sorted_list_of_set (fst ` set evs))" (is "?l = map ?F ?ks")
proof (rule map_sorted_distinct_set_unique)
  have kf: "key (foldl (\<lambda>x f. f x) (mk k) (map snd (filter (\<lambda>(l, f). l = k) es))) = k"
    if "set es \<subseteq> set evs" for k es
    using that assms by (induction es rule: rev_induct) (auto simp: keeps_key_def)
  then have kF: "key (?F k) = k" for k by blast
  then have "map key (map ?F ?ks) = ?ks" by (simp add: map_idI)
  then show "sorted (map key (map ?F ?ks))" "distinct (map key (map ?F ?ks))" by simp_all
  show "distinct (map key ?l)"
    by (metis collect_keys[OF assms] distinct.simps(1) distinct_map distinct_sort foldl_append_once_distinct
      set_sort)
  show "sorted (map key ?l)" by simp
  show s: "set ?l = set (map ?F ?ks)"
    by (rule set_eqI) (simp add: collect_mem[OF assms] image_iff)
  show "inj_on key (set ?l \<union> set (map ?F ?ks))"
    unfolding s by (auto simp: inj_on_def kF)
qed

text \<open>The endpoints of a topic, read off the declarations.\<close>

definition topic_pubs :: "'v app \<Rightarrow> string \<Rightarrow> endpoint list" where
  "topic_pubs app name =
     concat (map (\<lambda>n. map (endpoint_of app n) (filter (\<lambda>p. ep_topic p \<noteq> '''' \<and> ep_topic p = name) (pubs n))) (nodes app))
     @ map external_endpoint (filter (\<lambda>e. ex_role e = ''publisher'' \<and> ex_topic e = name) (externals app))"

definition topic_subs :: "'v app \<Rightarrow> string \<Rightarrow> endpoint list" where
  "topic_subs app name =
     concat (map (\<lambda>n. map (endpoint_of app n) (filter (\<lambda>p. ep_topic p \<noteq> '''' \<and> ep_topic p = name) (subs n))) (nodes app))
     @ map external_endpoint (filter (\<lambda>e. ex_role e = ''subscriber'' \<and> ex_topic e = name) (externals app))"

definition service_servers :: "'v app \<Rightarrow> string \<Rightarrow> svc_endpoint list" where
  "service_servers app name =
     concat (map (\<lambda>n. map (svc_endpoint_of n) (filter (\<lambda>p. sv_service p \<noteq> '''' \<and> sv_service p = name) (services n))) (nodes app))
     @ map external_svc (filter (\<lambda>e. ex_role e = ''server'' \<and> ex_topic e = name) (externals app))"

definition service_callers :: "'v app \<Rightarrow> string \<Rightarrow> svc_endpoint list" where
  "service_callers app name =
     concat (map (\<lambda>n. map (svc_endpoint_of n) (filter (\<lambda>p. sv_service p \<noteq> '''' \<and> sv_service p = name) (clients n))) (nodes app))
     @ map external_svc (filter (\<lambda>e. ex_role e = ''client'' \<and> ex_topic e = name) (externals app))"

definition action_servers :: "'v app \<Rightarrow> string \<Rightarrow> svc_endpoint list" where
  "action_servers app name =
     concat (map (\<lambda>n. map (act_endpoint_of n) (filter (\<lambda>p. ac_action p \<noteq> '''' \<and> ac_action p = name) (actions n))) (nodes app))
     @ map external_svc (filter (\<lambda>e. ex_role e = ''action_server'' \<and> ex_topic e = name) (externals app))"

definition action_callers :: "'v app \<Rightarrow> string \<Rightarrow> svc_endpoint list" where
  "action_callers app name =
     concat (map (\<lambda>n. map (act_endpoint_of n) (filter (\<lambda>p. ac_action p \<noteq> '''' \<and> ac_action p = name) (action_clients n))) (nodes app))
     @ map external_svc (filter (\<lambda>e. ex_role e = ''action_client'' \<and> ex_topic e = name) (externals app))"

text \<open>Applying the updates of a name, over the shapes the event lists are built from.\<close>

definition updates :: "string \<Rightarrow> (string \<times> ('a \<Rightarrow> 'a)) list \<Rightarrow> 'a \<Rightarrow> 'a" where
  "updates k evs x = foldl (\<lambda>x f. f x) x (map snd (filter (\<lambda>(l, f). l = k) evs))"

lemma updates_append [simp]: "updates k (xs @ ys) t = updates k ys (updates k xs t)"
  by (simp add: updates_def)

lemma updates_Nil [simp]: "updates k [] t = t"
  by (simp add: updates_def)

lemma updates_one: "updates k [(l, f)] t = (if l = k then f t else t)"
  by (simp add: updates_def)

lemma updates_pubs: "updates k (map (\<lambda>p. (g p, add_pub (h p))) ps) t
    = t\<lparr>t_pubs := t_pubs t @ map h (filter (\<lambda>p. g p = k) ps)\<rparr>"
  by (induction ps arbitrary: t) (auto simp: updates_def add_pub_def)

lemma updates_subs: "updates k (map (\<lambda>p. (g p, add_sub (h p))) ps) t
    = t\<lparr>t_subs := t_subs t @ map h (filter (\<lambda>p. g p = k) ps)\<rparr>"
  by (induction ps arbitrary: t) (auto simp: updates_def add_sub_def)

lemma updates_servers: "updates k (map (\<lambda>p. (g p, add_server (h p))) ps) t
    = t\<lparr>servers := servers t @ map h (filter (\<lambda>p. g p = k) ps)\<rparr>"
  by (induction ps arbitrary: t) (auto simp: updates_def add_server_def)

lemma updates_callers: "updates k (map (\<lambda>p. (g p, add_caller (h p))) ps) t
    = t\<lparr>callers := callers t @ map h (filter (\<lambda>p. g p = k) ps)\<rparr>"
  by (induction ps arbitrary: t) (auto simp: updates_def add_caller_def)

lemma topic_node_updates:
  "updates k (concat (map (\<lambda>n.
         map (\<lambda>p. (ep_topic p, add_pub (endpoint_of app n p))) (filter (\<lambda>p. ep_topic p \<noteq> '''') (pubs n))
         @ map (\<lambda>s. (ep_topic s, add_sub (endpoint_of app n s))) (filter (\<lambda>s. ep_topic s \<noteq> '''') (subs n))) ns)) t
   = t\<lparr>t_pubs := t_pubs t @ concat (map (\<lambda>n. map (endpoint_of app n)
        (filter (\<lambda>p. ep_topic p \<noteq> '''' \<and> ep_topic p = k) (pubs n))) ns),
      t_subs := t_subs t @ concat (map (\<lambda>n. map (endpoint_of app n)
        (filter (\<lambda>p. ep_topic p \<noteq> '''' \<and> ep_topic p = k) (subs n))) ns)\<rparr>"
  by (induction ns arbitrary: t) (simp_all add: updates_pubs updates_subs)

lemma topic_external_updates:
  "updates k (concat (map (\<lambda>e.
         if ex_role e = ''publisher'' then [(ex_topic e, add_pub (external_endpoint e))]
         else if ex_role e = ''subscriber'' then [(ex_topic e, add_sub (external_endpoint e))]
         else []) es)) t
   = t\<lparr>t_pubs := t_pubs t @ map external_endpoint (filter (\<lambda>e. ex_role e = ''publisher'' \<and> ex_topic e = k) es),
      t_subs := t_subs t @ map external_endpoint (filter (\<lambda>e. ex_role e = ''subscriber'' \<and> ex_topic e = k) es)\<rparr>"
  by (induction es arbitrary: t) (auto simp: updates_one add_pub_def add_sub_def)

lemma topic_updates: "updates k (topic_events app) (new_topic k) =
  \<lparr>t_name = k, t_pubs = topic_pubs app k, t_subs = topic_subs app k\<rparr>"
  by (simp add: topic_events_def topic_node_updates topic_external_updates topic_pubs_def topic_subs_def
    new_topic_def)

lemma service_node_updates:
  "updates k (concat (map (\<lambda>n.
         map (\<lambda>p. (name p, add_server (mk n p))) (filter (\<lambda>p. name p \<noteq> '''') (as n))
         @ map (\<lambda>p. (name p, add_caller (mk n p))) (filter (\<lambda>p. name p \<noteq> '''') (bs n))) ns)) t
   = t\<lparr>servers := servers t @ concat (map (\<lambda>n. map (mk n)
        (filter (\<lambda>p. name p \<noteq> '''' \<and> name p = k) (as n))) ns),
      callers := callers t @ concat (map (\<lambda>n. map (mk n)
        (filter (\<lambda>p. name p \<noteq> '''' \<and> name p = k) (bs n))) ns)\<rparr>"
  by (induction ns arbitrary: t) (simp_all add: updates_servers updates_callers)

lemma service_external_updates:
  assumes "r1 \<noteq> r2"
  shows "updates k (concat (map (\<lambda>e.
         if ex_role e = r1 then [(ex_topic e, add_server (external_svc e))]
         else if ex_role e = r2 then [(ex_topic e, add_caller (external_svc e))]
         else []) es)) t
   = t\<lparr>servers := servers t @ map external_svc (filter (\<lambda>e. ex_role e = r1 \<and> ex_topic e = k) es),
      callers := callers t @ map external_svc (filter (\<lambda>e. ex_role e = r2 \<and> ex_topic e = k) es)\<rparr>"
  by (induction es arbitrary: t) (use assms in \<open>auto simp: updates_one add_server_def add_caller_def\<close>)

lemma service_updates: "updates k (service_events app) (new_service k) =
  \<lparr>sv_name = k, servers = service_servers app k, callers = service_callers app k\<rparr>"
  by (simp add: service_events_def service_node_updates service_external_updates service_servers_def
    service_callers_def new_service_def)

lemma action_updates: "updates k (action_events app) (new_service k) =
  \<lparr>sv_name = k, servers = action_servers app k, callers = action_callers app k\<rparr>"
  by (simp add: action_events_def service_node_updates service_external_updates action_servers_def
    action_callers_def new_service_def)

lemma keeps_topic: "keeps_key t_name new_topic (topic_events app)"
  by (auto simp: keeps_key_def new_topic_def topic_events_def add_pub_def add_sub_def split: if_splits)

lemma keeps_service: "keeps_key sv_name new_service (service_events app)"
  "keeps_key sv_name new_service (action_events app)"
  by (auto simp: keeps_key_def new_service_def service_events_def action_events_def add_server_def
    add_caller_def split: if_splits)

lemma topic_event_names:
  "fst ` set (topic_events app) = {k. topic_pubs app k \<noteq> [] \<or> topic_subs app k \<noteq> []}"
  by (auto simp: topic_events_def topic_pubs_def topic_subs_def filter_empty_conv image_iff split: if_splits)
    (blast | force)+

lemma node_event_names:
  "k \<in> fst ` set (concat (map (\<lambda>n. map (\<lambda>p. (nm p, F n p)) (filter (\<lambda>p. nm p \<noteq> '''') (as n))
       @ map (\<lambda>p. (nm p, G n p)) (filter (\<lambda>p. nm p \<noteq> '''') (bs n))) ns)) \<longleftrightarrow>
   concat (map (\<lambda>n. map (f n) (filter (\<lambda>p. nm p \<noteq> '''' \<and> nm p = k) (as n))) ns) \<noteq> []
   \<or> concat (map (\<lambda>n. map (f n) (filter (\<lambda>p. nm p \<noteq> '''' \<and> nm p = k) (bs n))) ns) \<noteq> []"
proof (induction ns)
  case (Cons n ns)
  have m: "k \<in> fst ` set (map (\<lambda>p. (nm p, H p)) (filter (\<lambda>p. nm p \<noteq> '''') xs)) \<longleftrightarrow>
      filter (\<lambda>p. nm p \<noteq> '''' \<and> nm p = k) xs \<noteq> []" for H and xs
    by (induction xs) auto
  show ?case using Cons.IH m[of "F n" "as n"] m[of "G n" "bs n"] by (simp add: image_Un)
qed simp

lemma external_event_names:
  "k \<in> fst ` set (concat (map (\<lambda>e. if ex_role e = r1 then [(ex_topic e, F e)]
       else if ex_role e = r2 then [(ex_topic e, G e)] else []) es)) \<longleftrightarrow>
   map f (filter (\<lambda>e. ex_role e = r1 \<and> ex_topic e = k) es) \<noteq> []
   \<or> map f (filter (\<lambda>e. ex_role e = r2 \<and> ex_topic e = k) es) \<noteq> []"
  by (induction es) auto

lemma service_event_names:
  "fst ` set (service_events app) = {k. service_servers app k \<noteq> [] \<or> service_callers app k \<noteq> []}"
  unfolding set_eq_iff service_events_def service_servers_def service_callers_def set_append image_Un Un_iff
    node_event_names[where f = svc_endpoint_of] external_event_names[where f = external_svc]
  by (simp only: mem_Collect_eq append_is_Nil_conv) blast

lemma action_event_names:
  "fst ` set (action_events app) = {k. action_servers app k \<noteq> [] \<or> action_callers app k \<noteq> []}"
  unfolding set_eq_iff action_events_def action_servers_def action_callers_def set_append image_Un Un_iff
    node_event_names[where f = act_endpoint_of] external_event_names[where f = external_svc]
  by (simp only: mem_Collect_eq append_is_Nil_conv) blast

lemma g_topics_build: "g_topics (build app) =
  map (\<lambda>k. \<lparr>t_name = k, t_pubs = topic_pubs app k, t_subs = topic_subs app k\<rparr>)
    (sorted_list_of_set {k. topic_pubs app k \<noteq> [] \<or> topic_subs app k \<noteq> []})"
  unfolding topic_updates[symmetric] topic_event_names[symmetric]
  by (simp add: build_def collect_sorted[OF keeps_topic] updates_def)

lemma g_services_build: "g_services (build app) =
  map (\<lambda>k. \<lparr>sv_name = k, servers = service_servers app k, callers = service_callers app k\<rparr>)
    (sorted_list_of_set {k. service_servers app k \<noteq> [] \<or> service_callers app k \<noteq> []})"
  unfolding service_updates[symmetric] service_event_names[symmetric]
  by (simp add: build_def collect_sorted[OF keeps_service(1)] updates_def)

lemma g_actions_build: "g_actions (build app) =
  map (\<lambda>k. \<lparr>sv_name = k, servers = action_servers app k, callers = action_callers app k\<rparr>)
    (sorted_list_of_set {k. action_servers app k \<noteq> [] \<or> action_callers app k \<noteq> []})"
  unfolding action_updates[symmetric] action_event_names[symmetric]
  by (simp add: build_def collect_sorted[OF keeps_service(2)] updates_def)

text \<open>C18. \<^verbatim>\<open>Build\<close> gathers exactly what is declared: one entry for each topic, service and action
  name some endpoint uses, sorted by name, and in it the endpoints that use it, those of the nodes
  first, in declaration order, then the external ones.\<close>

theorem build_exact:
  "g_topics (build app) =
     map (\<lambda>k. \<lparr>t_name = k, t_pubs = topic_pubs app k, t_subs = topic_subs app k\<rparr>)
       (sorted_list_of_set {k. topic_pubs app k @ topic_subs app k \<noteq> []})
   \<and> g_services (build app) =
     map (\<lambda>k. \<lparr>sv_name = k, servers = service_servers app k, callers = service_callers app k\<rparr>)
       (sorted_list_of_set {k. service_servers app k @ service_callers app k \<noteq> []})
   \<and> g_actions (build app) =
     map (\<lambda>k. \<lparr>sv_name = k, servers = action_servers app k, callers = action_callers app k\<rparr>)
       (sorted_list_of_set {k. action_servers app k @ action_callers app k \<noteq> []})"
  by (simp add: g_topics_build g_services_build g_actions_build de_Morgan_conj)

end
