(* ===== verification/Kahn.thy ===== *)
theory Kahn
imports Go_Prelude
begin

text \<open>
  The topological sort both bringup orders are built on (\<^verbatim>\<open>bringup.go\<close>,
  \<^verbatim>\<open>internal/graph/graph.go\<close>): the loop over the nodes that a taken node unlocks, the interface
  of the outer loop, and what follows from it. The two orders differ only in when the ready
  queue is sorted, so the interface leaves that open: \<open>pre\<close> rearranges the queue before a node
  is taken and \<open>post\<close> the nodes just unlocked before they join it.
\<close>

section \<open>One iteration\<close>

text \<open>The inner loop over \<^verbatim>\<open>nodes\<close>, for the node \<open>n\<close> just taken: the new in-degrees, and the
  nodes whose in-degree reached zero in the order the loop met them.\<close>

fun unlock :: "(string \<Rightarrow> string list) \<Rightarrow> string \<Rightarrow> string list \<Rightarrow> string list \<Rightarrow> (string \<Rightarrow> int)
    \<Rightarrow> (string \<Rightarrow> int) \<times> string list" where
  "unlock edges n taken [] indeg = (indeg, [])"
| "unlock edges n taken (m # ms) indeg =
     (if m \<in> set taken \<or> n \<notin> set (edges m) then unlock edges n taken ms indeg
      else let indeg' = indeg(m := indeg m - 1);
               (indeg'', us) = unlock edges n taken ms indeg'
           in (indeg'', if indeg' m = 0 then m # us else us))"

lemma unlock_measure:
  assumes "unlock edges n taken ms indeg = (indeg', us)" and "finite N" and "set ms \<subseteq> N"
  shows "length us + card {m \<in> N. indeg' m > 0} \<le> card {m \<in> N. indeg m > 0}"
  using assms
proof (induction ms arbitrary: indeg us)
  case (Cons m ms)
  show ?case
  proof (cases "m \<in> set taken \<or> n \<notin> set (edges m)")
    case True
    with Cons show ?thesis by simp
  next
    case False
    define d where "d = indeg(m := indeg m - 1)"
    obtain vs where u: "unlock edges n taken ms d = (indeg', vs)" and us: "us = (if d m = 0 then m # vs else vs)"
      using Cons.prems(1) False by (auto simp: d_def split: prod.splits)
    have ih: "length vs + card {x \<in> N. indeg' x > 0} \<le> card {x \<in> N. d x > 0}"
      using Cons.IH[OF u] Cons.prems by simp
    have sub: "{x \<in> N. d x > 0} \<subseteq> {x \<in> N. indeg x > 0}" by (auto simp: d_def split: if_splits)
    show ?thesis
    proof (cases "d m = 0")
      case True
      then have "{x \<in> N. d x > 0} \<subset> {x \<in> N. indeg x > 0}"
        using sub Cons.prems(3) by (auto simp: d_def)
      then have "card {x \<in> N. d x > 0} < card {x \<in> N. indeg x > 0}"
        using Cons.prems(2) by (simp add: psubset_card_mono)
      with ih us True show ?thesis by simp
    next
      case nz: False
      have "card {x \<in> N. d x > 0} \<le> card {x \<in> N. indeg x > 0}"
        using sub Cons.prems(2) by (simp add: card_mono)
      with ih us nz show ?thesis by simp
    qed
  qed
qed simp

definition hit :: "(string \<Rightarrow> string list) \<Rightarrow> string \<Rightarrow> string list \<Rightarrow> string \<Rightarrow> bool" where
  "hit edges n taken m \<longleftrightarrow> m \<notin> set taken \<and> n \<in> set (edges m)"

lemma unlock_distinct:
  assumes "distinct ms"
  shows "unlock edges n taken ms indeg =
    ((\<lambda>m. if m \<in> set ms \<and> hit edges n taken m then indeg m - 1 else indeg m),
     filter (\<lambda>m. hit edges n taken m \<and> indeg m = 1) ms)"
  using assms
proof (induction ms arbitrary: indeg)
  case (Cons m ms)
  show ?case
  proof (cases "hit edges n taken m")
    case False
    then have "unlock edges n taken (m # ms) indeg = unlock edges n taken ms indeg"
      by (simp add: hit_def)
    with Cons False show ?thesis by (auto intro!: ext)
  next
    case True
    define d where "d = indeg(m := indeg m - 1)"
    have "unlock edges n taken (m # ms) indeg =
        (fst (unlock edges n taken ms d), (if d m = 0 then [m] else []) @ snd (unlock edges n taken ms d))"
      using True by (simp add: hit_def d_def split: prod.splits)
    moreover have "filter (\<lambda>x. hit edges n taken x \<and> d x = 1) ms
        = filter (\<lambda>x. hit edges n taken x \<and> indeg x = 1) ms"
      using Cons.prems by (intro filter_cong) (auto simp: d_def)
    ultimately show ?thesis
      using Cons True by (auto simp: d_def intro!: ext)
  qed
qed simp

section \<open>The loop\<close>

text \<open>The order so far, and the nodes left when the queue is empty.\<close>

definition leftovers :: "string list \<Rightarrow> string list \<Rightarrow> string list" where
  "leftovers nodes order = filter (\<lambda>n. n \<notin> set order) nodes"

definition needs_rel :: "string list \<Rightarrow> (string \<Rightarrow> string list) \<Rightarrow> (string \<times> string) set" where
  "needs_rel nodes edges = {(n, d). n \<in> set nodes \<and> d \<in> set (edges n)}"

definition closed_edges :: "string list \<Rightarrow> (string \<Rightarrow> string list) \<Rightarrow> bool" where
  "closed_edges nodes edges \<longleftrightarrow> distinct nodes \<and> (\<forall>n. distinct (edges n) \<and> set (edges n) \<subseteq> set nodes)"

text \<open>Every node of \<open>order\<close> comes after all it needs.\<close>

fun after_needs :: "(string \<Rightarrow> string list) \<Rightarrow> string list \<Rightarrow> string list \<Rightarrow> bool" where
  "after_needs edges before [] \<longleftrightarrow> True"
| "after_needs edges before (n # ns) \<longleftrightarrow> set (edges n) \<subseteq> set before \<and> after_needs edges (before @ [n]) ns"

lemma after_needs_snoc:
  "after_needs edges before (ns @ [n]) \<longleftrightarrow> after_needs edges before ns \<and> set (edges n) \<subseteq> set (before @ ns)"
  by (induction ns arbitrary: before) auto

lemma after_needs_closed:
  "after_needs edges before ns \<Longrightarrow> n \<in> set ns \<Longrightarrow> set (edges n) \<subseteq> set (before @ ns)"
  by (induction ns arbitrary: before) fastforce+

lemma after_needs_split:
  "after_needs edges before (xs @ n # ys) \<Longrightarrow> set (edges n) \<subseteq> set (before @ xs)"
  by (induction xs arbitrary: before) fastforce+

text \<open>The loop's invariant, for the in-degrees, the ready queue and the order so far (whose
  elements are the nodes marked done).\<close>

definition kahn_inv :: "string list \<Rightarrow> (string \<Rightarrow> string list) \<Rightarrow> (string \<Rightarrow> int) \<Rightarrow> string list
    \<Rightarrow> string list \<Rightarrow> bool" where
  "kahn_inv nodes edges indeg ready order \<longleftrightarrow>
     distinct (ready @ order) \<and> set (ready @ order) \<subseteq> set nodes
     \<and> (\<forall>n \<in> set nodes - set order. indeg n = int (card (set (edges n) - set order)))
     \<and> (\<forall>n \<in> set nodes - set order. n \<in> set ready \<longleftrightarrow> set (edges n) \<subseteq> set order)
     \<and> after_needs edges [] order"

lemma after_needs_reach:
  assumes "after_needs edges [] order" and "(n, d) \<in> (needs_rel nodes edges)\<^sup>*" and "n \<in> set order"
  shows "d \<in> set order"
  using assms(2)
  by (induction rule: rtrancl_induct)
    (use assms(3) after_needs_closed[OF assms(1)] in \<open>auto simp: needs_rel_def\<close>)

lemma after_needs_acyclic:
  assumes "after_needs edges [] order" and "(n, n) \<in> (needs_rel nodes edges)\<^sup>+"
  shows "n \<notin> set order"
  using assms
proof (induction order arbitrary: n rule: rev_induct)
  case (snoc m order)
  then have a: "after_needs edges [] order" "set (edges m) \<subseteq> set order" by (auto simp: after_needs_snoc)
  have "m \<noteq> n"
  proof
    assume "m = n"
    then obtain d where d: "d \<in> set (edges n)" "(d, n) \<in> (needs_rel nodes edges)\<^sup>*"
      using tranclD[OF snoc.prems(2)] by (auto simp: needs_rel_def)
    with a \<open>m = n\<close> have "d \<in> set order" by auto
    then have "n \<in> set order" using after_needs_reach[OF a(1) d(2)] by simp
    with snoc.IH[OF a(1) snoc.prems(2)] show False by simp
  qed
  with snoc.IH[OF a(1) snoc.prems(2)] show ?case by simp
qed simp

text \<open>A finite relation in which every element of \<open>L\<close> has a successor in \<open>L\<close> has a cycle that any
  element of \<open>L\<close> reaches.\<close>

lemma serial_reaches_cycle:
  assumes "finite L" and "\<And>x. x \<in> L \<Longrightarrow> \<exists>y \<in> L. (x, y) \<in> r" and "n \<in> L"
  shows "\<exists>c. (n, c) \<in> r\<^sup>* \<and> (c, c) \<in> r\<^sup>+"
proof (rule ccontr)
  assume no: "\<not> ?thesis"
  define s where "s = {(x, y). x \<in> L \<and> y \<in> L \<and> (x, y) \<in> r \<and> (n, x) \<in> r\<^sup>*}"
  have sr: "s \<subseteq> r" by (auto simp: s_def)
  have "finite s" by (rule finite_subset[of _ "L \<times> L"]) (auto simp: s_def assms(1))
  moreover have "acyclic s"
  proof (rule acyclicI, intro allI notI)
    fix c assume c: "(c, c) \<in> s\<^sup>+"
    then have "(n, c) \<in> r\<^sup>*" using tranclD[OF c] by (auto simp: s_def)
    moreover have "(c, c) \<in> r\<^sup>+" using c sr by (meson trancl_mono)
    ultimately show False using no by blast
  qed
  ultimately have "wf (s\<inverse>)" by (rule finite_acyclic_wf_converse)
  moreover have "n \<in> {x \<in> L. (n, x) \<in> r\<^sup>*}" using assms(3) by simp
  ultimately obtain m where "m \<in> {x \<in> L. (n, x) \<in> r\<^sup>*}"
    and m': "\<And>y. (y, m) \<in> s\<inverse> \<Longrightarrow> y \<notin> {x \<in> L. (n, x) \<in> r\<^sup>*}"
    by (rule wfE_min) blast
  then have m: "m \<in> L" "(n, m) \<in> r\<^sup>*" by auto
  obtain y where y: "y \<in> L" "(m, y) \<in> r" using assms(2) m(1) by blast
  with m have "(y, m) \<in> s\<inverse>" "(n, y) \<in> r\<^sup>*" by (auto simp: s_def)
  with m' y show False by blast
qed

definition started :: "string list \<Rightarrow> (string \<Rightarrow> string list) \<Rightarrow> (string \<Rightarrow> int) \<Rightarrow> string list \<Rightarrow> bool" where
  "started nodes edges indeg ready \<longleftrightarrow>
     closed_edges nodes edges \<and> (\<forall>n \<in> set nodes. indeg n = int (length (edges n)))
     \<and> mset ready = mset (filter (\<lambda>n. indeg n = 0) nodes)"

locale kahn_loop =
  fixes pre :: "string list \<Rightarrow> string list \<Rightarrow> string list"
    and post :: "string list \<Rightarrow> string list \<Rightarrow> string list"
    and loop :: "string list \<Rightarrow> (string \<Rightarrow> string list) \<Rightarrow> (string \<Rightarrow> int) \<Rightarrow> string list \<Rightarrow> string list
      \<Rightarrow> string list"
  assumes pre_mset: "mset (pre nodes xs) = mset xs"
    and post_mset: "mset (post nodes xs) = mset xs"
    and loop_step: "loop nodes edges indeg ready order =
      (case pre nodes ready of
         [] \<Rightarrow> order
       | n # rest \<Rightarrow>
           (let (indeg', us) = unlock edges n (order @ [n]) nodes indeg
            in loop nodes edges indeg' (rest @ post nodes us) (order @ [n])))"
begin

lemma pre_simps: "length (pre nodes xs) = length xs" "set (pre nodes xs) = set xs"
  "distinct (pre nodes xs) = distinct xs"
  using pre_mset[of nodes xs] mset_eq_length mset_eq_setD mset_eq_imp_distinct_iff by blast+

lemma post_simps: "length (post nodes xs) = length xs" "set (post nodes xs) = set xs"
  "distinct (post nodes xs) = distinct xs"
  using post_mset[of nodes xs] mset_eq_length mset_eq_setD mset_eq_imp_distinct_iff by blast+

lemma kahn_step:
  assumes c: "closed_edges nodes edges" and inv: "kahn_inv nodes edges indeg ready order"
    and p: "pre nodes ready = n # rest"
    and u: "unlock edges n (order @ [n]) nodes indeg = (indeg', us)"
  shows "kahn_inv nodes edges indeg' (rest @ post nodes us) (order @ [n])"
proof -
  have dn: "distinct nodes" and de: "\<And>m. distinct (edges m)" using c by (auto simp: closed_edges_def)
  have rs: "set ready = insert n (set rest)" "distinct (n # rest)"
    using pre_simps[of nodes ready] inv p by (auto simp: kahn_inv_def)
  have n: "n \<in> set nodes" "n \<notin> set order" "set (edges n) \<subseteq> set order"
    using inv rs by (auto simp: kahn_inv_def)
  define h where "h m \<longleftrightarrow> hit edges n (order @ [n]) m" for m
  have i': "\<And>m. indeg' m = (if m \<in> set nodes \<and> h m then indeg m - 1 else indeg m)"
    and us: "us = filter (\<lambda>m. h m \<and> indeg m = 1) nodes"
    using u by (auto simp: unlock_distinct[OF dn] h_def)
  have deg: "indeg m = int (card (set (edges m) - set order))" if "m \<in> set nodes" "m \<notin> set order" for m
    using inv that by (auto simp: kahn_inv_def)
  have deg': "indeg' m = int (card (set (edges m) - set (order @ [n])))"
    if m: "m \<in> set nodes" "m \<notin> set (order @ [n])" for m
  proof (cases "n \<in> set (edges m)")
    case True
    then have "h m" using m by (auto simp: h_def hit_def)
    moreover have "card (set (edges m) - set order) = Suc (card (set (edges m) - set (order @ [n])))"
    proof -
      have "set (edges m) - set (order @ [n]) = (set (edges m) - set order) - {n}" by auto
      moreover have "card (set (edges m) - set order) = Suc (card ((set (edges m) - set order) - {n}))"
        using True n(2) by (intro card.remove) auto
      ultimately show ?thesis by presburger
    qed
    moreover have "indeg m = int (card (set (edges m) - set order))" using deg m by simp
    ultimately show ?thesis using m(1) i'[of m] by presburger
  next
    case False
    then have "set (edges m) - set order = set (edges m) - set (order @ [n])" by auto
    then show ?thesis using False m i'[of m] deg[of m] by (simp add: h_def hit_def)
  qed
  have us_iff: "m \<in> set us \<longleftrightarrow> m \<in> set nodes \<and> m \<notin> set (order @ [n]) \<and> n \<in> set (edges m)
      \<and> set (edges m) \<subseteq> set (order @ [n])" for m
  proof -
    have "indeg m = 1 \<longleftrightarrow> set (edges m) \<subseteq> set (order @ [n])"
      if m: "m \<in> set nodes" "m \<notin> set (order @ [n])" "n \<in> set (edges m)"
    proof -
      have "indeg m = 1 \<longleftrightarrow> indeg' m = 0" using i'[of m] m by (auto simp: h_def hit_def)
      also have "\<dots> \<longleftrightarrow> set (edges m) - set (order @ [n]) = {}" using deg'[OF m(1,2)] by simp
      finally show ?thesis by blast
    qed
    then show ?thesis by (auto simp: us h_def hit_def)
  qed
  have ready_iff: "m \<in> set (rest @ post nodes us) \<longleftrightarrow> set (edges m) \<subseteq> set (order @ [n])"
    if m: "m \<in> set nodes" "m \<notin> set (order @ [n])" for m
  proof -
    have "m \<in> set rest \<longleftrightarrow> set (edges m) \<subseteq> set order"
      using inv rs m by (auto simp: kahn_inv_def)
    then show ?thesis using us_iff[of m] m by (auto simp: post_simps)
  qed
  have "set us \<inter> set ready = {}"
    using inv us_iff n(2) by (fastforce simp: kahn_inv_def)
  then have "distinct ((rest @ post nodes us) @ order @ [n])"
    using inv rs us_iff dn n by (auto simp: kahn_inv_def post_simps us)
  moreover have "set ((rest @ post nodes us) @ order @ [n]) \<subseteq> set nodes"
    using inv rs us_iff by (auto simp: kahn_inv_def post_simps)
  moreover have "after_needs edges [] (order @ [n])"
    using inv n by (simp add: kahn_inv_def after_needs_snoc)
  ultimately show ?thesis
    using deg' ready_iff by (auto simp: kahn_inv_def)
qed

lemma kahn_measure:
  assumes "pre nodes ready = n # rest" and "unlock edges n (order @ [n]) nodes indeg = (indeg', us)"
  shows "length (rest @ post nodes us) + card {m \<in> set nodes. indeg' m > 0}
    < length ready + card {m \<in> set nodes. indeg m > 0}"
proof -
  have "length ready = Suc (length rest)" using pre_simps(1)[of nodes ready] assms(1) by simp
  with unlock_measure[OF assms(2) _ subset_refl] show ?thesis by (simp add: post_simps)
qed

lemma loop_inv:
  assumes "closed_edges nodes edges" and "kahn_inv nodes edges indeg ready order"
  shows "\<exists>indeg'. kahn_inv nodes edges indeg' [] (loop nodes edges indeg ready order)"
  using assms(2)
proof (induction "length ready + card {m \<in> set nodes. indeg m > 0}" arbitrary: indeg ready order
    rule: less_induct)
  case less
  show ?case
  proof (cases "pre nodes ready")
    case Nil
    then have "ready = []" using pre_simps(1)[of nodes ready] by simp
    with Nil less.prems show ?thesis by (subst loop_step) auto
  next
    case (Cons n rest)
    obtain indeg' us where u: "unlock edges n (order @ [n]) nodes indeg = (indeg', us)"
      by (cases "unlock edges n (order @ [n]) nodes indeg")
    from less.hyps[OF kahn_measure[OF Cons u] kahn_step[OF assms(1) less.prems Cons u]] Cons u
    show ?thesis by (subst loop_step) simp
  qed
qed

lemma started_inv:
  assumes "started nodes edges indeg ready"
  shows "kahn_inv nodes edges indeg ready []"
proof -
  have m: "mset ready = mset (filter (\<lambda>n. indeg n = 0) nodes)" and dn: "distinct nodes"
    using assms by (auto simp: started_def closed_edges_def)
  have "set ready = {n \<in> set nodes. indeg n = 0}" using mset_eq_setD[OF m] by auto
  moreover have "distinct ready" using mset_eq_imp_distinct_iff[OF m] dn by simp
  moreover have "int (card (set (edges n))) = int (length (edges n))" for n
    using assms by (simp add: started_def closed_edges_def distinct_card)
  ultimately show ?thesis
    using assms by (auto simp: kahn_inv_def started_def)
qed

lemma final_inv:
  assumes "started nodes edges indeg ready"
  shows "\<exists>i. kahn_inv nodes edges i [] (loop nodes edges indeg ready [])"
  using loop_inv[OF _ started_inv[OF assms]] assms by (simp add: started_def)

lemma order_after:
  assumes "started nodes edges indeg ready"
  shows "after_needs edges [] (loop nodes edges indeg ready [])"
  using final_inv[OF assms] by (auto simp: kahn_inv_def)

lemma order_perm:
  assumes "started nodes edges indeg ready"
  shows "mset (loop nodes edges indeg ready [] @ leftovers nodes (loop nodes edges indeg ready [])) = mset nodes"
proof -
  define order where "order = loop nodes edges indeg ready []"
  have o: "distinct order" "set order \<subseteq> set nodes" "distinct nodes"
    using final_inv[OF assms] assms by (auto simp: kahn_inv_def order_def started_def closed_edges_def)
  then have "mset (order @ leftovers nodes order) = mset_set (set (order @ leftovers nodes order))"
    by (subst mset_set_set) (auto simp: leftovers_def)
  also have "set (order @ leftovers nodes order) = set nodes" using o by (auto simp: leftovers_def)
  finally show ?thesis using o by (simp add: mset_set_set order_def)
qed

lemma order_split:
  assumes "started nodes edges indeg ready"
    and "loop nodes edges indeg ready [] @ leftovers nodes (loop nodes edges indeg ready []) = xs @ n # ys"
    and "n \<notin> set (leftovers nodes (loop nodes edges indeg ready []))" and "p \<in> set (edges n)"
  shows "p \<in> set xs"
proof -
  define ok where "ok = loop nodes edges indeg ready []"
  have "distinct (ok @ leftovers nodes ok)"
    using mset_eq_imp_distinct_iff[OF order_perm[OF assms(1)]] assms(1)
    by (simp add: ok_def started_def closed_edges_def)
  have "n \<in> set (ok @ leftovers nodes ok)" using assms(2) by (simp add: ok_def)
  then have "n \<in> set ok" using assms(3) by (simp add: ok_def)
  then obtain us vs where uv: "ok = us @ n # vs" by (auto simp: in_set_conv_decomp)
  have "xs = us"
  proof (rule distinct_split_unique)
    show "xs @ n # ys = us @ n # vs @ leftovers nodes ok" using assms(2) uv by (simp add: ok_def)
    with \<open>distinct (ok @ leftovers nodes ok)\<close> uv show "distinct (xs @ n # ys)" by simp
  qed
  moreover have "set (edges n) \<subseteq> set us"
    using order_after[OF assms(1)] after_needs_split[of edges "[]" us n vs] uv by (simp add: ok_def)
  ultimately show ?thesis using assms(4) by auto
qed

lemma leftovers_iff:
  assumes "started nodes edges indeg ready"
  shows "n \<in> set (leftovers nodes (loop nodes edges indeg ready [])) \<longleftrightarrow>
    n \<in> set nodes \<and> (\<exists>c. (n, c) \<in> (needs_rel nodes edges)\<^sup>* \<and> (c, c) \<in> (needs_rel nodes edges)\<^sup>+)"
    (is "?l \<longleftrightarrow> ?r")
proof
  define order where "order = loop nodes edges indeg ready []"
  obtain i where inv: "kahn_inv nodes edges i [] order" using final_inv[OF assms] by (auto simp: order_def)
  {
    assume ?l
    have "\<exists>y \<in> set (leftovers nodes order). (x, y) \<in> needs_rel nodes edges"
      if x: "x \<in> set (leftovers nodes order)" for x
    proof -
      have "\<not> set (edges x) \<subseteq> set order" using inv x by (auto simp: kahn_inv_def leftovers_def)
      then obtain y where y: "y \<in> set (edges x)" "y \<notin> set order" by blast
      moreover have "y \<in> set nodes" using y assms by (auto simp: started_def closed_edges_def)
      ultimately show ?thesis using x by (auto simp: leftovers_def needs_rel_def)
    qed
    then have "\<exists>c. (n, c) \<in> (needs_rel nodes edges)\<^sup>* \<and> (c, c) \<in> (needs_rel nodes edges)\<^sup>+"
      using \<open>?l\<close> by (intro serial_reaches_cycle[of "set (leftovers nodes order)"]) (auto simp: order_def)
    with \<open>?l\<close> show ?r by (auto simp: leftovers_def)
  next
    assume ?r
    then obtain c where c: "(n, c) \<in> (needs_rel nodes edges)\<^sup>*" "(c, c) \<in> (needs_rel nodes edges)\<^sup>+" by blast
    have a: "after_needs edges [] order" using inv by (simp add: kahn_inv_def)
    have "n \<notin> set order"
      using after_needs_reach[OF a c(1)] after_needs_acyclic[OF a c(2)] by blast
    with \<open>?r\<close> show ?l by (simp add: leftovers_def order_def)
  }
qed

end

end
