(* ===== verification/Bringup.thy ===== *)
theory Bringup
imports Kahn
begin

text \<open>
  The runtime's bringup order (\<^verbatim>\<open>bringup.go\<close>): what each node provides and consumes, recorded
  while its fields are bound, and the activation order derived from it. The key sets of
  \<^verbatim>\<open>nodeDeps\<close> are lists in the order the maps would be ranged over, which nothing below depends on.
\<close>

section \<open>Dependencies\<close>

record node_deps =
  provides :: "string list"
  consumes :: "string list"

type_synonym deps_map = "string \<Rightarrow> node_deps option"

definition new_node_deps :: node_deps where
  "new_node_deps = \<lparr>provides = [], consumes = []\<rparr>"

definition deps_for :: "string \<Rightarrow> deps_map \<Rightarrow> node_deps \<times> deps_map" where
  "deps_for node deps =
     (case deps node of
        Some d \<Rightarrow> (d, deps)
      | None \<Rightarrow> (new_node_deps, deps(node \<mapsto> new_node_deps)))"

definition record_provides :: "string \<Rightarrow> string \<Rightarrow> deps_map \<Rightarrow> deps_map" where
  "record_provides node name deps =
     (let (d, deps') = deps_for node deps
      in deps'(node \<mapsto> d\<lparr>provides := append_once (provides d) name\<rparr>))"

definition record_consumes :: "string \<Rightarrow> string \<Rightarrow> deps_map \<Rightarrow> deps_map" where
  "record_consumes node name deps =
     (let (d, deps') = deps_for node deps
      in deps'(node \<mapsto> d\<lparr>consumes := append_once (consumes d) name\<rparr>))"

definition providers_of :: "string list \<Rightarrow> deps_map \<Rightarrow> string \<Rightarrow> string list" where
  "providers_of nodes deps name =
     concat (map (\<lambda>n. case deps n of None \<Rightarrow> []
       | Some d \<Rightarrow> if name \<in> set (provides d) then [n] else []) nodes)"

text \<open>The edges of one node with its in-degree, counted as edges are recorded.\<close>

definition add_edge :: "string \<Rightarrow> string list \<times> int \<Rightarrow> string \<Rightarrow> string list \<times> int" where
  "add_edge n = (\<lambda>(es, k) provider.
     if provider = n \<or> provider \<in> set es then (es, k) else (es @ [provider], k + 1))"

definition node_edges :: "string list \<Rightarrow> deps_map \<Rightarrow> string \<Rightarrow> string list \<times> int" where
  "node_edges nodes deps n =
     (case deps n of
        None \<Rightarrow> ([], 0)
      | Some d \<Rightarrow> foldl (\<lambda>acc name. foldl (add_edge n) acc (providers_of nodes deps name)) ([], 0) (consumes d))"

text \<open>The position of a name, the last one when it is listed twice.\<close>

definition position :: "string list \<Rightarrow> string \<Rightarrow> nat" where
  "position nodes n = (case map_of (rev (zip nodes [0..<length nodes])) n of Some i \<Rightarrow> i | None \<Rightarrow> 0)"

function runtime_loop :: "string list \<Rightarrow> (string \<Rightarrow> string list) \<Rightarrow> (string \<Rightarrow> int) \<Rightarrow> string list
    \<Rightarrow> string list \<Rightarrow> string list" where
  "runtime_loop nodes edges indeg ready order =
     (case ready of
        [] \<Rightarrow> order
      | n # rest \<Rightarrow>
          (let (indeg', unlocked) = unlock edges n (order @ [n]) nodes indeg
           in runtime_loop nodes edges indeg' (rest @ sort_key (position nodes) unlocked) (order @ [n])))"
  by pat_completeness auto
termination
proof (relation "measure (\<lambda>(nodes, edges, indeg, ready, order). length ready + card {m \<in> set nodes. indeg m > 0})",
    simp)
  fix nodes :: "string list" and edges :: "string \<Rightarrow> string list" and indeg :: "string \<Rightarrow> int"
    and ready order n rest x indeg' unlocked
  assume a: "ready = n # rest" "x = unlock edges n (order @ [n]) nodes indeg" "(indeg', unlocked) = x"
  then have "length unlocked + card {m \<in> set nodes. indeg' m > 0} \<le> card {m \<in> set nodes. indeg m > 0}"
    by (intro unlock_measure[of edges n "order @ [n]" nodes]) auto
  with a(1) show "((nodes, edges, indeg', rest @ sort_key (position nodes) unlocked, order @ [n]),
      nodes, edges, indeg, ready, order) \<in> measure (\<lambda>(nodes, edges, indeg, ready, order).
        length ready + card {m \<in> set nodes. indeg m > 0})"
    by simp
qed

declare runtime_loop.simps [simp del]

definition bringup_order :: "string list \<Rightarrow> deps_map \<Rightarrow> string list \<times> string list" where
  "bringup_order nodes deps =
     (let edges = (\<lambda>n. fst (node_edges nodes deps n));
          indeg = (\<lambda>n. snd (node_edges nodes deps n));
          ready = sort_key (position nodes) (filter (\<lambda>n. indeg n = 0) nodes);
          order = runtime_loop nodes edges indeg ready [];
          cycles = leftovers nodes order
      in (order @ cycles, cycles))"

interpretation fifo: kahn_loop "\<lambda>nodes xs. xs" "\<lambda>nodes. sort_key (position nodes)" runtime_loop
proof
  show "runtime_loop nodes edges indeg ready order =
      (case ready of [] \<Rightarrow> order
       | n # rest \<Rightarrow> (let (indeg', us) = unlock edges n (order @ [n]) nodes indeg
            in runtime_loop nodes edges indeg' (rest @ sort_key (position nodes) us) (order @ [n])))"
    for nodes edges indeg ready order
    by (subst runtime_loop.simps) simp
qed simp_all

section \<open>The edges are the dependencies\<close>

text \<open>A node depends on another that provides something it consumes.\<close>

definition depends :: "string list \<Rightarrow> deps_map \<Rightarrow> (string \<times> string) set" where
  "depends nodes deps = {(n, p). n \<in> set nodes \<and> p \<in> set nodes \<and> n \<noteq> p \<and>
     (\<exists>dn dp name. deps n = Some dn \<and> deps p = Some dp \<and> name \<in> set (consumes dn) \<and> name \<in> set (provides dp))}"

lemma set_providers_of:
  "set (providers_of nodes deps name) = {p \<in> set nodes. \<exists>d. deps p = Some d \<and> name \<in> set (provides d)}"
  by (force simp: providers_of_def split: option.splits if_splits)

lemma foldl_add_edge:
  assumes "distinct (fst acc)" and "snd acc = int (length (fst acc))"
  shows "set (fst (foldl (add_edge n) acc ps)) = set (fst acc) \<union> (set ps - {n})
    \<and> distinct (fst (foldl (add_edge n) acc ps))
    \<and> snd (foldl (add_edge n) acc ps) = int (length (fst (foldl (add_edge n) acc ps)))"
  using assms
proof (induction ps arbitrary: acc)
  case (Cons p ps)
  have "distinct (fst (add_edge n acc p))"
    "snd (add_edge n acc p) = int (length (fst (add_edge n acc p)))"
    "set (fst (add_edge n acc p)) = set (fst acc) \<union> ({p} - {n})"
    using Cons.prems by (auto simp: add_edge_def split: prod.splits)
  with Cons.IH[of "add_edge n acc p"] show ?case by auto
qed simp

lemma foldl_edges:
  assumes "distinct (fst acc)" and "snd acc = int (length (fst acc))"
  shows "set (fst (foldl (\<lambda>acc name. foldl (add_edge n) acc (f name)) acc ns))
      = set (fst acc) \<union> (\<Union>name \<in> set ns. set (f name) - {n})
    \<and> distinct (fst (foldl (\<lambda>acc name. foldl (add_edge n) acc (f name)) acc ns))
    \<and> snd (foldl (\<lambda>acc name. foldl (add_edge n) acc (f name)) acc ns)
      = int (length (fst (foldl (\<lambda>acc name. foldl (add_edge n) acc (f name)) acc ns)))"
  using assms
proof (induction ns arbitrary: acc)
  case (Cons a ns)
  note a = foldl_add_edge[OF Cons.prems, of n "f a"]
  from Cons.IH[of "foldl (add_edge n) acc (f a)"] a show ?case by auto
qed simp

lemma node_edges_spec:
  "set (fst (node_edges nodes deps n)) =
     {p \<in> set nodes. p \<noteq> n \<and> (\<exists>dn dp name. deps n = Some dn \<and> deps p = Some dp
        \<and> name \<in> set (consumes dn) \<and> name \<in> set (provides dp))}"
  "distinct (fst (node_edges nodes deps n))"
  "snd (node_edges nodes deps n) = int (length (fst (node_edges nodes deps n)))"
  using foldl_edges[of "([], 0)" n "providers_of nodes deps"]
  by (auto simp: node_edges_def set_providers_of split: option.splits)

lemma needs_rel_depends:
  "needs_rel nodes (\<lambda>n. fst (node_edges nodes deps n)) = depends nodes deps"
  by (auto simp: needs_rel_def depends_def node_edges_spec(1))

lemma bringup_started:
  "distinct nodes \<Longrightarrow> started nodes (\<lambda>n. fst (node_edges nodes deps n)) (\<lambda>n. snd (node_edges nodes deps n))
     (sort_key (position nodes) (filter (\<lambda>n. snd (node_edges nodes deps n) = 0) nodes))"
  by (auto simp: started_def closed_edges_def node_edges_spec)

section \<open>Properties\<close>

lemma bringup_order_ok:
  assumes "distinct nodes" and "bringup_order nodes deps = (order, cycles)"
  shows "mset order = mset nodes \<and> (\<exists>xs. order = xs @ cycles) \<and> cycles = filter (\<lambda>n. n \<in> set cycles) nodes
    \<and> (\<forall>xs n ys p. order = xs @ n # ys \<and> n \<notin> set cycles \<and> (n, p) \<in> depends nodes deps \<longrightarrow> p \<in> set xs)"
proof -
  note st = bringup_started[OF assms(1), of deps]
  define edges where "edges = (\<lambda>n. fst (node_edges nodes deps n))"
  obtain ok where ok: "order = ok @ cycles" "cycles = leftovers nodes ok"
    and m: "mset order = mset nodes"
    using assms(2) fifo.order_perm[OF st] by (auto simp: bringup_order_def Let_def)
  have "p \<in> set xs" if "order = xs @ n # ys" "n \<notin> set cycles" "(n, p) \<in> depends nodes deps" for xs n ys p
    using fifo.order_split[OF st, of xs n ys p] assms(2) that
    by (auto simp: bringup_order_def Let_def node_edges_spec(1) depends_def)
  moreover have "cycles = filter (\<lambda>n. n \<in> set cycles) nodes"
    unfolding ok(2) leftovers_def by (rule filter_cong) auto
  ultimately show ?thesis using m ok(1) by blast
qed

text \<open>C17. The runtime's bringup order lists every node exactly once and ends with the nodes named in
  \<^verbatim>\<open>cycles\<close>, in declaration order; a node that is not one of those comes after every node it
  depends on.\<close>

theorem bringup_order_sound:
  assumes "distinct nodes" and "bringup_order nodes deps = (order, cycles)"
  shows "mset order = mset nodes \<and> (\<exists>xs. order = xs @ cycles) \<and> cycles = filter (\<lambda>n. n \<in> set cycles) nodes
    \<and> (\<forall>xs n ys p. order = xs @ n # ys \<and> n \<notin> set cycles \<and> (n, p) \<in> depends nodes deps \<longrightarrow> p \<in> set xs)"
  using bringup_order_ok[OF assms] .

definition sample_deps :: deps_map where
  "sample_deps = [''nav'' \<mapsto> \<lparr>provides = [''cmd''], consumes = [''scan'']\<rparr>,
    ''lidar'' \<mapsto> \<lparr>provides = [''scan''], consumes = []\<rparr>]"

lemma sample_bringup: "bringup_order [''nav'', ''lidar''] sample_deps = ([''lidar'', ''nav''], [])"
  by (simp add: bringup_order_def sample_deps_def node_edges_def providers_of_def add_edge_def Let_def
    runtime_loop.simps leftovers_def position_def)

theorem bringup_order_sound_witness:
  "mset (fst (bringup_order [''nav'', ''lidar''] sample_deps)) = {#''lidar'', ''nav''#}"
  using bringup_order_sound[OF _ sample_bringup] sample_bringup by simp

text \<open>\<^verbatim>\<open>cycles\<close> names exactly the nodes that lie on a dependency cycle or depend, directly or
  not, on one that does; when there is no cycle it is empty.\<close>

theorem bringup_cycles_exact:
  assumes "distinct nodes"
  shows "set (snd (bringup_order nodes deps)) =
    {n \<in> set nodes. \<exists>c. (n, c) \<in> (depends nodes deps)\<^sup>* \<and> (c, c) \<in> (depends nodes deps)\<^sup>+}"
  using fifo.leftovers_iff[OF bringup_started[OF assms, of deps]]
  by (auto simp: bringup_order_def Let_def needs_rel_depends)

text \<open>Two nodes in a feedback loop and a third that only listens to one of them.\<close>

definition downstream_deps :: deps_map where
  "downstream_deps = [''a'' \<mapsto> \<lparr>provides = [''x''], consumes = [''y'']\<rparr>,
    ''b'' \<mapsto> \<lparr>provides = [''y''], consumes = [''x'']\<rparr>,
    ''log'' \<mapsto> \<lparr>provides = [], consumes = [''x'']\<rparr>]"

theorem bringup_cycles_exact_witness:
  "''log'' \<in> set (snd (bringup_order [''a'', ''b'', ''log''] downstream_deps))"
proof -
  let ?r = "depends [''a'', ''b'', ''log''] downstream_deps"
  have "(''log'', ''a'') \<in> ?r" "(''a'', ''b'') \<in> ?r" "(''b'', ''a'') \<in> ?r"
    by (auto simp: depends_def downstream_deps_def)
  then have "(''log'', ''a'') \<in> ?r\<^sup>*" "(''a'', ''a'') \<in> ?r\<^sup>+" by (auto intro: trancl_into_trancl)
  then have "\<exists>c. (''log'', c) \<in> ?r\<^sup>* \<and> (c, c) \<in> ?r\<^sup>+" by blast
  then show ?thesis
    using bringup_cycles_exact[of "[''a'', ''b'', ''log'']" downstream_deps] by simp
qed

end
