(* ===== verification/Graph_Order.thy ===== *)
theory Graph_Order
imports Graph_Build Bringup
begin

text \<open>
  The order \<^verbatim>\<open>conductor check\<close> reports and the launch file encodes (\<^verbatim>\<open>dependencies\<close>,
  \<^verbatim>\<open>Dependencies\<close> and \<^verbatim>\<open>Graph.BringupOrder\<close> of \<^verbatim>\<open>internal/graph/graph.go\<close>), and how it
  relates to the runtime's (theory \<^verbatim>\<open>Bringup\<close>). A set of nodes is a duplicate-free list.
\<close>

section \<open>Dependencies\<close>

definition node_names :: "'v graph \<Rightarrow> string list" where
  "node_names g = map nd_name (nodes (g_app g))"

text \<open>\<^verbatim>\<open>providers\<close>: the nodes behind the internal publishers and servers of a name.\<close>

definition graph_providers :: "'v graph \<Rightarrow> string \<Rightarrow> string list" where
  "graph_providers g name =
     concat (map (\<lambda>t. if t_name t = name
        then map e_node (filter (\<lambda>p. \<not> e_external p) (t_pubs t)) else []) (g_topics g))
     @ concat (map (\<lambda>s. if sv_name s = name
        then map s_node (filter (\<lambda>p. \<not> s_external p) (servers s)) else []) (g_services g))
     @ concat (map (\<lambda>s. if sv_name s = name
        then map s_node (filter (\<lambda>p. \<not> s_external p) (servers s)) else []) (g_actions g))"

definition node_consumes :: "node_decl \<Rightarrow> string list" where
  "node_consumes n = map ep_topic (subs n) @ map sv_service (clients n) @ map ac_action (action_clients n)"

definition graph_consumes :: "'v graph \<Rightarrow> string \<Rightarrow> string list" where
  "graph_consumes g name =
     concat (map (\<lambda>n. if nd_name n = name then node_consumes n else []) (nodes (g_app g)))"

definition dependency_set :: "'v graph \<Rightarrow> string \<Rightarrow> string list" where
  "dependency_set g n =
     foldl (\<lambda>needs provider. if provider = n then needs else append_once needs provider) []
       (concat (map (graph_providers g) (graph_consumes g n)))"

text \<open>\<^verbatim>\<open>needs[n]\<close> of a name that is not a node reads as the empty set.\<close>

definition dependencies :: "'v graph \<Rightarrow> string \<Rightarrow> string list" where
  "dependencies g n = (if n \<in> set (node_names g) then dependency_set g n else [])"

definition sorted_dependencies :: "'v graph \<Rightarrow> string \<Rightarrow> string list option" where
  "sorted_dependencies g n =
     (if n \<in> set (node_names g) then Some (sort (dependencies g n)) else None)"

section \<open>The order\<close>

function static_loop :: "string list \<Rightarrow> (string \<Rightarrow> string list) \<Rightarrow> (string \<Rightarrow> int) \<Rightarrow> string list
    \<Rightarrow> string list \<Rightarrow> string list" where
  "static_loop names needs indeg ready order =
     (case sort_key (position names) ready of
        [] \<Rightarrow> order
      | n # rest \<Rightarrow>
          (let (indeg', unlocked) = unlock needs n (order @ [n]) names indeg
           in static_loop names needs indeg' (rest @ unlocked) (order @ [n])))"
  by pat_completeness auto
termination
proof (relation "measure (\<lambda>(names, needs, indeg, ready, order). length ready + card {m \<in> set names. indeg m > 0})",
    simp)
  fix names :: "string list" and needs :: "string \<Rightarrow> string list" and indeg :: "string \<Rightarrow> int"
    and ready order n rest x indeg' unlocked
  assume a: "sort_key (position names) ready = n # rest" "x = unlock needs n (order @ [n]) names indeg"
    "(indeg', unlocked) = x"
  then have "length unlocked + card {m \<in> set names. indeg' m > 0} \<le> card {m \<in> set names. indeg m > 0}"
    by (intro unlock_measure[of needs n "order @ [n]" names]) auto
  moreover have "length ready = Suc (length rest)" using a(1) by (metis length_Cons length_sort)
  ultimately show "((names, needs, indeg', rest @ unlocked, order @ [n]), names, needs, indeg, ready, order)
      \<in> measure (\<lambda>(names, needs, indeg, ready, order). length ready + card {m \<in> set names. indeg m > 0})"
    by simp
qed

declare static_loop.simps [simp del]

definition static_bringup_order :: "'v graph \<Rightarrow> string list \<times> string list" where
  "static_bringup_order g =
     (let names = node_names g;
          needs = dependencies g;
          indeg = (\<lambda>n. if n \<in> set names then int (length (needs n)) else 0);
          ready = filter (\<lambda>n. indeg n = 0) names;
          order = static_loop names needs indeg ready [];
          cycles = leftovers names order
      in (order @ cycles, cycles))"

interpretation declared: kahn_loop "\<lambda>names. sort_key (position names)" "\<lambda>names xs. xs" static_loop
proof
  show "static_loop names needs indeg ready order =
      (case sort_key (position names) ready of [] \<Rightarrow> order
       | n # rest \<Rightarrow> (let (indeg', us) = unlock needs n (order @ [n]) names indeg
            in static_loop names needs indeg' (rest @ us) (order @ [n])))"
    for names needs indeg ready order
    by (subst static_loop.simps) simp
qed simp_all

section \<open>What a node depends on\<close>

text \<open>Read off the declarations: \<open>n\<close> needs \<open>p\<close> when it subscribes to a topic \<open>p\<close> publishes, or calls
  a service or an action \<open>p\<close> serves.\<close>

definition node_provides :: "node_decl \<Rightarrow> string list" where
  "node_provides n = filter (\<lambda>k. k \<noteq> '''') (map ep_topic (pubs n) @ map sv_service (services n) @ map ac_action (actions n))"

definition declared_needs :: "'v app \<Rightarrow> (string \<times> string) set" where
  "declared_needs app = {(a, b). a \<noteq> b \<and> (\<exists>n \<in> set (nodes app). \<exists>p \<in> set (nodes app). \<exists>k.
     nd_name n = a \<and> nd_name p = b \<and> k \<in> set (node_consumes n) \<and> k \<in> set (node_provides p))}"

lemma set_topic_providers:
  "set (concat (map (\<lambda>t. if t_name t = name
        then map e_node (filter (\<lambda>p. \<not> e_external p) (t_pubs t)) else []) (g_topics (build app)))) =
   e_node ` {e \<in> set (topic_pubs app name). \<not> e_external e}"
proof -
  have fin: "finite {k. topic_pubs app k \<noteq> [] \<or> topic_subs app k \<noteq> []}"
    unfolding topic_event_names[symmetric] by simp
  show ?thesis by (auto simp: g_topics_build fin[simplified] split: if_splits)
qed

lemma set_service_providers:
  "set (concat (map (\<lambda>s. if sv_name s = name
        then map s_node (filter (\<lambda>p. \<not> s_external p) (servers s)) else []) (g_services (build app)))) =
   s_node ` {e \<in> set (service_servers app name). \<not> s_external e}"
proof -
  have fin: "finite {k. service_servers app k \<noteq> [] \<or> service_callers app k \<noteq> []}"
    unfolding service_event_names[symmetric] by simp
  show ?thesis by (auto simp: g_services_build fin[simplified] split: if_splits)
qed

lemma set_action_providers:
  "set (concat (map (\<lambda>s. if sv_name s = name
        then map s_node (filter (\<lambda>p. \<not> s_external p) (servers s)) else []) (g_actions (build app)))) =
   s_node ` {e \<in> set (action_servers app name). \<not> s_external e}"
proof -
  have fin: "finite {k. action_servers app k \<noteq> [] \<or> action_callers app k \<noteq> []}"
    unfolding action_event_names[symmetric] by simp
  show ?thesis by (auto simp: g_actions_build fin[simplified] split: if_splits)
qed

lemma set_graph_providers:
  "set (graph_providers (build app) name) = {nd_name p | p. p \<in> set (nodes app) \<and> name \<in> set (node_provides p)}"
proof -
  have t: "e_node ` {e \<in> set (topic_pubs app name). \<not> e_external e}
      = {nd_name p | p. p \<in> set (nodes app) \<and> name \<noteq> '''' \<and> name \<in> ep_topic ` set (pubs p)}"
    by (force simp: topic_pubs_def endpoint_of_def external_endpoint_def)
  have s: "s_node ` {e \<in> set (service_servers app name). \<not> s_external e}
      = {nd_name p | p. p \<in> set (nodes app) \<and> name \<noteq> '''' \<and> name \<in> sv_service ` set (services p)}"
    by (force simp: service_servers_def svc_endpoint_of_def external_svc_def)
  have a: "s_node ` {e \<in> set (action_servers app name). \<not> s_external e}
      = {nd_name p | p. p \<in> set (nodes app) \<and> name \<noteq> '''' \<and> name \<in> ac_action ` set (actions p)}"
    by (force simp: action_servers_def act_endpoint_of_def external_svc_def)
  show ?thesis
    unfolding graph_providers_def set_append set_topic_providers set_service_providers set_action_providers t s a
    by (auto simp: node_provides_def)
qed

lemma foldl_needs:
  "set (foldl (\<lambda>needs p. if p = n then needs else append_once needs p) acc ps) = set acc \<union> (set ps - {n})
   \<and> (distinct acc \<longrightarrow> distinct (foldl (\<lambda>needs p. if p = n then needs else append_once needs p) acc ps))"
  by (induction ps arbitrary: acc) (auto simp: distinct_append_once)

lemma node_names_build [simp]: "node_names (build app) = map nd_name (nodes app)"
  by (simp add: node_names_def build_def)

lemma set_graph_consumes:
  "set (graph_consumes (build app) a) = {k. \<exists>n \<in> set (nodes app). nd_name n = a \<and> k \<in> set (node_consumes n)}"
  by (auto simp: graph_consumes_def build_def split: if_splits)

lemma set_dependencies: "set (dependencies (build app) a) = {b. (a, b) \<in> declared_needs app}"
proof (cases "a \<in> nd_name ` set (nodes app)")
  case True
  then have "set (dependencies (build app) a)
      = (\<Union>k \<in> set (graph_consumes (build app) a). set (graph_providers (build app) k)) - {a}"
    using foldl_needs[of a "[]" "concat (map (graph_providers (build app)) (graph_consumes (build app) a))"]
    by (simp add: dependencies_def dependency_set_def)
  then have e: "set (dependencies (build app) a)
      = (\<Union>k \<in> {k. \<exists>n \<in> set (nodes app). nd_name n = a \<and> k \<in> set (node_consumes n)}.
          {nd_name p | p. p \<in> set (nodes app) \<and> k \<in> set (node_provides p)}) - {a}"
    by (simp only: set_graph_consumes set_graph_providers)
  show ?thesis unfolding e
  proof (intro set_eqI iffI)
    fix b
    assume "b \<in> {b. (a, b) \<in> declared_needs app}"
    then obtain n p k where "n \<in> set (nodes app)" "p \<in> set (nodes app)" "nd_name n = a" "nd_name p = b"
      "k \<in> set (node_consumes n)" "k \<in> set (node_provides p)" "a \<noteq> b"
      by (auto simp: declared_needs_def)
    then show "b \<in> (\<Union>k \<in> {k. \<exists>n \<in> set (nodes app). nd_name n = a \<and> k \<in> set (node_consumes n)}.
        {nd_name p | p. p \<in> set (nodes app) \<and> k \<in> set (node_provides p)}) - {a}" by blast
  qed (unfold declared_needs_def, blast)
next
  case False
  then show ?thesis by (auto simp: dependencies_def declared_needs_def)
qed

lemma distinct_dependencies: "distinct (dependencies g n)"
  using foldl_needs[of n "[]"] by (simp add: dependencies_def dependency_set_def)

lemma declared_needs_nodes: "(a, b) \<in> declared_needs app \<Longrightarrow> a \<in> nd_name ` set (nodes app) \<and> b \<in> nd_name ` set (nodes app)"
  by (auto simp: declared_needs_def)

lemma needs_rel_dependencies:
  "needs_rel (node_names (build app)) (dependencies (build app)) = declared_needs app"
  by (auto simp: needs_rel_def set_dependencies dest: declared_needs_nodes)

lemma static_started:
  assumes "distinct (map nd_name (nodes app))"
  shows "started (node_names (build app)) (dependencies (build app))
    (\<lambda>n. if n \<in> set (node_names (build app)) then int (length (dependencies (build app) n)) else 0)
    (filter (\<lambda>n. (if n \<in> set (node_names (build app)) then int (length (dependencies (build app) n)) else 0) = 0)
      (node_names (build app)))"
  using assms
  by (auto simp: started_def closed_edges_def distinct_dependencies set_dependencies dest: declared_needs_nodes)

section \<open>The runtime's dependencies\<close>

text \<open>What binding the endpoint fields of every node records (\<^verbatim>\<open>recordProvides\<close> in \<^verbatim>\<open>pub.go\<close>,
  \<^verbatim>\<open>svc.go\<close>, \<^verbatim>\<open>action.go\<close>, \<^verbatim>\<open>recordConsumes\<close> in \<^verbatim>\<open>sub.go\<close>, \<^verbatim>\<open>client.go\<close>,
  \<^verbatim>\<open>action_client.go\<close>); a field with an empty name does not bind.\<close>

definition runtime_deps :: "'v app \<Rightarrow> deps_map" where
  "runtime_deps app =
     foldl (\<lambda>deps n.
         foldl (\<lambda>d k. record_consumes (nd_name n) k d)
           (foldl (\<lambda>d k. record_provides (nd_name n) k d) deps (node_provides n)) (node_consumes n))
       Map.empty (nodes app)"

definition provided :: "deps_map \<Rightarrow> string \<Rightarrow> string set" where
  "provided deps n = (case deps n of None \<Rightarrow> {} | Some d \<Rightarrow> set (provides d))"

definition consumed :: "deps_map \<Rightarrow> string \<Rightarrow> string set" where
  "consumed deps n = (case deps n of None \<Rightarrow> {} | Some d \<Rightarrow> set (consumes d))"

lemma record_simps:
  "provided (record_provides m k deps) n = provided deps n \<union> (if n = m then {k} else {})"
  "consumed (record_provides m k deps) n = consumed deps n"
  "provided (record_consumes m k deps) n = provided deps n"
  "consumed (record_consumes m k deps) n = consumed deps n \<union> (if n = m then {k} else {})"
  by (auto simp: provided_def consumed_def record_provides_def record_consumes_def deps_for_def
    new_node_deps_def split: option.splits)

lemma record_folds:
  "provided (foldl (\<lambda>d k. record_provides m k d) deps ks) n = provided deps n \<union> (if n = m then set ks else {})"
  "consumed (foldl (\<lambda>d k. record_provides m k d) deps ks) n = consumed deps n"
  "provided (foldl (\<lambda>d k. record_consumes m k d) deps ks) n = provided deps n"
  "consumed (foldl (\<lambda>d k. record_consumes m k d) deps ks) n = consumed deps n \<union> (if n = m then set ks else {})"
  by (induction ks arbitrary: deps) (auto simp: record_simps)

lemma runtime_deps_fold:
  fixes ns :: "node_decl list"
  defines "f \<equiv> \<lambda>deps n. foldl (\<lambda>d k. record_consumes (nd_name n) k d)
           (foldl (\<lambda>d k. record_provides (nd_name n) k d) deps (node_provides n)) (node_consumes n)"
  shows "provided (foldl f deps ns) a = provided deps a \<union> (\<Union>n \<in> {n \<in> set ns. nd_name n = a}. set (node_provides n))
    \<and> consumed (foldl f deps ns) a = consumed deps a \<union> (\<Union>n \<in> {n \<in> set ns. nd_name n = a}. set (node_consumes n))"
  by (induction ns arbitrary: deps) (auto simp: f_def record_folds)

lemma depends_alt: "depends ns deps = {(n, p). n \<in> set ns \<and> p \<in> set ns \<and> n \<noteq> p \<and> consumed deps n \<inter> provided deps p \<noteq> {}}"
  by (auto simp: depends_def provided_def consumed_def split: option.splits)

lemma depends_runtime: "depends (map nd_name (nodes app)) (runtime_deps app) = declared_needs app"
  using runtime_deps_fold[of Map.empty "nodes app"]
  by (auto simp: depends_alt declared_needs_def runtime_deps_def provided_def[of Map.empty] consumed_def[of Map.empty])

section \<open>Properties\<close>

text \<open>The order \<^verbatim>\<open>conductor check\<close> reports lists every node exactly once, ends with the nodes
  left in cycles, and puts any other node after the publishers of the topics it subscribes to and
  the servers of the services and actions it calls.\<close>

theorem static_order_sound:
  assumes "distinct (map nd_name (nodes app))" and "static_bringup_order (build app) = (order, cycles)"
  shows "mset order = mset (map nd_name (nodes app)) \<and> (\<exists>xs. order = xs @ cycles)
    \<and> (\<forall>xs n ys p. order = xs @ n # ys \<and> n \<notin> set cycles \<and> (n, p) \<in> declared_needs app \<longrightarrow> p \<in> set xs)"
proof -
  note st = static_started[OF assms(1)]
  obtain ok where ok: "order = ok @ cycles" and m: "mset order = mset (map nd_name (nodes app))"
    using assms(2) declared.order_perm[OF st] by (auto simp: static_bringup_order_def Let_def)
  have "p \<in> set xs" if "order = xs @ n # ys" "n \<notin> set cycles" "(n, p) \<in> declared_needs app" for xs n ys p
    using declared.order_split[OF st, of xs n ys p] assms(2) that
    by (auto simp: static_bringup_order_def Let_def set_dependencies)
  with m ok show ?thesis by blast
qed

definition chain_node :: "string \<Rightarrow> string list \<Rightarrow> string list \<Rightarrow> node_decl" where
  "chain_node name outs ins = (empty_node name)\<lparr>
     pubs := map (\<lambda>t. \<lparr>ep_field = ''P'', ep_topic = t, ep_qos = [], ep_frame = [], ep_gotype = ''msgs.T'',
       ep_file = ''app.go'', ep_line = 1\<rparr>) outs,
     subs := map (\<lambda>t. \<lparr>ep_field = ''S'', ep_topic = t, ep_qos = [], ep_frame = [], ep_gotype = ''msgs.T'',
       ep_file = ''app.go'', ep_line = 1\<rparr>) ins\<rparr>"

definition three_nodes :: "nat app" where
  "three_nodes = empty_app\<lparr>nodes := [chain_node ''x'' [] [''t''], chain_node ''y'' [''t''] [], chain_node ''z'' [] []]\<rparr>"

lemmas order_eval = three_nodes_def chain_node_def empty_node_def empty_app_def node_names_def build_def
  topic_events_def service_events_def action_events_def collect_def new_topic_def add_pub_def add_sub_def
  endpoint_of_def graph_providers_def graph_consumes_def node_consumes_def dependencies_def dependency_set_def
  append_once_def leftovers_def position_def static_loop.simps static_bringup_order_def

lemma three_static: "static_bringup_order (build three_nodes) = ([''y'', ''x'', ''z''], [])"
  by code_simp

theorem static_order_sound_witness:
  "mset (fst (static_bringup_order (build three_nodes))) = {#''x'', ''y'', ''z''#}"
proof -
  have "distinct (map nd_name (nodes three_nodes))" by (simp add: order_eval)
  from static_order_sound[OF this three_static] show ?thesis
    by (simp add: three_static) (simp add: order_eval add_mset_commute)
qed

text \<open>The static and the runtime order agree on what is in a cycle: for the dependencies the
  bound endpoints record, both report the same nodes, in the same order.\<close>

theorem orders_same_cycles:
  assumes "distinct (map nd_name (nodes app))"
  shows "snd (static_bringup_order (build app)) = snd (bringup_order (map nd_name (nodes app)) (runtime_deps app))"
proof -
  define ns where "ns = map nd_name (nodes app)"
  have r: "n \<in> set (snd (bringup_order ns (runtime_deps app))) \<longleftrightarrow> n \<in> set ns \<and>
      (\<exists>c. (n, c) \<in> (declared_needs app)\<^sup>* \<and> (c, c) \<in> (declared_needs app)\<^sup>+)" for n
    using fifo.leftovers_iff[OF bringup_started[OF assms, of "runtime_deps app"]]
    by (auto simp: ns_def bringup_order_def Let_def needs_rel_depends depends_runtime)
  have s: "n \<in> set (snd (static_bringup_order (build app))) \<longleftrightarrow> n \<in> set ns \<and>
      (\<exists>c. (n, c) \<in> (declared_needs app)\<^sup>* \<and> (c, c) \<in> (declared_needs app)\<^sup>+)" for n
    using declared.leftovers_iff[OF static_started[OF assms]]
    by (auto simp: ns_def static_bringup_order_def Let_def needs_rel_dependencies[simplified])
  have "snd (static_bringup_order (build app)) = filter (\<lambda>n. n \<in> set (snd (static_bringup_order (build app)))) ns"
    by (auto simp: static_bringup_order_def Let_def leftovers_def ns_def intro!: filter_cong)
  moreover have "snd (bringup_order ns (runtime_deps app)) = filter (\<lambda>n. n \<in> set (snd (bringup_order ns (runtime_deps app)))) ns"
    by (auto simp: bringup_order_def Let_def leftovers_def intro!: filter_cong)
  ultimately show ?thesis unfolding r s ns_def[symmetric] by simp
qed

theorem orders_same_cycles_witness:
  "snd (static_bringup_order (build three_nodes)) = snd (bringup_order [''x'', ''y'', ''z''] (runtime_deps three_nodes))"
proof -
  have n: "map nd_name (nodes three_nodes) = [''x'', ''y'', ''z'']" by (simp add: order_eval)
  then have "distinct (map nd_name (nodes three_nodes))" by simp
  from orders_same_cycles[OF this] show ?thesis by (simp add: n)
qed

text \<open>The two orders themselves can differ: where several nodes are ready at once the runtime
  takes them first in, first out and the static order by declaration.\<close>

theorem orders_differ:
  "fst (static_bringup_order (build three_nodes)) = [''y'', ''x'', ''z'']
   \<and> fst (bringup_order [''x'', ''y'', ''z''] (runtime_deps three_nodes)) = [''y'', ''z'', ''x'']"
proof
  show "fst (static_bringup_order (build three_nodes)) = [''y'', ''x'', ''z'']" by (simp add: three_static)
  have "runtime_deps three_nodes = [''x'' \<mapsto> \<lparr>provides = [], consumes = [''t'']\<rparr>, ''y'' \<mapsto> \<lparr>provides = [''t''], consumes = []\<rparr>]"
    by (auto simp: order_eval runtime_deps_def node_provides_def record_provides_def record_consumes_def
      deps_for_def new_node_deps_def)
  then show "fst (bringup_order [''x'', ''y'', ''z''] (runtime_deps three_nodes)) = [''y'', ''z'', ''x'']"
    by (simp add: bringup_order_def node_edges_def providers_of_def add_edge_def Let_def runtime_loop.simps
      leftovers_def position_def)
qed

end
