(* ===== verification/Graph_Validate.thy ===== *)
theory Graph_Validate
imports Graph_Missions Graph_Order Qos
begin

text \<open>
  The checks of \<^verbatim>\<open>conductor check\<close> (\<^verbatim>\<open>Validate\<close> of \<^verbatim>\<open>internal/graph/graph.go\<close> with
  \<^verbatim>\<open>frames.go\<close>, \<^verbatim>\<open>groups.go\<close> and \<^verbatim>\<open>lifecycle.go\<close> beside it), in the order the code
  makes them. \<^verbatim>\<open>strconv.ParseFloat\<close>, which the rate of a timer is read with, is the argument
  \<open>pf\<close> (theory \<^verbatim>\<open>Go_Time\<close>).
\<close>

section \<open>Node fields\<close>

definition check_sub :: "'v app \<Rightarrow> node_decl \<Rightarrow> endpoint_decl \<Rightarrow> issue list" where
  "check_sub app n s =
     (let p = pos (ep_file s) (ep_line s) in
      (if ep_topic s = '''' then [add Error ''CND001'' p ''node %s: field %s is missing a topic tag'' [GStr (nd_name n), GStr (ep_field s)]] else [])
      @ (if qos_profile (ep_qos s) = None then [add Error ''CND002'' p ''node %s: unknown qos profile %q on %s''
          [GStr (nd_name n), GStr (ep_qos s), GStr (ep_field s)]] else [])
      @ check_handler n (ep_field s) \<lparr>params = 1, results = 0\<rparr> p
      @ (if messages app (ep_gotype s) = None then [add Warning ''CND008'' p
          ''message type %s has no //ros:type directive; cannot map it to a ROS interface'' [GStr (ep_gotype s)]] else []))"

definition check_pub :: "'v app \<Rightarrow> node_decl \<Rightarrow> endpoint_decl \<Rightarrow> issue list" where
  "check_pub app n s =
     (let p = pos (ep_file s) (ep_line s) in
      (if ep_topic s = '''' then [add Error ''CND001'' p ''node %s: field %s is missing a topic tag'' [GStr (nd_name n), GStr (ep_field s)]] else [])
      @ (if qos_profile (ep_qos s) = None then [add Error ''CND002'' p ''node %s: unknown qos profile %q on %s''
          [GStr (nd_name n), GStr (ep_qos s), GStr (ep_field s)]] else [])
      @ (if messages app (ep_gotype s) = None then [add Warning ''CND008'' p
          ''message type %s has no //ros:type directive; cannot map it to a ROS interface'' [GStr (ep_gotype s)]] else []))"

definition check_timer :: "(string \<Rightarrow> float64 option) \<Rightarrow> node_decl \<Rightarrow> timer_decl \<Rightarrow> issue list" where
  "check_timer pf n t =
     (let p = pos (tm_file t) (tm_line t) in
      (case parse_rate pf (tm_rate t) of
         Inl e \<Rightarrow> [add Error ''CND004'' p ''node %s: %v on %s'' [GStr (nd_name n), GErr e, GStr (tm_field t)]]
       | Inr _ \<Rightarrow> [])
      @ check_handler n (tm_field t) \<lparr>params = 0, results = 0\<rparr> p)"

definition check_service :: "node_decl \<Rightarrow> service_decl \<Rightarrow> issue list" where
  "check_service n s =
     (let p = pos (sv_file s) (sv_line s) in
      (if sv_service s = '''' then [add Error ''CND001'' p ''node %s: field %s is missing a service tag'' [GStr (nd_name n), GStr (sv_field s)]] else [])
      @ check_handler n (sv_field s) \<lparr>params = 1, results = 2\<rparr> p)"

definition check_client :: "node_decl \<Rightarrow> service_decl \<Rightarrow> issue list" where
  "check_client n c =
     (if sv_service c = '''' then [add Error ''CND001'' (pos (sv_file c) (sv_line c))
        ''node %s: field %s is missing a service tag'' [GStr (nd_name n), GStr (sv_field c)]] else [])"

definition check_action :: "node_decl \<Rightarrow> action_decl \<Rightarrow> issue list" where
  "check_action n a =
     (let p = pos (ac_file a) (ac_line a) in
      (if ac_action a = '''' then [add Error ''CND001'' p ''node %s: field %s is missing an action tag'' [GStr (nd_name n), GStr (ac_field a)]] else [])
      @ check_handler n (ac_field a) \<lparr>params = 1, results = 2\<rparr> p)"

definition check_node :: "(string \<Rightarrow> float64 option) \<Rightarrow> 'v app \<Rightarrow> node_decl \<Rightarrow> issue list" where
  "check_node pf app n =
     concat (map (check_sub app n) (subs n)) @ concat (map (check_pub app n) (pubs n))
     @ concat (map (check_timer pf n) (timers n)) @ concat (map (check_service n) (services n))
     @ concat (map (check_client n) (clients n)) @ concat (map (check_action n) (actions n))"

section \<open>Frames\<close>

definition frames_pos :: "'v app \<Rightarrow> string" where
  "frames_pos app = (if frames_file app = '''' then '''' else app_dir app @ ''/'' @ frames_file app)"

definition frame_code :: "string \<Rightarrow> string" where
  "frame_code k = (case map_of [(''multiple_parents'', ''CND051''), (''cycle'', ''CND052''), (''disconnected'', ''CND053'')] k of
     None \<Rightarrow> '''' | Some c \<Rightarrow> c)"

definition check_endpoint_frame :: "'v app \<Rightarrow> node_decl \<Rightarrow> string \<Rightarrow> endpoint_decl \<Rightarrow> issue list" where
  "check_endpoint_frame app n what e =
     (if ep_frame e = '''' then []
      else (let p = pos (ep_file e) (ep_line e) in
        (if stamped app (ep_gotype e) = Some False then
           [add Error ''CND057'' p ''node %s %s %q in frame %q, but %s has no Header field to carry a frame id''
             [GStr (nd_name n), GStr what, GStr (ep_topic e), GStr (ep_frame e), GStr (ep_gotype e)]] else [])
        @ (if app_frames app = None then
             [add Error ''CND050'' p ''node %s %s %q in frame %q, but the application declares no transform tree (add frames.json)''
               [GStr (nd_name n), GStr what, GStr (ep_topic e), GStr (ep_frame e)]]
           else if \<not> has_frame (app_frames app) (ep_frame e) then
             [add Error ''CND050'' p ''node %s %s %q in frame %q, which is not declared in %s (declared: %s)''
               [GStr (nd_name n), GStr what, GStr (ep_topic e), GStr (ep_frame e), GStr (frames_file app),
                GStr (join '', '' (frames (app_frames app)))]]
           else [])))"

text \<open>The checker looks only at the error of \<^verbatim>\<open>Lookup\<close>, so the motions do not matter.\<close>

definition no_motions :: "('v, unit) motions" where
  "no_motions = \<lparr>unit_motion = (), then_motion = (\<lambda>_ _. ()), inverse_motion = (\<lambda>_. ()), isometry = (\<lambda>_. ())\<rparr>"

definition check_lookup :: "'v app \<Rightarrow> node_decl \<Rightarrow> call \<Rightarrow> issue list" where
  "check_lookup app n c =
     (case (tf_field n, cl_args c) of
        (Some t, [a0, a1]) \<Rightarrow>
          if cl_method c \<noteq> ''Lookup'' \<or> \<not> suffix (''.'' @ td_field t) (cl_recv c) then []
          else (let p = pos (cl_file c) (cl_line c) in
            if app_frames app = None then
              [add Error ''CND050'' p ''node %s looks up %s -> %s, but the application declares no transform tree (add frames.json)''
                [GStr (nd_name n), GStr a1, GStr a0]]
            else (case lookup no_motions (app_frames app) a0 a1 of
                Inl err \<Rightarrow> [add Error ''CND054'' p ''node %s: Lookup(%q, %q): %v'' [GStr (nd_name n), GStr a0, GStr a1, GErr err]]
              | Inr _ \<Rightarrow> []))
      | _ \<Rightarrow> [])"

record framed =
  fr_node :: string
  fr_frame :: string
  fr_pos :: string

text \<open>The endpoints with a frame and a topic, in the order of the loops, and the topics in order of
  first use.\<close>

definition framed_endpoints :: "'v app \<Rightarrow> (string \<times> framed) list" where
  "framed_endpoints app =
     concat (map (\<lambda>n. map (\<lambda>e. (ep_topic e, \<lparr>fr_node = nd_name n, fr_frame = ep_frame e, fr_pos = pos (ep_file e) (ep_line e)\<rparr>))
       (filter (\<lambda>e. \<not> (ep_frame e = '''' \<or> ep_topic e = '''')) (pubs n @ subs n))) (nodes app))"

definition check_frame_pair :: "'v app \<Rightarrow> string \<Rightarrow> framed list \<Rightarrow> issue list" where
  "check_frame_pair app topic eps =
     (let names = sort (remdups (map fr_frame eps)) in
      if length names < 2 then []
      else (case connects (app_frames app) (names ! 0) (names ! 1) of
          Some err \<Rightarrow> [add Error ''CND056'' (fr_pos (last eps)) ''topic %q: endpoints declare frames %s, and %v''
            [GStr topic, GStr (join '' and '' names), GErr err]]
        | None \<Rightarrow> [add Warning ''CND056'' (fr_pos (last eps))
            ''topic %q: endpoints declare different frames (%s); the consumer must transform'' [GStr topic, GStr (join '' and '' names)]]))"

definition validate_frame_pairs :: "'v app \<Rightarrow> issue list" where
  "validate_frame_pairs app =
     concat (map (\<lambda>topic. check_frame_pair app topic (map snd (filter (\<lambda>e. fst e = topic) (framed_endpoints app))))
       (sort (foldl append_once [] (map fst (framed_endpoints app)))))"

definition validate_frames :: "'v app \<Rightarrow> issue list" where
  "validate_frames app =
     map (\<lambda>p. add Error (frame_code (kind p)) (frames_pos app) ''%s: %s'' [GStr (frames_file app), GErr (problem_msg p)]) (check (app_frames app))
     @ concat (map (\<lambda>n.
         concat (map (check_endpoint_frame app n ''publishes'') (pubs n))
         @ concat (map (check_endpoint_frame app n ''subscribes to'') (subs n))
         @ concat (map (check_lookup app n) (calls n))) (nodes app))
     @ (if published (app_frames app) \<noteq> [] \<and> (\<forall>n \<in> set (nodes app). tf_field n = None) then
          [add Warning ''CND055'' (frames_pos app)
            ''%s declares %d static transform(s) but no node declares a conductor.TF field, so nothing publishes tf_static''
            [GStr (frames_file app), GInt (int (length (published (app_frames app))))]] else [])
     @ validate_frame_pairs app"

section \<open>Managed nodes\<close>

definition bad_name_char :: "string \<Rightarrow> bool" where
  "bad_name_char s \<longleftrightarrow> CHR '' '' \<in> set s \<or> CHR 0x09 \<in> set s \<or> CHR ''/'' \<in> set s"

text \<open>The loop over one field's list, with the names seen.\<close>

fun check_managed :: "string set \<Rightarrow> node_decl \<Rightarrow> lifecycle_decl \<Rightarrow> string list \<Rightarrow> string list \<Rightarrow> issue list" where
  "check_managed own n d seen [] = []"
| "check_managed own n d seen (m # ms) =
     (let p = pos (lf_file d) (lf_line d) in
      (if m = '''' then [add Error ''CND060'' p ''node %s: field %s lists an empty node name'' [GStr (nd_name n), GStr (lf_field d)]]
       else if m \<in> set seen then [add Error ''CND060'' p ''node %s: field %s lists %q twice'' [GStr (nd_name n), GStr (lf_field d), GStr m]]
       else if bad_name_char m then [add Error ''CND060'' p ''node %s: field %s: %q is not a node name'' [GStr (nd_name n), GStr (lf_field d), GStr m]]
       else [])
      @ (if m \<in> own then [add Warning ''CND061'' p
          ''node %s: field %s manages %q, which is a node of this application; its bringup is already derived from the graph, so driving it by hand is either redundant or a name collision with the node you meant''
          [GStr (nd_name n), GStr (lf_field d), GStr m]] else [])
      @ check_managed own n d (m # seen) ms)"

definition check_lifecycle_decl :: "string set \<Rightarrow> node_decl \<Rightarrow> lifecycle_decl \<Rightarrow> issue list" where
  "check_lifecycle_decl own n d =
     (let p = pos (lf_file d) (lf_line d) in
      if lf_nodes d = [] then [add Error ''CND060'' p
        ''node %s: field %s has no nodes tag, so it manages nothing (e.g. nodes:\"map_server,amcl,bt_navigator\")''
        [GStr (nd_name n), GStr (lf_field d)]]
      else check_managed own n d [] (lf_nodes d)
        @ (if lf_timeout d \<noteq> '''' \<and> \<not> positive_duration (lf_timeout d) then
             [add Error ''CND062'' p ''node %s: field %s has an invalid timeout %q'' [GStr (nd_name n), GStr (lf_field d), GStr (lf_timeout d)]]
           else []))"

definition validate_lifecycle :: "'v app \<Rightarrow> issue list" where
  "validate_lifecycle app =
     concat (map (\<lambda>n. concat (map (check_lifecycle_decl (nd_name ` set (nodes app)) n) (lifecycles n))) (nodes app))"

section \<open>Planning groups\<close>

definition state_of :: "planning_group \<Rightarrow> string \<Rightarrow> bool" where
  "state_of g name \<longleftrightarrow> name \<in> ns_name ` set (pg_states g)"

text \<open>The part of a receiver after its last dot, and \<^verbatim>\<open>byField\<close>, where a later field of the same
  name would win.\<close>

definition receiver_field :: "string \<Rightarrow> string" where
  "receiver_field recv = last (split_on (CHR ''.'') recv)"

definition group_of_field :: "node_decl \<Rightarrow> string \<Rightarrow> string option" where
  "group_of_field n field = map_of (map (\<lambda>g. (gr_field g, gr_name g)) (rev (filter (\<lambda>g. gr_name g \<noteq> '''') (groups n)))) field"

definition check_group :: "'v app \<Rightarrow> node_decl \<Rightarrow> group_decl \<Rightarrow> issue list" where
  "check_group app n g =
     (let p = pos (gr_file g) (gr_line g) in
      if gr_name g = '''' then [add Error ''CND070'' p ''node %s: field %s is missing a group tag (e.g. group:\"panda_arm\")'' [GStr (nd_name n), GStr (gr_field g)]]
      else if semantics_group (app_semantics app) (gr_name g) = None then
        [add Error ''CND070'' p ''node %s: planning group %q is not in %s (it declares: %s)''
          [GStr (nd_name n), GStr (gr_name g), GStr (groups_file app), GStr (join '', '' (semantics_names (app_semantics app)))]]
      else [])"

definition check_group_state :: "'v app \<Rightarrow> node_decl \<Rightarrow> call \<Rightarrow> issue list" where
  "check_group_state app n c =
     (case cl_args c of
        [arg] \<Rightarrow>
          if cl_method c \<noteq> ''State'' then []
          else (case group_of_field n (receiver_field (cl_recv c)) of
              None \<Rightarrow> []
            | Some gname \<Rightarrow>
                (case semantics_group (app_semantics app) gname of
                   None \<Rightarrow> []
                 | Some g \<Rightarrow>
                     if state_of g arg then []
                     else (let w = join '', '' (map ns_name (pg_states g)) in
                       [add Error ''CND071'' (pos (cl_file c) (cl_line c))
                         ''node %s: %s.State(%q) in %s: planning group %q has no such configuration in %s (it has: %s)''
                         [GStr (nd_name n), GStr (cl_recv c), GStr arg, GStr (cl_in c), GStr gname, GStr (groups_file app),
                          GStr (if w = '''' then ''none'' else w)]])))
      | _ \<Rightarrow> [])"

definition validate_groups :: "'v app \<Rightarrow> issue list" where
  "validate_groups app =
     (if \<forall>n \<in> set (nodes app). groups n = [] then []
      else if app_semantics app = None then
        concat (map (\<lambda>n. map (\<lambda>g. add Error ''CND070'' (pos (gr_file g) (gr_line g))
          ''node %s: field %s declares planning group %q, but the application has no groups.json (derive one with `conductor groups -from robot.srdf`)''
          [GStr (nd_name n), GStr (gr_field g), GStr (gr_name g)]) (groups n)) (nodes app))
      else concat (map (\<lambda>n. concat (map (check_group app n) (groups n)) @ concat (map (check_group_state app n) (calls n))) (nodes app)))"

section \<open>Externals, topics, services and actions\<close>

definition check_external :: "external \<Rightarrow> issue list" where
  "check_external e =
     (if ex_role e \<in> {''publisher'', ''subscriber''} then
        (if qos_profile (ex_qos e) = None then [add Error ''CND002'' '''' ''external for topic %q: unknown qos profile %q'' [GStr (ex_topic e), GStr (ex_qos e)]] else [])
      else if ex_role e \<in> {''server'', ''client'', ''action_server'', ''action_client''} then []
      else [add Error ''CND005'' ''''
        ''external for %q: role must be publisher, subscriber, server, client, action_server, or action_client; got %q'' [GStr (ex_topic e), GStr (ex_role e)]])"

definition all_internal :: "endpoint list \<Rightarrow> bool" where
  "all_internal es \<longleftrightarrow> (\<forall>e \<in> set es. \<not> e_external e)"

definition all_internal_svc :: "svc_endpoint list \<Rightarrow> bool" where
  "all_internal_svc es \<longleftrightarrow> (\<forall>e \<in> set es. \<not> s_external e)"

definition check_types :: "topic \<Rightarrow> issue list" where
  "check_types t =
     (let all = t_pubs t @ t_subs t;
          go_types = remdups (map e_gotype (filter (\<lambda>e. \<not> e_external e \<and> e_gotype e \<noteq> '''') all));
          ros_types = remdups (map e_rostype (filter (\<lambda>e. e_rostype e \<noteq> '''') all))
      in (if length go_types > 1 then [add Error ''CND012'' '''' ''topic %q: endpoints disagree on message type: %s'' [GStr (t_name t), GStr (key_list go_types)]] else [])
       @ (if length ros_types > 1 then [add Error ''CND012'' '''' ''topic %q: endpoints disagree on ROS interface: %s'' [GStr (t_name t), GStr (key_list ros_types)]] else []))"

definition qos_incompat :: "qos \<Rightarrow> qos \<Rightarrow> string list" where
  "qos_incompat pub sub =
     (if reliability sub = Reliable \<and> reliability pub = BestEffort
      then [''subscriber requests reliable delivery but publisher offers best-effort''] else [])
     @ (if durability sub = TransientLocal \<and> durability pub = Volatile
        then [''subscriber requests transient-local durability but publisher offers volatile''] else [])"

definition check_qos_pair :: "string \<Rightarrow> endpoint \<Rightarrow> endpoint \<Rightarrow> issue list" where
  "check_qos_pair name p s =
     (case (qos_profile (e_qos p), qos_profile (e_qos s)) of
        (Some pq, Some sq) \<Rightarrow>
          map (\<lambda>problem. add Error ''CND013'' (e_pos s) ''topic %q: %s (publisher %s is %q, subscriber %s is %q)''
            [GStr name, GStr problem, GStr (e_node p), GStr (qname pq), GStr (e_node s), GStr (qname sq)]) (qos_incompat pq sq)
      | _ \<Rightarrow> [])"

definition check_topic :: "topic \<Rightarrow> issue list" where
  "check_topic t =
     (if t_pubs t = [] then map (\<lambda>s. add Error ''CND010'' (e_pos s)
        ''topic %q: subscribed by %s but nothing publishes it (declare an external publisher in conductor.json if it comes from outside this app)''
        [GStr (t_name t), GStr (e_node s)]) (t_subs t) else [])
     @ (if t_subs t = [] \<and> all_internal (t_pubs t) then map (\<lambda>p. add Warning ''CND011'' (e_pos p)
        ''topic %q: published by %s but nothing subscribes to it'' [GStr (t_name t), GStr (e_node p)]) (t_pubs t) else [])
     @ check_types t
     @ concat (map (\<lambda>p. concat (map (check_qos_pair (t_name t) p) (t_subs t))) (t_pubs t))"

definition check_service_entry :: "service \<Rightarrow> issue list" where
  "check_service_entry s =
     (let internal = filter (\<lambda>e. \<not> s_external e) (servers s @ callers s);
          req_types = remdups (map s_req internal); res_types = remdups (map s_res internal) in
      (if servers s = [] then map (\<lambda>c. add Error ''CND020'' (s_pos c)
         ''service %q: called by %s but nothing serves it (declare an external server in conductor.json if it lives outside this app)''
         [GStr (sv_name s), GStr (s_node c)]) (callers s) else [])
      @ (if length (servers s) > 1 then [add Error ''CND022'' (s_pos (servers s ! 1))
         ''service %q has %d servers; a service must have exactly one'' [GStr (sv_name s), GInt (int (length (servers s)))]] else [])
      @ (if callers s = [] \<and> all_internal_svc (servers s) then map (\<lambda>v. add Warning ''CND021'' (s_pos v)
         ''service %q: served by %s but nothing calls it'' [GStr (sv_name s), GStr (s_node v)]) (servers s) else [])
      @ (if length req_types > 1 \<or> length res_types > 1 then [add Error ''CND023'' ''''
         ''service %q: endpoints disagree on request/response types: %s -> %s''
         [GStr (sv_name s), GStr (key_list req_types), GStr (key_list res_types)]] else []))"

definition check_action_entry :: "service \<Rightarrow> issue list" where
  "check_action_entry a =
     (if length (servers a) > 1 then [add Error ''CND030'' (s_pos (servers a ! 1))
        ''action %q has %d servers; an action must have exactly one'' [GStr (sv_name a), GInt (int (length (servers a)))]] else [])
     @ (if servers a = [] \<and> callers a \<noteq> [] then [add Error ''CND031'' ''''
        ''action %q: declared as an external client target but nothing serves it'' [GStr (sv_name a)]] else [])"

text \<open>\<^verbatim>\<open>sort.SliceStable\<close> with "is an error and the other a warning": the errors, then the warnings.\<close>

definition errors_first :: "issue list \<Rightarrow> issue list" where
  "errors_first issues = sort_key (\<lambda>i. case severity i of Error \<Rightarrow> (0::nat) | Warning \<Rightarrow> 1) issues"

definition all_issues :: "(string \<Rightarrow> float64 option) \<Rightarrow> 'v app \<Rightarrow> issue list" where
  "all_issues pf app =
     concat (map (check_node pf app) (nodes app))
     @ validate_missions app @ validate_frames app @ validate_lifecycle app @ validate_groups app
     @ concat (map check_external (externals app))
     @ concat (map check_topic (g_topics (build app)))
     @ concat (map check_service_entry (g_services (build app)))
     @ concat (map check_action_entry (g_actions (build app)))"

definition validate :: "(string \<Rightarrow> float64 option) \<Rightarrow> 'v app \<Rightarrow> 'v graph \<times> issue list" where
  "validate pf app = (build app, errors_first (all_issues pf app))"

section \<open>Lemmas\<close>

lemma errors_first_split:
  "errors_first is = filter (\<lambda>i. severity i = Error) is @ filter (\<lambda>i. severity i = Warning) is"
proof (induction "is")
  case (Cons i "is")
  let ?f = "\<lambda>i. case severity i of Error \<Rightarrow> (0::nat) | Warning \<Rightarrow> 1"
  have w: "insort_key ?f i (es @ ws) = es @ i # ws"
    if "severity i = Warning" "\<forall>x \<in> set es. severity x = Error" "\<forall>x \<in> set ws. severity x = Warning" for es ws
    using that by (induction es) (cases ws, auto)
  show ?case
  proof (cases "severity i")
    case Error
    then show ?thesis using Cons
      by (cases "filter (\<lambda>i. severity i = Error) is @ filter (\<lambda>i. severity i = Warning) is") (auto simp: errors_first_def)
  next
    case Warning
    then show ?thesis using Cons w by (simp add: errors_first_def)
  qed
qed (simp add: errors_first_def)

lemma errors_errors_first [simp]: "errors (errors_first is) \<longleftrightarrow> errors is"
  by (auto simp: errors_first_split errors_def)

lemma topic_entry:
  assumes "topic_pubs app k \<noteq> [] \<or> topic_subs app k \<noteq> []"
  shows "\<lparr>t_name = k, t_pubs = topic_pubs app k, t_subs = topic_subs app k\<rparr> \<in> set (g_topics (build app))"
proof -
  have fin: "finite {k. topic_pubs app k \<noteq> [] \<or> topic_subs app k \<noteq> []}"
    unfolding topic_event_names[symmetric] by simp
  show ?thesis using assms by (auto simp: g_topics_build fin[simplified])
qed

lemma service_entry:
  assumes "service_servers app k \<noteq> [] \<or> service_callers app k \<noteq> []"
  shows "\<lparr>sv_name = k, servers = service_servers app k, callers = service_callers app k\<rparr> \<in> set (g_services (build app))"
proof -
  have fin: "finite {k. service_servers app k \<noteq> [] \<or> service_callers app k \<noteq> []}"
    unfolding service_event_names[symmetric] by simp
  show ?thesis using assms by (auto simp: g_services_build fin[simplified])
qed

lemma sub_in_topic: "n \<in> set (nodes app) \<Longrightarrow> s \<in> set (subs n) \<Longrightarrow> ep_topic s \<noteq> '''' \<Longrightarrow> endpoint_of app n s \<in> set (topic_subs app (ep_topic s))"
  by (auto simp: topic_subs_def)

lemma caller_in_service: "n \<in> set (nodes app) \<Longrightarrow> c \<in> set (clients n) \<Longrightarrow> sv_service c \<noteq> '''' \<Longrightarrow>
    svc_endpoint_of n c \<in> set (service_callers app (sv_service c))"
  by (auto simp: service_callers_def)

lemma clean_parts:
  assumes "\<not> errors (snd (validate pf app))"
  shows "\<And>n. n \<in> set (nodes app) \<Longrightarrow> \<not> errors (check_node pf app n)"
    "\<And>n. n \<in> set (nodes app) \<Longrightarrow> \<not> errors (check_mission n)"
    "\<not> errors (validate_frames app)" "\<not> errors (validate_lifecycle app)"
    "\<And>t. t \<in> set (g_topics (build app)) \<Longrightarrow> \<not> errors (check_topic t)"
    "\<And>s. s \<in> set (g_services (build app)) \<Longrightarrow> \<not> errors (check_service_entry s)"
  using assms unfolding validate_def snd_conv errors_errors_first all_issues_def errors_append errors_concat_map
    validate_missions_def by blast+

lemma errors_map_add: "errors (map (\<lambda>x. add Error (c x) (p x) (f x) (as x)) xs) \<longleftrightarrow> xs \<noteq> []"
  by (cases xs) auto

lemma clean_qos_pair:
  assumes "\<not> errors (check_qos_pair name p s)" and "qos_profile (e_qos p) = Some pq" and "qos_profile (e_qos s) = Some sq"
  shows "qos_incompat pq sq = []"
  using assms by (simp add: check_qos_pair_def errors_map_add)

lemma clean_topic:
  assumes "\<not> errors (check_topic t)"
  shows "t_pubs t = [] \<Longrightarrow> t_subs t = []" "p \<in> set (t_pubs t) \<Longrightarrow> s \<in> set (t_subs t) \<Longrightarrow> \<not> errors (check_qos_pair (t_name t) p s)"
    "\<not> errors (check_types t)"
  using assms unfolding check_topic_def errors_append errors_concat_map
  by (auto simp: errors_map_add split: if_splits)

section \<open>Properties\<close>

text \<open>\<^verbatim>\<open>Validate\<close> reports every issue once, the errors first, and keeps the order in which they
  were found among the errors and among the warnings.\<close>

theorem validate_errors_first:
  "snd (validate pf app) = filter (\<lambda>i. severity i = Error) (all_issues pf app)
     @ filter (\<lambda>i. severity i = Warning) (all_issues pf app)"
  by (simp add: validate_def errors_first_split)

text \<open>C6. What an error-free report means for a subscription: it names a topic, its handler has the
  right shape, something publishes the topic, and every publisher with a known profile offers at
  least the reliability and durability the subscription requests.\<close>

theorem validated_subscription:
  assumes "\<not> errors (snd (validate pf app))" and "n \<in> set (nodes app)" and "s \<in> set (subs n)"
  shows "ep_topic s \<noteq> '''' \<and> methods n (''On'' @ ep_field s) = Some \<lparr>params = 1, results = 0\<rparr>
    \<and> topic_pubs app (ep_topic s) \<noteq> []
    \<and> (\<exists>sq. qos_profile (ep_qos s) = Some sq \<and>
        (\<forall>p \<in> set (topic_pubs app (ep_topic s)). \<forall>pq. qos_profile (e_qos p) = Some pq \<longrightarrow>
          \<not> (reliability sq = Reliable \<and> reliability pq = BestEffort)
          \<and> \<not> (durability sq = TransientLocal \<and> durability pq = Volatile)))"
proof -
  have "\<not> errors (check_sub app n s)"
    using clean_parts(1)[OF assms(1,2)] assms(3) unfolding check_node_def errors_append errors_concat_map by blast
  then have f: "ep_topic s \<noteq> ''''" "qos_profile (ep_qos s) \<noteq> None"
    "methods n (''On'' @ ep_field s) = Some \<lparr>params = 1, results = 0\<rparr>"
    unfolding check_sub_def Let_def errors_append check_handler_bad by (simp_all split: if_splits)
  define k where "k = ep_topic s"
  define t where "t = \<lparr>t_name = k, t_pubs = topic_pubs app k, t_subs = topic_subs app k\<rparr>"
  have ms: "endpoint_of app n s \<in> set (topic_subs app k)" using sub_in_topic assms(2,3) f(1) by (simp add: k_def)
  then have "t \<in> set (g_topics (build app))" unfolding t_def by (intro topic_entry) auto
  then have ct: "\<not> errors (check_topic t)" using clean_parts(5)[OF assms(1)] by blast
  have np: "topic_pubs app k \<noteq> []" using clean_topic(1)[OF ct] ms by (auto simp: t_def)
  obtain sq where sq: "qos_profile (ep_qos s) = Some sq" using f(2) by auto
  have "\<not> (reliability sq = Reliable \<and> reliability pq = BestEffort) \<and> \<not> (durability sq = TransientLocal \<and> durability pq = Volatile)"
    if "p \<in> set (topic_pubs app k)" "qos_profile (e_qos p) = Some pq" for p pq
  proof -
    have "\<not> errors (check_qos_pair k p (endpoint_of app n s))"
      using clean_topic(2)[OF ct, of p "endpoint_of app n s"] that(1) ms by (simp add: t_def)
    from clean_qos_pair[OF this that(2), of sq] sq have "qos_incompat pq sq = []" by (simp add: endpoint_of_def)
    then show ?thesis by (simp add: qos_incompat_def split: if_splits)
  qed
  with f(1,3) np sq show ?thesis by (auto simp: k_def)
qed

text \<open>What an error-free report means for a service call: the client names a service that has
  exactly one server, and if a node of the application serves it, with the same request and
  response types.\<close>

theorem validated_service_call:
  assumes "\<not> errors (snd (validate pf app))" and "n \<in> set (nodes app)" and "c \<in> set (clients n)"
  shows "\<exists>sv. service_servers app (sv_service c) = [sv]
    \<and> (s_external sv \<or> (s_req sv = sv_req c \<and> s_res sv = sv_res c))"
proof -
  have "\<not> errors (check_client n c)"
    using clean_parts(1)[OF assms(1,2)] assms(3) unfolding check_node_def errors_append errors_concat_map by blast
  then have ne: "sv_service c \<noteq> ''''" by (auto simp: check_client_def)
  define k where "k = sv_service c"
  define s where "s = \<lparr>sv_name = k, servers = service_servers app k, callers = service_callers app k\<rparr>"
  have mc: "svc_endpoint_of n c \<in> set (service_callers app k)" using caller_in_service assms(2,3) ne by (simp add: k_def)
  then have "s \<in> set (g_services (build app))" unfolding s_def by (intro service_entry) auto
  then have cs: "\<not> errors (check_service_entry s)" using clean_parts(6)[OF assms(1)] by blast
  have one: "servers s \<noteq> []" "\<not> length (servers s) > 1"
    using cs mc unfolding check_service_entry_def Let_def errors_append
    by (auto simp: errors_map_add s_def split: if_splits)
  then obtain sv where sv: "servers s = [sv]" by (cases "servers s"; cases "tl (servers s)") auto
  have "s_req sv = sv_req c \<and> s_res sv = sv_res c" if "\<not> s_external sv"
  proof -
    define internal where "internal = filter (\<lambda>e. \<not> s_external e) (servers s @ callers s)"
    have l: "length (remdups (map s_req internal)) \<le> 1" "length (remdups (map s_res internal)) \<le> 1"
      using cs unfolding check_service_entry_def Let_def errors_append internal_def by (auto split: if_splits)
    have m: "sv \<in> set internal" "svc_endpoint_of n c \<in> set internal"
      using that sv mc by (auto simp: internal_def s_def svc_endpoint_of_def)
    have "f sv = f (svc_endpoint_of n c)" if "length (remdups (map f internal)) \<le> 1" for f :: "svc_endpoint \<Rightarrow> string"
    proof -
      have c: "card (f ` set internal) \<le> Suc 0" using that by (simp only: length_remdups_card_conv set_map One_nat_def)
      have "finite (f ` set internal)" by simp
      note eq = iffD1[OF card_le_Suc0_iff_eq[OF this] c]
      show ?thesis by (rule bspec[OF bspec[OF eq imageI[OF m(1)]] imageI[OF m(2)]])
    qed
    from this[OF l(1)] this[OF l(2)] show ?thesis by (simp add: svc_endpoint_of_def)
  qed
  with sv show ?thesis by (auto simp: s_def k_def)
qed

section \<open>A checked application\<close>

definition chatter :: endpoint_decl where
  "chatter = \<lparr>ep_field = ''Chatter'', ep_topic = ''chatter'', ep_qos = '''', ep_frame = '''', ep_gotype = ''msgs.T'',
     ep_file = ''app.go'', ep_line = 7\<rparr>"

definition reset :: service_decl where
  "reset = \<lparr>sv_field = ''Reset'', sv_service = ''reset'', sv_req = ''Q'', sv_res = ''R'', sv_file = ''app.go'', sv_line = 8\<rparr>"

definition listener :: node_decl where
  "listener = (empty_node ''listener'')\<lparr>subs := [chatter], clients := [reset],
     methods := [''OnChatter'' \<mapsto> \<lparr>params = 1, results = 0\<rparr>]\<rparr>"

definition talker :: node_decl where
  "talker = (empty_node ''talker'')\<lparr>pubs := [chatter], services := [reset],
     methods := [''OnReset'' \<mapsto> \<lparr>params = 1, results = 2\<rparr>]\<rparr>"

definition checked_app :: "nat app" where
  "checked_app = empty_app\<lparr>nodes := [listener, talker], messages := [''msgs.T'' \<mapsto> ''m/msg/T'']\<rparr>"

lemmas checked_eval = checked_app_def listener_def talker_def chatter_def reset_def empty_node_def empty_app_def

lemma checked_topics: "g_topics (build checked_app) =
  [\<lparr>t_name = ''chatter'', t_pubs = [endpoint_of checked_app talker chatter], t_subs = [endpoint_of checked_app listener chatter]\<rparr>]"
  by (simp add: build_def topic_events_def collect_def new_topic_def add_pub_def add_sub_def checked_eval)

lemma checked_services: "g_services (build checked_app) =
  [\<lparr>sv_name = ''reset'', servers = [svc_endpoint_of talker reset], callers = [svc_endpoint_of listener reset]\<rparr>]"
  by (simp add: build_def service_events_def collect_def new_service_def add_server_def add_caller_def checked_eval)

lemma checked_actions: "g_actions (build checked_app) = []"
  by (simp add: build_def action_events_def collect_def checked_eval)

lemma checked_nodes: "nodes checked_app = [listener, talker]"
  by (simp add: checked_app_def)

lemma checked_clean: "\<not> errors (snd (validate pf checked_app))"
proof -
  have t: "\<not> errors (check_topic \<lparr>t_name = ''chatter'', t_pubs = [endpoint_of checked_app talker chatter],
      t_subs = [endpoint_of checked_app listener chatter]\<rparr>)"
    by (simp add: check_topic_def check_types_def check_qos_pair_def endpoint_of_def qos_profile_def qos_profiles_def
      qos_incompat_def checked_eval)
  have s: "\<not> errors (check_service_entry \<lparr>sv_name = ''reset'', servers = [svc_endpoint_of talker reset],
      callers = [svc_endpoint_of listener reset]\<rparr>)"
    by (simp add: check_service_entry_def svc_endpoint_of_def checked_eval)
  have n: "\<not> errors (check_node pf checked_app listener)" "\<not> errors (check_node pf checked_app talker)"
    by (simp_all add: check_node_def check_sub_def check_pub_def check_service_def check_client_def check_handler_def
      qos_profile_def qos_profiles_def checked_eval)
  have m: "\<not> errors (validate_missions checked_app)"
    by (simp add: validate_missions_def check_mission_def machines_def checked_eval)
  have f: "\<not> errors (validate_frames checked_app)"
    by (simp add: validate_frames_def check_def tfs_of_def check_endpoint_frame_def check_lookup_def published_def
      validate_frame_pairs_def framed_endpoints_def checked_eval)
  have l: "\<not> errors (validate_lifecycle checked_app)" "\<not> errors (validate_groups checked_app)"
    by (simp_all add: validate_lifecycle_def validate_groups_def checked_eval)
  have e: "externals checked_app = []" by (simp add: checked_app_def empty_app_def)
  show ?thesis
    unfolding validate_def snd_conv errors_errors_first all_issues_def errors_append checked_topics checked_services
      checked_actions checked_nodes e
    using t s n m f l by simp
qed

theorem validated_subscription_witness:
  "topic_pubs checked_app ''chatter'' \<noteq> [] \<and> methods listener ''OnChatter'' = Some \<lparr>params = 1, results = 0\<rparr>"
proof -
  have "listener \<in> set (nodes checked_app)" "chatter \<in> set (subs listener)" by (simp_all add: checked_eval)
  from validated_subscription[OF checked_clean[of "\<lambda>_. None"] this] show ?thesis by (simp add: chatter_def)
qed

theorem validated_service_call_witness:
  "\<exists>sv. service_servers checked_app ''reset'' = [sv] \<and> (s_external sv \<or> s_req sv = ''Q'')"
proof -
  have "listener \<in> set (nodes checked_app)" "reset \<in> set (clients listener)" by (simp_all add: checked_eval)
  from validated_service_call[OF checked_clean[of "\<lambda>_. None"] this] show ?thesis by (auto simp: reset_def)
qed

section \<open>Frames, managed nodes and what is not checked\<close>

lemma clean_frames:
  assumes "\<not> errors (snd (validate pf app))"
  shows "check (app_frames app) = []"
    "\<And>n e. n \<in> set (nodes app) \<Longrightarrow> e \<in> set (pubs n) \<Longrightarrow> \<not> errors (check_endpoint_frame app n ''publishes'' e)"
    "\<And>n e. n \<in> set (nodes app) \<Longrightarrow> e \<in> set (subs n) \<Longrightarrow> \<not> errors (check_endpoint_frame app n ''subscribes to'' e)"
    "\<And>n c. n \<in> set (nodes app) \<Longrightarrow> c \<in> set (calls n) \<Longrightarrow> \<not> errors (check_lookup app n c)"
  using clean_parts(3)[OF assms] unfolding validate_frames_def errors_append errors_concat_map
  by (simp_all add: errors_map_add)

lemma clean_endpoint_frame:
  "\<not> errors (check_endpoint_frame app n what e) \<Longrightarrow> ep_frame e \<noteq> '''' \<Longrightarrow> has_frame (app_frames app) (ep_frame e)"
  unfolding check_endpoint_frame_def Let_def by (auto split: if_splits)

text \<open>What an error-free report means for frames: every frame an endpoint is tagged with is
  declared, and any two of them are connected by declared transforms.\<close>

theorem validated_frames:
  assumes "\<not> errors (snd (validate pf app))"
    and "n \<in> set (nodes app)" and "e \<in> set (pubs n @ subs n)" and "ep_frame e \<noteq> ''''"
    and "n' \<in> set (nodes app)" and "e' \<in> set (pubs n' @ subs n')" and "ep_frame e' \<noteq> ''''"
  shows "has_frame (app_frames app) (ep_frame e) \<and> connects (app_frames app) (ep_frame e) (ep_frame e') = None"
proof -
  have h: "has_frame (app_frames app) (ep_frame x)"
    if "m \<in> set (nodes app)" "x \<in> set (pubs m @ subs m)" "ep_frame x \<noteq> ''''" for m x
    using clean_frames(2,3)[OF assms(1) that(1), of x] that(2,3) clean_endpoint_frame by (metis UnE set_append)
  from h[OF assms(2-4)] h[OF assms(5-7)] check_connected[OF clean_frames(1)[OF assms(1)]]
  show ?thesis by (simp add: connects_None path_exists has_frame_iff)
qed

text \<open>What an error-free report means for a lookup written with literal frames: the call
  succeeds at run time, whatever the poses are, as long as the robot reads the same tree.\<close>

theorem validated_lookup:
  assumes "\<not> errors (snd (validate pf app))" and "n \<in> set (nodes app)" and "c \<in> set (calls n)"
    and "tf_field n = Some t" and "cl_method c = ''Lookup''" and "cl_args c = [target, source]"
    and "suffix (''.'' @ td_field t) (cl_recv c)"
  shows "\<exists>m. lookup M (app_frames app) target source = Inr m"
proof -
  have "\<exists>m. lookup no_motions (app_frames app) target source = Inr m"
    using clean_frames(4)[OF assms(1-3)] assms(4-7)
    by (auto simp: check_lookup_def Let_def split: if_splits sum.splits)
  then show ?thesis unfolding lookup_ok .
qed

definition mapper :: node_decl where
  "mapper = (empty_node ''mapper'')\<lparr>pubs := [chatter\<lparr>ep_frame := ''laser''\<rparr>],
     tf_field := Some \<lparr>td_field = ''TF'', td_file = ''app.go'', td_line = 4\<rparr>,
     calls := [\<lparr>cl_method = ''Lookup'', cl_recv = ''m.TF'', cl_in = ''OnScan'', cl_args = [''base'', ''laser''],
       cl_file = ''app.go'', cl_line = 9\<rparr>]\<rparr>"

definition framed_app :: "nat app" where
  "framed_app = empty_app\<lparr>nodes := [mapper], messages := [''msgs.T'' \<mapsto> ''m/msg/T''],
     app_frames := Some sample_tree, frames_file := ''frames.json''\<rparr>"

lemmas framed_eval = framed_app_def mapper_def chatter_def empty_node_def empty_app_def

lemma framed_topics: "g_topics (build framed_app) =
  [\<lparr>t_name = ''chatter'', t_pubs = [endpoint_of framed_app mapper (chatter\<lparr>ep_frame := ''laser''\<rparr>)], t_subs = []\<rparr>]"
  "g_services (build framed_app) = []" "g_actions (build framed_app) = []"
  by (simp_all add: build_def topic_events_def service_events_def action_events_def collect_def new_topic_def
    add_pub_def framed_eval)

lemma framed_clean: "\<not> errors (snd (validate pf framed_app))"
proof -
  have t: "\<not> errors (check_topic \<lparr>t_name = ''chatter'',
      t_pubs = [endpoint_of framed_app mapper (chatter\<lparr>ep_frame := ''laser''\<rparr>)], t_subs = []\<rparr>)"
    by (simp add: check_topic_def check_types_def all_internal_def endpoint_of_def framed_eval)
  have n: "\<not> errors (check_node pf framed_app mapper)"
    by (simp add: check_node_def check_pub_def qos_profile_def qos_profiles_def framed_eval)
  have m: "\<not> errors (validate_missions framed_app)"
    by (simp add: validate_missions_def check_mission_def machines_def framed_eval)
  have lk: "check_lookup framed_app mapper (hd (calls mapper)) = []"
    by (simp add: check_lookup_def lookup_def path_def has_frame_def tfs_of_def sample_tree_def traverse_def
      suffix_def framed_eval)
  have f: "\<not> errors (validate_frames framed_app)"
    using sample_tree_check lk
    by (simp add: validate_frames_def check_endpoint_frame_def has_frame_def tfs_of_def sample_tree_def published_def
      ours_def validate_frame_pairs_def framed_endpoints_def check_frame_pair_def append_once_def framed_eval)
  have l: "\<not> errors (validate_lifecycle framed_app)" "\<not> errors (validate_groups framed_app)"
    by (simp_all add: validate_lifecycle_def validate_groups_def framed_eval)
  have e: "externals framed_app = []" "nodes framed_app = [mapper]" by (simp_all add: framed_app_def empty_app_def)
  show ?thesis
    unfolding validate_def snd_conv errors_errors_first all_issues_def errors_append framed_topics e
    using t n m f l by simp
qed

theorem validated_frames_witness: "has_frame (Some sample_tree) ''laser''"
proof -
  have "mapper \<in> set (nodes framed_app)" "chatter\<lparr>ep_frame := ''laser''\<rparr> \<in> set (pubs mapper @ subs mapper)"
    "ep_frame (chatter\<lparr>ep_frame := ''laser''\<rparr>) \<noteq> ''''" by (simp_all add: framed_eval)
  from validated_frames[OF framed_clean[of "\<lambda>_. None"] this this] show ?thesis
    by (simp add: framed_app_def)
qed

theorem validated_lookup_witness: "\<exists>m. lookup no_motions (Some sample_tree) ''base'' ''laser'' = Inr m"
proof -
  define c where "c = hd (calls mapper)"
  have c: "mapper \<in> set (nodes framed_app)" "c \<in> set (calls mapper)"
    "tf_field mapper = Some \<lparr>td_field = ''TF'', td_file = ''app.go'', td_line = 4\<rparr>" "cl_method c = ''Lookup''"
    "cl_args c = [''base'', ''laser'']"
    by (simp_all add: c_def framed_eval)
  have "suffix (''.'' @ td_field \<lparr>td_field = ''TF'', td_file = ''app.go'', td_line = 4\<rparr>) (cl_recv c)"
    by (simp add: c_def framed_eval suffix_def)
  from validated_lookup[OF framed_clean[of "\<lambda>_. None"] c this, of no_motions] show ?thesis
    by (simp add: framed_app_def del: split_paired_Ex)
qed

text \<open>What an error-free report means for a field that manages other nodes: its list is not empty,
  names no node twice, and holds only node names; a timeout is a positive duration.\<close>

theorem validated_managed_nodes:
  assumes "\<not> errors (snd (validate pf app))" and "n \<in> set (nodes app)" and "d \<in> set (lifecycles n)"
  shows "lf_nodes d \<noteq> [] \<and> distinct (lf_nodes d) \<and> '''' \<notin> set (lf_nodes d)
    \<and> filter bad_name_char (lf_nodes d) = [] \<and> (lf_timeout d = '''' \<or> positive_duration (lf_timeout d))"
proof -
  have c: "\<not> errors (check_lifecycle_decl (nd_name ` set (nodes app)) n d)"
    using clean_parts(4)[OF assms(1)] assms(2,3) unfolding validate_lifecycle_def errors_concat_map by blast
  have m: "distinct ms \<and> set ms \<inter> set seen = {} \<and> '''' \<notin> set ms \<and> filter bad_name_char ms = []"
    if "\<not> errors (check_managed own n d seen ms)" for own seen ms
    using that by (induction own n d seen ms rule: check_managed.induct) (auto simp: Let_def split: if_splits)
  from c have "lf_nodes d \<noteq> []" "\<not> errors (check_managed (nd_name ` set (nodes app)) n d [] (lf_nodes d))"
    "lf_timeout d = '''' \<or> positive_duration (lf_timeout d)"
    unfolding check_lifecycle_decl_def Let_def by (auto split: if_splits)
  with m[OF this(2)] show ?thesis by blast
qed

definition manager :: node_decl where
  "manager = (empty_node ''manager'')\<lparr>lifecycles := [\<lparr>lf_field = ''Stack'', lf_nodes = [''amcl'', ''map_server''],
     lf_timeout = ''30s'', lf_file = ''app.go'', lf_line = 6\<rparr>]\<rparr>"

definition managed_app :: "nat app" where
  "managed_app = empty_app\<lparr>nodes := [manager]\<rparr>"

definition untagged_app :: "nat app" where
  "untagged_app = empty_app\<lparr>nodes := [(empty_node ''nav'')\<lparr>action_clients :=
      [\<lparr>ac_field = ''Nav'', ac_action = '''', ac_goal = ''G'', ac_feedback = ''F'', ac_result = ''R'',
        ac_file = ''app.go'', ac_line = 5\<rparr>]\<rparr>]\<rparr>"

lemmas validate_eval = validate_def all_issues_def errors_first_def empty_node_def empty_app_def check_node_def
  validate_missions_def check_mission_def machines_def validate_frames_def check_def tfs_of_def published_def
  validate_frame_pairs_def framed_endpoints_def validate_lifecycle_def validate_groups_def build_def
  topic_events_def service_events_def action_events_def collect_def

theorem validated_managed_nodes_witness: "distinct [''amcl'', ''map_server''] \<and> \<not> errors (snd (validate pf managed_app))"
proof -
  have "positive_duration ''30s''" by (simp add: positive_duration_def parse_duration_eval)
  then have c: "\<not> errors (snd (validate pf managed_app))" for pf
    by (simp add: managed_app_def manager_def validate_eval check_lifecycle_decl_def bad_name_char_def)
  have "manager \<in> set (nodes managed_app)" by (simp add: managed_app_def)
  from validated_managed_nodes[OF c[of "\<lambda>_. None"] this, of "hd (lifecycles manager)"] c[of pf] show ?thesis
    by (simp add: manager_def)
qed

text \<open>An action client without an action tag passes the check: nothing looks at the tag, and
  \<^verbatim>\<open>Build\<close> skips the endpoint, while binding the field at run time fails.\<close>

theorem action_client_tag_unchecked: "snd (validate pf untagged_app) = []"
  by (simp add: untagged_app_def validate_eval)

end
