(* ===== verification/Executor.thy ===== *)
theory Executor
imports Lifecycle "HOL-Library.Sublist"
begin

text \<open>
  The executor of a node (\<^verbatim>\<open>node.go\<close>): its mailbox and the one goroutine that drains it, with what feeds
  it - deliveries to subscriptions and the latched messages an inactive node holds (\<^verbatim>\<open>Sub.bind\<close> in
  \<^verbatim>\<open>sub.go\<close>), ticks of timers (\<^verbatim>\<open>timerHandle.start\<close> in \<^verbatim>\<open>timer.go\<close>), lifecycle transitions and their
  callbacks, and work of others.

  These run on different goroutines, so the system moves by steps: each is what one of them does between
  two points where another can intervene, which are the locks of the lifecycle and of the held message,
  and the operations of the mailbox. Where a \<^verbatim>\<open>select\<close> has several cases ready, Go picks one at random;
  here the argument \<open>quits\<close> decides. Tracing and log lines are left out.
\<close>

section \<open>The mailbox\<close>

definition mailbox_size :: nat where "mailbox_size = 64"

record 'w node_runtime =
  nr_name :: string
  nr_mailbox :: "'w list"
  nr_quit :: bool
  nr_done :: bool
  nr_processed :: "64 word"
  nr_dropped :: "64 word"

definition new_node_runtime :: "string \<Rightarrow> 'w node_runtime" where
  "new_node_runtime name = \<lparr>nr_name = name, nr_mailbox = [], nr_quit = False, nr_done = False, nr_processed = 0, nr_dropped = 0\<rparr>"

definition enqueue :: "bool \<Rightarrow> 'w \<Rightarrow> 'w node_runtime \<Rightarrow> bool \<times> 'w node_runtime" where
  "enqueue quits w nr =
     (let full = length (nr_mailbox nr) \<ge> mailbox_size
      in if nr_quit nr \<and> (quits \<or> full) then (False, nr)
         else if \<not> full then (True, nr\<lparr>nr_mailbox := nr_mailbox nr @ [w]\<rparr>)
         else (False, nr\<lparr>nr_dropped := nr_dropped nr + 1\<rparr>))"

text \<open>One turn of \<^verbatim>\<open>run\<close>: nothing is ready, or the loop returns, or it has taken work.\<close>

datatype 'w turn = Blocked | Stopped "'w node_runtime" | Took 'w "'w node_runtime"

definition executor_turn :: "bool \<Rightarrow> 'w node_runtime \<Rightarrow> 'w turn" where
  "executor_turn quits nr =
     (if nr_done nr then Blocked
      else if nr_quit nr \<and> (quits \<or> nr_mailbox nr = []) then Stopped (nr\<lparr>nr_done := True\<rparr>)
      else case nr_mailbox nr of [] \<Rightarrow> Blocked | w # ws \<Rightarrow> Took w (nr\<lparr>nr_mailbox := ws\<rparr>))"

section \<open>What runs on it\<close>

text \<open>A subscription, a timer and a service are named by their positions. A message keeps the position of
  its subscription.\<close>

datatype 'm work = Hook_work ltransition | Sub_work nat 'm | Timer_work nat | Service_work nat 'm

text \<open>The callbacks that follow a transition, and what is left of one: a call to make, or a held message
  taken and not yet submitted.\<close>

datatype callback = Deliver_held nat | Mission_callback
datatype 'm held_call = Call callback | Submit nat 'm

text \<open>A goroutine of the transport or of a timer, after it has looked at the state of the node.\<close>

datatype 'm going = Checked nat 'm bool | Ticked nat

text \<open>The last four fields are history: the messages that arrived, the work the mailbox accepted, the work
  taken from it, and the messages handlers were called with.\<close>

record 'm executor =
  ex_node :: "'m work node_runtime"
  ex_running :: "'m work option"
  ex_lifecycle :: "(ltransition, callback) lifecycle"
  ex_flights :: "(ltransition \<times> lstate \<times> lstate) list"
  ex_calls :: "'m held_call list list"
  ex_latched :: "nat \<Rightarrow> bool"
  ex_pending :: "nat \<Rightarrow> 'm option"
  ex_going :: "'m going list"
  ex_arrived :: "(nat \<times> 'm) list"
  ex_accepted :: "'m work list"
  ex_ran :: "'m work list"
  ex_handled :: "(nat \<times> 'm) list"

definition new_executor :: "string \<Rightarrow> ltransition hooks \<Rightarrow> callback list \<Rightarrow> (nat \<Rightarrow> bool) \<Rightarrow> 'm executor" where
  "new_executor name h cbs latched =
     \<lparr>ex_node = new_node_runtime name, ex_running = None, ex_lifecycle = (new_lifecycle name h)\<lparr>on_active := cbs\<rparr>, ex_flights = [],
      ex_calls = [], ex_latched = latched, ex_pending = Map.empty, ex_going = [], ex_arrived = [], ex_accepted = [],
      ex_ran = [], ex_handled = []\<rparr>"

definition submit :: "bool \<Rightarrow> 'm work \<Rightarrow> 'm executor \<Rightarrow> 'm executor" where
  "submit quits w x =
     (let (ok, nr) = enqueue quits w (ex_node x)
      in x\<lparr>ex_node := nr, ex_accepted := (if ok then ex_accepted x @ [w] else ex_accepted x)\<rparr>)"

text \<open>The transport calls a subscription: first the look at the state, then what follows from it.\<close>

definition arrive :: "nat \<Rightarrow> 'm \<Rightarrow> 'm executor \<Rightarrow> 'm executor" where
  "arrive s m x =
     x\<lparr>ex_going := ex_going x @ [Checked s m (lc_active (ex_lifecycle x))], ex_arrived := ex_arrived x @ [(s, m)]\<rparr>"

definition tick :: "bool \<Rightarrow> nat \<Rightarrow> 'm executor \<Rightarrow> 'm executor" where
  "tick started i x =
     (if lc_active (ex_lifecycle x) \<and> started then x\<lparr>ex_going := ex_going x @ [Ticked i]\<rparr> else x)"

definition hold :: "nat \<Rightarrow> 'm \<Rightarrow> 'm executor \<Rightarrow> 'm executor" where
  "hold s m x = (if ex_latched x s then x\<lparr>ex_pending := (ex_pending x)(s \<mapsto> m)\<rparr> else x)"

definition proceed :: "bool \<Rightarrow> 'm going \<Rightarrow> 'm executor \<Rightarrow> 'm executor" where
  "proceed quits g x =
     (case g of
        Checked s m active \<Rightarrow> if active then submit quits (Sub_work s m) x else hold s m x
      | Ticked i \<Rightarrow> submit quits (Timer_work i) x)"

text \<open>A step of a callback, with what is left of it.\<close>

definition call_step :: "bool \<Rightarrow> 'm held_call \<Rightarrow> 'm executor \<Rightarrow> 'm held_call list \<times> 'm executor" where
  "call_step quits c x =
     (case c of
        Call (Deliver_held s) \<Rightarrow>
          (case ex_pending x s of
             None \<Rightarrow> ([], x)
           | Some m \<Rightarrow> ([Submit s m], x\<lparr>ex_pending := (ex_pending x)(s := None)\<rparr>))
      | Call Mission_callback \<Rightarrow> ([], x)
      | Submit s m \<Rightarrow> ([], submit quits (Sub_work s m) x))"

definition run_call :: "bool \<Rightarrow> callback \<Rightarrow> 'm executor \<Rightarrow> 'm executor" where
  "run_call quits c x =
     (let (rest, x') = call_step quits (Call c) x in foldl (\<lambda>x d. snd (call_step quits d x)) x' rest)"

definition run_calls :: "bool \<Rightarrow> callback list \<Rightarrow> 'm executor \<Rightarrow> 'm executor" where
  "run_calls quits cs x = foldl (\<lambda>x c. run_call quits c x) x cs"

text \<open>What the closure of a subscription does when its turn comes: the state is looked at again. The closure
  of a timer does not.\<close>

definition handles :: "'m executor \<Rightarrow> 'm work \<Rightarrow> (nat \<times> 'm) list" where
  "handles x w = (case w of Sub_work s m \<Rightarrow> if lc_active (ex_lifecycle x) then [(s, m)] else [] | _ \<Rightarrow> [])"

definition take_work :: "'m work \<Rightarrow> 'm work node_runtime \<Rightarrow> 'm executor \<Rightarrow> 'm executor" where
  "take_work w nr x =
     x\<lparr>ex_node := nr, ex_running := Some w, ex_ran := ex_ran x @ [w], ex_handled := ex_handled x @ handles x w\<rparr>"

definition finish_work :: "'m executor \<Rightarrow> 'm executor" where
  "finish_work x = x\<lparr>ex_node := (ex_node x)\<lparr>nr_processed := nr_processed (ex_node x) + 1\<rparr>, ex_running := None\<rparr>"

definition calls_of :: "callback effect list \<Rightarrow> 'm held_call list" where
  "calls_of effs = concat (map (\<lambda>e. case e of Callback c \<Rightarrow> [Call c] | _ \<Rightarrow> []) effs)"

section \<open>Steps\<close>

datatype 'm action =
    Arrive nat 'm | Tick bool nat | Others "'m work" | Proceed | Enter ltransition | Leave | CallOne | Take | Finish | Stop | Close

text \<open>The label of a step says which of them it is.\<close>

inductive ex_step :: "'m action \<Rightarrow> 'm executor \<Rightarrow> 'm executor \<Rightarrow> bool" where
  arrives: "ex_step (Arrive s m) x (arrive s m x)"
| ticks: "ex_step (Tick started i) x (tick started i x)"
| others: "w = Hook_work t \<or> w = Service_work i m \<Longrightarrow> ex_step (Others w) x (submit quits w x)"
| proceeds: "ex_going x = a @ g # b \<Longrightarrow> ex_step Proceed x (proceed quits g (x\<lparr>ex_going := a @ b\<rparr>))"
| enters: "lc_begin t (ex_lifecycle x) = (Inr (s, g), l) \<Longrightarrow>
    ex_step (Enter t) x (x\<lparr>ex_lifecycle := l, ex_flights := ex_flights x @ [(t, s, g)]\<rparr>)"
| leaves: "ex_flights x = a @ (t, s, g) # b \<Longrightarrow> lc_finish t s g err (ex_lifecycle x) = (ok, l, effs) \<Longrightarrow>
    ex_step Leave x (x\<lparr>ex_lifecycle := l, ex_flights := a @ b, ex_calls := ex_calls x @ [calls_of effs]\<rparr>)"
| calls: "ex_calls x = a @ (c # cs) # b \<Longrightarrow> call_step quits c x = (rest, y) \<Longrightarrow>
    ex_step CallOne x (y\<lparr>ex_calls := a @ (rest @ cs) # b\<rparr>)"
| takes: "ex_running x = None \<Longrightarrow> executor_turn quits (ex_node x) = Took w nr \<Longrightarrow> ex_step Take x (take_work w nr x)"
| finishes: "ex_running x = Some w \<Longrightarrow> ex_step Finish x (finish_work x)"
| stops: "ex_running x = None \<Longrightarrow> executor_turn quits (ex_node x) = Stopped nr \<Longrightarrow> ex_step Stop x (x\<lparr>ex_node := nr\<rparr>)"
| closes: "ex_step Close x (x\<lparr>ex_node := (ex_node x)\<lparr>nr_quit := True\<rparr>\<rparr>)"

inductive ex_run :: "'m action list \<Rightarrow> 'm executor \<Rightarrow> 'm executor \<Rightarrow> bool" where
  nothing: "ex_run [] x x"
| then_step: "ex_run as x y \<Longrightarrow> ex_step a y z \<Longrightarrow> ex_run (as @ [a]) x z"

inductive_cases ex_stepE: "ex_step a x y"

section \<open>The mailbox is a bounded queue\<close>

lemma submit_fields [simp]:
  "ex_running (submit q w x) = ex_running x" "ex_lifecycle (submit q w x) = ex_lifecycle x" "ex_flights (submit q w x) = ex_flights x"
  "ex_calls (submit q w x) = ex_calls x" "ex_latched (submit q w x) = ex_latched x" "ex_pending (submit q w x) = ex_pending x"
  "ex_going (submit q w x) = ex_going x" "ex_arrived (submit q w x) = ex_arrived x" "ex_ran (submit q w x) = ex_ran x"
  "ex_handled (submit q w x) = ex_handled x"
  by (simp_all add: submit_def split_def Let_def)

text \<open>What was accepted is what has run and what waits, in that order; at most \<^const>\<open>mailbox_size\<close> wait; and
  the counter counts what has run to its end.\<close>

definition queue_inv :: "'m executor \<Rightarrow> bool" where
  "queue_inv x \<longleftrightarrow> ex_accepted x = ex_ran x @ nr_mailbox (ex_node x) \<and> length (nr_mailbox (ex_node x)) \<le> mailbox_size
     \<and> word_of_nat (length (ex_ran x)) = nr_processed (ex_node x) + (if ex_running x = None then 0 else 1)"

lemma queue_inv_submit: "queue_inv x \<Longrightarrow> queue_inv (submit q w x)"
  by (auto simp: queue_inv_def submit_def enqueue_def Let_def)

lemma queue_inv_cong:
  "ex_node y = ex_node x \<Longrightarrow> ex_running y = ex_running x \<Longrightarrow> ex_accepted y = ex_accepted x \<Longrightarrow> ex_ran y = ex_ran x
   \<Longrightarrow> queue_inv y = queue_inv x"
  by (simp add: queue_inv_def)

lemma queue_inv_updates [simp]:
  "queue_inv (x\<lparr>ex_going := gs\<rparr>) = queue_inv x" "queue_inv (x\<lparr>ex_pending := p\<rparr>) = queue_inv x" "queue_inv (x\<lparr>ex_calls := cs\<rparr>) = queue_inv x"
  "queue_inv (x\<lparr>ex_arrived := ms\<rparr>) = queue_inv x" "queue_inv (x\<lparr>ex_lifecycle := l\<rparr>) = queue_inv x" "queue_inv (x\<lparr>ex_flights := fs\<rparr>) = queue_inv x"
  by (simp_all add: queue_inv_def)

lemma queue_inv_step: "ex_step a x y \<Longrightarrow> queue_inv x \<Longrightarrow> queue_inv y"
proof (induction rule: ex_step.induct)
  case (proceeds x a g b quits)
  then show ?case by (cases g) (simp_all add: proceed_def hold_def queue_inv_submit)
next
  case (calls x a c cs b quits rest y)
  then have "queue_inv y" by (auto simp: call_step_def queue_inv_submit split: held_call.splits callback.splits option.splits)
  then show ?case by simp
next
  case (takes x quits w nr)
  then show ?case
    by (cases "nr_mailbox (ex_node x)") (auto simp: executor_turn_def take_work_def queue_inv_def split: if_splits)
next
  case (finishes x w)
  then show ?case by (simp add: finish_work_def queue_inv_def)
next
  case (stops x quits nr)
  then show ?case by (auto simp: executor_turn_def queue_inv_def split: if_splits list.splits)
qed (simp_all add: arrive_def tick_def queue_inv_submit, simp_all add: queue_inv_def)

lemma queue_inv_run: "ex_run as x y \<Longrightarrow> queue_inv x \<Longrightarrow> queue_inv y"
  by (induction rule: ex_run.induct) (auto intro: queue_inv_step)

lemma queue_inv_new: "queue_inv (new_executor name h cbs latched)"
  by (simp add: queue_inv_def new_executor_def new_node_runtime_def)

section \<open>Messages are not duplicated\<close>

text \<open>The copies of a message of a subscription in the system: on its way, held, taken from there, and
  accepted.\<close>

definition sub_messages :: "'m work list \<Rightarrow> (nat \<times> 'm) list" where
  "sub_messages ws = concat (map (\<lambda>w. case w of Sub_work s m \<Rightarrow> [(s, m)] | _ \<Rightarrow> []) ws)"

definition going_messages :: "'m going list \<Rightarrow> (nat \<times> 'm) list" where
  "going_messages gs = concat (map (\<lambda>g. case g of Checked s m _ \<Rightarrow> [(s, m)] | _ \<Rightarrow> []) gs)"

definition call_messages :: "'m held_call list \<Rightarrow> (nat \<times> 'm) list" where
  "call_messages cs = concat (map (\<lambda>c. case c of Submit s m \<Rightarrow> [(s, m)] | _ \<Rightarrow> []) cs)"

definition copies :: "nat \<times> 'm \<Rightarrow> 'm executor \<Rightarrow> nat" where
  "copies p x = count_list (sub_messages (ex_accepted x)) p + count_list (going_messages (ex_going x)) p
     + count_list (call_messages (concat (ex_calls x))) p + (if ex_pending x (fst p) = Some (snd p) then 1 else 0)"

lemma message_lists [simp]:
  "sub_messages [] = []" "sub_messages (ws @ vs) = sub_messages ws @ sub_messages vs"
  "sub_messages (w # ws) = (case w of Sub_work s m \<Rightarrow> [(s, m)] | _ \<Rightarrow> []) @ sub_messages ws"
  "going_messages [] = []" "going_messages (gs @ hs) = going_messages gs @ going_messages hs"
  "going_messages (g # gs) = (case g of Checked s m _ \<Rightarrow> [(s, m)] | _ \<Rightarrow> []) @ going_messages gs"
  "call_messages [] = []" "call_messages (cs @ ds) = call_messages cs @ call_messages ds"
  "call_messages (c # cs) = (case c of Submit s m \<Rightarrow> [(s, m)] | _ \<Rightarrow> []) @ call_messages cs"
  by (simp_all add: sub_messages_def going_messages_def call_messages_def)

lemma calls_of_none [simp]: "call_messages (calls_of effs) = []"
  by (induction effs) (auto simp: calls_of_def split: effect.splits)

lemma copies_submit:
  "copies p (submit q w x) \<le> copies p x + count_list (case w of Sub_work s m \<Rightarrow> [(s, m)] | _ \<Rightarrow> []) p"
  by (simp add: copies_def) (simp add: submit_def split_def Let_def)

lemma copies_updates [simp]:
  "copies p (x\<lparr>ex_node := n\<rparr>) = copies p x" "copies p (x\<lparr>ex_lifecycle := l\<rparr>) = copies p x"
  "copies p (x\<lparr>ex_flights := fs\<rparr>) = copies p x" "copies p (x\<lparr>ex_arrived := ms\<rparr>) = copies p x"
  "copies p (x\<lparr>ex_running := w\<rparr>) = copies p x" "copies p (x\<lparr>ex_calls := ex_calls x @ [calls_of effs]\<rparr>) = copies p x"
  "copies p (x\<lparr>ex_lifecycle := l, ex_flights := fs, ex_calls := ex_calls x @ [calls_of effs]\<rparr>) = copies p x"
  by (simp_all add: copies_def)

text \<open>There are no more copies than arrivals, and no more handled than accepted.\<close>

definition copies_inv :: "'m executor \<Rightarrow> bool" where
  "copies_inv x \<longleftrightarrow> (\<forall>p. copies p x \<le> count_list (ex_arrived x) p) \<and> subseq (ex_handled x) (sub_messages (ex_ran x))"

lemma copies_inv_mono:
  assumes "\<And>p. copies p y \<le> copies p x" "ex_arrived y = ex_arrived x" "ex_handled y = ex_handled x" "ex_ran y = ex_ran x"
    and "copies_inv x"
  shows "copies_inv y"
  using assms unfolding copies_inv_def by (metis order_trans)

text \<open>The invariant moves only with the copies and the history of arrivals.\<close>

lemma copies_inv_step: "ex_step a x y \<Longrightarrow> copies_inv x \<Longrightarrow> copies_inv y"
proof (induction rule: ex_step.induct)
  case (others w t i m x quits)
  then have "copies p (submit quits w x) \<le> copies p x" for p using copies_submit[of p quits w x] by auto
  with others.prems show ?case by (intro copies_inv_mono[of "submit quits w x" x]) simp_all
next
  case (proceeds x a g b quits)
  have "copies p (proceed quits g (x\<lparr>ex_going := a @ b\<rparr>)) \<le> copies p x" for p
  proof (cases g)
    case (Checked s m active)
    then show ?thesis
      using proceeds.hyps copies_submit[of p quits "Sub_work s m" "x\<lparr>ex_going := a @ b\<rparr>"]
      by (auto simp: proceed_def hold_def copies_def)
  next
    case (Ticked i)
    then show ?thesis using proceeds.hyps copies_submit[of p quits "Timer_work i" "x\<lparr>ex_going := a @ b\<rparr>"]
      by (simp add: proceed_def copies_def)
  qed
  moreover have "ex_arrived (proceed quits g (x\<lparr>ex_going := a @ b\<rparr>)) = ex_arrived x"
    "ex_handled (proceed quits g (x\<lparr>ex_going := a @ b\<rparr>)) = ex_handled x"
    "ex_ran (proceed quits g (x\<lparr>ex_going := a @ b\<rparr>)) = ex_ran x"
    by (cases g; simp add: proceed_def hold_def)+
  ultimately show ?case using proceeds.prems by (rule copies_inv_mono)
next
  case (calls x a c cs b quits rest y)
  have "copies p (y\<lparr>ex_calls := a @ (rest @ cs) # b\<rparr>) \<le> copies p x" for p
  proof (cases c)
    case (Call d)
    with calls.hyps show ?thesis by (auto simp: call_step_def copies_def prod_eq_iff split: callback.splits option.splits if_split_asm)
  next
    case (Submit s m)
    with calls.hyps have y: "rest = []" "y = submit quits (Sub_work s m) x" by (simp_all add: call_step_def)
    with Submit calls.hyps show ?thesis using copies_submit[of p quits "Sub_work s m" x] by (simp add: copies_def split: if_splits)
  qed
  moreover have "ex_arrived y = ex_arrived x" "ex_handled y = ex_handled x" "ex_ran y = ex_ran x"
    using calls.hyps by (auto simp: call_step_def split: held_call.splits callback.splits option.splits)
  ultimately show ?case using calls.prems by (intro copies_inv_mono[of "y\<lparr>ex_calls := a @ (rest @ cs) # b\<rparr>" x]) simp_all
next
  case (takes x quits w nr)
  have "subseq (handles x w) (case w of Sub_work s m \<Rightarrow> [(s, m)] | _ \<Rightarrow> [])" by (simp add: handles_def split: work.split)
  with takes.prems show ?case by (auto simp: copies_inv_def take_work_def copies_def intro: list_emb_append_mono)
next
  case (arrives s m x)
  have "copies p (arrive s m x) = copies p x + count_list [(s, m)] p" for p by (simp add: copies_def arrive_def)
  with arrives show ?case by (simp add: copies_inv_def) (simp add: arrive_def)
next
  case (ticks started i x)
  then show ?case by (intro copies_inv_mono[of "tick started i x" x]) (simp_all add: tick_def copies_def)
qed (simp_all add: copies_inv_def finish_work_def)

lemma copies_inv_run: "ex_run as x y \<Longrightarrow> copies_inv x \<Longrightarrow> copies_inv y"
  by (induction rule: ex_run.induct) (auto intro: copies_inv_step)

lemma copies_inv_new: "copies_inv (new_executor name h cbs latched)"
  by (simp add: copies_inv_def copies_def new_executor_def)

section \<open>What activation delivers\<close>

definition held_work :: "(nat \<Rightarrow> 'm option) \<Rightarrow> callback list \<Rightarrow> 'm work list" where
  "held_work held cs = concat (map (\<lambda>c. case c of
     Deliver_held s \<Rightarrow> (case held s of None \<Rightarrow> [] | Some m \<Rightarrow> [Sub_work s m]) | Mission_callback \<Rightarrow> []) cs)"

lemma held_work_Cons: "held_work held (c # cs) = (case c of
     Deliver_held s \<Rightarrow> (case held s of None \<Rightarrow> [] | Some m \<Rightarrow> [Sub_work s m]) | Mission_callback \<Rightarrow> []) @ held_work held cs"
  by (simp add: held_work_def)

lemma held_work_other: "Deliver_held s \<notin> set cs \<Longrightarrow> held_work (held(s := v)) cs = held_work held cs"
  by (induction cs) (auto simp: held_work_def split: callback.split)

lemma enqueue_open:
  assumes "\<not> nr_quit nr"
  shows "nr_mailbox (snd (enqueue q w nr)) = (if length (nr_mailbox nr) < mailbox_size then nr_mailbox nr @ [w] else nr_mailbox nr)"
    "nr_dropped (snd (enqueue q w nr)) = nr_dropped nr + (if length (nr_mailbox nr) < mailbox_size then 0 else 1)"
    "\<not> nr_quit (snd (enqueue q w nr))"
  using assms by (simp_all add: enqueue_def Let_def)

lemma run_call_cases:
  "run_call q c x = (case c of
     Deliver_held s \<Rightarrow> (case ex_pending x s of None \<Rightarrow> x
       | Some m \<Rightarrow> submit q (Sub_work s m) (x\<lparr>ex_pending := (ex_pending x)(s := None)\<rparr>))
   | Mission_callback \<Rightarrow> x)"
  by (simp add: run_call_def call_step_def split: callback.split option.split)

text \<open>C14. Activating a node hands every message it holds to its executor, in the order its subscriptions were
  declared, and holds nothing afterwards - as far as the mailbox has room: of what is held, those that do
  not fit are dropped and counted, although each was to be received once.\<close>

theorem activation_delivers_held:
  assumes "distinct cs" "\<not> nr_quit (ex_node x)" "length (nr_mailbox (ex_node x)) \<le> mailbox_size"
  shows "nr_mailbox (ex_node (run_calls q cs x)) = take mailbox_size (nr_mailbox (ex_node x) @ held_work (ex_pending x) cs)
    \<and> nr_dropped (ex_node (run_calls q cs x))
        = nr_dropped (ex_node x) + word_of_nat (length (nr_mailbox (ex_node x) @ held_work (ex_pending x) cs) - mailbox_size)
    \<and> ex_pending (run_calls q cs x) = (\<lambda>s. if Deliver_held s \<in> set cs then None else ex_pending x s)"
  using assms
proof (induction cs arbitrary: x)
  case Nil
  then show ?case by (simp add: run_calls_def held_work_def)
next
  case (Cons c cs)
  have run: "run_calls q (c # cs) x = run_calls q cs (run_call q c x)" by (simp add: run_calls_def)
  show ?case
  proof (cases "\<exists>s m. c = Deliver_held s \<and> ex_pending x s = Some m")
    case False
    then have "run_call q c x = x" "held_work (ex_pending x) (c # cs) = held_work (ex_pending x) cs"
      by (auto simp: run_call_cases held_work_Cons split: callback.splits option.splits)
    moreover have "ex_pending x s = None" if "c = Deliver_held s" for s using False that by auto
    ultimately show ?thesis using Cons by (auto simp: run)
  next
    case True
    then obtain s m where c: "c = Deliver_held s" "ex_pending x s = Some m" by blast
    define y where "y = submit q (Sub_work s m) (x\<lparr>ex_pending := (ex_pending x)(s := None)\<rparr>)"
    have r: "run_call q c x = y" using c by (simp add: run_call_cases y_def)
    have h: "held_work (ex_pending x) (c # cs) = Sub_work s m # held_work (ex_pending x) cs" using c by (simp add: held_work_Cons)
    have p: "ex_pending y = (ex_pending x)(s := None)" by (simp add: y_def)
    have hy: "held_work (ex_pending y) cs = held_work (ex_pending x) cs"
      unfolding p using Cons.prems(1) c by (intro held_work_other) simp
    have node: "ex_node y = snd (enqueue q (Sub_work s m) (ex_node x))" by (simp add: y_def submit_def split_def Let_def)
    note e = enqueue_open[OF Cons.prems(2), of q "Sub_work s m", folded node]
    have "length (nr_mailbox (ex_node y)) \<le> mailbox_size" using Cons.prems(3) by (simp add: e)
    from Cons.IH[OF _ e(3) this] Cons.prems(1) have ih:
      "nr_mailbox (ex_node (run_calls q cs y)) = take mailbox_size (nr_mailbox (ex_node y) @ held_work (ex_pending x) cs)"
      "nr_dropped (ex_node (run_calls q cs y))
        = nr_dropped (ex_node y) + word_of_nat (length (nr_mailbox (ex_node y) @ held_work (ex_pending x) cs) - mailbox_size)"
      "ex_pending (run_calls q cs y) = (\<lambda>s. if Deliver_held s \<in> set cs then None else ex_pending y s)"
      unfolding hy by simp_all
    show ?thesis
    proof (cases "length (nr_mailbox (ex_node x)) < mailbox_size")
      case True
      with ih show ?thesis unfolding run r h e by (auto simp: p c(1))
    next
      case False
      with Cons.prems(3) have "length (nr_mailbox (ex_node x)) = mailbox_size" by simp
      with ih show ?thesis unfolding run r h e by (auto simp: p c(1) Suc_diff_le)
    qed
  qed
qed

section \<open>The properties of every run\<close>

text \<open>C12. However its feeders interleave, the executor runs the work its mailbox accepted in the order of
  acceptance, one at a time; at most \<^const>\<open>mailbox_size\<close> pieces wait; and it counts what it has finished.\<close>

theorem executor_fifo:
  assumes "ex_run as (new_executor name h cbs latched) x"
  shows "ex_accepted x = ex_ran x @ nr_mailbox (ex_node x) \<and> length (nr_mailbox (ex_node x)) \<le> mailbox_size
     \<and> word_of_nat (length (ex_ran x)) = nr_processed (ex_node x) + (if ex_running x = None then 0 else 1)"
  using queue_inv_run[OF assms queue_inv_new] by (simp add: queue_inv_def)

lemma subseq_count: "subseq xs ys \<Longrightarrow> count_list xs p \<le> count_list ys p"
  by (induction rule: list_emb.induct) auto

text \<open>C13. A handler is never called more often with a message than the message arrived at its subscription,
  whatever is held, taken and delivered meanwhile.\<close>

theorem handled_at_most_once:
  assumes "ex_run as (new_executor name h cbs latched) x"
  shows "count_list (ex_handled x) (s, m) \<le> count_list (ex_arrived x) (s, m)"
proof -
  have inv: "copies_inv x" "queue_inv x"
    using copies_inv_run[OF assms copies_inv_new] queue_inv_run[OF assms queue_inv_new] by simp_all
  have "count_list (ex_handled x) (s, m) \<le> count_list (sub_messages (ex_ran x)) (s, m)"
    using inv(1) by (simp add: copies_inv_def subseq_count)
  also have "\<dots> \<le> copies (s, m) x" using inv(2) by (simp add: queue_inv_def copies_def)
  also have "\<dots> \<le> count_list (ex_arrived x) (s, m)" using inv(1) by (simp add: copies_inv_def)
  finally show ?thesis .
qed

section \<open>Messages an active node holds\<close>

text \<open>Nothing is under way for a subscription.\<close>

definition settled :: "nat \<Rightarrow> 'm executor \<Rightarrow> bool" where
  "settled s x \<longleftrightarrow> ex_flights x = [] \<and> (\<forall>c \<in> set (concat (ex_calls x)). c \<noteq> Call (Deliver_held s) \<and> (\<forall>m. c \<noteq> Submit s m))
     \<and> (\<forall>m a. Checked s m a \<notin> set (ex_going x)) \<and> (\<forall>m. Sub_work s m \<notin> set (nr_mailbox (ex_node x)))"

lemma settled_submit:
  "settled s x \<Longrightarrow> (\<And>m. w \<noteq> Sub_work s m) \<Longrightarrow> settled s (submit q w x)"
  by (auto simp: settled_def submit_def enqueue_def Let_def)

definition stays :: "nat \<Rightarrow> 'm executor \<Rightarrow> 'm executor \<Rightarrow> bool" where
  "stays s x y \<longleftrightarrow> settled s y \<and> ex_pending y s = ex_pending x s \<and> filter (\<lambda>p. fst p = s) (ex_handled y) = filter (\<lambda>p. fst p = s) (ex_handled x)"

lemma stays_step:
  assumes "ex_step a x y" "settled s x" "\<forall>t. a \<noteq> Enter t" "\<forall>m. a \<noteq> Arrive s m"
  shows "stays s x y"
  using assms
proof (induction rule: ex_step.induct)
  case (others w t i m x quits)
  then have "settled s (submit quits w x)" by (intro settled_submit) auto
  then show ?case by (simp add: stays_def)
next
  case (proceeds x a g b quits)
  define z where "z = x\<lparr>ex_going := a @ b\<rparr>"
  have z: "settled s z" "ex_pending z = ex_pending x" "ex_handled z = ex_handled x"
    using proceeds by (auto simp: z_def settled_def)
  have "settled s (proceed quits g z) \<and> ex_pending (proceed quits g z) s = ex_pending z s \<and> ex_handled (proceed quits g z) = ex_handled z"
  proof (cases g)
    case (Checked r m active)
    with proceeds have "r \<noteq> s" by (auto simp: settled_def)
    with Checked z settled_submit[OF z(1), of "Sub_work r m" quits] show ?thesis
      by (auto simp: proceed_def hold_def settled_def)
  next
    case (Ticked i)
    with z settled_submit[OF z(1), of "Timer_work i" quits] show ?thesis by (simp add: proceed_def)
  qed
  with z show ?case by (simp add: stays_def z_def)
next
  case (calls x a c cs b quits rest y)
  have c: "c \<noteq> Call (Deliver_held s)" "\<forall>m. c \<noteq> Submit s m" using calls by (auto simp: settled_def)
  have keep: "settled s (z\<lparr>ex_calls := a @ (rest @ cs) # b\<rparr>)"
    if "settled s z" "ex_calls z = a @ (c # cs) # b" "\<forall>d \<in> set rest. d \<noteq> Call (Deliver_held s) \<and> (\<forall>m. d \<noteq> Submit s m)" for z
    using that by (auto simp: settled_def)
  show ?case
  proof (cases c)
    case (Call d)
    with calls c show ?thesis
      by (auto simp: call_step_def stays_def intro!: keep split: callback.splits option.splits) (auto simp: settled_def)
  next
    case (Submit r m)
    with c have "r \<noteq> s" by auto
    with calls Submit have "settled s y" "rest = []" "ex_calls y = a @ (c # cs) # b" "ex_pending y = ex_pending x" "ex_handled y = ex_handled x"
      by (auto simp: call_step_def intro!: settled_submit)
    then show ?thesis using keep[of y] by (simp add: stays_def)
  qed
next
  case (takes x quits w nr)
  then obtain ws where w: "nr_mailbox (ex_node x) = w # ws" "nr = (ex_node x)\<lparr>nr_mailbox := ws\<rparr>"
    by (auto simp: executor_turn_def split: if_splits list.splits)
  then have "w \<noteq> Sub_work s m" for m using takes.prems(1) by (auto simp: settled_def)
  then have "filter (\<lambda>p. fst p = s) (handles x w) = []" by (auto simp: handles_def split: work.split)
  with w takes.prems(1) show ?case by (auto simp: stays_def take_work_def settled_def)
next
  case (stops x quits nr)
  then show ?case by (auto simp: stays_def settled_def executor_turn_def split: if_splits list.splits)
qed (auto simp: stays_def settled_def arrive_def tick_def finish_work_def)

text \<open>C15. A message held for a subscription that nothing is under way for stays held, and is not handled,
  through every run in which no transition begins and the topic is silent. An active node can be left so:
  a delivery that found the node inactive stores its message after the activation has emptied the store,
  and a latched topic has nothing more to send.\<close>

theorem held_message_stranded:
  assumes "ex_run as x y" "settled s x" "\<forall>a \<in> set as. (\<forall>t. a \<noteq> Enter t) \<and> (\<forall>m. a \<noteq> Arrive s m)"
  shows "ex_pending y s = ex_pending x s \<and> filter (\<lambda>p. fst p = s) (ex_handled y) = filter (\<lambda>p. fst p = s) (ex_handled x)"
proof -
  have "stays s x y" using assms
  proof (induction rule: ex_run.induct)
    case (nothing x)
    then show ?case by (simp add: stays_def)
  next
    case (then_step as x y a z)
    then have "stays s x y" by simp
    moreover have "stays s y z" using then_step calculation by (intro stays_step) (auto simp: stays_def)
    ultimately show ?case by (simp add: stays_def)
  qed
  then show ?thesis by (simp add: stays_def)
qed

section \<open>Runs\<close>

text \<open>One run of the system for each list of labels: of several candidates the oldest acts, hooks succeed, and a
  \<^verbatim>\<open>select\<close> prefers the work.\<close>

definition perform :: "'m action \<Rightarrow> 'm executor \<Rightarrow> 'm executor option" where
  "perform a x =
     (case a of
        Arrive s m \<Rightarrow> Some (arrive s m x)
      | Tick started i \<Rightarrow> Some (tick started i x)
      | Proceed \<Rightarrow> (case ex_going x of [] \<Rightarrow> None | g # gs \<Rightarrow> Some (proceed False g (x\<lparr>ex_going := gs\<rparr>)))
      | Enter t \<Rightarrow> (case lc_begin t (ex_lifecycle x) of
            (Inl e, l) \<Rightarrow> None
          | (Inr (s, g), l) \<Rightarrow> Some (x\<lparr>ex_lifecycle := l, ex_flights := ex_flights x @ [(t, s, g)]\<rparr>))
      | Leave \<Rightarrow> (case ex_flights x of
            [] \<Rightarrow> None
          | (t, s, g) # fs \<Rightarrow> (let (ok, l, effs) = lc_finish t s g None (ex_lifecycle x)
              in Some (x\<lparr>ex_lifecycle := l, ex_flights := fs, ex_calls := ex_calls x @ [calls_of effs]\<rparr>)))
      | CallOne \<Rightarrow> (case dropWhile (\<lambda>cs. cs = []) (ex_calls x) of
            (c # cs) # b \<Rightarrow> (let (rest, y) = call_step False c x
              in Some (y\<lparr>ex_calls := takeWhile (\<lambda>cs. cs = []) (ex_calls x) @ (rest @ cs) # b\<rparr>))
          | _ \<Rightarrow> None)
      | Take \<Rightarrow> (if ex_running x \<noteq> None then None
          else case executor_turn False (ex_node x) of Took w nr \<Rightarrow> Some (take_work w nr x) | _ \<Rightarrow> None)
      | Finish \<Rightarrow> (if ex_running x = None then None else Some (finish_work x))
      | _ \<Rightarrow> None)"

fun performs :: "'m action list \<Rightarrow> 'm executor \<Rightarrow> 'm executor option" where
  "performs [] x = Some x"
| "performs (a # as) x = (case perform a x of None \<Rightarrow> None | Some y \<Rightarrow> performs as y)"

lemma perform_step: "perform a x = Some y \<Longrightarrow> ex_step a x y"
proof (cases a)
  case (Tick started i)
  then show "perform a x = Some y \<Longrightarrow> ex_step a x y" by (auto simp: perform_def intro: ex_step.ticks)
next
  case Proceed
  assume "perform a x = Some y"
  with Proceed obtain g gs where "ex_going x = [] @ g # gs" "y = proceed False g (x\<lparr>ex_going := [] @ gs\<rparr>)"
    by (auto simp: perform_def split: list.splits)
  with Proceed show ?thesis using ex_step.proceeds by metis
next
  case Leave
  assume "perform a x = Some y"
  with Leave obtain t s g fs ok l effs where "ex_flights x = [] @ (t, s, g) # fs" "lc_finish t s g None (ex_lifecycle x) = (ok, l, effs)"
    "y = x\<lparr>ex_lifecycle := l, ex_flights := [] @ fs, ex_calls := ex_calls x @ [calls_of effs]\<rparr>"
    by (auto simp: perform_def split: list.splits prod.splits)
  with Leave show ?thesis using ex_step.leaves by metis
next
  case CallOne
  assume "perform a x = Some y"
  with CallOne obtain c cs b rest z where d: "dropWhile (\<lambda>cs. cs = []) (ex_calls x) = (c # cs) # b" and "call_step False c x = (rest, z)"
    "y = z\<lparr>ex_calls := takeWhile (\<lambda>cs. cs = []) (ex_calls x) @ (rest @ cs) # b\<rparr>"
    by (auto simp: perform_def split: list.splits prod.splits)
  moreover have "ex_calls x = takeWhile (\<lambda>cs. cs = []) (ex_calls x) @ (c # cs) # b"
    by (metis d takeWhile_dropWhile_id)
  ultimately have "\<exists>a. ex_calls x = a @ (c # cs) # b \<and> y = z\<lparr>ex_calls := a @ (rest @ cs) # b\<rparr>" "call_step False c x = (rest, z)"
    by blast+
  with CallOne show ?thesis using ex_step.calls by metis
qed (auto simp: perform_def split: prod.splits sum.splits if_splits turn.splits
  intro: ex_step.arrives ex_step.enters ex_step.takes ex_step.finishes)

lemma ex_run_Cons: "ex_run as y z \<Longrightarrow> ex_step a x y \<Longrightarrow> ex_run (a # as) x z"
proof (induction arbitrary: a x rule: ex_run.induct)
  case (nothing y)
  then show ?case using ex_run.then_step[OF ex_run.nothing] by fastforce
next
  case (then_step as y z b z')
  from then_step.IH[OF then_step.prems] then_step.hyps(2) show ?case
    using ex_run.then_step[of "a # as" x z b z'] by simp
qed

lemma performs_run: "performs as x = Some y \<Longrightarrow> ex_run as x y"
  by (induction as arbitrary: x) (auto simp: ex_run.nothing split: option.splits intro: ex_run_Cons perform_step)

lemmas run_simps = perform_def arrive_def tick_def hold_def proceed_def call_step_def submit_def enqueue_def executor_turn_def
  take_work_def finish_work_def handles_def calls_of_def new_executor_def new_node_runtime_def new_lifecycle_def mailbox_size_def
  lc_begin_def lc_finish_def lc_active_def transition_table_def transition_entries_def intermediate_state_def publish_event_def Let_def

definition no_hooks :: "ltransition hooks" where
  "no_hooks = \<lparr>configure = None, activate = None, deactivate = None, cleanup = None, shutdown = None\<rparr>"

abbreviation arm_listener :: "nat executor" where
  "arm_listener \<equiv> new_executor ''arm'' no_hooks [Deliver_held 0] (\<lambda>_. True)"

text \<open>A held message can be handled after a newer one of its topic: between the node becoming active and
  its callbacks, a live message goes straight to the mailbox, ahead of the one held. A reader of a state
  then ends up with the old state.\<close>

theorem latched_reordered:
  "\<exists>as x. ex_run as arm_listener x \<and> ex_arrived x = [(0, 1), (0, 2)] \<and> ex_handled x = [(0, 2), (0, 1)]"
proof -
  have "\<exists>x. performs [Enter TransitionConfigure, Leave, Arrive 0 1, Proceed, Enter TransitionActivate, Leave, Arrive 0 2, Proceed,
      CallOne, CallOne, Take, Finish, Take] arm_listener = Some x
    \<and> ex_arrived x = [(0, 1), (0, 2)] \<and> ex_handled x = [(0, 2), (0, 1)]"
    by (simp add: run_simps)
  then show ?thesis using performs_run by blast
qed

text \<open>A timer can fire on a node that is not active: its tick was submitted while it was, and the closure
  the mailbox runs does not look at the state again, as those of subscriptions do.\<close>

theorem timer_runs_inactive:
  "\<exists>as x. ex_run as arm_listener x \<and> ex_running x = Some (Timer_work 0) \<and> ex_flights x = [] \<and> lc_state (ex_lifecycle x) = StateInactive"
proof -
  have "\<exists>x. performs [Enter TransitionConfigure, Leave, Enter TransitionActivate, Leave, Tick True 0, Proceed,
      Enter TransitionDeactivate, Leave, Take] arm_listener = Some x
    \<and> ex_running x = Some (Timer_work 0) \<and> ex_flights x = [] \<and> lc_state (ex_lifecycle x) = StateInactive"
    by (simp add: run_simps)
  then show ?thesis using performs_run by blast
qed

section \<open>Witnesses\<close>

theorem activation_delivers_held_witness:
  "nr_mailbox (ex_node (run_calls False [Deliver_held 0, Deliver_held 1] (arm_listener\<lparr>ex_pending := [1 \<mapsto> 5, 0 \<mapsto> 4]\<rparr>)))
     = [Sub_work 0 4, Sub_work 1 5]"
proof -
  define x where "x = arm_listener\<lparr>ex_pending := [1 \<mapsto> 5, 0 \<mapsto> 4]\<rparr>"
  have "nr_mailbox (ex_node (run_calls False [Deliver_held 0, Deliver_held 1] x))
      = take mailbox_size (nr_mailbox (ex_node x) @ held_work (ex_pending x) [Deliver_held 0, Deliver_held 1])"
    using activation_delivers_held[of "[Deliver_held 0, Deliver_held 1]" x False]
    by (simp add: x_def new_executor_def new_node_runtime_def)
  then show ?thesis by (simp add: x_def new_executor_def new_node_runtime_def held_work_def mailbox_size_def)
qed

lemma two_ticks:
  "\<exists>x. performs [Enter TransitionConfigure, Leave, Enter TransitionActivate, Leave, Tick True 0, Proceed, Tick True 1, Proceed, Take] arm_listener = Some x
     \<and> ex_ran x = [Timer_work 0] \<and> nr_mailbox (ex_node x) = [Timer_work 1]"
  by (simp add: run_simps)

theorem executor_fifo_witness:
  "\<exists>as x. ex_run as arm_listener x \<and> ex_accepted x = [Timer_work 0, Timer_work 1] \<and> ex_ran x = [Timer_work 0]"
proof -
  obtain as x where r: "ex_run as arm_listener x" "ex_ran x = [Timer_work 0]" "nr_mailbox (ex_node x) = [Timer_work 1]"
    using two_ticks performs_run by blast
  have "ex_accepted x = [Timer_work 0, Timer_work 1]" using executor_fifo[OF r(1)] r by simp
  with r show ?thesis by blast
qed

theorem handled_at_most_once_witness:
  "\<exists>as x. ex_run as arm_listener x \<and> ex_handled x = [(0, 7)] \<and> 1 \<le> count_list (ex_arrived x) (0, 7)"
proof -
  have "\<exists>x. performs [Enter TransitionConfigure, Leave, Arrive 0 7, Proceed, Enter TransitionActivate, Leave, CallOne, CallOne, Take] arm_listener = Some x
      \<and> ex_handled x = [(0, 7)]"
    by (simp add: run_simps)
  then obtain as x where r: "ex_run as arm_listener x" "ex_handled x = [(0, 7)]" using performs_run by blast
  with handled_at_most_once[OF r(1), of 0 7] show ?thesis by auto
qed

text \<open>The delivery looks at the node before it is activated and stores its message after.\<close>

theorem held_message_stranded_witness:
  "\<exists>as x y. ex_run as arm_listener x \<and> lc_active (ex_lifecycle x) \<and> ex_handled x = []
     \<and> ex_run [Tick True 0, Proceed, Take, Finish] x y \<and> ex_pending y 0 = Some 7 \<and> filter (\<lambda>p. fst p = 0) (ex_handled y) = []"
proof -
  let ?as = "[Enter TransitionConfigure, Leave, Arrive 0 7, Enter TransitionActivate, Leave, CallOne, Proceed]"
  have "\<exists>x y. performs ?as arm_listener = Some x \<and> lc_active (ex_lifecycle x) \<and> ex_handled x = [] \<and> ex_pending x 0 = Some 7
      \<and> ex_flights x = [] \<and> concat (ex_calls x) = [] \<and> ex_going x = [] \<and> nr_mailbox (ex_node x) = []
      \<and> performs [Tick True 0, Proceed, Take, Finish] x = Some y"
    by (simp add: run_simps)
  then obtain x y where p: "performs ?as arm_listener = Some x" "lc_active (ex_lifecycle x)" "ex_handled x = []" "ex_pending x 0 = Some 7"
    "ex_flights x = []" "concat (ex_calls x) = []" "ex_going x = []" "nr_mailbox (ex_node x) = []"
    "performs [Tick True 0, Proceed, Take, Finish] x = Some y"
    by (elim exE conjE) (rule that)
  note r = performs_run[OF p(1)] performs_run[OF p(9)]
  have settled: "settled 0 x" unfolding settled_def p(5-8) by simp
  have "ex_pending y 0 = Some 7 \<and> filter (\<lambda>p. fst p = 0) (ex_handled y) = []"
    using held_message_stranded[OF r(2) settled] p(3,4) by simp
  with r p(2,3) show ?thesis by blast
qed

end
