(* ===== verification/Inventory.thy ===== *)
theory Inventory
imports Go_Prelude Qos "HOL-Library.Word" "HOL-Library.AList"
begin

text \<open>
  What one process knows of itself: its inventory of endpoints (\<^verbatim>\<open>inventory.go\<close>), the topic graph
  projected from it, and the views \<^verbatim>\<open>dashboard.go\<close> serves. Counters are 64-bit words; times and durations are
  integers of nanoseconds, where the views have seconds. The index of topics is an association list in
  the order of first insertion, and \<^verbatim>\<open>sort.Slice\<close> a stable sort, one of the orders it may produce.
  The pose of a frame is a value of any type.
\<close>

section \<open>A process's topics\<close>

datatype endpoint_kind = EndpointSub | EndpointPub | EndpointTimer | EndpointService | EndpointClient
  | EndpointAction | EndpointActionClient | EndpointMission | EndpointTF | EndpointLifecycle | EndpointGroup

text \<open>\<open>e_count\<close> and \<open>e_detail\<close> are what the functions \<^verbatim>\<open>count\<close> and \<^verbatim>\<open>detail\<close> of an endpoint return
  when the snapshot is taken, if it has them.\<close>

record endpoint_info =
  e_node :: string
  e_kind :: endpoint_kind
  e_field :: string
  e_name :: string
  e_type :: string
  e_qos :: string
  e_rate :: string
  e_frame :: string
  e_count :: "64 word option"
  e_detail :: "string option"
  e_counts :: "64 word"

record topic_view =
  tp_name :: string
  tp_type :: string
  tp_qos :: string
  tp_pubs :: "string list"
  tp_subs :: "string list"
  tp_latched :: bool
  tp_sent :: "64 word"
  tp_recvd :: "64 word"

definition latched_profile :: "string \<Rightarrow> bool" where
  "latched_profile name = (case qos_profile name of None \<Rightarrow> False | Some q \<Rightarrow> durability q = TransientLocal)"

definition endpoints_snapshot :: "endpoint_info list \<Rightarrow> endpoint_info list" where
  "endpoints_snapshot es = sort_key e_node (sort_key e_name (map (\<lambda>e.
     e\<lparr>e_rate := (case e_detail e of None \<Rightarrow> e_rate e | Some d \<Rightarrow> d),
       e_counts := (case e_count e of None \<Rightarrow> e_counts e | Some n \<Rightarrow> n)\<rparr>) es))"

definition new_topic_view :: "string \<Rightarrow> topic_view" where
  "new_topic_view name = \<lparr>tp_name = name, tp_type = [], tp_qos = [], tp_pubs = [], tp_subs = [],
     tp_latched = False, tp_sent = 0, tp_recvd = 0\<rparr>"

text \<open>\<open>get\<close> returns a pointer into the index, through which the caller then changes the entry.\<close>

definition with_topic :: "string \<Rightarrow> (topic_view \<Rightarrow> topic_view) \<Rightarrow> (string \<times> topic_view) list \<Rightarrow> (string \<times> topic_view) list" where
  "with_topic name f index =
     AList.update name (f (case map_of index name of None \<Rightarrow> new_topic_view name | Some t \<Rightarrow> t)) index"

definition count_pub :: "endpoint_info \<Rightarrow> topic_view \<Rightarrow> topic_view" where
  "count_pub e t = t\<lparr>tp_pubs := append_once (tp_pubs t) (e_node e), tp_type := e_type e, tp_qos := e_qos e,
     tp_latched := tp_latched t \<or> latched_profile (e_qos e), tp_sent := tp_sent t + e_counts e\<rparr>"

definition count_sub :: "endpoint_info \<Rightarrow> topic_view \<Rightarrow> topic_view" where
  "count_sub e t = t\<lparr>tp_subs := append_once (tp_subs t) (e_node e), tp_type := e_type e, tp_qos := e_qos e,
     tp_latched := tp_latched t \<or> latched_profile (e_qos e), tp_recvd := tp_recvd t + e_counts e\<rparr>"

definition index_endpoint :: "endpoint_info \<Rightarrow> (string \<times> topic_view) list \<Rightarrow> (string \<times> topic_view) list" where
  "index_endpoint e index =
     (case e_kind e of
        EndpointPub \<Rightarrow> with_topic (e_name e) (count_pub e) index
      | EndpointSub \<Rightarrow> with_topic (e_name e) (count_sub e) index
      | _ \<Rightarrow> index)"

definition topic_views :: "endpoint_info list \<Rightarrow> topic_view list" where
  "topic_views es = sort_key tp_name (map snd (fold index_endpoint es []))"

section \<open>What a process answers\<close>

record param_view =
  pm_name :: string
  pm_type :: string
  pm_value :: string

record node_view =
  nv_name :: string
  nv_state :: string
  nv_processed :: "64 word"
  nv_dropped :: "64 word"
  nv_mailbox_depth :: nat
  nv_mailbox_cap :: nat
  nv_endpoints :: "endpoint_info list"
  nv_params :: "param_view list"
  nv_depends_on :: "string list"

record mission_step_view =
  ms_name :: string
  ms_next :: string
  ms_fail :: string
  ms_timeout :: string
  ms_retry :: int
  ms_entries :: nat
  ms_current :: bool

record mission_view =
  mv_node :: string
  mv_name :: string
  mv_status :: string
  mv_step :: string
  mv_attempt :: int
  mv_elapsed :: int
  mv_err :: string
  mv_steps :: "mission_step_view list"

record 'p frame_view =
  fv_parent :: string
  fv_child :: string
  fv_pose :: 'p
  fv_dynamic :: bool
  fv_by :: string

record app_view =
  av_name :: string
  av_transport :: string
  av_host :: string
  av_pid :: int
  av_started :: int
  av_uptime :: int
  av_bringup :: "string list"
  av_tracing :: bool
  av_clock :: string
  av_clock_time :: int
  av_clock_started :: bool
  av_description :: bool

definition blank_app_view :: app_view where
  "blank_app_view = \<lparr>av_name = [], av_transport = [], av_host = [], av_pid = 0, av_started = 0, av_uptime = 0,
     av_bringup = [], av_tracing = False, av_clock = [], av_clock_time = 0, av_clock_started = False, av_description = False\<rparr>"

text \<open>What \<^verbatim>\<open>/api/summary\<close> answers: the state without the metrics and the traces.\<close>

record 'p summary_view =
  su_app :: app_view
  su_nodes :: "node_view list"
  su_topics :: "topic_view list"
  su_missions :: "mission_view list"
  su_frames :: "'p frame_view list"

section \<open>What a process serves is what its endpoints count\<close>

definition is_pub :: "string \<Rightarrow> endpoint_info \<Rightarrow> bool" where
  "is_pub n e \<longleftrightarrow> e_kind e = EndpointPub \<and> e_name e = n"

definition is_sub :: "string \<Rightarrow> endpoint_info \<Rightarrow> bool" where
  "is_sub n e \<longleftrightarrow> e_kind e = EndpointSub \<and> e_name e = n"

definition views_topic :: "endpoint_info list \<Rightarrow> topic_view \<Rightarrow> bool" where
  "views_topic es t \<longleftrightarrow>
     tp_pubs t = foldl append_once [] (map e_node (filter (is_pub (tp_name t)) es))
   \<and> tp_subs t = foldl append_once [] (map e_node (filter (is_sub (tp_name t)) es))
   \<and> tp_sent t = sum_list (map e_counts (filter (is_pub (tp_name t)) es))
   \<and> tp_recvd t = sum_list (map e_counts (filter (is_sub (tp_name t)) es))"

lemma views_topic_step:
  "views_topic es t \<Longrightarrow> is_pub (tp_name t) e \<Longrightarrow> views_topic (es @ [e]) (count_pub e t)"
  "views_topic es t \<Longrightarrow> is_sub (tp_name t) e \<Longrightarrow> views_topic (es @ [e]) (count_sub e t)"
  "views_topic es t \<Longrightarrow> \<not> is_pub (tp_name t) e \<Longrightarrow> \<not> is_sub (tp_name t) e \<Longrightarrow> views_topic (es @ [e]) t"
  by (simp add: views_topic_def count_pub_def is_pub_def is_sub_def)
    (simp add: views_topic_def count_sub_def is_pub_def is_sub_def, simp add: views_topic_def)

lemma index_spec:
  "distinct (map fst (fold index_endpoint es []))
   \<and> (case map_of (fold index_endpoint es []) n of
        None \<Rightarrow> \<forall>e \<in> set es. \<not> is_pub n e \<and> \<not> is_sub n e
      | Some t \<Rightarrow> (\<exists>e \<in> set es. is_pub n e \<or> is_sub n e) \<and> tp_name t = n \<and> views_topic es t)"
proof (induction es arbitrary: n rule: rev_induct)
  case (snoc e es)
  define ix where "ix = fold index_endpoint es []"
  have d: "distinct (map fst ix)" using snoc.IH by (simp add: ix_def)
  have IH: "case map_of ix n of None \<Rightarrow> \<forall>e \<in> set es. \<not> is_pub n e \<and> \<not> is_sub n e
      | Some t \<Rightarrow> (\<exists>e \<in> set es. is_pub n e \<or> is_sub n e) \<and> tp_name t = n \<and> views_topic es t" for n
    using snoc.IH[of n] by (simp add: ix_def)
  define cur where "cur = (case map_of ix (e_name e) of None \<Rightarrow> new_topic_view (e_name e) | Some t \<Rightarrow> t)"
  have cur: "tp_name cur = e_name e" "views_topic es cur"
    using IH[of "e_name e"]
    by (auto simp: cur_def new_topic_view_def views_topic_def filter_empty_conv[THEN iffD2] split: option.splits)
  have same: "case map_of ix n of None \<Rightarrow> \<forall>e' \<in> set (es @ [e]). \<not> is_pub n e' \<and> \<not> is_sub n e'
      | Some t \<Rightarrow> (\<exists>e' \<in> set (es @ [e]). is_pub n e' \<or> is_sub n e') \<and> tp_name t = n \<and> views_topic (es @ [e]) t"
    if "\<not> is_pub n e" "\<not> is_sub n e" for n
    using IH[of n] that by (auto intro: views_topic_step(3) split: option.splits)
  have step: "fold index_endpoint (es @ [e]) [] = index_endpoint e ix" by (simp add: ix_def)
  consider "e_kind e = EndpointPub" | "e_kind e = EndpointSub" | "e_kind e \<noteq> EndpointPub" "e_kind e \<noteq> EndpointSub" by blast
  then show ?case
  proof cases
    case 1
    then have "index_endpoint e ix = AList.update (e_name e) (count_pub e cur) ix"
      by (simp add: index_endpoint_def with_topic_def cur_def)
    then show ?thesis
    proof (cases "e_name e = n")
      case True
      then have "is_pub n e" using 1 by (simp add: is_pub_def)
      with True cur views_topic_step(1)[OF cur(2), of e] show ?thesis
        using step \<open>index_endpoint e ix = _\<close> d by (simp add: update_conv distinct_update count_pub_def)
    next
      case False
      then have "\<not> is_pub n e" "\<not> is_sub n e" by (auto simp: is_pub_def is_sub_def)
      from same[OF this] False show ?thesis
        unfolding step \<open>index_endpoint e ix = _\<close> using d by (simp add: update_conv distinct_update)
    qed
  next
    case 2
    then have "index_endpoint e ix = AList.update (e_name e) (count_sub e cur) ix"
      by (simp add: index_endpoint_def with_topic_def cur_def)
    then show ?thesis
    proof (cases "e_name e = n")
      case True
      then have "is_sub n e" using 2 by (simp add: is_sub_def)
      with True cur views_topic_step(2)[OF cur(2), of e] show ?thesis
        using step \<open>index_endpoint e ix = _\<close> d by (simp add: update_conv distinct_update count_sub_def)
    next
      case False
      then have "\<not> is_pub n e" "\<not> is_sub n e" by (auto simp: is_pub_def is_sub_def)
      from same[OF this] False show ?thesis
        unfolding step \<open>index_endpoint e ix = _\<close> using d by (simp add: update_conv distinct_update)
    qed
  next
    case 3
    then have "index_endpoint e ix = ix" by (simp add: index_endpoint_def split: endpoint_kind.split)
    moreover have "\<not> is_pub n e" "\<not> is_sub n e" using 3 by (auto simp: is_pub_def is_sub_def)
    ultimately show ?thesis using same d unfolding step by simp
  qed
qed simp

lemma in_topic_views:
  "t \<in> set (topic_views es) \<Longrightarrow> views_topic es t \<and> (\<exists>e \<in> set es. is_pub (tp_name t) e \<or> is_sub (tp_name t) e)"
proof -
  assume "t \<in> set (topic_views es)"
  then obtain n where "(n, t) \<in> set (fold index_endpoint es [])" by (auto simp: topic_views_def)
  then have "map_of (fold index_endpoint es []) n = Some t" using map_of_is_SomeI[OF index_spec[THEN conjunct1]] by blast
  then show ?thesis using index_spec[of es n, THEN conjunct2] by auto
qed

lemma topic_views_names:
  "distinct (map tp_name (topic_views es))"
proof -
  let ?ix = "fold index_endpoint es []"
  have name: "tp_name t = n" if nt: "(n, t) \<in> set ?ix" for n t
  proof -
    have "map_of ?ix n = Some t" using nt map_of_is_SomeI[OF index_spec[THEN conjunct1]] by blast
    then show ?thesis using index_spec[of es n, THEN conjunct2] by simp
  qed
  have eq: "map (tp_name \<circ> snd) ?ix = map fst ?ix"
    unfolding map_eq_conv using name by auto
  have "distinct (map tp_name (map snd ?ix))" unfolding map_map eq using index_spec[of es] by blast
  moreover have "mset (map tp_name (topic_views es)) = mset (map tp_name (map snd ?ix))"
    by (simp add: topic_views_def image_mset.compositionality comp_def)
  ultimately show ?thesis using mset_eq_imp_distinct_iff by blast
qed

text \<open>The topic graph a process serves is sorted by name without repetition, and each entry is
  what the endpoints of that name add up to: the nodes that publish, the nodes that subscribe, and
  the messages sent and received.
\<close>
theorem topic_views_exact:
  "sorted (map tp_name (topic_views es)) \<and> distinct (map tp_name (topic_views es))
   \<and> (\<forall>t \<in> set (topic_views es).
        set (tp_pubs t) = e_node ` {e \<in> set es. is_pub (tp_name t) e}
      \<and> set (tp_subs t) = e_node ` {e \<in> set es. is_sub (tp_name t) e}
      \<and> tp_sent t = sum_list (map e_counts (filter (is_pub (tp_name t)) es))
      \<and> tp_recvd t = sum_list (map e_counts (filter (is_sub (tp_name t)) es)))"
proof -
  have "sorted (map tp_name (topic_views es))" by (simp add: topic_views_def)
  with topic_views_names[of es] in_topic_views[of _ es] show ?thesis
    by (auto simp: views_topic_def foldl_append_once_set)
qed

end
