(* ===== verification/Wiring.thy ===== *)
theory Wiring
imports Bringup Bus Frames Inventory Managed_Tags
begin

text \<open>
  Wiring a node's fields (\<^verbatim>\<open>bindFields\<close> in \<^verbatim>\<open>run.go\<close>): the \<^verbatim>\<open>bind\<close> methods of \<^verbatim>\<open>Sub\<close>, \<^verbatim>\<open>Pub\<close>, \<^verbatim>\<open>Timer\<close>,
  \<^verbatim>\<open>Svc\<close>, \<^verbatim>\<open>Client\<close>, \<^verbatim>\<open>Action\<close>, \<^verbatim>\<open>ActionClient\<close>, \<^verbatim>\<open>Lifecycle\<close> and \<^verbatim>\<open>TF\<close>, the frames that publishers stamp and subscriptions check (\<^verbatim>\<open>tf.go\<close>), and the
  operations of a publisher and of a service that do not run on the executor.

  The transport is an argument, \<open>tr\<close>: it takes a declaration, changes its own state and may refuse. What
  reflection finds out about a field and its handler is part of the field. The fields that touch neither the transport nor the dependencies (\<^verbatim>\<open>Param\<close>, \<^verbatim>\<open>Mission\<close>, \<^verbatim>\<open>Step\<close>,
  \<^verbatim>\<open>Group\<close>) are bound in the theories of their components; here such a field carries what binding it comes to.
\<close>

section \<open>Fields and the state they are wired into\<close>

record service_spec =
  ss_service :: string
  ss_node :: string
  ss_timeout :: int

datatype transport_call =
    Declare_node string | Declare_pub topic_spec | Declare_sub topic_spec | Declare_srv service_spec | Declare_client service_spec

type_synonym 'tr transport = "transport_call \<Rightarrow> 'tr \<Rightarrow> goerror option \<times> 'tr"

text \<open>The method \<^verbatim>\<open>On\<close> followed by the name of the field: absent, with another signature than the one wanted, or
  as wanted.\<close>

datatype handler = Missing | Mistyped string | Handler

text \<open>A field, by the keys of its tag (an absent one reads as empty), its handler, its message type (of a service,
  the two with an arrow between them) with the interface name registered for it, and whether that type has a
  header.\<close>

record field_info =
  fd_name :: string
  fd_tag :: "string \<Rightarrow> string"
  fd_handler :: handler
  fd_type :: string
  fd_ros :: "string option"
  fd_header :: bool

text \<open>Of an action or its client, \<open>fd_ros\<close> is the registered action. Binding a local field fails, or records
  an endpoint (a group's) or nothing.\<close>

datatype field = SubField field_info | PubField field_info | TimerField field_info | SvcField field_info | ClientField field_info
  | TFField field_info | ActionField field_info | ActionClientField field_info | ManagedField field_info
  | LocalField field_info "endpoint_info option result"

datatype on_active = Deliver_latched string | Send_statics | Send_description

record ('tr, 'v) runtime =
  rt_transport :: 'tr
  rt_deps :: deps_map
  rt_endpoints :: "endpoint_info list"
  rt_timers :: "(string \<times> string \<times> int option) list"
  rt_frames :: "'v frame_tree option"
  rt_tf_publisher :: string
  rt_description :: string
  rt_description_publisher :: string
  rt_on_active :: "(string \<times> on_active) list"

abbreviation tf_static_topic :: string where "tf_static_topic \<equiv> ''tf_static''"
abbreviation description_topic :: string where "description_topic \<equiv> ''robot_description''"

definition ros_type_name :: "field_info \<Rightarrow> string" where
  "ros_type_name f = (case fd_ros f of Some n \<Rightarrow> n | None \<Rightarrow> fd_type f)"

definition declares :: "'tr transport \<Rightarrow> transport_call \<Rightarrow> ('tr, 'v) runtime \<Rightarrow> ('tr, 'v) runtime result" where
  "declares tr d rt =
     (let (err, t) = tr d (rt_transport rt)
      in case err of Some e \<Rightarrow> Inl e | None \<Rightarrow> Inr (rt\<lparr>rt_transport := t\<rparr>))"

fun declare_all :: "'tr transport \<Rightarrow> transport_call list \<Rightarrow> ('tr, 'v) runtime \<Rightarrow> ('tr, 'v) runtime result" where
  "declare_all tr [] rt = Inr rt"
| "declare_all tr (d # ds) rt = bind_result (declares tr d rt) (declare_all tr ds)"

definition reliable_qos :: qos where
  "reliable_qos = (case qos_profile ''reliable'' of Some q \<Rightarrow> q | None \<Rightarrow> qos_zero)"

definition transient_qos :: qos where
  "transient_qos = (case qos_profile ''transient'' of Some q \<Rightarrow> q | None \<Rightarrow> qos_zero)"

definition note_provides :: "string \<Rightarrow> string \<Rightarrow> ('tr, 'v) runtime \<Rightarrow> ('tr, 'v) runtime" where
  "note_provides node name rt = rt\<lparr>rt_deps := record_provides node name (rt_deps rt)\<rparr>"

definition note_consumes :: "string \<Rightarrow> string \<Rightarrow> ('tr, 'v) runtime \<Rightarrow> ('tr, 'v) runtime" where
  "note_consumes node name rt = rt\<lparr>rt_deps := record_consumes node name (rt_deps rt)\<rparr>"

definition record_endpoint :: "endpoint_info \<Rightarrow> ('tr, 'v) runtime \<Rightarrow> ('tr, 'v) runtime" where
  "record_endpoint e rt = rt\<lparr>rt_endpoints := rt_endpoints rt @ [e]\<rparr>"

text \<open>An endpoint as it is recorded; its counter starts at zero.\<close>

definition endpoint_entry :: "string \<Rightarrow> endpoint_kind \<Rightarrow> string \<Rightarrow> string \<Rightarrow> string \<Rightarrow> string \<Rightarrow> string \<Rightarrow> string \<Rightarrow> endpoint_info" where
  "endpoint_entry node k field name typ q rate frame =
     \<lparr>e_node = node, e_kind = k, e_field = field, e_name = name, e_type = typ, e_qos = q, e_rate = rate, e_frame = frame,
       e_count = Some 0, e_detail = None, e_counts = 0\<rparr>"

section \<open>Frame tags\<close>

definition frame_tag :: "'v frame_tree option \<Rightarrow> field_info \<Rightarrow> string result" where
  "frame_tag tree f =
     (let frame = fd_tag f ''frame''
      in if frame = [] then Inr []
         else if \<not> fd_header f then Inl (Errorf ''frame:%q, but %s has no std_msgs/Header field to carry it'' [GStr frame, GStr (fd_type f)])
         else case tree of
            None \<Rightarrow> Inr frame
          | Some t \<Rightarrow> if has_frame tree frame then Inr frame
                     else Inl (Errorf ''frame %q is not declared in %s'' [GStr frame, GStr (path_name t)]))"

text \<open>The header of a message: its frame, and its stamp where the type has one; a zero time is \<open>None\<close>.\<close>

record header =
  hd_frame :: string
  hd_stamp :: "int option option"

definition stamp_frame :: "string \<Rightarrow> int \<Rightarrow> header \<Rightarrow> header" where
  "stamp_frame frame now h =
     (let h = (if hd_frame h = [] then h\<lparr>hd_frame := frame\<rparr> else h)
      in case hd_stamp h of Some None \<Rightarrow> h\<lparr>hd_stamp := Some (Some now)\<rparr> | _ \<Rightarrow> h)"

text \<open>A checker counts every message in another frame and warns once of each such frame.\<close>

record frame_checker =
  fc_want :: string
  fc_seen :: "string list"
  fc_mismatches :: "string \<Rightarrow> 64 word"
  fc_warned :: "string list"

definition new_frame_checker :: "string \<Rightarrow> frame_checker" where
  "new_frame_checker want = \<lparr>fc_want = want, fc_seen = [], fc_mismatches = (\<lambda>_. 0), fc_warned = []\<rparr>"

definition frame_check :: "frame_checker \<Rightarrow> string \<Rightarrow> frame_checker" where
  "frame_check c got =
     (if got = [] \<or> got = fc_want c then c
      else c\<lparr>fc_mismatches := (fc_mismatches c)(got := fc_mismatches c got + 1),
             fc_seen := append_once (fc_seen c) got,
             fc_warned := (if got \<in> set (fc_seen c) then fc_warned c else fc_warned c @ [got])\<rparr>)"

section \<open>Binding\<close>

text \<open>\<open>pf\<close> is \<^verbatim>\<open>strconv.ParseFloat\<close>.\<close>

definition missing_tag :: "string \<Rightarrow> string \<Rightarrow> goerror" where
  "missing_tag key example = Errorf (''missing '' @ key @ '' tag (e.g. '' @ key @ '':\"'' @ example @ ''\")'') []"

definition handler_error :: "field_info \<Rightarrow> goerror option" where
  "handler_error f = (case fd_handler f of
     Missing \<Rightarrow> Some (Errorf ''missing handler method On%s'' [GStr (fd_name f)])
   | Mistyped want \<Rightarrow> Some (Errorf ''On%s must have signature %s'' [GStr (fd_name f), GStr want])
   | Handler \<Rightarrow> None)"

definition require :: "goerror option \<Rightarrow> unit result" where
  "require e = (case e of Some e \<Rightarrow> Inl e | None \<Rightarrow> Inr ())"

definition sub_bind :: "'tr transport \<Rightarrow> string \<Rightarrow> field_info \<Rightarrow> ('tr, 'v) runtime \<Rightarrow> ('tr, 'v) runtime result" where
  "sub_bind tr node f rt =
     (let topic = fd_tag f ''topic''
      in if topic = [] then Inl (missing_tag ''topic'' ''cmd_vel'')
         else bind_result (qos_from_tag (fd_tag f ''qos'')) (\<lambda>q.
           bind_result (require (handler_error f)) (\<lambda>_.
           bind_result (frame_tag (rt_frames rt) f) (\<lambda>frame.
             let rt = note_consumes node topic rt;
                 rt = record_endpoint (endpoint_entry node EndpointSub (fd_name f) topic (ros_type_name f) (qname q) [] frame) rt;
                 rt = (if durability q = TransientLocal then rt\<lparr>rt_on_active := rt_on_active rt @ [(node, Deliver_latched topic)]\<rparr> else rt)
             in declares tr (Declare_sub \<lparr>ts_topic = topic, ts_qos = q, ts_node = node\<rparr>) rt))))"

definition pub_bind :: "'tr transport \<Rightarrow> string \<Rightarrow> field_info \<Rightarrow> ('tr, 'v) runtime \<Rightarrow> ('tr, 'v) runtime result" where
  "pub_bind tr node f rt =
     (let topic = fd_tag f ''topic''
      in if topic = [] then Inl (missing_tag ''topic'' ''cmd_vel'')
         else bind_result (qos_from_tag (fd_tag f ''qos'')) (\<lambda>q.
           bind_result (frame_tag (rt_frames rt) f) (\<lambda>frame.
           bind_result (declares tr (Declare_pub \<lparr>ts_topic = topic, ts_qos = q, ts_node = node\<rparr>) rt) (\<lambda>rt.
             Inr (record_endpoint (endpoint_entry node EndpointPub (fd_name f) topic (ros_type_name f) (qname q) [] frame)
               (note_provides node topic rt))))))"

definition timer_bind :: "(string \<Rightarrow> float64 option) \<Rightarrow> string \<Rightarrow> field_info \<Rightarrow> ('tr, 'v) runtime \<Rightarrow> ('tr, 'v) runtime result" where
  "timer_bind pf node f rt =
     (let rate = fd_tag f ''rate''
      in if rate = [] then Inl (missing_tag ''rate'' ''10hz'')
         else bind_result (parse_rate pf rate) (\<lambda>period.
           bind_result (require (handler_error f)) (\<lambda>_.
             Inr (record_endpoint (endpoint_entry node EndpointTimer (fd_name f) (fd_name f) [] [] rate [])
               (rt\<lparr>rt_timers := rt_timers rt @ [(node, fd_name f, period)]\<rparr>)))))"

definition svc_bind :: "'tr transport \<Rightarrow> string \<Rightarrow> field_info \<Rightarrow> ('tr, 'v) runtime \<Rightarrow> ('tr, 'v) runtime result" where
  "svc_bind tr node f rt =
     (let service = fd_tag f ''service''
      in if service = [] then Inl (missing_tag ''service'' ''engage_estop'')
         else bind_result (require (handler_error f)) (\<lambda>_.
           let rt = note_provides node service rt;
               rt = record_endpoint (endpoint_entry node EndpointService (fd_name f) service (ros_type_name f) [] [] []) rt
           in declares tr (Declare_srv \<lparr>ss_service = service, ss_node = node, ss_timeout = 0\<rparr>) rt))"

definition call_timeout :: "string \<Rightarrow> int result" where
  "call_timeout tag =
     (if tag = [] then Inr 5000000000
      else case parse_duration tag of
         None \<Rightarrow> Inl (Errorf ''invalid timeout %q'' [GStr tag])
       | Some d \<Rightarrow> if d \<le> 0 then Inl (Errorf ''invalid timeout %q'' [GStr tag]) else Inr d)"

definition client_bind :: "'tr transport \<Rightarrow> string \<Rightarrow> field_info \<Rightarrow> ('tr, 'v) runtime \<Rightarrow> ('tr, 'v) runtime result" where
  "client_bind tr node f rt =
     (let service = fd_tag f ''service''
      in if service = [] then Inl (missing_tag ''service'' ''engage_estop'')
         else bind_result (call_timeout (fd_tag f ''timeout'')) (\<lambda>d.
           let rt = note_consumes node service rt;
               rt = record_endpoint (endpoint_entry node EndpointClient (fd_name f) service (ros_type_name f) [] [] []) rt
           in declares tr (Declare_client \<lparr>ss_service = service, ss_node = node, ss_timeout = d\<rparr>) rt))"

definition publish_description :: "'tr transport \<Rightarrow> string \<Rightarrow> ('tr, 'v) runtime \<Rightarrow> ('tr, 'v) runtime" where
  "publish_description tr node rt =
     (if rt_description rt = [] \<or> rt_description_publisher rt \<noteq> [] then rt
      else case qos_profile ''transient'' of
        None \<Rightarrow> rt
      | Some q \<Rightarrow>
          (let (err, t) = tr (Declare_pub \<lparr>ts_topic = description_topic, ts_qos = q, ts_node = node\<rparr>) (rt_transport rt);
               rt = rt\<lparr>rt_transport := t\<rparr>
           in if err \<noteq> None then rt
              else record_endpoint ((endpoint_entry node EndpointPub ''RobotDescription'' description_topic ''std_msgs/msg/String'' (qname q) [] [])
                     \<lparr>e_count := None\<rparr>)
                   (note_provides node description_topic
                     (rt\<lparr>rt_description_publisher := node, rt_on_active := rt_on_active rt @ [(node, Send_description)]\<rparr>))))"

definition describe_frames :: "'v frame_tree option \<Rightarrow> string" where
  "describe_frames t =
     (if t = None then []
      else itoa (int (length (published t))) @ '' published, '' @ itoa (int (length (fixed_transforms t))) @ '' fixed, ''
        @ itoa (int (length (tfs_of t)) - int (length (fixed_transforms t))) @ '' dynamic'')"

definition tf_bind :: "'tr transport \<Rightarrow> string \<Rightarrow> field_info \<Rightarrow> ('tr, 'v) runtime \<Rightarrow> ('tr, 'v) runtime result" where
  "tf_bind tr node f rt =
     (let statics = published (rt_frames rt);
          rt = record_endpoint (endpoint_entry node EndpointTF (fd_name f) tf_static_topic ''tf2_msgs/msg/TFMessage'' []
                 (describe_frames (rt_frames rt)) []) rt
      in if statics = [] \<or> rt_tf_publisher rt \<noteq> [] then Inr rt
         else (let rt = publish_description tr node (rt\<lparr>rt_tf_publisher := node\<rparr>)
               in case qos_profile ''transient'' of
                    None \<Rightarrow> Inr rt
                  | Some q \<Rightarrow>
                      bind_result (declares tr (Declare_pub \<lparr>ts_topic = tf_static_topic, ts_qos = q, ts_node = node\<rparr>) rt) (\<lambda>rt.
                        Inr ((note_provides node tf_static_topic rt)
                          \<lparr>rt_on_active := rt_on_active rt @ [(node, Send_statics)]\<rparr>))))"

text \<open>The three services and two topics of an action are named after it.\<close>

definition action_base_name :: "string \<Rightarrow> string" where
  "action_base_name name = name @ ''/_action/''"

definition unregistered :: "field_info \<Rightarrow> goerror" where
  "unregistered f = Errorf ''action type %s is not registered; generate it with conductor msggen or call conductor.RegisterAction'' [GStr (fd_type f)]"

definition action_server_calls :: "string \<Rightarrow> string \<Rightarrow> transport_call list" where
  "action_server_calls node name =
     (let base = action_base_name name
      in [Declare_pub \<lparr>ts_topic = base @ ''status'', ts_qos = transient_qos, ts_node = node\<rparr>,
          Declare_pub \<lparr>ts_topic = base @ ''feedback'', ts_qos = reliable_qos, ts_node = node\<rparr>]
         @ map (\<lambda>sfx. Declare_srv \<lparr>ss_service = base @ sfx, ss_node = node, ss_timeout = 0\<rparr>) [''send_goal'', ''get_result'', ''cancel_goal''])"

definition action_bind :: "'tr transport \<Rightarrow> string \<Rightarrow> field_info \<Rightarrow> ('tr, 'v) runtime \<Rightarrow> ('tr, 'v) runtime result" where
  "action_bind tr node f rt =
     (let name = fd_tag f ''action''
      in if name = [] then Inl (missing_tag ''action'' ''navigate'')
         else bind_result (require (handler_error f)) (\<lambda>_.
           case fd_ros f of
             None \<Rightarrow> Inl (unregistered f)
           | Some typ \<Rightarrow>
               declare_all tr (action_server_calls node name)
                 (record_endpoint (endpoint_entry node EndpointAction (fd_name f) name typ [] [] []) (note_provides node name rt))))"

definition send_goal_timeout :: int where "send_goal_timeout = 10 * 1000000000"

definition goal_timeout :: "string \<Rightarrow> int result" where
  "goal_timeout tag = (if tag = [] then Inr (300 * 1000000000) else call_timeout tag)"

definition action_client_calls :: "string \<Rightarrow> string \<Rightarrow> int \<Rightarrow> transport_call list" where
  "action_client_calls node name timeout =
     (let base = action_base_name name
      in map (\<lambda>(sfx, d). Declare_client \<lparr>ss_service = base @ sfx, ss_node = node, ss_timeout = d\<rparr>)
           [(''send_goal'', send_goal_timeout), (''cancel_goal'', send_goal_timeout), (''get_result'', timeout)]
         @ [Declare_sub \<lparr>ts_topic = base @ ''feedback'', ts_qos = reliable_qos, ts_node = node\<rparr>])"

definition action_client_bind :: "'tr transport \<Rightarrow> string \<Rightarrow> field_info \<Rightarrow> ('tr, 'v) runtime \<Rightarrow> ('tr, 'v) runtime result" where
  "action_client_bind tr node f rt =
     (let name = fd_tag f ''action''
      in if name = [] then Inl (missing_tag ''action'' ''navigate'')
         else bind_result (goal_timeout (fd_tag f ''timeout'')) (\<lambda>d.
           case fd_ros f of
             None \<Rightarrow> Inl (unregistered f)
           | Some typ \<Rightarrow>
               declare_all tr (action_client_calls node name d)
                 (record_endpoint (endpoint_entry node EndpointActionClient (fd_name f) name typ [] [] []) (note_consumes node name rt))))"

text \<open>A field that drives other managed nodes has two clients for each of them.\<close>

definition managed_calls :: "string \<Rightarrow> int \<Rightarrow> string list \<Rightarrow> transport_call list" where
  "managed_calls node timeout ns =
     concat (map (\<lambda>n. map (\<lambda>sfx. Declare_client \<lparr>ss_service = n @ sfx, ss_node = node, ss_timeout = timeout\<rparr>)
       [''/change_state'', ''/get_state'']) ns)"

definition managed_bind :: "'tr transport \<Rightarrow> string \<Rightarrow> field_info \<Rightarrow> ('tr, 'v) runtime \<Rightarrow> ('tr, 'v) runtime result" where
  "managed_bind tr node f rt =
     bind_result (parse_node_list (fd_tag f ''nodes'')) (\<lambda>ns.
     bind_result (client_timeout (fd_tag f ''timeout'')) (\<lambda>d.
     bind_result (declare_all tr (managed_calls node d ns) rt) (\<lambda>rt.
       Inr (record_endpoint ((endpoint_entry node EndpointLifecycle (fd_name f) (join '','' ns) ''lifecycle_msgs/srv/ChangeState'' [] [] [])
              \<lparr>e_detail := Some (itoa (int (length ns)) @ '' node(s), not yet asked'')\<rparr>) rt))))"

definition local_bind :: "endpoint_info option result \<Rightarrow> ('tr, 'v) runtime \<Rightarrow> ('tr, 'v) runtime result" where
  "local_bind r rt = bind_result r (\<lambda>e. Inr (case e of None \<Rightarrow> rt | Some e \<Rightarrow> record_endpoint e rt))"

definition field_of :: "field \<Rightarrow> field_info" where
  "field_of x = (case x of SubField f \<Rightarrow> f | PubField f \<Rightarrow> f | TimerField f \<Rightarrow> f | SvcField f \<Rightarrow> f | ClientField f \<Rightarrow> f | TFField f \<Rightarrow> f
     | ActionField f \<Rightarrow> f | ActionClientField f \<Rightarrow> f | ManagedField f \<Rightarrow> f | LocalField f _ \<Rightarrow> f)"

definition bind_field :: "(string \<Rightarrow> float64 option) \<Rightarrow> 'tr transport \<Rightarrow> string \<Rightarrow> field \<Rightarrow> ('tr, 'v) runtime \<Rightarrow> ('tr, 'v) runtime result" where
  "bind_field pf tr node x rt =
     (case x of
        SubField f \<Rightarrow> sub_bind tr node f rt
      | PubField f \<Rightarrow> pub_bind tr node f rt
      | TimerField f \<Rightarrow> timer_bind pf node f rt
      | SvcField f \<Rightarrow> svc_bind tr node f rt
      | ClientField f \<Rightarrow> client_bind tr node f rt
      | TFField f \<Rightarrow> tf_bind tr node f rt
      | ActionField f \<Rightarrow> action_bind tr node f rt
      | ActionClientField f \<Rightarrow> action_client_bind tr node f rt
      | ManagedField f \<Rightarrow> managed_bind tr node f rt
      | LocalField f r \<Rightarrow> local_bind r rt)"

fun bind_fields :: "(string \<Rightarrow> float64 option) \<Rightarrow> 'tr transport \<Rightarrow> string \<Rightarrow> field list \<Rightarrow> ('tr, 'v) runtime \<Rightarrow> ('tr, 'v) runtime result" where
  "bind_fields pf tr node [] rt = Inr rt"
| "bind_fields pf tr node (x # xs) rt =
     (case bind_field pf tr node x rt of
        Inl e \<Rightarrow> Inl (Errorf ''%s: %w'' [GStr (fd_name (field_of x)), GErr e])
      | Inr rt \<Rightarrow> bind_fields pf tr node xs rt)"

section \<open>Publishing and serving\<close>

text \<open>\<^verbatim>\<open>Pub.Publish\<close>: \<open>active\<close> is the state of the publishing node, \<open>framed\<close> the frame it stamps, if its type
  has a header and its field a tag; \<open>send\<close> is the transport's function, with the header it is given. What it
  leaves is the count of messages sent and that of errors.\<close>

record pub_state =
  pb_sent :: "64 word"
  pb_errors :: "64 word"

definition publish_msg :: "bool \<Rightarrow> string option \<Rightarrow> int \<Rightarrow> (header \<Rightarrow> goerror option) \<Rightarrow> header \<Rightarrow> pub_state \<Rightarrow> header option \<times> pub_state" where
  "publish_msg active framed now send h p =
     (if \<not> active then (None, p)
      else let h = (case framed of None \<Rightarrow> h | Some frame \<Rightarrow> stamp_frame frame now h)
           in if send h \<noteq> None then (Some h, p\<lparr>pb_errors := pb_errors p + 1\<rparr>)
              else (Some h, p\<lparr>pb_sent := pb_sent p + 1\<rparr>))"

text \<open>What a service's \<^verbatim>\<open>handle\<close> makes of a request: the executor refuses it, the handler returns, or the node
  quits first.\<close>

datatype 'r served = Not_accepted | Handled "'r result" | Node_quit

definition svc_handle :: "string \<Rightarrow> string \<Rightarrow> 'r served \<Rightarrow> 64 word \<Rightarrow> 'r result \<times> 64 word" where
  "svc_handle service node r served =
     (case r of
        Not_accepted \<Rightarrow> (Inl (Errorf ''service %q: node %s is not accepting work (shutting down or mailbox full)'' [GStr service, GStr node]), served)
      | Handled res \<Rightarrow> (res, served + 1)
      | Node_quit \<Rightarrow> (Inl (Errorf ''service %q: node %s shut down'' [GStr service, GStr node]), served))"

section \<open>What wiring records\<close>

definition field_consumes :: "field \<Rightarrow> string set" where
  "field_consumes x = (case x of SubField f \<Rightarrow> {fd_tag f ''topic''} | ClientField f \<Rightarrow> {fd_tag f ''service''}
     | ActionClientField f \<Rightarrow> {fd_tag f ''action''} | _ \<Rightarrow> {})"

definition field_provides :: "field \<Rightarrow> string set" where
  "field_provides x = (case x of PubField f \<Rightarrow> {fd_tag f ''topic''} | SvcField f \<Rightarrow> {fd_tag f ''service''}
     | ActionField f \<Rightarrow> {fd_tag f ''action''} | _ \<Rightarrow> {})"

definition consumes_of :: "('tr, 'v) runtime \<Rightarrow> string \<Rightarrow> string set" where
  "consumes_of rt n = (case rt_deps rt n of None \<Rightarrow> {} | Some d \<Rightarrow> set (consumes d))"

definition provides_of :: "('tr, 'v) runtime \<Rightarrow> string \<Rightarrow> string set" where
  "provides_of rt n = (case rt_deps rt n of None \<Rightarrow> {} | Some d \<Rightarrow> set (provides d))"

definition shared_topics :: "string set" where "shared_topics = {tf_static_topic, description_topic}"

text \<open>The change of the dependencies that wiring a field makes.\<close>

definition recorded :: "string \<Rightarrow> string set \<Rightarrow> string set \<Rightarrow> ('tr, 'v) runtime \<Rightarrow> ('tr, 'v) runtime \<Rightarrow> bool" where
  "recorded node cs ps rt rt' \<longleftrightarrow> (\<forall>m. m \<noteq> node \<longrightarrow> rt_deps rt' m = rt_deps rt m)
     \<and> consumes_of rt' node = consumes_of rt node \<union> cs
     \<and> provides_of rt node \<union> ps \<subseteq> provides_of rt' node \<and> provides_of rt' node \<subseteq> provides_of rt node \<union> ps \<union> shared_topics"

lemma recorded_refl: "recorded node {} {} rt rt"
  by (auto simp: recorded_def)

lemma recorded_trans:
  "recorded node cs ps rt rt1 \<Longrightarrow> recorded node cs' ps' rt1 rt2 \<Longrightarrow> recorded node (cs \<union> cs') (ps \<union> ps') rt rt2"
  unfolding recorded_def by auto

lemma recorded_same: "rt_deps rt' = rt_deps rt \<Longrightarrow> recorded node {} {} rt rt'"
  by (auto simp: recorded_def consumes_of_def provides_of_def)

lemma rt_deps_record_endpoint [simp]: "rt_deps (record_endpoint e rt) = rt_deps rt"
  by (simp add: record_endpoint_def)

lemma rt_deps_notes [simp]:
  "rt_deps (note_provides node t rt) = record_provides node t (rt_deps rt)"
  "rt_deps (note_consumes node t rt) = record_consumes node t (rt_deps rt)"
  by (simp_all add: note_provides_def note_consumes_def)

lemma rt_deps_declares: "declares tr d rt = Inr rt' \<Longrightarrow> rt_deps rt' = rt_deps rt"
  by (auto simp: declares_def Let_def split: prod.splits option.splits)

lemma declare_all_deps: "declare_all tr ds rt = Inr rt' \<Longrightarrow> rt_deps rt' = rt_deps rt"
  by (induction ds arbitrary: rt) (auto simp: bind_result_Inr dest: rt_deps_declares)

lemma consume_recorded:
  "rt_deps rt' = record_consumes node t (rt_deps rt) \<Longrightarrow> recorded node {t} {} rt rt'"
  by (auto simp: recorded_def record_consumes_def deps_for_def consumes_of_def provides_of_def new_node_deps_def Let_def split: option.splits prod.splits)

lemma provide_recorded:
  "rt_deps rt' = record_provides node t (rt_deps rt) \<Longrightarrow> recorded node {} {t} rt rt'"
  by (auto simp: recorded_def record_provides_def deps_for_def consumes_of_def provides_of_def new_node_deps_def Let_def split: option.splits prod.splits)

lemma shared_recorded: "recorded node {} {t} rt rt' \<Longrightarrow> t \<in> shared_topics \<Longrightarrow> recorded node {} {} rt rt'"
  by (auto simp: recorded_def)

lemma require_Inr [simp]: "require e = Inr u \<longleftrightarrow> e = None"
  by (simp add: require_def split: option.split)

lemma transient_profile: "\<exists>q. qos_profile ''transient'' = Some q"
  by (simp add: qos_profile_def qos_profiles_def)

lemma description_recorded: "recorded node {} {} rt (publish_description tr node rt)"
proof -
  have described: "recorded node {} {} rt rt'" if "rt_deps rt' = record_provides node description_topic (rt_deps rt)" for rt'
    using provide_recorded[OF that] by (rule shared_recorded) (simp add: shared_topics_def)
  show ?thesis
    by (auto simp: publish_description_def Let_def intro: recorded_same described split: option.split prod.split)
qed

lemma tf_recorded: "tf_bind tr node f rt = Inr rt' \<Longrightarrow> recorded node {} {} rt rt'"
proof -
  assume b: "tf_bind tr node f rt = Inr rt'"
  define r1 where "r1 = record_endpoint (endpoint_entry node EndpointTF (fd_name f) tf_static_topic ''tf2_msgs/msg/TFMessage'' []
                 (describe_frames (rt_frames rt)) []) rt"
  define r2 where "r2 = publish_description tr node (r1\<lparr>rt_tf_publisher := node\<rparr>)"
  obtain q where q: "qos_profile ''transient'' = Some q" using transient_profile by blast
  have r1: "recorded node {} {} rt r1" by (rule recorded_same) (simp add: r1_def)
  have "recorded node {} {} r1 (r1\<lparr>rt_tf_publisher := node\<rparr>)" by (rule recorded_same) simp
  from recorded_trans[OF recorded_trans[OF r1 this] description_recorded] have r2: "recorded node {} {} rt r2"
    by (simp add: r2_def)
  show ?thesis
  proof (cases "published (rt_frames rt) = [] \<or> rt_tf_publisher r1 \<noteq> []")
    case True
    with b r1 show ?thesis by (simp add: tf_bind_def Let_def r1_def[symmetric])
  next
    case False
    with b q obtain r3 where r3: "declares tr (Declare_pub \<lparr>ts_topic = tf_static_topic, ts_qos = q, ts_node = node\<rparr>) r2 = Inr r3"
      "rt' = (note_provides node tf_static_topic r3)\<lparr>rt_on_active := rt_on_active r3 @ [(node, Send_statics)]\<rparr>"
      by (auto simp: tf_bind_def Let_def r1_def[symmetric] r2_def[symmetric] bind_result_Inr)
    have "recorded node {} {} r2 r3" using rt_deps_declares[OF r3(1)] by (rule recorded_same)
    moreover have "recorded node {} {tf_static_topic} r3 rt'" by (rule provide_recorded) (simp add: r3(2))
    then have "recorded node {} {} r3 rt'" by (rule shared_recorded) (simp add: shared_topics_def)
    ultimately show ?thesis using recorded_trans[OF recorded_trans[OF r2]] by fastforce
  qed
qed

lemma field_recorded:
  assumes "bind_field pf tr node x rt = Inr rt'"
  shows "recorded node (field_consumes x) (field_provides x) rt rt'"
proof (cases x)
  case (TFField f)
  with assms tf_recorded show ?thesis by (simp add: bind_field_def field_consumes_def field_provides_def)
next
  case (SubField f)
  then have "rt_deps rt' = record_consumes node (fd_tag f ''topic'') (rt_deps rt)"
    using assms by (auto simp: bind_field_def sub_bind_def Let_def bind_result_Inr dest!: rt_deps_declares split: if_splits)
  then show ?thesis using SubField by (simp add: field_consumes_def field_provides_def consume_recorded)
next
  case (PubField f)
  then have "rt_deps rt' = record_provides node (fd_tag f ''topic'') (rt_deps rt)"
    using assms by (auto simp: bind_field_def pub_bind_def Let_def bind_result_Inr dest!: rt_deps_declares split: if_splits)
  then show ?thesis using PubField by (simp add: field_consumes_def field_provides_def provide_recorded)
next
  case (TimerField f)
  then have "rt_deps rt' = rt_deps rt"
    using assms by (auto simp: bind_field_def timer_bind_def Let_def bind_result_Inr split: if_splits)
  then show ?thesis using TimerField by (simp add: field_consumes_def field_provides_def recorded_same)
next
  case (SvcField f)
  then have "rt_deps rt' = record_provides node (fd_tag f ''service'') (rt_deps rt)"
    using assms by (auto simp: bind_field_def svc_bind_def Let_def bind_result_Inr dest!: rt_deps_declares split: if_splits)
  then show ?thesis using SvcField by (simp add: field_consumes_def field_provides_def provide_recorded)
next
  case (ClientField f)
  then have "rt_deps rt' = record_consumes node (fd_tag f ''service'') (rt_deps rt)"
    using assms by (auto simp: bind_field_def client_bind_def Let_def bind_result_Inr dest!: rt_deps_declares split: if_splits)
  then show ?thesis using ClientField by (simp add: field_consumes_def field_provides_def consume_recorded)
next
  case (ActionField f)
  then have "rt_deps rt' = record_provides node (fd_tag f ''action'') (rt_deps rt)"
    using assms by (auto simp: bind_field_def action_bind_def Let_def bind_result_Inr dest!: declare_all_deps split: if_splits option.splits)
  then show ?thesis using ActionField by (simp add: field_consumes_def field_provides_def provide_recorded)
next
  case (ActionClientField f)
  then have "rt_deps rt' = record_consumes node (fd_tag f ''action'') (rt_deps rt)"
    using assms by (auto simp: bind_field_def action_client_bind_def Let_def bind_result_Inr dest!: declare_all_deps split: if_splits option.splits)
  then show ?thesis using ActionClientField by (simp add: field_consumes_def field_provides_def consume_recorded)
next
  case (ManagedField f)
  then have "rt_deps rt' = rt_deps rt"
    using assms by (auto simp: bind_field_def managed_bind_def bind_result_Inr dest!: declare_all_deps)
  then show ?thesis using ManagedField by (simp add: field_consumes_def field_provides_def recorded_same)
next
  case (LocalField f r)
  then have "rt_deps rt' = rt_deps rt"
    using assms by (auto simp: bind_field_def local_bind_def bind_result_Inr split: option.splits)
  then show ?thesis using LocalField by (simp add: field_consumes_def field_provides_def recorded_same)
qed

lemma fields_recorded:
  "bind_fields pf tr node xs rt = Inr rt' \<Longrightarrow>
   recorded node (\<Union> (field_consumes ` set xs)) (\<Union> (field_provides ` set xs)) rt rt'"
proof (induction xs arbitrary: rt)
  case (Cons x xs)
  then obtain r where "bind_field pf tr node x rt = Inr r" "bind_fields pf tr node xs r = Inr rt'"
    by (auto split: sum.splits)
  with Cons.IH recorded_trans[OF field_recorded] show ?case by fastforce
qed (simp add: recorded_refl)

section \<open>Frames that arrive\<close>

text \<open>A subscription with a frame tag warns of each other frame it meets exactly once, at the first message
  that names it, and counts every message in it; an empty frame and its own are never reported.\<close>

theorem frame_warned_once:
  "fc_warned (foldl frame_check (new_frame_checker want) msgs) = foldl append_once [] (filter (\<lambda>g. g \<noteq> [] \<and> g \<noteq> want) msgs)
   \<and> fc_mismatches (foldl frame_check (new_frame_checker want) msgs) g
     = (if g = [] \<or> g = want then 0 else word_of_nat (count_list msgs g))"
proof -
  have "fc_want c = want \<and> fc_warned c = fc_seen c \<and> fc_seen c = foldl append_once [] (filter (\<lambda>g. g \<noteq> [] \<and> g \<noteq> want) msgs)
     \<and> fc_mismatches c g = (if g = [] \<or> g = want then 0 else word_of_nat (count_list msgs g))"
    if "c = foldl frame_check (new_frame_checker want) msgs" for c
    using that
  proof (induction msgs arbitrary: c rule: rev_induct)
    case (snoc x xs)
    then show ?case by (auto simp: frame_check_def append_once_def)
  qed (simp add: new_frame_checker_def)
  then show ?thesis by simp
qed

end
