(* ===== verification/Go_Duration.thy ===== *)
theory Go_Duration
imports Go_Time
begin

text \<open>
  \<^verbatim>\<open>time.Duration.String\<close>, which parameters and the dashboard print durations with, and the proof
  that \<^verbatim>\<open>time.ParseDuration\<close> reads back what it prints. The letter of a microsecond is the two bytes of
  U+00B5.
\<close>

section \<open>Printing\<close>

text \<open>\<^verbatim>\<open>fmtFrac\<close>: the digits of \<open>v / 10 ^ prec\<close> after the point, without trailing zeros and without the
  point when there are none, before \<open>tail\<close>; and the integer part.\<close>

fun frac_loop :: "nat \<Rightarrow> nat \<Rightarrow> bool \<Rightarrow> string \<Rightarrow> bool \<times> string \<times> nat" where
  "frac_loop 0 v print tail = (print, tail, v)"
| "frac_loop (Suc n) v print tail =
     (let print = print \<or> v mod 10 \<noteq> 0
      in frac_loop n (v div 10) print (if print then digit_char (v mod 10) # tail else tail))"

definition fmt_frac :: "nat \<Rightarrow> nat \<Rightarrow> string \<Rightarrow> string \<times> nat" where
  "fmt_frac prec v tail =
     (let (print, tail, v) = frac_loop prec v False tail in (if print then CHR ''.'' # tail else tail, v))"

definition micro_sign :: string where "micro_sign = [CHR 0xC2, CHR 0xB5]"

definition abs_duration_string :: "nat \<Rightarrow> string" where
  "abs_duration_string u =
     (if u < 1000000000
      then
       (if u = 0 then ''0s''
        else let (prec, unit) = (if u < 1000 then (0, ''ns'') else if u < 1000000 then (3, micro_sign @ ''s'') else (6, ''ms''));
                 (tail, v) = fmt_frac prec u unit
             in show_nat v @ tail)
      else
       (let (tail, secs) = fmt_frac 9 u ''s'';
            s = show_nat (secs mod 60) @ tail;
            mins = secs div 60
        in if mins = 0 then s
           else let s = show_nat (mins mod 60) @ ''m'' @ s; hours = mins div 60
                in if hours = 0 then s else show_nat hours @ ''h'' @ s))"

definition duration_string :: "int \<Rightarrow> string" where
  "duration_string d = (if d < 0 then CHR ''-'' # abs_duration_string (nat (- d)) else abs_duration_string (nat d))"

section \<open>Reading back\<close>

lemma digits_val_ge: "digits_val a s = Some n \<Longrightarrow> a \<le> n"
proof (induction s arbitrary: a)
  case (Cons c s)
  then show ?case by (fastforce split: option.splits)
qed simp

lemma leading_int_digits:
  "digits_val a s = Some n \<Longrightarrow> n \<le> 2 ^ 63 \<Longrightarrow> leading_int a (s @ r) = leading_int n r"
proof (induction s arbitrary: a)
  case (Cons c s)
  then obtain d where d: "digit_val c = Some d" "digits_val (a * 10 + d) s = Some n"
    by (auto split: option.splits)
  then have "a * 10 + d \<le> 2 ^ 63" using digits_val_ge[OF d(2)] Cons.prems(2) by linarith
  moreover from this have "a \<le> 2 ^ 63 div 10" by (subst less_eq_div_iff_mult_less_eq) linarith+
  ultimately show ?case using Cons.IH[OF d(2) Cons.prems(2)] d(1) by simp
qed simp

lemma leading_int_show:
  assumes "n \<le> 2 ^ 63" and "r = [] \<or> digit_val (hd r) = None"
  shows "leading_int 0 (show_nat n @ r) = Some (n, r)"
proof -
  have "leading_int 0 (show_nat n @ r) = leading_int n r"
    using leading_int_digits[OF digits_val_show_nat assms(1)] .
  then show ?thesis using assms(2) by (cases r) auto
qed

lemma leading_fraction_digits:
  "digits_val a s = Some n \<Longrightarrow> n < 2 ^ 60 \<Longrightarrow>
   leading_fraction a k False (s @ r) = leading_fraction n (k * 10 ^ length s) False r"
proof (induction s arbitrary: a k)
  case (Cons c s)
  then obtain d where d: "digit_val c = Some d" "digits_val (a * 10 + d) s = Some n"
    by (auto split: option.splits)
  then have "a * 10 + d < 2 ^ 60" using digits_val_ge[OF d(2)] Cons.prems(2) by linarith
  moreover from this have "a \<le> (2 ^ 63 - 1) div 10" by (subst less_eq_div_iff_mult_less_eq) simp_all
  ultimately show ?case using Cons.IH[OF d(2) Cons.prems(2), of "k * 10"] d(1) by (simp add: mult.assoc)
qed simp

text \<open>The loop yields the digits of the fraction; \<open>k\<close> of them remain when the zeros are gone.\<close>

lemma frac_loop_printing:
  "\<exists>fs. frac_loop n v True tail = (True, fs @ tail, v div 10 ^ n) \<and> length fs = n
     \<and> (\<forall>a. digits_val a fs = Some (a * 10 ^ n + v mod 10 ^ n))"
proof (induction n arbitrary: v tail)
  case (Suc n)
  obtain fs where fs: "frac_loop n (v div 10) True (digit_char (v mod 10) # tail) =
      (True, fs @ digit_char (v mod 10) # tail, v div 10 div 10 ^ n)" "length fs = n"
    "\<And>a. digits_val a fs = Some (a * 10 ^ n + v div 10 mod 10 ^ n)" using Suc[of "v div 10" "digit_char (v mod 10) # tail"] by blast
  have "digits_val a (fs @ [digit_char (v mod 10)]) = Some (a * 10 ^ Suc n + v mod 10 ^ Suc n)" for a
  proof -
    have "v mod 10 ^ Suc n = v mod 10 + 10 * (v div 10 mod 10 ^ n)" by (simp add: mod_mult2_eq)
    then show ?thesis by (simp add: digits_val_append fs(3) digit_val_char algebra_simps)
  qed
  moreover have "v div 10 div 10 ^ n = v div 10 ^ Suc n" by (simp add: div_mult2_eq)
  ultimately show ?case using fs(1,2) by (intro exI[of _ "fs @ [digit_char (v mod 10)]"]) (simp add: Let_def)
qed simp

lemma fmt_frac_spec:
  obtains (whole) "v mod 10 ^ prec = 0" "fmt_frac prec v tail = (tail, v div 10 ^ prec)"
  | (frac) fs k f where "fmt_frac prec v tail = (CHR ''.'' # fs @ tail, v div 10 ^ prec)" "digits_val 0 fs = Some f"
      "length fs = k" "k \<le> prec" "f * 10 ^ (prec - k) = v mod 10 ^ prec" "fs \<noteq> []"
proof -
  have "(v mod 10 ^ prec = 0 \<and> frac_loop prec v False tail = (False, tail, v div 10 ^ prec))
    \<or> (\<exists>fs f. frac_loop prec v False tail = (True, fs @ tail, v div 10 ^ prec) \<and> digits_val 0 fs = Some f
        \<and> length fs \<le> prec \<and> f * 10 ^ (prec - length fs) = v mod 10 ^ prec \<and> fs \<noteq> [])"
  proof (induction prec arbitrary: v)
    case (Suc n)
    have m: "v mod 10 ^ Suc n = v mod 10 + 10 * (v div 10 mod 10 ^ n)" by (simp add: mod_mult2_eq)
    have d: "v div 10 div 10 ^ n = v div 10 ^ Suc n" by (simp add: div_mult2_eq)
    show ?case
    proof (cases "v mod 10 = 0")
      case True
      from Suc[of "v div 10"] show ?thesis
      proof
        assume "v div 10 mod 10 ^ n = 0 \<and> frac_loop n (v div 10) False tail = (False, tail, v div 10 div 10 ^ n)"
        then show ?thesis using True m d by (simp add: Let_def)
      next
        assume "\<exists>fs f. frac_loop n (v div 10) False tail = (True, fs @ tail, v div 10 div 10 ^ n) \<and> digits_val 0 fs = Some f
          \<and> length fs \<le> n \<and> f * 10 ^ (n - length fs) = v div 10 mod 10 ^ n \<and> fs \<noteq> []"
        then obtain fs f where fs: "frac_loop n (v div 10) False tail = (True, fs @ tail, v div 10 div 10 ^ n)"
          "digits_val 0 fs = Some f" "length fs \<le> n" "f * 10 ^ (n - length fs) = v div 10 mod 10 ^ n" "fs \<noteq> []" by blast
        from fs(3) have "Suc n - length fs = Suc (n - length fs)" by simp
        then have "f * 10 ^ (Suc n - length fs) = v mod 10 ^ Suc n" using fs(4) True m by simp
        then show ?thesis using fs True d by (intro disjI2 exI[of _ fs] exI[of _ f]) (simp add: Let_def)
      qed
    next
      case False
      obtain fs where fs: "frac_loop n (v div 10) True (digit_char (v mod 10) # tail) =
          (True, fs @ digit_char (v mod 10) # tail, v div 10 div 10 ^ n)" "length fs = n"
        "\<And>a. digits_val a fs = Some (a * 10 ^ n + v div 10 mod 10 ^ n)"
        using frac_loop_printing[of n "v div 10" "digit_char (v mod 10) # tail"] by blast
      have "digits_val 0 (fs @ [digit_char (v mod 10)]) = Some (v mod 10 ^ Suc n)"
        using m by (simp add: digits_val_append fs(3) digit_val_char)
      then show ?thesis using False fs(1,2) d
        by (intro disjI2 exI[of _ "fs @ [digit_char (v mod 10)]"] exI[of _ "v mod 10 ^ Suc n"]) (simp add: Let_def)
    qed
  qed simp
  then show thesis
  proof
    assume "v mod 10 ^ prec = 0 \<and> frac_loop prec v False tail = (False, tail, v div 10 ^ prec)"
    then show thesis using whole by (simp add: fmt_frac_def)
  next
    assume "\<exists>fs f. frac_loop prec v False tail = (True, fs @ tail, v div 10 ^ prec) \<and> digits_val 0 fs = Some f
        \<and> length fs \<le> prec \<and> f * 10 ^ (prec - length fs) = v mod 10 ^ prec \<and> fs \<noteq> []"
    then show thesis using frac by (auto simp: fmt_frac_def)
  qed
qed

lemma show_nat_head: "\<exists>c cs. show_nat n = c # cs \<and> c \<noteq> CHR ''-'' \<and> c \<noteq> CHR ''+'' \<and> digit_val c \<noteq> None"
proof -
  obtain c cs where s: "show_nat n = c # cs" by (cases "show_nat n") auto
  then show ?thesis using hd_show_nat[of n] by (auto simp: digit_val_def)
qed

lemma dur_termI:
  assumes "digit_val c \<noteq> None" and "leading_int 0 (c # cs) = Some (v, s1)" and "length s1 \<noteq> Suc (length cs)"
    and "(case s1 of c # cs \<Rightarrow> if c = CHR ''.'' then leading_fraction 0 1 False cs else (0, 1, s1) | [] \<Rightarrow> (0, 1, s1)) = (f, scale, s2)"
    and "takeWhile unit_char s2 = u" "u \<noteq> []" "map_of unit_map u = Some k"
    and "v \<le> 2 ^ 63 div k" "v * k + f * k div scale \<le> 2 ^ 63"
  shows "dur_term (c # cs) = Some (v * k + f * k div scale, dropWhile unit_char s2)"
  using assms by (simp add: dur_term_def Let_def not_less del: leading_int.simps)

lemma dur_term_frac:
  assumes "n * 10 ^ prec + v mod 10 ^ prec \<le> 2 ^ 63" and "prec \<le> 9"
    and u: "map_of unit_map u = Some (10 ^ prec)" "list_all unit_char u" "u \<noteq> []"
  shows "dur_term (show_nat n @ fst (fmt_frac prec v u)) = Some (n * 10 ^ prec + v mod 10 ^ prec, [])"
proof -
  obtain c cs where h: "show_nat n = c # cs" "digit_val c \<noteq> None" using show_nat_head by blast
  have tw: "takeWhile unit_char u = u" "dropWhile unit_char u = []" using u(2) by (auto simp: list_all_iff)
  have hd: "digit_val (hd u) = None" "hd u \<noteq> CHR ''.''" using u(2,3) by (cases u; simp add: unit_char_def)+
  have "n \<le> n * 10 ^ prec" by simp
  then have n: "n \<le> 2 ^ 63" using assms(1) by linarith
  have le: "n \<le> 2 ^ 63 div 10 ^ prec"
    by (subst less_eq_div_iff_mult_less_eq) (simp, use assms(1) in linarith)
  show ?thesis
  proof (cases rule: fmt_frac_spec[of v prec u])
    case whole
    have li: "leading_int 0 (c # cs @ u) = Some (n, u)" using leading_int_show[OF n, of u] hd(1) h(1) by simp
    have "dur_term (c # cs @ u) = Some (n * 10 ^ prec + 0 * 10 ^ prec div 1, dropWhile unit_char u)"
      by (rule dur_termI[OF h(2) li]) (use hd tw u le whole assms(1) in \<open>auto split: list.split\<close>)
    with whole h tw show ?thesis by simp
  next
    case (frac fs k f)
    have dot: "digit_val CHR ''.'' = None" by (simp add: digit_val_def)
    have li: "leading_int 0 (c # cs @ CHR ''.'' # fs @ u) = Some (n, CHR ''.'' # fs @ u)"
      using leading_int_show[OF n, of "CHR ''.'' # fs @ u"] dot h(1) by simp
    have "f \<le> f * 10 ^ (prec - k)" "v mod 10 ^ prec < 10 ^ prec" by simp_all
    moreover have "(10::nat) ^ prec \<le> 10 ^ 9" using assms(2) by (rule power_increasing) simp
    ultimately have "f < 10 ^ 9" using frac(5) by linarith
    then have "f < 2 ^ 60" by simp
    then have "leading_fraction 0 1 False (fs @ u) = leading_fraction f (10 ^ k) False u"
      using leading_fraction_digits[OF frac(2), of 1 u] frac(3) by simp
    moreover obtain x xs where x: "u = x # xs" using u(3) by (cases u) auto
    ultimately have lf: "leading_fraction 0 1 False (fs @ u) = (f, 10 ^ k, u)" using hd by simp
    have "(10::nat) ^ prec = 10 ^ (prec - k) * 10 ^ k" using frac(4) by (simp flip: power_add)
    then have "f * 10 ^ prec = f * 10 ^ (prec - k) * 10 ^ k" by simp
    then have q: "f * 10 ^ prec div 10 ^ k = v mod 10 ^ prec" unfolding frac(5) by simp
    have "dur_term (c # cs @ CHR ''.'' # fs @ u) = Some (n * 10 ^ prec + f * 10 ^ prec div 10 ^ k, dropWhile unit_char u)"
      by (rule dur_termI[OF h(2) li]) (use lf q tw u le assms(1) in auto)
    with frac(1) q h tw show ?thesis by simp
  qed
qed

lemma dur_term_unit:
  assumes "n * k \<le> 2 ^ 63" "0 < k" and "map_of unit_map [c] = Some k" "unit_char c" and "digit_val (hd r) \<noteq> None" "r \<noteq> []"
  shows "dur_term (show_nat n @ c # r) = Some (n * k, r)"
proof -
  obtain x xs where h: "show_nat n = x # xs" "digit_val x \<noteq> None" using show_nat_head by blast
  have "n \<le> n * k" using assms(2) by simp
  then have n: "n \<le> 2 ^ 63" using assms(1) by linarith
  have le: "n \<le> 2 ^ 63 div k" using assms(1,2) by (subst less_eq_div_iff_mult_less_eq) simp_all
  have "digit_val c = None" "c \<noteq> CHR ''.''" using assms(4) by (simp_all add: unit_char_def)
  then have "leading_int 0 (x # xs @ c # r) = Some (n, c # r)" using leading_int_show[OF n, of "c # r"] h(1) by simp
  moreover obtain y ys where "r = y # ys" using assms(6) by (cases r) auto
  moreover from this have "\<not> unit_char y" using assms(5) by (simp add: unit_char_def)
  ultimately have "dur_term (x # xs @ c # r) = Some (n * k + 0 * k div 1, dropWhile unit_char (c # r))"
    using assms le \<open>c \<noteq> _\<close> h(2) by (intro dur_termI[where u = "[c]"]) auto
  with h \<open>r = _\<close> \<open>\<not> unit_char y\<close> assms(4) show ?thesis by simp
qed

lemma dur_sum_step: "dur_term s = Some (v, r) \<Longrightarrow> d + v \<le> 2 ^ 63 \<Longrightarrow> dur_sum d s = dur_sum (d + v) r"
  by (subst dur_sum.simps) (auto simp: dur_term_def not_less)

lemma dur_sum_Nil: "dur_sum d [] = Some d"
  by (subst dur_sum.simps) simp

lemmas unit_facts = unit_map_def unit_char_def digit_val_def micro_sign_def

lemma dur_sum_small:
  assumes "u < 1000000000" "u \<noteq> 0"
  shows "dur_sum 0 (abs_duration_string u) = Some u"
proof -
  obtain prec unit where pu: "(if u < 1000 then (0 :: nat, ''ns'') else if u < 1000000 then (3, micro_sign @ ''s'') else (6, ''ms'')) = (prec, unit)"
    by fastforce
  then have unit: "prec \<le> 9" "map_of unit_map unit = Some (10 ^ prec)" "list_all unit_char unit" "unit \<noteq> []"
    by (auto simp: unit_facts split: if_splits)
  obtain tail v where t: "fmt_frac prec u unit = (tail, v)" by fastforce
  then have v: "v = u div 10 ^ prec" by (cases rule: fmt_frac_spec[of u prec unit]) auto
  have "dur_term (show_nat v @ fst (fmt_frac prec u unit)) = Some (v * 10 ^ prec + u mod 10 ^ prec, [])"
    by (rule dur_term_frac) (use assms unit v in \<open>auto simp: div_mult_mod_eq\<close>)
  then have "dur_term (show_nat v @ tail) = Some (u, [])" unfolding v t[unfolded v] div_mult_mod_eq fst_conv .
  moreover have "abs_duration_string u = show_nat v @ tail"
    using assms pu t by (simp add: abs_duration_string_def)
  ultimately show ?thesis using assms(1) by (simp add: dur_sum_step dur_sum_Nil)
qed

lemma dur_sum_large:
  assumes "1000000000 \<le> u" "u \<le> 2 ^ 63"
  shows "dur_sum 0 (abs_duration_string u) = Some u"
proof -
  obtain tail secs where t: "fmt_frac 9 u ''s'' = (tail, secs)" by fastforce
  then have secs: "secs = u div 10 ^ 9" by (cases rule: fmt_frac_spec[of u 9 "''s''"]) auto
  define mins where "mins = secs div 60"
  define hours where "hours = mins div 60"
  have u: "u = hours * 3600000000000 + (mins mod 60 * 60000000000 + (secs mod 60 * 10 ^ 9 + u mod 10 ^ 9))"
  proof -
    have "u = secs * 10 ^ 9 + u mod 10 ^ 9" "secs = mins * 60 + secs mod 60" "mins = hours * 60 + mins mod 60"
      by (simp_all add: secs mins_def hours_def)
    then show ?thesis by simp
  qed
  define s0 where "s0 = show_nat (secs mod 60) @ tail"
  have d0: "dur_term s0 = Some (secs mod 60 * 10 ^ 9 + u mod 10 ^ 9, [])"
    unfolding s0_def using dur_term_frac[of "secs mod 60" 9 u "''s''"] u assms(2) t by (simp add: unit_facts)
  define s1 where "s1 = show_nat (mins mod 60) @ CHR ''m'' # s0"
  have "dur_term s1 = Some (mins mod 60 * 60000000000, s0)"
    unfolding s1_def using u assms(2) show_nat_head[of "secs mod 60"]
    by (intro dur_term_unit) (auto simp: unit_facts s0_def)
  note d1 = this
  define s2 where "s2 = show_nat hours @ CHR ''h'' # s1"
  have d2: "dur_term s2 = Some (hours * 3600000000000, s1)"
    unfolding s2_def using u assms(2) show_nat_head[of "mins mod 60"]
    by (intro dur_term_unit) (auto simp: unit_facts s1_def)
  have s: "abs_duration_string u = (if mins = 0 then s0 else if hours = 0 then s1 else s2)"
    using assms(1) t by (simp add: abs_duration_string_def Let_def mins_def hours_def s0_def s1_def s2_def)
  consider "mins = 0" | "mins \<noteq> 0" "hours = 0" | "mins \<noteq> 0" "hours \<noteq> 0" by blast
  then show ?thesis
  proof cases
    case 1
    then have "hours = 0" by (simp add: hours_def)
    with 1 u have "u = secs mod 60 * 10 ^ 9 + u mod 10 ^ 9" by simp
    then show ?thesis using 1 s d0 assms(2) by (simp add: dur_sum_step dur_sum_Nil)
  next
    case 2
    then have "u = mins mod 60 * 60000000000 + (secs mod 60 * 10 ^ 9 + u mod 10 ^ 9)" using u by simp
    then show ?thesis using 2 s d0 d1 assms(2) by (simp add: dur_sum_step dur_sum_Nil)
  next
    case 3
    then have "dur_sum 0 s2 = dur_sum (hours * 3600000000000 + mins mod 60 * 60000000000) s0"
      using d1 d2 u assms(2) by (simp add: dur_sum_step)
    also have "\<dots> = Some u" using d0 u assms(2) by (simp add: dur_sum_step dur_sum_Nil)
    finally show ?thesis using 3 s by simp
  qed
qed

lemma fmt_frac_tail: "unit \<noteq> [] \<Longrightarrow> fst (fmt_frac prec v unit) \<noteq> []"
  by (cases rule: fmt_frac_spec[of v prec unit]) auto

lemma abs_duration_string_head: "\<exists>n t. abs_duration_string u = show_nat n @ t \<and> t \<noteq> []"
proof (cases "u < 1000000000")
  case True
  have zero: "''0s'' = show_nat 0 @ ''s''" by code_simp
  have frac: "\<exists>n t. (let (tail, v) = fmt_frac prec u unit in show_nat v @ tail) = show_nat n @ t \<and> t \<noteq> []"
    if "unit \<noteq> []" for prec unit using fmt_frac_tail[OF that, of prec u] by (auto simp: case_prod_beta)
  show ?thesis
  proof (cases "u = 0")
    case True
    then show ?thesis using zero by (intro exI[of _ 0] exI[of _ "''s''"]) (simp add: abs_duration_string_def)
  next
    case False
    with True frac[of "''ns''" 0] frac[of "micro_sign @ ''s''" 3] frac[of "''ms''" 6] show ?thesis
      by (simp add: abs_duration_string_def micro_sign_def)
  qed
next
  case False
  obtain tail secs where t: "fmt_frac 9 u ''s'' = (tail, secs)" by fastforce
  then have "tail \<noteq> []" using fmt_frac_tail[of "''s''" 9 u] by simp
  with False t show ?thesis by (fastforce simp: abs_duration_string_def Let_def)
qed

lemma abs_duration_string_last: "last (abs_duration_string u) = CHR ''s''"
proof -
  have "\<exists>p. fst (fmt_frac prec v tail) = p @ tail" for prec v tail
    by (cases rule: fmt_frac_spec[of v prec tail]) auto
  then have "last (fst (fmt_frac prec v tail)) = last tail" if "tail \<noteq> []" for prec v tail
    using that by (metis last_appendR)
  then show ?thesis
    using fmt_frac_tail by (simp add: abs_duration_string_def Let_def case_prod_beta micro_sign_def)
qed

text \<open>Printing a duration and parsing it back is the identity on every duration, the most negative one
  included.\<close>

theorem duration_round_trip:
  assumes "min_int \<le> d" "d \<le> max_int"
  shows "parse_duration (duration_string d) = Some d"
proof -
  define u where "u = nat \<bar>d\<bar>"
  have u: "u \<le> 2 ^ 63" using assms by (auto simp: u_def min_int_def max_int_def)
  have sum: "dur_sum 0 (abs_duration_string u) = Some u"
  proof (cases "u = 0")
    case True
    have "fmt_frac 9 0 ''s'' = (''s'', 0)" "show_nat 0 = ''0''" by code_simp+
    then have "dur_term ''0s'' = Some (0, [])" using dur_term_frac[of 0 9 0 "''s''"] by (simp add: unit_facts)
    with True show ?thesis by (simp add: abs_duration_string_def dur_sum_step dur_sum_Nil)
  next
    case False
    then show ?thesis using dur_sum_small dur_sum_large u by (cases "u < 1000000000") auto
  qed
  obtain n t where nt: "abs_duration_string u = show_nat n @ t" "t \<noteq> []" using abs_duration_string_head by blast
  obtain c cs where c: "show_nat n = c # cs" "c \<noteq> CHR ''-''" "c \<noteq> CHR ''+''" using show_nat_head by blast
  with nt have h: "abs_duration_string u = c # cs @ t" "c \<noteq> CHR ''-''" "c \<noteq> CHR ''+''" "abs_duration_string u \<noteq> ''0''"
    by auto
  show ?thesis
  proof (cases "d < 0")
    case True
    then have "duration_string d = CHR ''-'' # abs_duration_string u" by (simp add: duration_string_def u_def)
    then show ?thesis using True sum h by (simp add: parse_duration_def u_def)
  next
    case False
    then have "duration_string d = abs_duration_string u" "int u = d" by (simp_all add: duration_string_def u_def)
    moreover have "\<not> u > 2 ^ 63 - 1" using assms(2) False by (simp add: u_def max_int_def)
    ultimately show ?thesis using sum h nt(2) by (auto simp: parse_duration_def)
  qed
qed

lemma duration_round_trip_witness: "parse_duration (duration_string (-90061001000000)) = Some (-90061001000000)"
  by (rule duration_round_trip) (simp_all add: min_int_def max_int_def)

end
