(* ===== verification/Gen_Text.thy ===== *)
theory Gen_Text
imports Go_Prelude
begin

text \<open>What the generated text files share (\<^verbatim>\<open>internal/gen\<close>): lines, and the notice they open with.\<close>

definition nl :: string where "nl = [CHR 0x0A]"

definition lines :: "string list \<Rightarrow> string" where
  "lines ls = concat (map (\<lambda>l. l @ nl) ls)"

definition header_text :: string where
  "header_text = ''Generated by conductor from the application graph. DO NOT EDIT.''"

end
