(* ===== verification/Params.thy ===== *)
theory Params
imports Go_Duration App_Model Hex Gen_Text
begin

text \<open>
  Parameters: the typed fields (\<^verbatim>\<open>param.go\<close>), the parameter files (\<^verbatim>\<open>paramfile.go\<close>), the ROS services on
  them (\<^verbatim>\<open>param_services.go\<close>, with the messages of \<^verbatim>\<open>param_wire.go\<close>), the parameter \<^verbatim>\<open>use_sim_time\<close>
  (\<^verbatim>\<open>clock.go\<close>) and the file the generator writes (\<^verbatim>\<open>ParamsYAML\<close> in \<^verbatim>\<open>internal/gen/gen.go\<close>).

  \<^verbatim>\<open>strconv.ParseFloat\<close> and \<^verbatim>\<open>strconv.FormatFloat\<close> are the arguments \<open>pf\<close> and \<open>ff\<close>. An integer value is an
  \<^typ>\<open>int\<close>, in the range of \<^verbatim>\<open>int64\<close> where that matters; nothing is computed with it. Why a library
  parser refused a text is not kept. \<^verbatim>\<open>strconv.Quote\<close> is the one on text without bytes above 127.
\<close>

section \<open>Types and values\<close>

text \<open>The Go type of a parameter. \<open>TOther\<close> is any type \<^verbatim>\<open>parseInto\<close> does not know, with the ROS type its
  kind has.\<close>

datatype param_type = TString | TFloat | TInt | TBool | TDuration | TOther string "8 word"

datatype param_value = VString string | VFloat float64 | VInt int | VBool bool | VDuration int | VOther

abbreviation paramTypeNotSet :: "8 word" where "paramTypeNotSet \<equiv> 0"
abbreviation paramTypeBool :: "8 word" where "paramTypeBool \<equiv> 1"
abbreviation paramTypeInteger :: "8 word" where "paramTypeInteger \<equiv> 2"
abbreviation paramTypeDouble :: "8 word" where "paramTypeDouble \<equiv> 3"
abbreviation paramTypeString :: "8 word" where "paramTypeString \<equiv> 4"

definition type_name :: "param_type \<Rightarrow> string" where
  "type_name t = (case t of TString \<Rightarrow> ''string'' | TFloat \<Rightarrow> ''float64'' | TInt \<Rightarrow> ''int'' | TBool \<Rightarrow> ''bool''
     | TDuration \<Rightarrow> ''time.Duration'' | TOther n _ \<Rightarrow> n)"

definition ros_type :: "param_type \<Rightarrow> 8 word" where
  "ros_type t = (case t of TBool \<Rightarrow> paramTypeBool | TInt \<Rightarrow> paramTypeInteger | TDuration \<Rightarrow> paramTypeInteger
     | TFloat \<Rightarrow> paramTypeDouble | TString \<Rightarrow> paramTypeString | TOther _ k \<Rightarrow> k)"

definition zero_value :: "param_type \<Rightarrow> param_value" where
  "zero_value t = (case t of TString \<Rightarrow> VString [] | TFloat \<Rightarrow> VFloat (Real 0) | TInt \<Rightarrow> VInt 0 | TBool \<Rightarrow> VBool False
     | TDuration \<Rightarrow> VDuration 0 | TOther _ _ \<Rightarrow> VOther)"

definition value_of_type :: "param_type \<Rightarrow> param_value \<Rightarrow> bool" where
  "value_of_type t v \<longleftrightarrow> (case v of VString _ \<Rightarrow> t = TString | VFloat _ \<Rightarrow> t = TFloat | VInt _ \<Rightarrow> t = TInt
     | VBool _ \<Rightarrow> t = TBool | VDuration _ \<Rightarrow> t = TDuration | VOther \<Rightarrow> (\<exists>n k. t = TOther n k))"

section \<open>Parsing values\<close>

definition parse_bool :: "string \<Rightarrow> bool option" where
  "parse_bool s =
     (if s \<in> {''1'', ''t'', ''T'', ''TRUE'', ''true'', ''True''} then Some True
      else if s \<in> {''0'', ''f'', ''F'', ''FALSE'', ''false'', ''False''} then Some False
      else None)"

definition format_bool :: "bool \<Rightarrow> string" where
  "format_bool b = (if b then ''true'' else ''false'')"

definition parse_failed :: "param_type \<Rightarrow> string \<Rightarrow> goerror" where
  "parse_failed t s = Errorf ''parsing %q as %s'' [GStr s, GStr (type_name t)]"

definition parse_into :: "(string \<Rightarrow> float64 option) \<Rightarrow> param_type \<Rightarrow> string \<Rightarrow> param_value result" where
  "parse_into pf t s =
     (case t of
        TString \<Rightarrow> Inr (VString s)
      | TFloat \<Rightarrow> (case pf s of None \<Rightarrow> Inl (parse_failed t s) | Some x \<Rightarrow> Inr (VFloat x))
      | TInt \<Rightarrow> (case atoi s of None \<Rightarrow> Inl (parse_failed t s) | Some i \<Rightarrow> Inr (VInt i))
      | TBool \<Rightarrow> (case parse_bool s of None \<Rightarrow> Inl (parse_failed t s) | Some b \<Rightarrow> Inr (VBool b))
      | TDuration \<Rightarrow>
          (case parse_duration s of
             Some d \<Rightarrow> Inr (VDuration d)
           | None \<Rightarrow> (case atoi (trim_space s) of Some n \<Rightarrow> Inr (VDuration n) | None \<Rightarrow> Inl (parse_failed t s)))
      | TOther _ _ \<Rightarrow> Inl (Errorf ''unsupported param type *%s'' [GStr (type_name t)]))"

definition yaml_scalar :: "string \<Rightarrow> string" where
  "yaml_scalar raw =
     (let s = trim_space raw
      in if 2 \<le> length s \<and> (hd s = CHR 0x22 \<or> hd s = CHR 0x27) \<and> last s = hd s then butlast (tl s) else s)"

definition parse_yaml_scalar :: "(string \<Rightarrow> float64 option) \<Rightarrow> param_type \<Rightarrow> string \<Rightarrow> param_value result" where
  "parse_yaml_scalar pf t raw = parse_into pf t (yaml_scalar raw)"

section \<open>Handles\<close>

text \<open>A handle is a parameter behind the closures \<^verbatim>\<open>get\<close> and \<^verbatim>\<open>set\<close>: that of a \<^verbatim>\<open>Param\<close> field, or the one of
  \<^verbatim>\<open>use_sim_time\<close>, which refuses to change.\<close>

record param_handle =
  h_name :: string
  h_type :: param_type
  h_val :: param_value
  h_fixed :: bool

definition use_sim_time :: string where "use_sim_time = ''use_sim_time''"

definition sim_time_handle :: "bool \<Rightarrow> param_handle" where
  "sim_time_handle simulated = \<lparr>h_name = use_sim_time, h_type = TBool, h_val = VBool simulated, h_fixed = True\<rparr>"

definition sim_time_error :: "param_value \<Rightarrow> goerror" where
  "sim_time_error v =
     Errorf ''use_sim_time is %v for this process and cannot be changed while it runs; start it with -use-sim-time%s instead''
       (case v of VBool b \<Rightarrow> [GStr (format_bool b), GStr (if b then ''=false'' else '''')] | _ \<Rightarrow> [])"

definition handle_set :: "(string \<Rightarrow> float64 option) \<Rightarrow> string \<Rightarrow> param_handle \<Rightarrow> param_handle result" where
  "handle_set pf raw h =
     bind_result (parse_yaml_scalar pf (h_type h) raw) (\<lambda>v.
       if h_fixed h then (if v = h_val h then Inr h else Inl (sim_time_error (h_val h)))
       else Inr (h\<lparr>h_val := v\<rparr>))"

record param_msg_value =
  pmv_type :: "8 word"
  pmv_bool :: bool
  pmv_int :: int
  pmv_double :: float64
  pmv_string :: string

definition not_set :: param_msg_value where
  "not_set = \<lparr>pmv_type = paramTypeNotSet, pmv_bool = False, pmv_int = 0, pmv_double = Real 0, pmv_string = []\<rparr>"

definition handle_value :: "param_handle \<Rightarrow> param_msg_value" where
  "handle_value h =
     (let m = not_set\<lparr>pmv_type := ros_type (h_type h)\<rparr>
      in case h_val h of
           VBool b \<Rightarrow> m\<lparr>pmv_bool := b\<rparr>
         | VInt i \<Rightarrow> m\<lparr>pmv_int := i\<rparr>
         | VDuration d \<Rightarrow> m\<lparr>pmv_int := d\<rparr>
         | VFloat x \<Rightarrow> m\<lparr>pmv_double := x\<rparr>
         | VString s \<Rightarrow> m\<lparr>pmv_string := s\<rparr>
         | VOther \<Rightarrow> m)"

definition set_from_value :: "(string \<Rightarrow> float64 option) \<Rightarrow> (float64 \<Rightarrow> string) \<Rightarrow> param_msg_value \<Rightarrow> param_handle \<Rightarrow> param_handle result" where
  "set_from_value pf ff v h =
     (let want = ros_type (h_type h)
      in if pmv_type v \<noteq> want
         then Inl (Errorf ''parameter %q is type %d, got %d'' [GStr (h_name h), GInt (uint want), GInt (uint (pmv_type v))])
         else if want = paramTypeBool then handle_set pf (format_bool (pmv_bool v)) h
         else if want = paramTypeInteger
         then handle_set pf (if h_type h = TDuration then duration_string (pmv_int v) else itoa (pmv_int v)) h
         else if want = paramTypeDouble then handle_set pf (ff (pmv_double v)) h
         else if want = paramTypeString then handle_set pf (pmv_string v) h
         else Inl (Errorf ''parameter %q has an unsupported type'' [GStr (h_name h)]))"

section \<open>Binding\<close>

definition snake_case :: "string \<Rightarrow> string" where
  "snake_case s = concat (map (\<lambda>(i, c). let n = (of_char c :: nat) in
     if 65 \<le> n \<and> n \<le> 90 then (if i > 0 then ''_'' else []) @ [char_of (n + 32)] else [c])
     (zip [0..<length s] s))"

text \<open>\<open>raw\<close> is the text a parameter file has for the parameter, if any.\<close>

definition bind_param :: "(string \<Rightarrow> float64 option) \<Rightarrow> (string \<Rightarrow> string option) \<Rightarrow> param_type \<Rightarrow> string \<Rightarrow> string \<Rightarrow> string
    \<Rightarrow> param_handle list \<Rightarrow> param_handle list result" where
  "bind_param pf vals t field name_tag dflt hs =
     (let name = (if name_tag = [] then snake_case field else name_tag)
      in bind_result
           (if dflt = [] then Inr (zero_value t)
            else case parse_into pf t dflt of
                Inl e \<Rightarrow> Inl (Errorf ''default %q: %w'' [GStr dflt, GErr e])
              | Inr v \<Rightarrow> Inr v)
           (\<lambda>v. let h = \<lparr>h_name = name, h_type = t, h_val = v, h_fixed = False\<rparr>
                in case vals name of
                     None \<Rightarrow> Inr (hs @ [h])
                   | Some raw \<Rightarrow>
                       (case handle_set pf raw h of
                          Inl e \<Rightarrow> Inl (Errorf ''parameter %q from file: %w'' [GStr name, GErr e])
                        | Inr h \<Rightarrow> Inr (hs @ [h]))))"

section \<open>The services\<close>

text \<open>\<^verbatim>\<open>byName\<close>: of two parameters with one name, the later.\<close>

definition by_name :: "param_handle list \<Rightarrow> string \<Rightarrow> nat option" where
  "by_name hs n = map_of (rev (zip (map h_name hs) [0..<length hs])) n"

definition list_parameters :: "string list \<Rightarrow> param_handle list \<Rightarrow> string list" where
  "list_parameters wanted hs =
     sort (filter (\<lambda>n. wanted = [] \<or> (\<exists>p \<in> set wanted. prefix p n)) (map h_name hs))"

definition get_parameters :: "string list \<Rightarrow> param_handle list \<Rightarrow> param_msg_value list" where
  "get_parameters names hs =
     map (\<lambda>n. case by_name hs n of None \<Rightarrow> not_set | Some i \<Rightarrow> handle_value (hs ! i)) names"

definition get_parameter_types :: "string list \<Rightarrow> param_handle list \<Rightarrow> 8 word list" where
  "get_parameter_types names hs =
     map (\<lambda>n. case by_name hs n of None \<Rightarrow> paramTypeNotSet | Some i \<Rightarrow> ros_type (h_type (hs ! i))) names"

record param_descriptor =
  pds_name :: string
  pds_type :: "8 word"
  pds_description :: string

definition describe_parameters :: "string list \<Rightarrow> param_handle list \<Rightarrow> param_descriptor list" where
  "describe_parameters names hs =
     map (\<lambda>n. case by_name hs n of
         None \<Rightarrow> \<lparr>pds_name = n, pds_type = 0, pds_description = []\<rparr>
       | Some i \<Rightarrow> \<lparr>pds_name = n, pds_type = ros_type (h_type (hs ! i)),
                    pds_description = ''declared by conductor as '' @ type_name (h_type (hs ! i))\<rparr>) names"

type_synonym param_msg = "string \<times> param_msg_value"

text \<open>The result of one assignment: successful, or the reason it was not.\<close>

type_synonym set_result = "goerror option"

definition no_such_parameter :: "string \<Rightarrow> goerror" where
  "no_such_parameter n = Errorf ''no such parameter: %s'' [GStr n]"

definition apply_param :: "(string \<Rightarrow> float64 option) \<Rightarrow> (float64 \<Rightarrow> string) \<Rightarrow> param_msg \<Rightarrow> param_handle list
    \<Rightarrow> set_result \<times> param_msg option \<times> param_handle list" where
  "apply_param pf ff p hs =
     (case by_name hs (fst p) of
        None \<Rightarrow> (Some (no_such_parameter (fst p)), None, hs)
      | Some i \<Rightarrow>
          (case set_from_value pf ff (snd p) (hs ! i) of
             Inl e \<Rightarrow> (Some e, None, hs)
           | Inr h \<Rightarrow> (None, Some (fst p, handle_value h), hs[i := h])))"

fun apply_params :: "(string \<Rightarrow> float64 option) \<Rightarrow> (float64 \<Rightarrow> string) \<Rightarrow> param_msg list \<Rightarrow> param_handle list
    \<Rightarrow> set_result list \<times> param_msg list \<times> param_handle list" where
  "apply_params pf ff [] hs = ([], [], hs)"
| "apply_params pf ff (p # ps) hs =
     (let (res, applied, hs) = apply_param pf ff p hs;
          (results, changed, hs) = apply_params pf ff ps hs
      in (res # results, (case applied of None \<Rightarrow> changed | Some m \<Rightarrow> m # changed), hs))"

text \<open>Each setter answers with its result, the parameters it announces on \<^verbatim>\<open>parameter_events\<close>, where nothing
  is published for none, and the parameters afterwards.\<close>

definition set_parameters :: "(string \<Rightarrow> float64 option) \<Rightarrow> (float64 \<Rightarrow> string) \<Rightarrow> param_msg list \<Rightarrow> param_handle list
    \<Rightarrow> set_result list \<times> param_msg list \<times> param_handle list" where
  "set_parameters pf ff ps hs = apply_params pf ff ps hs"

definition atomic_problem :: "param_handle list \<Rightarrow> param_msg \<Rightarrow> goerror option" where
  "atomic_problem hs p =
     (case by_name hs (fst p) of
        None \<Rightarrow> Some (no_such_parameter (fst p))
      | Some i \<Rightarrow> if ros_type (h_type (hs ! i)) \<noteq> pmv_type (snd p)
                  then Some (Errorf ''wrong type for parameter %s'' [GStr (fst p)]) else None)"

definition set_parameters_atomically :: "(string \<Rightarrow> float64 option) \<Rightarrow> (float64 \<Rightarrow> string) \<Rightarrow> param_msg list \<Rightarrow> param_handle list
    \<Rightarrow> set_result \<times> param_msg list \<times> param_handle list" where
  "set_parameters_atomically pf ff ps hs =
     (case find (\<lambda>p. atomic_problem hs p \<noteq> None) ps of
        Some p \<Rightarrow> (atomic_problem hs p, [], hs)
      | None \<Rightarrow> (let (_, changed, hs) = apply_params pf ff ps hs in (None, changed, hs)))"

section \<open>Parameter files\<close>

type_synonym param_file = "string \<Rightarrow> (string \<Rightarrow> string option) option"

definition param_wildcard :: string where "param_wildcard = ''/**''"

text \<open>\<open>quote\<close> is the quote the scan is inside of.\<close>

fun strip_comment :: "char option \<Rightarrow> string \<Rightarrow> string" where
  "strip_comment quote [] = []"
| "strip_comment (Some q) (c # cs) = c # strip_comment (if c = q then None else Some q) cs"
| "strip_comment None (c # cs) =
     (if c = CHR 0x22 \<or> c = CHR 0x27 then c # strip_comment (Some c) cs
      else if c = CHR ''#'' then []
      else c # strip_comment None cs)"

definition cut :: "char \<Rightarrow> string \<Rightarrow> (string \<times> string) option" where
  "cut c s = (if c \<in> set s then Some (takeWhile (\<lambda>x. x \<noteq> c) s, tl (dropWhile (\<lambda>x. x \<noteq> c) s)) else None)"

record parse_state =
  ps_node :: string
  ps_in :: bool
  ps_out :: param_file

definition parse_param_line :: "string \<Rightarrow> int \<Rightarrow> string \<Rightarrow> parse_state \<Rightarrow> parse_state result" where
  "parse_param_line file n raw st =
     (let line = strip_comment None raw
      in if trim_space line = [] then Inr st
         else if CHR 0x09 \<in> set line then Inl (Errorf ''%s:%d: tabs are not valid YAML indentation'' [GStr file, GInt n])
         else
          (let indent = length (takeWhile (\<lambda>c. c = CHR '' '') line);
               content = trim_space line
           in case cut (CHR '':'') content of
                None \<Rightarrow> Inl (Errorf ''%s:%d: expected \"key: value\", got %q'' [GStr file, GInt n, GStr content])
              | Some (k, v) \<Rightarrow>
                  (let key = trim_space (trim_char (CHR 0x22) k); val = trim_space v
                   in if indent = 0
                      then (if val \<noteq> [] then Inl (Errorf ''%s:%d: node %q must be followed by ros__parameters, not a value''
                                                 [GStr file, GInt n, GStr key])
                            else Inr \<lparr>ps_node = key, ps_in = False,
                                      ps_out = (if ps_out st key = None then (ps_out st)(key \<mapsto> Map.empty) else ps_out st)\<rparr>)
                      else if ps_node st = []
                      then Inl (Errorf ''%s:%d: parameter %q appears before any node name'' [GStr file, GInt n, GStr key])
                      else if key = ''ros__parameters'' then Inr (st\<lparr>ps_in := True\<rparr>)
                      else if \<not> ps_in st
                      then Inl (Errorf ''%s:%d: %q must appear under a ros__parameters block'' [GStr file, GInt n, GStr key])
                      else if val = []
                      then Inl (Errorf ''%s:%d: parameter %q has no value (nested parameter groups are not supported)''
                             [GStr file, GInt n, GStr key])
                      else Inr (st\<lparr>ps_out := (ps_out st)(ps_node st \<mapsto>
                             (case ps_out st (ps_node st) of None \<Rightarrow> Map.empty | Some m \<Rightarrow> m)(key \<mapsto> val))\<rparr>))))"

fun parse_param_lines :: "string \<Rightarrow> int \<Rightarrow> string list \<Rightarrow> parse_state \<Rightarrow> parse_state result" where
  "parse_param_lines file n [] st = Inr st"
| "parse_param_lines file n (raw # raws) st =
     bind_result (parse_param_line file n raw st) (parse_param_lines file (n + 1) raws)"

definition parse_param_file :: "string \<Rightarrow> string \<Rightarrow> param_file result" where
  "parse_param_file file src =
     bind_result (parse_param_lines file 1 (split_on (CHR 0x0A) src) \<lparr>ps_node = [], ps_in = False, ps_out = Map.empty\<rparr>)
       (\<lambda>st. Inr (ps_out st))"

definition merge_param_file :: "param_file \<Rightarrow> param_file \<Rightarrow> param_file" where
  "merge_param_file merged file n =
     (case file n of
        None \<Rightarrow> merged n
      | Some ps \<Rightarrow> Some ((case merged n of None \<Rightarrow> Map.empty | Some m \<Rightarrow> m) ++ ps))"

text \<open>\<open>read\<close> reads a file of the disk.\<close>

fun load_from :: "(string \<Rightarrow> string result) \<Rightarrow> param_file \<Rightarrow> string list \<Rightarrow> param_file result" where
  "load_from read merged [] = Inr merged"
| "load_from read merged (f # fs) =
     bind_result (read f) (\<lambda>src. bind_result (parse_param_file f src) (\<lambda>file. load_from read (merge_param_file merged file) fs))"

definition load_param_files :: "(string \<Rightarrow> string result) \<Rightarrow> string list \<Rightarrow> param_file result" where
  "load_param_files read files = load_from read Map.empty files"

definition for_node :: "param_file \<Rightarrow> string \<Rightarrow> string \<Rightarrow> string option" where
  "for_node file n =
     (case file param_wildcard of None \<Rightarrow> Map.empty | Some m \<Rightarrow> m) ++ (case file n of None \<Rightarrow> Map.empty | Some m \<Rightarrow> m)"

text \<open>What binding looks values up in: \<^verbatim>\<open>rt.paramValues[nr.name]\<close>, the loaded files as they are.\<close>

definition runtime_values :: "param_file \<Rightarrow> string \<Rightarrow> string \<Rightarrow> string option" where
  "runtime_values file n = (case file n of None \<Rightarrow> Map.empty | Some m \<Rightarrow> m)"

section \<open>The generated file\<close>

definition quote_char :: "char \<Rightarrow> string" where
  "quote_char c =
     (let n = (of_char c :: nat)
      in if c = CHR 0x22 \<or> c = CHR 0x5C then [CHR 0x5C, c]
         else if n = 7 then [CHR 0x5C, CHR ''a''] else if n = 8 then [CHR 0x5C, CHR ''b'']
         else if n = 12 then [CHR 0x5C, CHR ''f''] else if n = 10 then [CHR 0x5C, CHR ''n'']
         else if n = 13 then [CHR 0x5C, CHR ''r''] else if n = 9 then [CHR 0x5C, CHR ''t'']
         else if n = 11 then [CHR 0x5C, CHR ''v'']
         else if n < 32 \<or> n = 127 then [CHR 0x5C, CHR ''x''] @ hex_byte (word_of_nat n)
         else [c])"

definition quote :: "string \<Rightarrow> string" where
  "quote s = [CHR 0x22] @ concat (map quote_char s) @ [CHR 0x22]"

definition quoted_type :: "string \<Rightarrow> bool" where
  "quoted_type t \<longleftrightarrow> t = ''string'' \<or> t = ''time.Duration''"

definition param_text :: "param_decl \<Rightarrow> string" where
  "param_text p = (if quoted_type (pd_gotype p) then quote (pd_default p) else pd_default p)"

definition param_line :: "param_decl \<Rightarrow> string" where
  "param_line p =
     (if pd_default p = [] then ''    # '' @ pd_name p @ '': <no default; '' @ pd_gotype p @ ''>''
      else ''    '' @ pd_name p @ '': '' @ param_text p)"

definition node_lines :: "node_decl \<Rightarrow> string list" where
  "node_lines n =
     (if nd_params n = [] then []
      else [nd_name n @ '':'', ''  ros__parameters:''] @ map param_line (nd_params n))"

definition params_yaml :: "'v app \<Rightarrow> string" where
  "params_yaml app =
     lines ([''# '' @ header_text, ''# Load with: '' @ app_name app @ '' -params params.yaml'']
       @ concat (map node_lines (nodes app))
       @ (if \<forall>n \<in> set (nodes app). nd_params n = [] then [''# (no parameters declared)''] else []))"

section \<open>What is set is what is read\<close>

lemma trim_space_id:
  assumes "s = [] \<or> (\<not> is_space (hd s) \<and> \<not> is_space (last s))"
  shows "trim_space s = s"
proof (cases "s = []")
  case False
  with assms have "\<not> is_space (hd s)" "\<not> is_space (hd (rev s))" by (auto simp: hd_rev)
  then have "dropWhile is_space s = s" "dropWhile is_space (rev s) = rev s"
    using False by (simp_all add: dropWhile_eq_self_iff)
  then show ?thesis by (simp add: trim_space_def)
qed (simp add: trim_space_def)

lemma yaml_scalar_id:
  "s \<noteq> [] \<Longrightarrow> \<not> is_space (hd s) \<Longrightarrow> \<not> is_space (last s) \<Longrightarrow> hd s \<notin> {CHR 0x22, CHR 0x27} \<Longrightarrow> yaml_scalar s = s"
  by (simp add: yaml_scalar_def trim_space_id)

lemma yaml_scalar_quoted: "yaml_scalar ([CHR 0x22] @ s @ [CHR 0x22]) = s"
proof -
  have "trim_space ([CHR 0x22] @ s @ [CHR 0x22]) = [CHR 0x22] @ s @ [CHR 0x22]"
    by (rule trim_space_id) (simp add: is_space_def)
  then show ?thesis by (simp add: yaml_scalar_def)
qed

lemma digit_not_space: "digit_val c \<noteq> None \<Longrightarrow> \<not> is_space c \<and> c \<notin> {CHR 0x22, CHR 0x27}"
  by (auto simp: digit_val_def is_space_def)

lemma show_nat_last: "digit_val (last (show_nat n)) \<noteq> None"
  using set_show_nat[of "last (show_nat n)" n] by simp

lemma yaml_scalar_itoa: "yaml_scalar (itoa i) = itoa i"
proof (cases "i < 0")
  case True
  then show ?thesis using digit_not_space[OF show_nat_last[of "nat (- i)"]]
    by (intro yaml_scalar_id) (auto simp: itoa_def is_space_def)
next
  case False
  then show ?thesis using digit_not_space[OF show_nat_last[of "nat i"]] digit_not_space[OF hd_show_nat[of "nat i"]]
    by (intro yaml_scalar_id) (auto simp: itoa_def)
qed

lemma yaml_scalar_duration: "yaml_scalar (duration_string d) = duration_string d"
proof -
  define u where "u = nat \<bar>d\<bar>"
  obtain n t where h: "abs_duration_string u = show_nat n @ t" "t \<noteq> []" using abs_duration_string_head by blast
  obtain c cs where c: "show_nat n = c # cs" "digit_val c \<noteq> None" using show_nat_head by blast
  have l: "abs_duration_string u \<noteq> []" "last (abs_duration_string u) = CHR ''s''"
    using abs_duration_string_last[of u] h by auto
  have "hd (abs_duration_string u) = c" using h c by simp
  then have "\<not> is_space (hd (abs_duration_string u))" "hd (abs_duration_string u) \<notin> {CHR 0x22, CHR 0x27}"
    using digit_not_space[OF c(2)] by simp_all
  moreover have "duration_string d = abs_duration_string u \<or> duration_string d = CHR ''-'' # abs_duration_string u"
    by (auto simp: duration_string_def u_def)
  ultimately show ?thesis using l by (elim disjE) (auto intro!: yaml_scalar_id simp: is_space_def)
qed

lemma yaml_scalar_bool: "yaml_scalar (format_bool b) = format_bool b"
  by (rule yaml_scalar_id) (auto simp: format_bool_def is_space_def)

lemma parse_bool_format: "parse_bool (format_bool b) = Some b"
  by (simp add: parse_bool_def format_bool_def)

text \<open>The value a parameter of a type takes from a message. A string goes through \<^verbatim>\<open>parseYAMLScalar\<close>, which
  trims it and strips one pair of quotes.\<close>

definition stored :: "param_type \<Rightarrow> param_msg_value \<Rightarrow> param_value" where
  "stored t v = (case t of TString \<Rightarrow> VString (yaml_scalar (pmv_string v)) | TFloat \<Rightarrow> VFloat (pmv_double v)
     | TInt \<Rightarrow> VInt (pmv_int v) | TBool \<Rightarrow> VBool (pmv_bool v) | TDuration \<Rightarrow> VDuration (pmv_int v) | TOther _ _ \<Rightarrow> VOther)"

definition supported :: "param_type \<Rightarrow> bool" where
  "supported t \<longleftrightarrow> (\<forall>n k. t \<noteq> TOther n k)"

text \<open>A message that is well formed: its integer is one of 64 bits, and the library prints its number so
  that it reads back.\<close>

definition sound_value :: "(string \<Rightarrow> float64 option) \<Rightarrow> (float64 \<Rightarrow> string) \<Rightarrow> param_msg_value \<Rightarrow> bool" where
  "sound_value pf ff v \<longleftrightarrow> min_int \<le> pmv_int v \<and> pmv_int v \<le> max_int \<and> pf (yaml_scalar (ff (pmv_double v))) = Some (pmv_double v)"

lemma set_from_value_sound:
  assumes "supported (h_type h)" "pmv_type v = ros_type (h_type h)" "sound_value pf ff v"
  shows "set_from_value pf ff v h =
     (if h_fixed h then if stored (h_type h) v = h_val h then Inr h else Inl (sim_time_error (h_val h))
      else Inr (h\<lparr>h_val := stored (h_type h) v\<rparr>))"
  using assms
  by (cases "h_type h")
    (auto simp: set_from_value_def ros_type_def handle_set_def parse_yaml_scalar_def parse_into_def supported_def
      sound_value_def stored_def yaml_scalar_itoa yaml_scalar_duration yaml_scalar_bool parse_bool_format atoi_itoa duration_round_trip)

lemma by_name_Some: "by_name hs n = Some i \<Longrightarrow> i < length hs \<and> h_name (hs ! i) = n"
proof -
  assume "by_name hs n = Some i"
  then have "(n, i) \<in> set (zip (map h_name hs) [0..<length hs])"
    unfolding by_name_def using map_of_SomeD by fastforce
  then show ?thesis by (auto simp: set_zip)
qed

lemma map_update_same: "f h = f (hs ! i) \<Longrightarrow> map f (hs[i := h]) = map f hs"
  by (metis list_update_id map_update)

lemma by_name_update: "h_name h = h_name (hs ! i) \<Longrightarrow> by_name (hs[i := h]) n = by_name hs n"
  by (simp add: by_name_def map_update_same)

lemma get_after_update:
  assumes i: "by_name hs n = Some i" and h: "h_name h = h_name (hs ! i)"
  shows "get_parameters [m] (hs[i := h]) = (if m = n then [handle_value h] else get_parameters [m] hs)"
proof (cases "m = n")
  case True
  with by_name_Some[OF i] i h show ?thesis by (simp add: get_parameters_def by_name_update)
next
  case False
  then have "j \<noteq> i" if "by_name hs m = Some j" for j using by_name_Some[OF i] by_name_Some[OF that] by auto
  with False h show ?thesis by (auto simp: get_parameters_def by_name_update split: option.split)
qed

text \<open>C38. Setting one parameter, to a value of its own type, of a node: a parameter that is fixed, which only
  \<^verbatim>\<open>use_sim_time\<close> is, refuses a value other than the one it has, with an error that says so, nothing is announced and nothing changes. Every other
  parameter takes the value: the call succeeds, announces it, and it is what a reader gets from then on, every other parameter
  staying what it was; but a string is stored without its outer quotes and the spaces around it.\<close>

theorem param_set_get:
  assumes "by_name hs n = Some i" "supported (h_type (hs ! i))"
    and "pmv_type v = ros_type (h_type (hs ! i))" "sound_value pf ff v"
  shows "if h_fixed (hs ! i) \<and> stored (h_type (hs ! i)) v \<noteq> h_val (hs ! i)
    then set_parameters pf ff [(n, v)] hs = ([Some (sim_time_error (h_val (hs ! i)))], [], hs)
    else \<exists>hs'. set_parameters pf ff [(n, v)] hs
         = ([None], [(n, handle_value ((hs ! i)\<lparr>h_val := stored (h_type (hs ! i)) v\<rparr>))], hs')
       \<and> (\<forall>m. get_parameters [m] hs' = (if m = n then [handle_value ((hs ! i)\<lparr>h_val := stored (h_type (hs ! i)) v\<rparr>)]
                                        else get_parameters [m] hs))"
proof (cases "h_fixed (hs ! i) \<and> stored (h_type (hs ! i)) v \<noteq> h_val (hs ! i)")
  case True
  then show ?thesis using set_from_value_sound[OF assms(2-4)] assms(1) by (simp add: set_parameters_def apply_param_def Let_def)
next
  case False
  let ?h = "(hs ! i)\<lparr>h_val := stored (h_type (hs ! i)) v\<rparr>"
  have "set_from_value pf ff v (hs ! i) = Inr ?h" using set_from_value_sound[OF assms(2-4)] False by auto
  then have "set_parameters pf ff [(n, v)] hs = ([None], [(n, handle_value ?h)], hs[i := ?h])"
    using assms(1) by (simp add: set_parameters_def apply_param_def Let_def)
  with False get_after_update[OF assms(1), of ?h] show ?thesis by (intro if_not_P[THEN iffD2] exI[of _ "hs[i := ?h]"]) simp_all
qed

section \<open>All or nothing\<close>

lemma find_problem: "find (\<lambda>p. f p \<noteq> None) ps = None \<longleftrightarrow> (\<forall>p \<in> set ps. f p = None)"
  by (induction ps) auto

lemma apply_param_kinds:
  "apply_param pf ff p hs = (r, c, hs') \<Longrightarrow>
     map h_name hs' = map h_name hs \<and> map h_type hs' = map h_type hs \<and> map h_fixed hs' = map h_fixed hs
     \<and> (\<forall>j < length hs. h_fixed (hs ! j) \<longrightarrow> h_val (hs' ! j) = h_val (hs ! j))"
proof -
  have set: "h_name h' = h_name h \<and> h_type h' = h_type h \<and> h_fixed h' = h_fixed h \<and> (h_fixed h \<longrightarrow> h_val h' = h_val h)"
    if "handle_set pf raw h = Inr h'" for raw h h'
    using that by (auto simp: handle_set_def bind_result_Inr split: if_splits)
  have *: "h_name h' = h_name h \<and> h_type h' = h_type h \<and> h_fixed h' = h_fixed h \<and> (h_fixed h \<longrightarrow> h_val h' = h_val h)"
    if "set_from_value pf ff v h = Inr h'" for v h h'
    using that set by (auto simp: set_from_value_def Let_def split: if_splits)
  assume a: "apply_param pf ff p hs = (r, c, hs')"
  show ?thesis
  proof (cases "hs' = hs")
    case False
    with a obtain i h where "by_name hs (fst p) = Some i" "set_from_value pf ff (snd p) (hs ! i) = Inr h" "hs' = hs[i := h]"
      by (auto simp: apply_param_def split: option.splits sum.splits)
    with *[of "snd p" "hs ! i" h] show ?thesis
      using by_name_Some[of hs "fst p" i] by (auto simp: map_update_same nth_list_update)
  qed simp
qed

lemma apply_params_kinds:
  "map h_name (snd (snd (apply_params pf ff ps hs))) = map h_name hs \<and> map h_type (snd (snd (apply_params pf ff ps hs))) = map h_type hs
   \<and> map h_fixed (snd (snd (apply_params pf ff ps hs))) = map h_fixed hs
   \<and> (\<forall>j < length hs. h_fixed (hs ! j) \<longrightarrow> h_val (snd (snd (apply_params pf ff ps hs)) ! j) = h_val (hs ! j))"
proof (induction ps arbitrary: hs)
  case (Cons p ps)
  obtain r c hs1 where p: "apply_param pf ff p hs = (r, c, hs1)" by (metis prod_cases3)
  note k = apply_param_kinds[OF this]
  from k have l: "length hs1 = length hs" by (metis length_map)
  have "h_fixed (hs1 ! j) = h_fixed (hs ! j)" if "j < length hs" for j
    using k that l by (metis nth_map)
  with Cons.IH[of hs1] k l p show ?case by (auto simp: Let_def case_prod_beta)
qed simp

lemma atomic_problem_cong:
  assumes "map h_name hs' = map h_name hs" "map h_type hs' = map h_type hs"
  shows "atomic_problem hs' p = atomic_problem hs p"
proof -
  have "length hs' = length hs" using assms(1) by (metis length_map)
  then have "h_type (hs' ! i) = h_type (hs ! i)" if "by_name hs (fst p) = Some i" for i
    using by_name_Some[OF that] assms(2) by (metis nth_map)
  moreover have "by_name hs' (fst p) = by_name hs (fst p)" using assms(1) \<open>length hs' = _\<close> by (simp add: by_name_def)
  ultimately show ?thesis by (auto simp: atomic_problem_def split: option.split)
qed

lemma apply_params_succeed:
  assumes "\<forall>p \<in> set ps. atomic_problem hs p = None \<and> sound_value pf ff (snd p)"
    and "\<forall>h \<in> set hs. supported (h_type h) \<and> \<not> h_fixed h"
  shows "\<exists>changed hs'. apply_params pf ff ps hs = (replicate (length ps) None, changed, hs') \<and> map fst changed = map fst ps"
  using assms
proof (induction ps arbitrary: hs)
  case (Cons p ps)
  then obtain i where i: "by_name hs (fst p) = Some i" "pmv_type (snd p) = ros_type (h_type (hs ! i))"
    by (auto simp: atomic_problem_def split: option.splits if_splits)
  have h: "supported (h_type (hs ! i))" "\<not> h_fixed (hs ! i)" using Cons.prems(2) by_name_Some[OF i(1)] by auto
  define hs1 where "hs1 = hs[i := (hs ! i)\<lparr>h_val := stored (h_type (hs ! i)) (snd p)\<rparr>]"
  have p: "apply_param pf ff p hs = (None, Some (fst p, handle_value ((hs ! i)\<lparr>h_val := stored (h_type (hs ! i)) (snd p)\<rparr>)), hs1)"
    using set_from_value_sound[OF h(1) i(2)] Cons.prems(1) i(1) h(2) by (simp add: apply_param_def hs1_def)
  note k = apply_param_kinds[OF p]
  have "\<forall>h \<in> set hs1. supported (h_type h) \<and> \<not> h_fixed h"
    using Cons.prems(2) h by (auto simp: hs1_def dest!: set_update_subset_insert[THEN subsetD])
  moreover have "\<forall>q \<in> set ps. atomic_problem hs1 q = None \<and> sound_value pf ff (snd q)"
    using Cons.prems(1) k atomic_problem_cong[of hs1 hs] by auto
  ultimately obtain changed hs' where "apply_params pf ff ps hs1 = (replicate (length ps) None, changed, hs')" "map fst changed = map fst ps"
    using Cons.IH[of hs1] by blast
  with p show ?case by (simp add: Let_def)
qed simp


text \<open>It is not atomic with \<^verbatim>\<open>use_sim_time\<close> among the parameters: an assignment that would change it passes
  the check, is refused when it is applied, and the answer is still that all succeeded.\<close>

theorem atomic_refusal_hidden:
  assumes "by_name hs use_sim_time = Some i" "hs ! i = sim_time_handle b"
    and "\<forall>p \<in> set ps. atomic_problem hs p = None"
  shows "\<exists>changed hs'. set_parameters_atomically pf ff ps hs = (None, changed, hs') \<and> get_parameters [use_sim_time] hs' = [handle_value (sim_time_handle b)]"
proof -
  obtain rs changed hs' where a: "apply_params pf ff ps hs = (rs, changed, hs')" by (metis prod_cases3)
  have k: "map h_name hs' = map h_name hs" "map h_type hs' = map h_type hs" "map h_fixed hs' = map h_fixed hs"
    "\<forall>j < length hs. h_fixed (hs ! j) \<longrightarrow> h_val (hs' ! j) = h_val (hs ! j)"
    using apply_params_kinds[of pf ff ps hs] a by auto
  have i: "i < length hs" using by_name_Some[OF assms(1)] by simp
  have l: "length hs' = length hs" using k(1) by (metis length_map)
  then have "h_name (hs' ! i) = h_name (hs ! i)" "h_type (hs' ! i) = h_type (hs ! i)" "h_fixed (hs' ! i) = h_fixed (hs ! i)"
    using i k by (metis nth_map)+
  then have "hs' ! i = sim_time_handle b" using assms(2) k(4) i by (simp add: sim_time_handle_def)
  moreover have "by_name hs' use_sim_time = Some i" using assms(1) k(1) l by (simp add: by_name_def)
  moreover have "find (\<lambda>p. atomic_problem hs p \<noteq> None) ps = None" using assms(3) unfolding find_problem .
  ultimately show ?thesis using a by (simp add: set_parameters_atomically_def get_parameters_def)
qed

section \<open>The generated file reads back\<close>

definition special :: "char \<Rightarrow> bool" where
  "special c \<longleftrightarrow> c = CHR ''#'' \<or> c = CHR 0x22 \<or> c = CHR 0x27"

definition name_ok :: "string \<Rightarrow> bool" where
  "name_ok s \<longleftrightarrow> s \<noteq> [] \<and> s \<noteq> ''ros__parameters'' \<and> (\<forall>c \<in> set s. \<not> is_space c \<and> \<not> special c \<and> c \<noteq> CHR '':'' \<and> of_char c < (128 :: nat))"

text \<open>A default that the file can carry: for a text or a duration, one \<^verbatim>\<open>strconv.Quote\<close> has nothing to escape
  in; for other types, one line without quotes, comments and surrounding space. Names and defaults are of ASCII
  characters: which others are printable or spaces is not modelled.\<close>

definition default_ok :: "param_decl \<Rightarrow> bool" where
  "default_ok p \<longleftrightarrow> CHR 0x0A \<notin> set (pd_gotype p) \<and>
     (if quoted_type (pd_gotype p) then \<forall>c \<in> set (pd_default p). quote_char c = [c] \<and> of_char c < (128 :: nat)
      else pd_default p = [] \<or> \<not> is_space (hd (pd_default p)) \<and> \<not> is_space (last (pd_default p))
        \<and> (\<forall>c \<in> set (pd_default p). \<not> special c \<and> c \<noteq> CHR 0x09 \<and> c \<noteq> CHR 0x0A \<and> of_char c < (128 :: nat)))"

lemma strip_plain:
  "\<forall>c \<in> set a. \<not> special c \<Longrightarrow> strip_comment None (a @ b) = a @ strip_comment None b"
  by (induction a) (auto simp: special_def)

lemma not_special [simp]: "\<not> special CHR '' ''" "\<not> special CHR '':''"
  by (simp_all add: special_def)

lemma strip_quoted: "q \<notin> set s \<Longrightarrow> strip_comment (Some q) (s @ q # b) = s @ q # strip_comment None b"
  by (induction s) auto

lemma quote_plain: "\<forall>c \<in> set s. quote_char c = [c] \<Longrightarrow> quote s = [CHR 0x22] @ s @ [CHR 0x22]"
  by (induction s) (auto simp: quote_def)

lemma quote_char_fixed: "quote_char c = [c] \<Longrightarrow> c \<notin> {CHR 0x22, CHR 0x09, CHR 0x0A}"
  by (auto simp: quote_char_def)

lemma split_lines: "\<forall>l \<in> set ls. CHR 0x0A \<notin> set l \<Longrightarrow> split_on (CHR 0x0A) (lines ls) = ls @ [[]]"
  by (induction ls) (auto simp: lines_def nl_def split_on_append)

lemma parse_lines_append:
  "parse_param_lines f k (xs @ ys) st = bind_result (parse_param_lines f k xs st) (parse_param_lines f (k + int (length xs)) ys)"
proof (induction xs arbitrary: k st)
  case (Cons x xs)
  then show ?case by (cases "parse_param_line f k x st") (simp_all add: add.assoc)
qed simp

lemma comment_line: "parse_param_line f k (replicate i CHR '' '' @ CHR ''#'' # s) st = Inr st"
proof -
  have "strip_comment None (replicate i CHR '' '' @ CHR ''#'' # s) = replicate i CHR '' ''"
    by (subst strip_plain) auto
  moreover have "dropWhile is_space (replicate i CHR '' '') = []" by (induction i) (auto simp: is_space_def)
  ultimately show ?thesis by (simp add: parse_param_line_def trim_space_def)
qed

lemma trim_indent: "s \<noteq> [] \<Longrightarrow> \<not> is_space (hd s) \<Longrightarrow> \<not> is_space (last s) \<Longrightarrow> trim_space (replicate i CHR '' '' @ s) = s"
proof -
  assume "s \<noteq> []" "\<not> is_space (hd s)" "\<not> is_space (last s)"
  moreover have "dropWhile is_space (replicate i CHR '' '' @ s) = dropWhile is_space s"
    by (induction i) (auto simp: is_space_def)
  ultimately show ?thesis using trim_space_id[of s] by (simp add: trim_space_def)
qed

lemma cut_name: "c \<notin> set k \<Longrightarrow> cut c (k @ c # v) = Some (k, v)"
  by (simp add: cut_def takeWhile_append dropWhile_append)

text \<open>One line of an indented or a top-level entry, in the parser's terms.\<close>

lemma entry_line:
  assumes "name_ok key" and v: "v = [] \<or> \<not> is_space (hd v) \<and> \<not> is_space (last v)" "CHR 0x09 \<notin> set v"
    and sep: "sep = (if v = [] then [] else '' '')"
    and strip: "strip_comment None (sep @ v) = sep @ v"
  shows "parse_param_line f k (replicate i CHR '' '' @ key @ CHR '':'' # sep @ v) st =
    (if i = 0 then (if v \<noteq> [] then Inl (Errorf ''%s:%d: node %q must be followed by ros__parameters, not a value'' [GStr f, GInt k, GStr key])
        else Inr \<lparr>ps_node = key, ps_in = False,
               ps_out = (if ps_out st key = None then (ps_out st)(key \<mapsto> Map.empty) else ps_out st)\<rparr>)
     else if ps_node st = [] then Inl (Errorf ''%s:%d: parameter %q appears before any node name'' [GStr f, GInt k, GStr key])
     else if \<not> ps_in st then Inl (Errorf ''%s:%d: %q must appear under a ros__parameters block'' [GStr f, GInt k, GStr key])
     else if v = [] then Inl (Errorf ''%s:%d: parameter %q has no value (nested parameter groups are not supported)'' [GStr f, GInt k, GStr key])
     else Inr (st\<lparr>ps_out := (ps_out st)(ps_node st \<mapsto> (case ps_out st (ps_node st) of None \<Rightarrow> Map.empty | Some m \<Rightarrow> m)(key \<mapsto> v))\<rparr>))"
proof -
  let ?c = "key @ CHR '':'' # sep @ v" and ?l = "replicate i CHR '' '' @ key @ CHR '':'' # sep @ v"
  have ends: "hd key \<in> set key" "last key \<in> set key" using assms(1) by (simp_all add: name_ok_def)
  have key: "key \<noteq> []" "key \<noteq> ''ros__parameters''" "\<not> is_space (hd key)" "\<not> is_space (last key)" "CHR '':'' \<notin> set key"
    "\<forall>c \<in> set key. \<not> special c" "hd key \<noteq> CHR 0x22" "last key \<noteq> CHR 0x22" "CHR 0x09 \<notin> set key"
  proof -
    have c: "\<And>c. c \<in> set key \<Longrightarrow> \<not> is_space c" "\<And>c. c \<in> set key \<Longrightarrow> \<not> special c" "\<And>c. c \<in> set key \<Longrightarrow> c \<noteq> CHR '':''"
      and n: "key \<noteq> []" "key \<noteq> ''ros__parameters''" using assms(1) unfolding name_ok_def by simp_all
    show "key \<noteq> []" "key \<noteq> ''ros__parameters''" by (rule n)+
    show "\<not> is_space (hd key)" "\<not> is_space (last key)" using c(1) ends by simp_all
    show "CHR '':'' \<notin> set key" using c(3) by (metis (full_types))
    show "\<forall>c \<in> set key. \<not> special c" using c(2) by simp
    show "hd key \<noteq> CHR 0x22" "last key \<noteq> CHR 0x22"
      using c(2)[OF ends(1)] c(2)[OF ends(2)] unfolding special_def by simp_all
    show "CHR 0x09 \<notin> set key" using c(1)[of "CHR 0x09"] by (auto simp: is_space_def)
  qed
  have "strip_comment None ?l = (replicate i CHR '' '' @ key @ '':'') @ strip_comment None (sep @ v)"
    using strip_plain[of "replicate i CHR '' '' @ key @ '':''" "sep @ v"] key(6) by (simp add: ball_Un)
  then have l: "strip_comment None ?l = ?l" using strip by simp
  have "last ?c = (if v = [] then CHR '':'' else last v)" using sep by simp
  then have t: "trim_space ?l = ?c" using key(1,3) v(1) by (intro trim_indent) (auto simp: is_space_def)
  have tab: "CHR 0x09 \<notin> set ?l" using key(9) v(2) sep by simp
  have "hd key \<noteq> CHR '' ''" using key(3) by (auto simp: is_space_def)
  then have ind: "length (takeWhile (\<lambda>c. c = CHR '' '') ?l) = i" using key(1) by (cases key) (simp_all add: takeWhile_append)
  have k: "trim_space (trim_char (CHR 0x22) key) = key"
    using key(3,4,7,8) trim_char_id[of key "CHR 0x22"] trim_space_id[of key] by simp
  have tv: "trim_space (sep @ v) = v"
    using v(1) sep trim_indent[of v 1] by (cases "v = []") (auto simp: trim_space_def)
  show ?thesis
    unfolding parse_param_line_def Let_def l t ind cut_name[OF key(5)] option.case prod.case k tv
    using tab key(2) by simp
qed

definition add_entry :: "(string \<Rightarrow> string option) \<Rightarrow> param_decl \<Rightarrow> string \<Rightarrow> string option" where
  "add_entry m p = (if pd_default p = [] then m else m(pd_name p \<mapsto> param_text p))"

lemma param_text_ok:
  assumes "default_ok p" "pd_default p \<noteq> []"
  shows "param_text p \<noteq> []" "\<not> is_space (hd (param_text p))" "\<not> is_space (last (param_text p))"
    "CHR 0x09 \<notin> set (param_text p)" "CHR 0x0A \<notin> set (param_text p)"
    "strip_comment None ('' '' @ param_text p) = '' '' @ param_text p" "yaml_scalar (param_text p) = pd_default p"
proof -
  have *: "param_text p \<noteq> [] \<and> \<not> is_space (hd (param_text p)) \<and> \<not> is_space (last (param_text p)) \<and> CHR 0x09 \<notin> set (param_text p)
    \<and> CHR 0x0A \<notin> set (param_text p) \<and> strip_comment None ('' '' @ param_text p) = '' '' @ param_text p
    \<and> yaml_scalar (param_text p) = pd_default p"
  proof (cases "quoted_type (pd_gotype p)")
    case True
    then have q: "\<forall>c \<in> set (pd_default p). quote_char c = [c]" using assms(1) by (simp add: default_ok_def)
    then have t: "param_text p = [CHR 0x22] @ pd_default p @ [CHR 0x22]" using True by (simp add: param_text_def quote_plain)
    have "CHR 0x22 \<notin> set (pd_default p)" "CHR 0x09 \<notin> set (pd_default p)" "CHR 0x0A \<notin> set (pd_default p)"
      using q quote_char_fixed by blast+
    then show ?thesis unfolding t using yaml_scalar_quoted strip_quoted[of "CHR 0x22" "pd_default p" "[]"] by (simp add: is_space_def)
  next
    case False
    then have t: "param_text p = pd_default p" by (simp add: param_text_def)
    have d: "\<not> is_space (hd (pd_default p))" "\<not> is_space (last (pd_default p))" "\<forall>c \<in> set (pd_default p). \<not> special c"
      "CHR 0x09 \<notin> set (pd_default p)" "CHR 0x0A \<notin> set (pd_default p)"
      using assms False by (auto simp: default_ok_def)
    then have "strip_comment None ('' '' @ pd_default p) = '' '' @ pd_default p"
      using strip_plain[of "'' '' @ pd_default p" "[]"] by simp
    moreover have "\<not> special (hd (pd_default p))" using d(3) assms(2) by simp
    then have "yaml_scalar (pd_default p) = pd_default p" using d assms(2) by (intro yaml_scalar_id) (auto simp: special_def)
    ultimately show ?thesis unfolding t using d assms(2) by simp
  qed
  from * show "param_text p \<noteq> []" "\<not> is_space (hd (param_text p))" "\<not> is_space (last (param_text p))"
    "CHR 0x09 \<notin> set (param_text p)" "CHR 0x0A \<notin> set (param_text p)"
    "strip_comment None ('' '' @ param_text p) = '' '' @ param_text p" "yaml_scalar (param_text p) = pd_default p" by blast+
qed

lemma param_line_parsed:
  assumes "name_ok (pd_name p)" "default_ok p" "ps_in st" "ps_node st \<noteq> []" "ps_out st (ps_node st) = Some m"
  shows "parse_param_line f k (param_line p) st = Inr (st\<lparr>ps_out := (ps_out st)(ps_node st \<mapsto> add_entry m p)\<rparr>)"
proof (cases "pd_default p = []")
  case True
  then have "param_line p = replicate 4 CHR '' '' @ CHR ''#'' # '' '' @ pd_name p @ '': <no default; '' @ pd_gotype p @ ''>''"
    by (simp add: param_line_def numeral_eq_Suc)
  moreover have "(ps_out st)(ps_node st \<mapsto> m) = ps_out st" using assms(5) by (simp add: map_upd_triv)
  ultimately show ?thesis using True by (simp only: comment_line add_entry_def if_True) simp
next
  case False
  note t = param_text_ok[OF assms(2) False]
  have "param_line p = replicate 4 CHR '' '' @ pd_name p @ CHR '':'' # '' '' @ param_text p"
    using False by (simp add: param_line_def numeral_eq_Suc)
  then show ?thesis
    using entry_line[OF assms(1), of "param_text p" "'' ''" f k 4 st] t assms(3-5) False by (simp add: add_entry_def)
qed

lemma param_lines_parsed:
  "\<forall>p \<in> set ps. name_ok (pd_name p) \<and> default_ok p \<Longrightarrow> ps_in st \<Longrightarrow> ps_node st \<noteq> [] \<Longrightarrow> ps_out st (ps_node st) = Some m \<Longrightarrow>
   parse_param_lines f k (map param_line ps) st = Inr (st\<lparr>ps_out := (ps_out st)(ps_node st \<mapsto> foldl add_entry m ps)\<rparr>)"
proof (induction ps arbitrary: k st m)
  case Nil
  then show ?case by (simp add: map_upd_triv)
next
  case (Cons p ps)
  then show ?case by (simp add: param_line_parsed cong: if_cong)
qed

lemma block_line:
  "parse_param_line f k ''  ros__parameters:'' st =
     (if ps_node st = [] then Inl (Errorf ''%s:%d: parameter %q appears before any node name'' [GStr f, GInt k, GStr ''ros__parameters''])
      else Inr (st\<lparr>ps_in := True\<rparr>))"
proof -
  have "strip_comment None ''  ros__parameters:'' = ''  ros__parameters:''" by code_simp
  moreover have "trim_space ''  ros__parameters:'' = ''ros__parameters:''" by code_simp
  moreover have "cut (CHR '':'') ''ros__parameters:'' = Some (''ros__parameters'', [])" by code_simp
  moreover have "trim_space (trim_char (CHR 0x22) ''ros__parameters'') = ''ros__parameters''" "trim_space [] = []" by code_simp+
  ultimately show ?thesis by (simp add: parse_param_line_def Let_def)
qed

definition add_node_params :: "param_file \<Rightarrow> node_decl \<Rightarrow> param_file" where
  "add_node_params out n =
     (if nd_params n = [] then out
      else out(nd_name n \<mapsto> foldl add_entry (case out (nd_name n) of None \<Rightarrow> Map.empty | Some m \<Rightarrow> m) (nd_params n)))"

definition params_ok :: "node_decl \<Rightarrow> bool" where
  "params_ok n \<longleftrightarrow> name_ok (nd_name n) \<and> (\<forall>p \<in> set (nd_params n). name_ok (pd_name p) \<and> default_ok p)
     \<and> distinct (map pd_name (nd_params n))"

lemma node_lines_parsed:
  assumes "params_ok n"
  shows "\<exists>st'. parse_param_lines f k (node_lines n) st = Inr st' \<and> ps_out st' = add_node_params (ps_out st) n"
proof (cases "nd_params n = []")
  case False
  let ?m = "case ps_out st (nd_name n) of None \<Rightarrow> Map.empty | Some m \<Rightarrow> m"
  define st1 where "st1 = \<lparr>ps_node = nd_name n, ps_in = False,
     ps_out = (if ps_out st (nd_name n) = None then (ps_out st)(nd_name n \<mapsto> Map.empty) else ps_out st)\<rparr>"
  have n: "name_ok (nd_name n)" "nd_name n \<noteq> []" using assms unfolding params_ok_def name_ok_def by simp_all
  have "parse_param_line f k (nd_name n @ '':'') st = Inr st1"
    using entry_line[OF n(1), of "[]" "[]" f k 0 st] by (simp add: st1_def)
  moreover have "parse_param_line f (k + 1) ''  ros__parameters:'' st1 = Inr (st1\<lparr>ps_in := True\<rparr>)"
    unfolding block_line using n(2) by (simp add: st1_def)
  moreover have "ps_out st1 (nd_name n) = Some ?m" by (auto simp: st1_def)
  then have "parse_param_lines f (k + 2) (map param_line (nd_params n)) (st1\<lparr>ps_in := True\<rparr>) =
      Inr ((st1\<lparr>ps_in := True\<rparr>)\<lparr>ps_out := (ps_out st1)(nd_name n \<mapsto> foldl add_entry ?m (nd_params n))\<rparr>)"
    using param_lines_parsed[of "nd_params n" "st1\<lparr>ps_in := True\<rparr>" ?m f "k + 2"] assms n(2) by (simp add: params_ok_def st1_def)
  moreover have "(ps_out st1)(nd_name n \<mapsto> x) = (ps_out st)(nd_name n \<mapsto> x)" for x by (simp add: st1_def)
  ultimately show ?thesis using False by (simp add: node_lines_def add_node_params_def add.assoc)
qed (simp add: node_lines_def add_node_params_def)

lemma nodes_parsed:
  "\<forall>n \<in> set ns. params_ok n \<Longrightarrow>
   \<exists>st'. parse_param_lines f k (concat (map node_lines ns)) st = Inr st' \<and> ps_out st' = foldl add_node_params (ps_out st) ns"
proof (induction ns arbitrary: k st)
  case (Cons n ns)
  then obtain st1 where "parse_param_lines f k (node_lines n) st = Inr st1" "ps_out st1 = add_node_params (ps_out st) n"
    using node_lines_parsed by (metis list.set_intros(1))
  moreover obtain st2 where "parse_param_lines f (k + int (length (node_lines n))) (concat (map node_lines ns)) st1 = Inr st2"
    "ps_out st2 = foldl add_node_params (ps_out st1) ns" using Cons.IH Cons.prems by fastforce
  ultimately show ?case by (simp add: parse_lines_append)
qed simp

lemma node_entry:
  assumes "distinct (map nd_name ns)" "n \<in> set ns" "nd_params n \<noteq> []" "out (nd_name n) = None"
  shows "foldl add_node_params out ns (nd_name n) = Some (foldl add_entry Map.empty (nd_params n))"
  using assms
proof (induction ns arbitrary: out)
  case (Cons x xs)
  have keep: "foldl add_node_params out' xs m = out' m" if "m \<notin> nd_name ` set xs" for out' m and xs :: "node_decl list"
    using that by (induction xs arbitrary: out') (auto simp: add_node_params_def)
  show ?case
  proof (cases "x = n")
    case True
    with Cons.prems show ?thesis by (simp add: keep) (simp add: add_node_params_def)
  next
    case False
    with Cons.prems have "nd_name x \<noteq> nd_name n" by (auto simp: image_iff)
    then have "add_node_params out x (nd_name n) = None" using Cons.prems(4) by (simp add: add_node_params_def)
    with Cons.IH Cons.prems False show ?thesis by simp
  qed
qed simp

lemma param_entry:
  assumes "distinct (map pd_name ps)" "p \<in> set ps" "m (pd_name p) = None"
  shows "foldl add_entry m ps (pd_name p) = (if pd_default p = [] then None else Some (param_text p))"
  using assms
proof (induction ps arbitrary: m)
  case (Cons x xs)
  have keep: "foldl add_entry m' xs k = m' k" if "k \<notin> pd_name ` set xs" for m' k and xs :: "param_decl list"
    using that by (induction xs arbitrary: m') (auto simp: add_entry_def)
  show ?case
  proof (cases "x = p")
    case True
    with Cons.prems show ?thesis by (simp add: keep) (simp add: add_entry_def)
  next
    case False
    with Cons.prems have "pd_name x \<noteq> pd_name p" by (auto simp: image_iff)
    then have "add_entry m x (pd_name p) = None" using Cons.prems(3) by (simp add: add_entry_def)
    with Cons.IH Cons.prems False show ?thesis by simp
  qed
qed simp

lemma name_no_newline:
  assumes "name_ok s"
  shows "CHR 0x0A \<notin> set s"
proof
  assume "CHR 0x0A \<in> set s"
  moreover have "is_space CHR 0x0A" by code_simp
  ultimately show False using assms unfolding name_ok_def by (metis (full_types))
qed

lemma param_line_no_newline:
  assumes "name_ok (pd_name p)" "default_ok p"
  shows "CHR 0x0A \<notin> set (param_line p)"
proof (cases "pd_default p = []")
  case True
  have "CHR 0x0A \<notin> set (pd_gotype p)" using assms(2) unfolding default_ok_def by (rule conjunct1)
  with True name_no_newline[OF assms(1)] show ?thesis by (simp add: param_line_def)
next
  case False
  with name_no_newline[OF assms(1)] param_text_ok(5)[OF assms(2)] show ?thesis by (simp add: param_line_def)
qed

lemma node_lines_no_newline:
  assumes "params_ok n"
  shows "\<forall>l \<in> set (node_lines n). CHR 0x0A \<notin> set l"
proof -
  have "\<forall>l \<in> set (map param_line (nd_params n)). CHR 0x0A \<notin> set l"
    using assms by (simp add: params_ok_def param_line_no_newline)
  moreover have "CHR 0x0A \<notin> set (nd_name n)" using assms by (simp add: params_ok_def name_no_newline)
  ultimately show ?thesis by (simp add: node_lines_def)
qed

lemma ball_append: "\<forall>l \<in> set xs. P l \<Longrightarrow> \<forall>l \<in> set ys. P l \<Longrightarrow> \<forall>l \<in> set (xs @ ys). P l"
  by auto

lemma params_yaml_parsed:
  assumes "CHR 0x0A \<notin> set (app_name app)" "\<forall>n \<in> set (nodes app). params_ok n"
  shows "parse_param_file f (params_yaml app) = Inr (foldl add_node_params Map.empty (nodes app))"
proof -
  let ?body = "concat (map node_lines (nodes app))"
  let ?closing = "if \<forall>n \<in> set (nodes app). nd_params n = [] then [''# (no parameters declared)''] else []"
  have body: "\<forall>l \<in> set ?body. CHR 0x0A \<notin> set l"
    using assms(2) node_lines_no_newline by (simp only: set_concat set_map) blast
  have "CHR 0x0A \<notin> set header_text" by (simp add: header_text_def)
  then have head: "\<forall>l \<in> set [''# '' @ header_text, ''# Load with: '' @ app_name app @ '' -params params.yaml'']. CHR 0x0A \<notin> set l"
    using assms(1) by simp
  define e where "e = ?closing"
  have tail: "\<forall>l \<in> set e. CHR 0x0A \<notin> set l" by (simp add: e_def)
  note ball_append[OF head ball_append[OF body tail]]
  from split_lines[OF this] have split: "split_on (CHR 0x0A) (params_yaml app)
      = [''# '' @ header_text, ''# Load with: '' @ app_name app @ '' -params params.yaml''] @ ?body @ e @ [[]]"
    unfolding params_yaml_def e_def[symmetric] by simp
  have comment: "parse_param_line f k (CHR ''#'' # s) st = Inr st" for k s st using comment_line[of f k 0 s st] by simp
  have blank: "parse_param_lines f k (e @ [[]]) st = Inr st" for k st
    by (simp add: e_def comment) (simp add: parse_param_line_def trim_space_def)
  obtain st' where "parse_param_lines f 3 ?body \<lparr>ps_node = [], ps_in = False, ps_out = Map.empty\<rparr> = Inr st'"
    "ps_out st' = foldl add_node_params Map.empty (nodes app)"
    using nodes_parsed[OF assms(2), of f 3 "\<lparr>ps_node = [], ps_in = False, ps_out = Map.empty\<rparr>"] by auto
  then show ?thesis
    unfolding parse_param_file_def split by (simp add: comment parse_lines_append blank [unfolded parse_lines_append])
qed

text \<open>C40. Of an application whose nodes have distinct names, whose names are plain (ASCII, without spaces, quotes, colons and
  comments) and whose defaults the file can carry (\<open>default_ok\<close>: of a text or a duration, nothing that \<^verbatim>\<open>strconv.Quote\<close>
  escapes, so no quote, backslash or control character, which would come back changed), the file the
  generator writes is a working parameter file, and loading it changes nothing: it parses, and each declared
  parameter is bound with it as it is bound without it, to its default, of whatever type the field has.\<close>

theorem params_yaml_neutral:
  assumes "CHR 0x0A \<notin> set (app_name app)" "\<forall>n \<in> set (nodes app). params_ok n" "distinct (map nd_name (nodes app))"
  shows "\<exists>file. parse_param_file f (params_yaml app) = Inr file
    \<and> (\<forall>n \<in> set (nodes app). \<forall>p \<in> set (nd_params n). \<forall>pf t field tag hs.
         (if tag = [] then snake_case field else tag) = pd_name p \<longrightarrow>
         bind_param pf (runtime_values file (nd_name n)) t field tag (pd_default p) hs = bind_param pf Map.empty t field tag (pd_default p) hs)"
proof -
  let ?file = "foldl add_node_params Map.empty (nodes app)"
  have "bind_param pf (runtime_values ?file (nd_name n)) t field tag (pd_default p) hs = bind_param pf Map.empty t field tag (pd_default p) hs"
    if n: "n \<in> set (nodes app)" and p: "p \<in> set (nd_params n)" and name: "(if tag = [] then snake_case field else tag) = pd_name p"
    for n p pf t field tag hs
  proof -
    have ok: "params_ok n" "default_ok p" using assms(2) n p by (auto simp: params_ok_def)
    have "runtime_values ?file (nd_name n) (pd_name p) = foldl add_entry Map.empty (nd_params n) (pd_name p)"
      using node_entry[OF assms(3) n, of Map.empty] length_pos_if_in_set[OF p] by (simp add: runtime_values_def)
    also have "\<dots> = (if pd_default p = [] then None else Some (param_text p))"
      using param_entry[of "nd_params n" p Map.empty] ok(1) p by (simp add: params_ok_def)
    finally have v: "runtime_values ?file (nd_name n) (pd_name p) = (if pd_default p = [] then None else Some (param_text p))" .
    show ?thesis
    proof (cases "pd_default p = []")
      case True
      with v name show ?thesis by (simp add: bind_param_def)
    next
      case False
      then have "handle_set pf (param_text p) h = bind_result (parse_into pf t (pd_default p)) (\<lambda>v. Inr (h\<lparr>h_val := v\<rparr>))"
        if "h_type h = t" "\<not> h_fixed h" for h
        using param_text_ok(7)[OF ok(2)] that by (simp add: handle_set_def parse_yaml_scalar_def)
      with False v name show ?thesis by (cases "parse_into pf t (pd_default p)") (simp_all add: bind_param_def Let_def)
    qed
  qed
  with params_yaml_parsed[OF assms(1,2)] show ?thesis by blast
qed


section \<open>Witnesses\<close>

definition lidar_params :: "param_handle list" where
  "lidar_params = [\<lparr>h_name = ''rate'', h_type = TInt, h_val = VInt 10, h_fixed = False\<rparr>,
     \<lparr>h_name = ''frame'', h_type = TString, h_val = VString ''odom'', h_fixed = False\<rparr>]"

definition new_rate :: param_msg_value where "new_rate = not_set\<lparr>pmv_type := paramTypeInteger, pmv_int := 20\<rparr>"
definition new_frame :: param_msg_value where "new_frame = not_set\<lparr>pmv_type := paramTypeString, pmv_string := '' \"map\" ''\<rparr>"

definition zero_float :: "string \<Rightarrow> float64 option" where "zero_float s = Some (Real 0)"

lemma lidar_by_name [simp]: "by_name lidar_params ''rate'' = Some 0" "by_name lidar_params ''frame'' = Some 1"
  by code_simp+

lemma new_values_sound: "sound_value zero_float (\<lambda>_. []) new_rate" "sound_value zero_float (\<lambda>_. []) new_frame"
  by (simp_all add: sound_value_def zero_float_def new_rate_def new_frame_def not_set_def min_int_def max_int_def)

theorem param_set_get_witness:
  "\<exists>hs'. set_parameters zero_float (\<lambda>_. []) [(''frame'', new_frame)] lidar_params = ([None], [(''frame'', new_frame\<lparr>pmv_string := ''map''\<rparr>)], hs')
     \<and> get_parameters [''rate''] hs' = [not_set\<lparr>pmv_type := paramTypeInteger, pmv_int := 10\<rparr>]"
proof -
  have s: "handle_value ((lidar_params ! 1)\<lparr>h_val := stored (h_type (lidar_params ! 1)) new_frame\<rparr>) = new_frame\<lparr>pmv_string := ''map''\<rparr>"
    by code_simp
  have r: "get_parameters [''rate''] lidar_params = [not_set\<lparr>pmv_type := paramTypeInteger, pmv_int := 10\<rparr>]" by code_simp
  have t: "supported (h_type (lidar_params ! 1))" "pmv_type new_frame = ros_type (h_type (lidar_params ! 1))"
    by (simp_all add: lidar_params_def supported_def new_frame_def ros_type_def)
  have f: "\<not> h_fixed (lidar_params ! 1)" by (simp add: lidar_params_def)
  obtain hs' where "set_parameters zero_float (\<lambda>_. []) [(''frame'', new_frame)] lidar_params = ([None], [(''frame'', new_frame\<lparr>pmv_string := ''map''\<rparr>)], hs')"
    "\<forall>m. get_parameters [m] hs' = (if m = ''frame'' then [new_frame\<lparr>pmv_string := ''map''\<rparr>] else get_parameters [m] lidar_params)"
    using param_set_get[OF lidar_by_name(2) t new_values_sound(2)] f unfolding s by auto
  then show ?thesis using r by (intro exI[of _ hs']) simp
qed


theorem atomic_refusal_hidden_witness:
  "\<exists>changed hs'. set_parameters_atomically zero_float (\<lambda>_. []) [(use_sim_time, not_set\<lparr>pmv_type := paramTypeBool\<rparr>)] [sim_time_handle True] = (None, changed, hs')
     \<and> get_parameters [use_sim_time] hs' = [not_set\<lparr>pmv_type := paramTypeBool, pmv_bool := True\<rparr>]"
proof -
  have i: "by_name [sim_time_handle True] use_sim_time = Some 0" by code_simp
  have v: "handle_value (sim_time_handle True) = not_set\<lparr>pmv_type := paramTypeBool, pmv_bool := True\<rparr>" by code_simp
  have p: "\<forall>p \<in> set [(use_sim_time, not_set\<lparr>pmv_type := paramTypeBool\<rparr>)]. atomic_problem [sim_time_handle True] p = None"
    using i by (simp add: atomic_problem_def sim_time_handle_def ros_type_def)
  from atomic_refusal_hidden[OF i _ p, of True zero_float "\<lambda>_. []"] v show ?thesis by simp
qed

definition lidar_node :: node_decl where
  "lidar_node = \<lparr>nd_struct = ''Lidar'', nd_name = ''lidar'', nd_file = ''lidar.go'', nd_line = 5, subs = [], pubs = [], services = [],
     clients = [], actions = [], action_clients = [],
     nd_params = [\<lparr>pd_field = ''Timeout'', pd_name = ''timeout'', pd_default = ''30s'', pd_gotype = ''time.Duration''\<rparr>,
                  \<lparr>pd_field = ''Rate'', pd_name = ''rate'', pd_default = ''10'', pd_gotype = ''int''\<rparr>],
     timers = [], missions = [], steps = [], tf_field = None, lifecycles = [], groups = [], methods = Map.empty, calls = []\<rparr>"

definition lidar_app :: "unit app" where
  "lidar_app = \<lparr>app_name = ''scanner'', app_dir = ''.'', nodes = [lidar_node], messages = Map.empty, stamped = Map.empty, externals = [],
     app_frames = None, frames_file = [], app_semantics = None, groups_file = []\<rparr>"

lemma lidar_params_ok: "params_ok lidar_node"
proof -
  have "name_ok ''lidar''" "name_ok ''timeout''" "name_ok ''rate''" by code_simp+
  moreover have "default_ok \<lparr>pd_field = ''Timeout'', pd_name = ''timeout'', pd_default = ''30s'', pd_gotype = ''time.Duration''\<rparr>" by code_simp
  moreover have "default_ok \<lparr>pd_field = ''Rate'', pd_name = ''rate'', pd_default = ''10'', pd_gotype = ''int''\<rparr>" by code_simp
  ultimately show ?thesis by (simp add: params_ok_def lidar_node_def)
qed

theorem params_yaml_neutral_witness:
  "\<exists>file. parse_param_file ''params.yaml'' (params_yaml lidar_app) = Inr file
     \<and> bind_param zero_float (runtime_values file ''lidar'') TDuration ''Timeout'' ''timeout'' ''30s'' []
       = Inr [\<lparr>h_name = ''timeout'', h_type = TDuration, h_val = VDuration 30000000000, h_fixed = False\<rparr>]"
proof -
  let ?p = "\<lparr>pd_field = ''Timeout'', pd_name = ''timeout'', pd_default = ''30s'', pd_gotype = ''time.Duration''\<rparr>"
  have a: "CHR 0x0A \<notin> set (app_name lidar_app)" "\<forall>n \<in> set (nodes lidar_app). params_ok n" "distinct (map nd_name (nodes lidar_app))"
    using lidar_params_ok by (simp_all add: lidar_app_def)
  have b: "lidar_node \<in> set (nodes lidar_app)" "?p \<in> set (nd_params lidar_node)" "nd_name lidar_node = ''lidar''"
    by (simp_all add: lidar_app_def lidar_node_def)
  have d: "bind_param zero_float Map.empty TDuration ''Timeout'' ''timeout'' ''30s'' []
       = Inr [\<lparr>h_name = ''timeout'', h_type = TDuration, h_val = VDuration 30000000000, h_fixed = False\<rparr>]"
    by (simp add: bind_param_def parse_into_def parse_duration_eval)
  obtain pfile where f: "parse_param_file ''params.yaml'' (params_yaml lidar_app) = Inr pfile"
    and neutral: "\<forall>n \<in> set (nodes lidar_app). \<forall>p \<in> set (nd_params n). \<forall>pf t field tag hs.
         (if tag = [] then snake_case field else tag) = pd_name p \<longrightarrow>
         bind_param pf (runtime_values pfile (nd_name n)) t field tag (pd_default p) hs = bind_param pf Map.empty t field tag (pd_default p) hs"
    using params_yaml_neutral[OF a, of "''params.yaml''"] by (elim exE conjE) (rule that)
  have "bind_param zero_float (runtime_values pfile (nd_name lidar_node)) TDuration ''Timeout'' ''timeout'' (pd_default ?p) []
      = bind_param zero_float Map.empty TDuration ''Timeout'' ''timeout'' (pd_default ?p) []"
    using neutral[rule_format, OF b(1) b(2)] by simp
  then show ?thesis using f d b(3) by (intro exI[of _ pfile]) simp
qed

end
