(* ===== verification/Runtime.thy ===== *)
theory Runtime
imports Wiring Lifecycle Params
begin

text \<open>
  A process from its structs to its end (\<^verbatim>\<open>run.go\<close>): the files its flags resolve to, \<^verbatim>\<open>newAppOpts\<close>, which
  wires every node, \<^verbatim>\<open>bringUp\<close>, which configures and activates them in dependency order, and
  \<^verbatim>\<open>shutDown\<close>, which drives them to Finalized in the reverse order.

  A hook's outcome is an argument, as in the theory of the lifecycle. Goroutines, flag parsing, signals and
  log lines are left out; the mission of a node, wired after its fields, is modelled with missions, and
  here is what wiring it says.
\<close>

section \<open>Files and environment\<close>

text \<open>\<open>stat\<close> is \<^verbatim>\<open>os.Stat\<close>, and \<open>dir\<close>, \<open>base\<close> and \<open>join_path\<close> are the functions of \<^verbatim>\<open>path/filepath\<close>.\<close>

record paths =
  pa_stat :: "string \<Rightarrow> goerror option"
  pa_dir :: "string \<Rightarrow> string"
  pa_base :: "string \<Rightarrow> string"
  pa_join :: "string \<Rightarrow> string \<Rightarrow> string"

fun first_missing :: "paths \<Rightarrow> string list \<Rightarrow> goerror option" where
  "first_missing fs [] = None"
| "first_missing fs (f # rest) = (case pa_stat fs f of Some e \<Rightarrow> Some e | None \<Rightarrow> first_missing fs rest)"

definition resolve_param_files :: "paths \<Rightarrow> string list \<Rightarrow> string \<Rightarrow> string list result" where
  "resolve_param_files fs explicit env =
     (case first_missing fs explicit of
        Some e \<Rightarrow> Inl e
      | None \<Rightarrow>
          if env = [] then Inr explicit
          else (let directory = (if explicit = [] then ''.'' else pa_dir fs (last explicit));
                    env_file = pa_join fs directory (''params.'' @ env @ ''.yaml'')
                in if pa_stat fs env_file \<noteq> None
                   then Inl (Errorf ''environment %q selected but %s is missing'' [GStr env, GStr env_file])
                   else Inr (explicit @ [env_file])))"

fun search_up :: "paths \<Rightarrow> string \<Rightarrow> string \<Rightarrow> nat \<Rightarrow> string" where
  "search_up fs file directory 0 = file"
| "search_up fs file directory (Suc n) =
     (let p = pa_join fs directory (pa_base fs file)
      in if pa_stat fs p = None then p else search_up fs file (pa_dir fs directory) n)"

text \<open>\<open>exe\<close> is \<^verbatim>\<open>os.Executable\<close>.\<close>

definition find_frames_file :: "paths \<Rightarrow> string option \<Rightarrow> string \<Rightarrow> bool \<Rightarrow> string result" where
  "find_frames_file fs exe file explicit =
     (if explicit
      then (case pa_stat fs file of
              Some e \<Rightarrow> Inl (Errorf ''frames file %s: %w'' [GStr file, GErr e])
            | None \<Rightarrow> Inr file)
      else if pa_stat fs file = None then Inr file
      else case exe of None \<Rightarrow> Inr file | Some x \<Rightarrow> Inr (search_up fs file (pa_dir fs x) 3))"

definition lower :: "string \<Rightarrow> string" where
  "lower s = map (\<lambda>c. let n = (of_char c :: nat) in if 65 \<le> n \<and> n \<le> 90 then char_of (n + 32) else c) s"

definition env_sim_time :: "string \<Rightarrow> bool" where
  "env_sim_time v \<longleftrightarrow> lower v \<in> {''1'', ''true'', ''yes''}"

definition env_domain :: "string \<Rightarrow> int" where
  "env_domain s = (if s = [] then 0 else case atoi s of Some n \<Rightarrow> n | None \<Rightarrow> 0)"

section \<open>Wiring an application\<close>

text \<open>A node's struct: the name of its type, its fields that declare something, its hooks if their signatures
  are right, and what wiring its mission comes to: an error, or the endpoint of the mission, if it has one.\<close>

record 'h node_struct =
  ns_type :: string
  ns_fields :: "field list"
  ns_hooks :: "'h hooks result"
  ns_mission :: "endpoint_info option result"

type_synonym ('h) node_entry = "string \<times> ('h, on_active) lifecycle"

definition serves :: "string \<Rightarrow> string \<Rightarrow> transport_call" where
  "serves node sfx = Declare_srv \<lparr>ss_service = node @ ''/'' @ sfx, ss_node = node, ss_timeout = 0\<rparr>"

definition lifecycle_calls :: "string \<Rightarrow> transport_call list" where
  "lifecycle_calls node =
     Declare_pub \<lparr>ts_topic = node @ ''/transition_event'', ts_qos = reliable_qos, ts_node = node\<rparr>
     # map (serves node) [''change_state'', ''get_state'', ''get_available_states'', ''get_available_transitions'']"

definition param_calls :: "string \<Rightarrow> transport_call list" where
  "param_calls node =
     Declare_pub \<lparr>ts_topic = ''parameter_events'', ts_qos = reliable_qos, ts_node = node\<rparr>
     # map (serves node) [''list_parameters'', ''get_parameters'', ''get_parameter_types'', ''describe_parameters'',
         ''set_parameters'', ''set_parameters_atomically'']"

definition wrap :: "string \<Rightarrow> string \<Rightarrow> 'a result \<Rightarrow> 'a result" where
  "wrap fmt name r = (case r of Inl e \<Rightarrow> Inl (Errorf fmt [GStr name, GErr e]) | Inr x \<Rightarrow> Inr x)"

text \<open>The nodes keep their activation callbacks in the runtime until all are wired.\<close>

definition wire_node :: "(string \<Rightarrow> float64 option) \<Rightarrow> 'tr transport \<Rightarrow> string \<Rightarrow> 'h node_struct \<Rightarrow> ('tr, 'v) runtime
    \<Rightarrow> ((string \<times> 'h hooks) \<times> ('tr, 'v) runtime) result" where
  "wire_node pf tr name ns rt =
     bind_result (wrap ''%s: %w'' (ns_type ns) (declares tr (Declare_node name) rt)) (\<lambda>rt.
     bind_result (wrap ''%s: %w'' (ns_type ns) (ns_hooks ns)) (\<lambda>hs.
     bind_result (wrap ''%s: %w'' (ns_type ns)
        (bind_fields pf tr name (ns_fields ns) (rt\<lparr>rt_deps := snd (deps_for name (rt_deps rt))\<rparr>))) (\<lambda>rt.
     bind_result (wrap ''%s lifecycle: %w'' (ns_type ns) (declare_all tr (lifecycle_calls name) rt)) (\<lambda>rt.
     bind_result (wrap ''%s parameters: %w'' (ns_type ns) (declare_all tr (param_calls name) rt)) (\<lambda>rt.
     bind_result (wrap ''%s mission: %w'' (ns_type ns) (local_bind (ns_mission ns) rt)) (\<lambda>rt.
       Inr ((name, hs), rt)))))))"

fun wire_nodes :: "(string \<Rightarrow> float64 option) \<Rightarrow> 'tr transport \<Rightarrow> string \<Rightarrow> 'h node_struct list \<Rightarrow> ('tr, 'v) runtime
    \<Rightarrow> ((string \<times> 'h hooks) list \<times> ('tr, 'v) runtime) result" where
  "wire_nodes pf tr only [] rt = Inr ([], rt)"
| "wire_nodes pf tr only (ns # nss) rt =
     (let name = snake_case (ns_type ns)
      in if only \<noteq> [] \<and> name \<noteq> only then wire_nodes pf tr only nss rt
         else bind_result (wire_node pf tr name ns rt) (\<lambda>(n, rt).
              bind_result (wire_nodes pf tr only nss rt) (\<lambda>(ns, rt). Inr (n # ns, rt))))"

definition new_runtime :: "'tr \<Rightarrow> 'v frame_tree option \<Rightarrow> string \<Rightarrow> ('tr, 'v) runtime" where
  "new_runtime t tree description =
     \<lparr>rt_transport = t, rt_deps = Map.empty, rt_endpoints = [], rt_timers = [], rt_frames = tree, rt_tf_publisher = [],
       rt_description = description, rt_description_publisher = [], rt_on_active = []\<rparr>"

text \<open>An application: its nodes in declaration order, with their machines, and their dependencies.\<close>

record ('h, 'tr, 'v) application =
  ap_nodes :: "'h node_entry list"
  ap_runtime :: "('tr, 'v) runtime"

definition node_machine :: "(string \<times> on_active) list \<Rightarrow> string \<times> 'h hooks \<Rightarrow> 'h node_entry" where
  "node_machine cbs n = (fst n, (new_lifecycle (fst n) (snd n))
     \<lparr>lc_publishes := True, on_active := map snd (filter (\<lambda>c. fst c = fst n) cbs)\<rparr>)"

text \<open>\<open>sim\<close> is whether the clock is the simulator's, and \<open>start\<close> the transport's \<^verbatim>\<open>Start\<close>.\<close>

definition new_app :: "(string \<Rightarrow> float64 option) \<Rightarrow> 'tr transport \<Rightarrow> ('tr \<Rightarrow> goerror option) \<Rightarrow> 'tr \<Rightarrow> 'v frame_tree option \<Rightarrow> string
    \<Rightarrow> bool \<Rightarrow> string \<Rightarrow> 'h node_struct list \<Rightarrow> ('h, 'tr, 'v) application result" where
  "new_app pf tr start t tree description sim only nss =
     bind_result
       (if sim then wrap ''subscribing to %s: %w'' ''clock''
                 (declares tr (Declare_sub \<lparr>ts_topic = ''clock'', ts_qos = (case qos_profile ''sensor'' of Some q \<Rightarrow> q | None \<Rightarrow> qos_zero),
                    ts_node = ''clock''\<rparr>) (new_runtime t tree description))
        else Inr (new_runtime t tree description)) (\<lambda>rt.
     bind_result (wire_nodes pf tr only nss rt) (\<lambda>(nodes, rt).
       if nodes = [] then Inl (Errorf ''no nodes to run (node filter %q matched nothing?)'' [GStr only])
       else case start (rt_transport rt) of
              Some e \<Rightarrow> Inl e
            | None \<Rightarrow> Inr \<lparr>ap_nodes = map (node_machine (rt_on_active rt)) nodes, ap_runtime = rt\<rparr>))"

section \<open>Bringing the nodes up and taking them down\<close>

text \<open>The machines by name, of two with one name the later. \<open>env\<close> tells what becomes of a hook of a node.\<close>

type_synonym 'h machines = "string \<Rightarrow> ('h, on_active) lifecycle option"

definition machines_of :: "'h node_entry list \<Rightarrow> 'h machines" where
  "machines_of ns = map_of (rev ns)"

text \<open>A name that is not there would be a nil pointer.\<close>

definition drive_machine :: "(string \<Rightarrow> 'h \<Rightarrow> hook_run) \<Rightarrow> ltransition \<Rightarrow> string \<Rightarrow> 'h machines \<Rightarrow> goerror option \<times> 'h machines" where
  "drive_machine env t n ms =
     (case ms n of
        None \<Rightarrow> (Some (Errorf ''invalid memory address or nil pointer dereference'' []), ms)
      | Some l \<Rightarrow> (let ((ok, err), l', _) = transition (env n) t l in (err, ms(n \<mapsto> l'))))"

definition bring_up_failed :: "string \<Rightarrow> ltransition \<Rightarrow> goerror \<Rightarrow> goerror" where
  "bring_up_failed n t e = Errorf ''node %s: %s: %w'' [GStr n, GStr (transition_string t), GErr e]"

text \<open>Also returned are the transitions tried, in order.\<close>

fun bring_up_nodes :: "(string \<Rightarrow> 'h \<Rightarrow> hook_run) \<Rightarrow> string list \<Rightarrow> 'h machines
    \<Rightarrow> goerror option \<times> 'h machines \<times> (string \<times> ltransition) list" where
  "bring_up_nodes env [] ms = (None, ms, [])"
| "bring_up_nodes env (n # ns) ms =
     (case drive_machine env TransitionConfigure n ms of
        (Some e, ms) \<Rightarrow> (Some (bring_up_failed n TransitionConfigure e), ms, [(n, TransitionConfigure)])
      | (None, ms) \<Rightarrow>
          (case drive_machine env TransitionActivate n ms of
             (Some e, ms) \<Rightarrow> (Some (bring_up_failed n TransitionActivate e), ms, [(n, TransitionConfigure), (n, TransitionActivate)])
           | (None, ms) \<Rightarrow>
               (let (e, ms, evs) = bring_up_nodes env ns ms
                in (e, ms, (n, TransitionConfigure) # (n, TransitionActivate) # evs))))"

definition app_order :: "('h, 'tr, 'v) application \<Rightarrow> string list \<times> string list" where
  "app_order a = bringup_order (map fst (ap_nodes a)) (rt_deps (ap_runtime a))"

definition app_bring_up :: "(string \<Rightarrow> 'h \<Rightarrow> hook_run) \<Rightarrow> ('h, 'tr, 'v) application
    \<Rightarrow> goerror option \<times> 'h machines \<times> (string \<times> ltransition) list" where
  "app_bring_up env a = bring_up_nodes env (fst (app_order a)) (machines_of (ap_nodes a))"

definition shut_down_node :: "(string \<Rightarrow> 'h \<Rightarrow> hook_run) \<Rightarrow> string \<Rightarrow> 'h machines \<Rightarrow> 'h machines" where
  "shut_down_node env n ms =
     (let ms = (if map_option lc_state (ms n) = Some StateActive then snd (drive_machine env TransitionDeactivate n ms) else ms)
      in case ms n of
           None \<Rightarrow> ms
         | Some l \<Rightarrow> (case shutdown_for (lc_state l) of None \<Rightarrow> ms | Some t \<Rightarrow> snd (drive_machine env t n ms)))"

definition app_shut_down :: "(string \<Rightarrow> 'h \<Rightarrow> hook_run) \<Rightarrow> ('h, 'tr, 'v) application \<Rightarrow> 'h machines \<Rightarrow> 'h machines" where
  "app_shut_down env a ms = foldl (\<lambda>ms n. shut_down_node env n ms) ms (rev (fst (app_order a)))"

section \<open>Driving one machine\<close>

definition state_in :: "'h machines \<Rightarrow> string \<Rightarrow> lstate option" where
  "state_in ms n = map_option lc_state (ms n)"

definition hooks_in :: "'h machines \<Rightarrow> string \<Rightarrow> 'h hooks option" where
  "hooks_in ms n = map_option lc_hooks (ms n)"

text \<open>A transition of the table takes the node to its goal, or fails and leaves it where it was.\<close>

lemma drive_machine_state:
  assumes "state_in ms n = Some s" "transition_table s t = Some g" "drive_machine env t n ms = (e, ms')"
  shows "state_in ms' n = Some (if e = None then g else s)" "\<And>m. m \<noteq> n \<Longrightarrow> ms' m = ms m" "hooks_in ms' = hooks_in ms"
proof -
  obtain l where l: "ms n = Some l" "lc_state l = s" using assms(1) by (auto simp: state_in_def)
  obtain ok l' effs where t: "transition (env n) t l = ((ok, e), l', effs)" "ms' = ms(n \<mapsto> l')"
    using assms(3) l by (auto simp: drive_machine_def split: prod.splits)
  then have "lc_state l' = (if e = None then g else s) \<and> lc_hooks l' = lc_hooks l"
    using assms(2) l(2) by (auto simp: transition_cases lc_finish_def Let_def split: option.splits)
  with l t(2) show "state_in ms' n = Some (if e = None then g else s)" "\<And>m. m \<noteq> n \<Longrightarrow> ms' m = ms m" "hooks_in ms' = hooks_in ms"
    by (auto simp: state_in_def hooks_in_def)
qed

lemma drive_machine_ok:
  assumes "state_in ms n = Some s" "transition_table s t = Some g" "hooks_in ms n = Some hs"
    and "\<And>h. for_transition hs t = Some h \<Longrightarrow> env n h = Returned None"
  shows "fst (drive_machine env t n ms) = None"
proof -
  obtain l where l: "ms n = Some l" "lc_state l = s" "lc_hooks l = hs" using assms(1,3) by (auto simp: state_in_def hooks_in_def)
  have "run_hook (lc_node l) (env n) (for_transition hs t) = None"
    using assms(4) by (auto simp: run_hook_def split: option.split)
  with l assms(2) show ?thesis by (simp add: drive_machine_def transition_cases lc_finish_def Let_def)
qed

lemma table_edges:
  "transition_table StateUnconfigured TransitionConfigure = Some StateInactive"
  "transition_table StateInactive TransitionActivate = Some StateActive"
  "transition_table StateActive TransitionDeactivate = Some StateInactive"
  by (simp_all add: transition_table_def transition_entries_def)

lemma shutdown_edges:
  "shutdown_for s = Some t \<Longrightarrow> transition_table s t = Some StateFinalized \<and> for_transition hs t = shutdown hs"
  by (auto simp: shutdown_for_def transition_table_def transition_entries_def for_transition_def split: if_splits)

section \<open>Bringing up\<close>

definition passes :: "string list \<Rightarrow> (string \<times> ltransition) list" where
  "passes ns = concat (map (\<lambda>n. [(n, TransitionConfigure), (n, TransitionActivate)]) ns)"

text \<open>A bring-up went through \<open>xs\<close> and, with an error, stopped at the first of \<open>ys\<close>.\<close>

definition stopped_at :: "'h machines \<Rightarrow> 'h machines \<Rightarrow> (string \<times> ltransition) list \<Rightarrow> string list \<Rightarrow> string list \<Rightarrow> goerror option \<Rightarrow> bool" where
  "stopped_at ms ms' evs xs ys e \<longleftrightarrow>
     (case e of
        None \<Rightarrow> ys = [] \<and> evs = passes xs
      | Some err \<Rightarrow>
          (case ys of
             [] \<Rightarrow> False
           | n # zs \<Rightarrow> (\<forall>m \<in> set zs. ms' m = ms m) \<and> (evs = passes xs @ [(n, TransitionConfigure)] \<or> evs = passes xs @ [(n, TransitionConfigure), (n, TransitionActivate)])
               \<and> ((\<exists>e'. err = bring_up_failed n TransitionConfigure e') \<and> state_in ms' n = Some StateUnconfigured
                  \<or> (\<exists>e'. err = bring_up_failed n TransitionActivate e') \<and> state_in ms' n = Some StateInactive)))"

lemma stopped_at_Cons:
  "stopped_at ms2 ms' evs xs ys e \<Longrightarrow> \<forall>m \<in> set ys. ms2 m = ms m \<Longrightarrow>
   stopped_at ms ms' ((n, TransitionConfigure) # (n, TransitionActivate) # evs) (n # xs) ys e"
  by (auto simp: stopped_at_def passes_def split: option.splits list.splits)

text \<open>The machines after a sequence of transitions was tried.\<close>

definition driven :: "(string \<Rightarrow> 'h \<Rightarrow> hook_run) \<Rightarrow> (string \<times> ltransition) list \<Rightarrow> 'h machines \<Rightarrow> 'h machines" where
  "driven env evs ms = foldl (\<lambda>ms (n, t). snd (drive_machine env t n ms)) ms evs"

lemma driven_simps [simp]:
  "driven env [] ms = ms" "driven env ((n, t) # evs) ms = driven env evs (snd (drive_machine env t n ms))"
  by (simp_all add: driven_def)

lemma driven_other: "n \<notin> fst ` set evs \<Longrightarrow> driven env evs ms n = ms n"
proof (induction evs arbitrary: ms)
  case (Cons p evs)
  obtain k t where p: "p = (k, t)" by (cases p)
  with Cons.prems have "n \<noteq> k" "n \<notin> fst ` set evs" by auto
  moreover from this have "snd (drive_machine env t k ms) n = ms n" by (auto simp: drive_machine_def split: option.split prod.split)
  ultimately show ?case using Cons.IH p by simp
qed simp

lemma bring_up_nodes_events:
  "bring_up_nodes env ns ms = (e, ms', evs) \<Longrightarrow> ms' = driven env evs ms \<and> fst ` set evs \<subseteq> set ns"
proof (induction ns arbitrary: ms e evs)
  case (Cons n ns)
  then show ?case by (fastforce split: prod.splits option.splits)
qed simp

text \<open>When a node is configured, each node that was activated before it is active.\<close>

lemma bring_up_nodes_active:
  assumes "distinct ns" "\<forall>n \<in> set ns. state_in ms n = Some StateUnconfigured" "bring_up_nodes env ns ms = (e, ms', evs)"
    and "evs = as @ (x, TransitionConfigure) # bs" "(m, TransitionActivate) \<in> set as"
  shows "state_in (driven env as ms) m = Some StateActive"
  using assms
proof (induction ns arbitrary: ms e evs as)
  case (Cons n ns)
  obtain e1 ms1 where d1: "drive_machine env TransitionConfigure n ms = (e1, ms1)" by fastforce
  obtain e2 ms2 where d2: "drive_machine env TransitionActivate n ms1 = (e2, ms2)" by fastforce
  have s0: "state_in ms n = Some StateUnconfigured" using Cons.prems(2) by simp
  note c1 = drive_machine_state[OF s0 table_edges(1) d1]
  from Cons.prems(4,5) obtain p as1 where as1: "as = p # as1" by (cases as) simp_all
  have "e1 = None" using Cons.prems(3-5) d1 as1 by (auto split: option.splits)
  then have s1: "state_in ms1 n = Some StateInactive" using c1(1) by simp
  note c2 = drive_machine_state[OF s1 table_edges(2) d2]
  from Cons.prems(3-5) d1 d2 \<open>e1 = None\<close> as1 obtain as2 where as2: "as = (n, TransitionConfigure) # (n, TransitionActivate) # as2"
    by (cases as1) (auto split: option.splits prod.splits)
  then have "e2 = None" using Cons.prems(3,4) d1 d2 \<open>e1 = None\<close> by (auto split: option.splits)
  obtain evs' where r: "bring_up_nodes env ns ms2 = (e, ms', evs')" "evs' = as2 @ (x, TransitionConfigure) # bs"
    using Cons.prems(3,4) d1 d2 \<open>e1 = None\<close> \<open>e2 = None\<close> as2 by (auto split: prod.splits)
  have after: "driven env as ms = driven env as2 ms2" by (simp add: as2 d1 d2)
  show ?case
  proof (cases "m = n")
    case True
    have "n \<notin> fst ` set as2" using bring_up_nodes_events[OF r(1)] r(2) Cons.prems(1) by auto
    from driven_other[OF this, of env ms2] c2(1) \<open>e2 = None\<close> show ?thesis by (simp add: after True state_in_def)
  next
    case False
    have "state_in ms2 k = state_in ms k" if "k \<in> set ns" for k
    proof -
      have "k \<noteq> n" using that Cons.prems(1) by auto
      then show ?thesis using c1(2)[of k] c2(2)[of k] by (simp add: state_in_def)
    qed
    then have "\<forall>k \<in> set ns. state_in ms2 k = Some StateUnconfigured" using Cons.prems(2) by simp
    moreover have "(m, TransitionActivate) \<in> set as2" using Cons.prems(5) False as2 by auto
    ultimately show ?thesis using Cons.IH[OF _ _ r] Cons.prems(1) after by simp
  qed
qed simp

lemma bring_up_nodes_outcome:
  assumes "distinct ns" "\<forall>n \<in> set ns. state_in ms n = Some StateUnconfigured" "bring_up_nodes env ns ms = (e, ms', evs)"
  shows "(\<forall>m. m \<notin> set ns \<longrightarrow> ms' m = ms m) \<and> hooks_in ms' = hooks_in ms
    \<and> (\<exists>xs ys. ns = xs @ ys \<and> (\<forall>n \<in> set xs. state_in ms' n = Some StateActive) \<and> stopped_at ms ms' evs xs ys e)"
  using assms
proof (induction ns arbitrary: ms evs)
  case Nil
  then show ?case by (simp add: stopped_at_def passes_def)
next
  case (Cons n ns)
  obtain e1 ms1 where d1: "drive_machine env TransitionConfigure n ms = (e1, ms1)" by fastforce
  have s0: "state_in ms n = Some StateUnconfigured" using Cons.prems(2) by simp
  note c1 = drive_machine_state[OF s0 table_edges(1) d1]
  show ?case
  proof (cases e1)
    case (Some e1')
    with Cons.prems(3) d1 have r: "e = Some (bring_up_failed n TransitionConfigure e1')" "ms' = ms1" "evs = [(n, TransitionConfigure)]"
      by auto
    have "\<forall>m \<in> set ns. ms' m = ms m" using c1(2) Cons.prems(1) r(2) by (metis distinct.simps(2))
    then have "stopped_at ms ms' evs [] (n # ns) e" using c1(1) Some r by (auto simp: stopped_at_def passes_def)
    moreover have "\<forall>m. m \<notin> set (n # ns) \<longrightarrow> ms' m = ms m" "hooks_in ms' = hooks_in ms" using c1 r(2) by auto
    ultimately show ?thesis by (metis append_Nil empty_iff empty_set)
  next
    case None
    then have s1: "state_in ms1 n = Some StateInactive" using c1(1) by simp
    obtain e2 ms2 where d2: "drive_machine env TransitionActivate n ms1 = (e2, ms2)" by fastforce
    note c2 = drive_machine_state[OF s1 table_edges(2) d2]
    have other: "ms2 m = ms m" if "m \<noteq> n" for m using that c1(2) c2(2) by metis
    show ?thesis
    proof (cases e2)
      case (Some e2')
      with Cons.prems(3) d1 d2 None have r: "e = Some (bring_up_failed n TransitionActivate e2')" "ms' = ms2"
        "evs = [(n, TransitionConfigure), (n, TransitionActivate)]" by auto
      have "\<forall>m \<in> set ns. ms' m = ms m" using other Cons.prems(1) r(2) by (metis distinct.simps(2))
      then have "stopped_at ms ms' evs [] (n # ns) e" using c2(1) Some r by (auto simp: stopped_at_def passes_def)
      moreover have "\<forall>m. m \<notin> set (n # ns) \<longrightarrow> ms' m = ms m" "hooks_in ms' = hooks_in ms" using c1(3) c2(3) other r(2) by auto
      ultimately show ?thesis by (metis append_Nil empty_iff empty_set)
    next
      case None
      obtain evs' where r: "bring_up_nodes env ns ms2 = (e, ms', evs')" "evs = (n, TransitionConfigure) # (n, TransitionActivate) # evs'"
        using Cons.prems(3) d1 d2 \<open>e1 = None\<close> None by (auto split: prod.splits)
      have u: "\<forall>m \<in> set ns. state_in ms2 m = Some StateUnconfigured"
      proof
        fix m assume "m \<in> set ns"
        with Cons.prems(1,2) have "m \<noteq> n" "state_in ms m = Some StateUnconfigured" by auto
        with other show "state_in ms2 m = Some StateUnconfigured" by (simp add: state_in_def)
      qed
      have "distinct ns" using Cons.prems(1) by simp
      from Cons.IH[OF this u r(1)] obtain xs ys where ih: "\<forall>m. m \<notin> set ns \<longrightarrow> ms' m = ms2 m" "hooks_in ms' = hooks_in ms2"
        "ns = xs @ ys" "\<forall>n \<in> set xs. state_in ms' n = Some StateActive" "stopped_at ms2 ms' evs' xs ys e"
        by (elim conjE exE) (rule that)
      have "state_in ms' n = Some StateActive" using ih(1) Cons.prems(1) c2(1) None by (simp add: state_in_def)
      then have "\<forall>m \<in> set (n # xs). state_in ms' m = Some StateActive" using ih(4) by simp
      moreover have "\<forall>m \<in> set ys. ms2 m = ms m" using ih(3) Cons.prems(1) other by (metis UnCI distinct.simps(2) set_append)
      then have "stopped_at ms ms' evs (n # xs) ys e" unfolding r(2) by (rule stopped_at_Cons[OF ih(5)])
      moreover have "\<forall>m. m \<notin> set (n # ns) \<longrightarrow> ms' m = ms m" "hooks_in ms' = hooks_in ms" using ih(1,2) other c1(3) c2(3) by auto
      ultimately show ?thesis using ih(3) by (metis append_Cons)
    qed
  qed
qed

section \<open>Shutting down\<close>

lemma shut_down_node_final:
  assumes "state_in ms n = Some s" "s \<in> primary" "hooks_in ms n = Some hs" "\<forall>h. shutdown hs = Some h \<longrightarrow> env n h = Returned None"
  shows "state_in (shut_down_node env n ms) n = Some StateFinalized" "\<And>m. m \<noteq> n \<Longrightarrow> shut_down_node env n ms m = ms m"
    "hooks_in (shut_down_node env n ms) = hooks_in ms"
proof -
  define ms1 where "ms1 = (if map_option lc_state (ms n) = Some StateActive then snd (drive_machine env TransitionDeactivate n ms) else ms)"
  obtain e d where drive: "drive_machine env TransitionDeactivate n ms = (e, d)" by fastforce
  have "state_in ms1 n \<in> Some ` primary \<and> (\<forall>m. m \<noteq> n \<longrightarrow> ms1 m = ms m) \<and> hooks_in ms1 = hooks_in ms"
  proof (cases "s = StateActive")
    case True
    with assms(1) have "state_in ms n = Some StateActive" by simp
    note c = drive_machine_state[OF this table_edges(3) drive]
    have "ms1 = d" using True assms(1) drive by (simp add: ms1_def state_in_def)
    then show ?thesis using c by (auto simp: primary_def)
  next
    case False
    then have "ms1 = ms" using assms(1) by (auto simp: ms1_def state_in_def)
    then show ?thesis using assms(1,2) by simp
  qed
  then obtain s1 where s1: "state_in ms1 n = Some s1" "s1 \<in> primary" "\<forall>m. m \<noteq> n \<longrightarrow> ms1 m = ms m" "hooks_in ms1 = hooks_in ms" by auto
  then obtain l where l: "ms1 n = Some l" "lc_state l = s1" by (auto simp: state_in_def)
  have r: "shut_down_node env n ms = (case shutdown_for s1 of None \<Rightarrow> ms1 | Some t \<Rightarrow> snd (drive_machine env t n ms1))"
    using l unfolding shut_down_node_def ms1_def[symmetric] by (simp add: Let_def)
  have "state_in (shut_down_node env n ms) n = Some StateFinalized \<and> (\<forall>m. m \<noteq> n \<longrightarrow> shut_down_node env n ms m = ms m)
    \<and> hooks_in (shut_down_node env n ms) = hooks_in ms"
  proof (cases "shutdown_for s1")
    case None
    then have "s1 = StateFinalized" using s1(2) by (auto simp: shutdown_for_def primary_def split: if_splits)
    with None r s1 show ?thesis by simp
  next
    case (Some t)
    note e = shutdown_edges[OF Some, of hs]
    obtain f ms2 where d: "drive_machine env t n ms1 = (f, ms2)" by fastforce
    have hs: "hooks_in ms1 n = Some hs" using s1(4) assms(3) by simp
    have "env n h = Returned None" if "for_transition hs t = Some h" for h using e assms(4) that by simp
    then have "f = None" using drive_machine_ok[OF s1(1) conjunct1[OF e] hs] d by (metis fst_conv)
    with drive_machine_state[OF s1(1) _ d] e s1 r Some d show ?thesis by simp
  qed
  then show "state_in (shut_down_node env n ms) n = Some StateFinalized" "\<And>m. m \<noteq> n \<Longrightarrow> shut_down_node env n ms m = ms m"
    "hooks_in (shut_down_node env n ms) = hooks_in ms" by auto
qed

lemma shut_down_all:
  assumes "distinct ns" "\<forall>n \<in> set ns. state_in ms n \<in> Some ` primary"
    and "\<forall>n \<in> set ns. \<exists>hs. hooks_in ms n = Some hs \<and> (\<forall>h. shutdown hs = Some h \<longrightarrow> env n h = Returned None)"
  shows "(\<forall>n \<in> set ns. state_in (foldl (\<lambda>ms n. shut_down_node env n ms) ms ns) n = Some StateFinalized)
    \<and> (\<forall>m. m \<notin> set ns \<longrightarrow> foldl (\<lambda>ms n. shut_down_node env n ms) ms ns m = ms m)"
  using assms
proof (induction ns arbitrary: ms)
  case (Cons n ns)
  obtain s hs where n: "state_in ms n = Some s" "s \<in> primary" "hooks_in ms n = Some hs" "\<forall>h. shutdown hs = Some h \<longrightarrow> env n h = Returned None"
    using Cons.prems(2,3) by auto
  define ms1 where "ms1 = shut_down_node env n ms"
  note f = shut_down_node_final[of ms n s hs env, OF n, folded ms1_def]
  have "n \<notin> set ns" "distinct ns" using Cons.prems(1) by simp_all
  then have other: "ms1 m = ms m" if "m \<in> set ns" for m using f(2) that by metis
  have "\<forall>n \<in> set ns. state_in ms1 n \<in> Some ` primary" using Cons.prems(2) other by (simp add: state_in_def)
  moreover have "\<forall>n \<in> set ns. \<exists>hs. hooks_in ms1 n = Some hs \<and> (\<forall>h. shutdown hs = Some h \<longrightarrow> env n h = Returned None)"
    using Cons.prems(3) f(3) by simp
  ultimately have ih: "\<forall>n \<in> set ns. state_in (foldl (\<lambda>ms n. shut_down_node env n ms) ms1 ns) n = Some StateFinalized"
    "\<forall>m. m \<notin> set ns \<longrightarrow> foldl (\<lambda>ms n. shut_down_node env n ms) ms1 ns m = ms1 m"
    using Cons.IH[OF \<open>distinct ns\<close>] by blast+
  have "state_in (foldl (\<lambda>ms n. shut_down_node env n ms) ms1 ns) n = Some StateFinalized"
    using ih(2) f(1) \<open>n \<notin> set ns\<close> by (simp add: state_in_def)
  with ih f(2) show ?case by (simp add: ms1_def[symmetric])
qed simp

section \<open>What wiring leaves\<close>

lemma local_bind_deps: "local_bind r rt = Inr rt' \<Longrightarrow> rt_deps rt' = rt_deps rt"
  by (auto simp: local_bind_def bind_result_Inr split: option.splits)

lemma wrap_Inr [simp]: "wrap f n r = Inr x \<longleftrightarrow> r = Inr x"
  by (simp add: wrap_def split: sum.split)

definition struct_name :: "'h node_struct \<Rightarrow> string" where "struct_name ns = snake_case (ns_type ns)"
definition struct_consumes :: "'h node_struct \<Rightarrow> string set" where "struct_consumes ns = \<Union> (field_consumes ` set (ns_fields ns))"
definition struct_provides :: "'h node_struct \<Rightarrow> string set" where "struct_provides ns = \<Union> (field_provides ` set (ns_fields ns))"

lemma wire_node_recorded:
  assumes "wire_node pf tr name ns rt = Inr (n, rt')"
  shows "recorded name (struct_consumes ns) (struct_provides ns) rt rt' \<and> fst n = name"
proof -
  obtain r1 r2 r3 r4 hs where w: "declares tr (Declare_node name) rt = Inr r1"
    "bind_fields pf tr name (ns_fields ns) (r1\<lparr>rt_deps := snd (deps_for name (rt_deps r1))\<rparr>) = Inr r2"
    "declare_all tr (lifecycle_calls name) r2 = Inr r3" "declare_all tr (param_calls name) r3 = Inr r4" "local_bind (ns_mission ns) r4 = Inr rt'" "n = (name, hs)"
    using assms by (auto simp: wire_node_def bind_result_Inr)
  have "recorded name {} {} rt (r1\<lparr>rt_deps := snd (deps_for name (rt_deps r1))\<rparr>)"
    using rt_deps_declares[OF w(1)]
    by (auto simp: recorded_def deps_for_def consumes_of_def provides_of_def new_node_deps_def split: option.splits)
  from recorded_trans[OF this fields_recorded[OF w(2)]] have "recorded name (struct_consumes ns) (struct_provides ns) rt r2"
    by (simp add: struct_consumes_def struct_provides_def)
  moreover have "rt_deps rt' = rt_deps r2" using declare_all_deps[OF w(3)] declare_all_deps[OF w(4)] local_bind_deps[OF w(5)] by simp
  then have "recorded name {} {} r2 rt'" by (rule recorded_same)
  ultimately show ?thesis using recorded_trans w(6) by fastforce
qed

definition selected :: "string \<Rightarrow> 'h node_struct list \<Rightarrow> 'h node_struct list" where
  "selected only nss = filter (\<lambda>ns. only = [] \<or> struct_name ns = only) nss"

lemma wire_nodes_recorded:
  assumes "wire_nodes pf tr only nss rt = Inr (wired, rt')" "distinct (map struct_name nss)"
  shows "map fst wired = map struct_name (selected only nss) \<and> (\<forall>m. m \<notin> struct_name ` set nss \<longrightarrow> rt_deps rt' m = rt_deps rt m)
    \<and> (\<forall>ns \<in> set (selected only nss). recorded (struct_name ns) (struct_consumes ns) (struct_provides ns) rt
        (rt'\<lparr>rt_deps := (rt_deps rt)(struct_name ns := rt_deps rt' (struct_name ns))\<rparr>))"
  using assms
proof (induction nss arbitrary: rt wired)
  case Nil
  then show ?case by (simp add: selected_def)
next
  case (Cons ns nss)
  show ?case
  proof (cases "only \<noteq> [] \<and> struct_name ns \<noteq> only")
    case True
    with Cons show ?thesis by (auto simp: selected_def struct_name_def)
  next
    case False
    then obtain n r wired_rest where w: "wire_node pf tr (struct_name ns) ns rt = Inr (n, r)" "wire_nodes pf tr only nss r = Inr (wired_rest, rt')"
      "wired = n # wired_rest"
      using Cons.prems(1) by (auto simp: struct_name_def Let_def bind_result_Inr)
    note r = wire_node_recorded[OF w(1)]
    have d: "struct_name ns \<notin> struct_name ` set nss" "distinct (map struct_name nss)" using Cons.prems(2) by auto
    note ih = Cons.IH[OF w(2) d(2)]
    have keep: "rt_deps r m = rt_deps rt m" if "m \<noteq> struct_name ns" for m using r that by (simp add: recorded_def)
    have "rt_deps rt' (struct_name ns) = rt_deps r (struct_name ns)" using ih d(1) by blast
    with r have first: "recorded (struct_name ns) (struct_consumes ns) (struct_provides ns) rt
        (rt'\<lparr>rt_deps := (rt_deps rt)(struct_name ns := rt_deps rt' (struct_name ns))\<rparr>)"
      by (simp add: recorded_def consumes_of_def provides_of_def)
    have "recorded (struct_name x) (struct_consumes x) (struct_provides x) rt
        (rt'\<lparr>rt_deps := (rt_deps rt)(struct_name x := rt_deps rt' (struct_name x))\<rparr>)" if "x \<in> set (selected only nss)" for x
    proof -
      have "x \<in> set nss" using that by (simp add: selected_def)
      then have "struct_name x \<noteq> struct_name ns" using d(1) by (metis image_eqI)
      with keep have "rt_deps r (struct_name x) = rt_deps rt (struct_name x)" by simp
      moreover have "recorded (struct_name x) (struct_consumes x) (struct_provides x) r
        (rt'\<lparr>rt_deps := (rt_deps r)(struct_name x := rt_deps rt' (struct_name x))\<rparr>)" using ih that by blast
      ultimately show ?thesis by (simp add: recorded_def consumes_of_def provides_of_def)
    qed
    moreover have sel: "selected only (ns # nss) = ns # selected only nss" using False by (auto simp: selected_def)
    ultimately have "\<forall>x \<in> set (selected only (ns # nss)). recorded (struct_name x) (struct_consumes x) (struct_provides x) rt
        (rt'\<lparr>rt_deps := (rt_deps rt)(struct_name x := rt_deps rt' (struct_name x))\<rparr>)"
      using first by simp
    moreover have "map fst wired = map struct_name (selected only (ns # nss))"
      using ih r w(3) unfolding sel by simp
    moreover have "\<forall>m. m \<notin> struct_name ` set (ns # nss) \<longrightarrow> rt_deps rt' m = rt_deps rt m" using ih keep by simp
    ultimately show ?thesis by blast
  qed
qed

lemma wire_nodes_hooks:
  "wire_nodes pf tr only nss rt = Inr (wired, rt') \<Longrightarrow> (n, hs) \<in> set wired \<Longrightarrow> \<exists>ns \<in> set nss. struct_name ns = n \<and> ns_hooks ns = Inr hs"
proof (induction nss arbitrary: rt wired)
  case (Cons ns nss)
  show ?case
  proof (cases "only \<noteq> [] \<and> struct_name ns \<noteq> only")
    case True
    with Cons show ?thesis by (auto simp: struct_name_def)
  next
    case False
    then obtain k r ws where w: "wire_node pf tr (struct_name ns) ns rt = Inr (k, r)" "wire_nodes pf tr only nss r = Inr (ws, rt')"
      "wired = k # ws"
      using Cons.prems(1) by (auto simp: struct_name_def Let_def bind_result_Inr)
    have "fst k = struct_name ns \<and> ns_hooks ns = Inr (snd k)" using w(1) by (auto simp: wire_node_def bind_result_Inr)
    with Cons.IH[OF w(2)] Cons.prems(2) w(3) show ?thesis by auto
  qed
qed simp

text \<open>What is known of an application that was built.\<close>

lemma new_app_built:
  assumes "new_app pf tr start t tree description sim only nss = Inr a" "distinct (map struct_name nss)"
  shows "map fst (ap_nodes a) = map struct_name (selected only nss)"
    and "n \<in> set (map fst (ap_nodes a)) \<Longrightarrow> state_in (machines_of (ap_nodes a)) n = Some StateUnconfigured
      \<and> (\<exists>hs. hooks_in (machines_of (ap_nodes a)) n = Some hs \<and> (\<exists>ns \<in> set nss. struct_name ns = n \<and> ns_hooks ns = Inr hs))"
    and "x \<in> set (selected only nss) \<Longrightarrow> y \<in> set (selected only nss) \<Longrightarrow> struct_name x \<noteq> struct_name y
      \<Longrightarrow> c \<in> struct_consumes x \<Longrightarrow> c \<in> struct_provides y
      \<Longrightarrow> (struct_name x, struct_name y) \<in> depends (map fst (ap_nodes a)) (rt_deps (ap_runtime a))"
proof -
  obtain rt wired rt' where w: "wire_nodes pf tr only nss rt = Inr (wired, rt')" "a = \<lparr>ap_nodes = map (node_machine (rt_on_active rt')) wired, ap_runtime = rt'\<rparr>"
    using assms(1) by (auto simp: new_app_def bind_result_Inr split: if_splits option.splits)
  note r = wire_nodes_recorded[OF w(1) assms(2)]
  have fst: "map fst (ap_nodes a) = map fst wired" by (simp add: w(2) node_machine_def)
  then show names: "map fst (ap_nodes a) = map struct_name (selected only nss)" using r by simp
  have dist: "distinct (map fst (ap_nodes a))" using assms(2) by (simp add: names selected_def distinct_map_filter)
  show "state_in (machines_of (ap_nodes a)) n = Some StateUnconfigured
      \<and> (\<exists>hs. hooks_in (machines_of (ap_nodes a)) n = Some hs \<and> (\<exists>ns \<in> set nss. struct_name ns = n \<and> ns_hooks ns = Inr hs))"
    if "n \<in> set (map fst (ap_nodes a))"
  proof -
    obtain l where "(n, l) \<in> set (ap_nodes a)" using \<open>n \<in> _\<close> by auto
    moreover from this obtain hs where hs: "(n, hs) \<in> set wired" "lc_state l = StateUnconfigured" "lc_hooks l = hs"
      by (auto simp: w(2) node_machine_def new_lifecycle_def)
    moreover have "machines_of (ap_nodes a) n = Some l"
      using calculation(1) dist by (simp add: machines_of_def map_of_is_SomeI rev_map[symmetric])
    ultimately show ?thesis using wire_nodes_hooks[OF w(1) hs(1)] by (simp add: state_in_def hooks_in_def)
  qed
  assume x: "x \<in> set (selected only nss)" "c \<in> struct_consumes x" and y: "y \<in> set (selected only nss)" "c \<in> struct_provides y"
    and "struct_name x \<noteq> struct_name y"
  have "c \<in> consumes_of rt' (struct_name x)" "c \<in> provides_of rt' (struct_name y)"
    using r x y by (auto simp: recorded_def consumes_of_def provides_of_def)
  then have "\<exists>dx dy. rt_deps rt' (struct_name x) = Some dx \<and> rt_deps rt' (struct_name y) = Some dy \<and> c \<in> set (consumes dx) \<and> c \<in> set (provides dy)"
    by (auto simp: consumes_of_def provides_of_def split: option.splits)
  moreover have "struct_name x \<in> set (map fst (ap_nodes a))" "struct_name y \<in> set (map fst (ap_nodes a))"
    using x(1) y(1) by (simp_all add: names)
  ultimately show "(struct_name x, struct_name y) \<in> depends (map fst (ap_nodes a)) (rt_deps (ap_runtime a))"
    using \<open>struct_name x \<noteq> _\<close> w(2) by (auto simp: depends_def)
qed

lemma new_app_consumes:
  assumes "new_app pf tr start t tree description sim only nss = Inr a" "distinct (map struct_name nss)" "x \<in> set (selected only nss)"
  shows "consumes_of (ap_runtime a) (struct_name x) = struct_consumes x"
proof -
  obtain rt wired where w: "wire_nodes pf tr only nss rt = Inr (wired, ap_runtime a)" "rt_deps rt = Map.empty"
    using assms(1) by (auto simp: new_app_def new_runtime_def bind_result_Inr dest!: rt_deps_declares split: if_splits option.splits)
  from wire_nodes_recorded[OF w(1) assms(2)] assms(3) w(2) show ?thesis
    by (auto simp: recorded_def consumes_of_def)
qed

section \<open>From fields to a running process\<close>

lemma passes_split:
  "passes ns = as @ (n, TransitionConfigure) # cs \<Longrightarrow> \<exists>us vs. ns = us @ n # vs \<and> as = passes us"
proof (induction ns arbitrary: as)
  case (Cons k ns)
  show ?case
  proof (cases as)
    case Nil
    with Cons.prems show ?thesis by (auto simp: passes_def intro!: exI[of _ "[]"])
  next
    case (Cons b bs)
    with Cons.prems have b: "b = (k, TransitionConfigure)" "(k, TransitionActivate) # passes ns = bs @ (n, TransitionConfigure) # cs"
      by (simp_all add: passes_def)
    then obtain bs' where "bs = (k, TransitionActivate) # bs'" "passes ns = bs' @ (n, TransitionConfigure) # cs"
      by (cases bs) auto
    moreover from Cons.IH[OF this(2)] obtain us vs where "ns = us @ n # vs" "bs' = passes us" by blast
    ultimately show ?thesis using b(1) Cons by (intro exI[of _ "k # us"] exI[of _ vs]) (simp add: passes_def)
  qed
qed (simp add: passes_def)

lemma stopped_prefix:
  assumes "stopped_at ms ms' evs xs ys e"
  shows "\<exists>rest. evs @ rest = passes (xs @ ys)"
proof (cases e)
  case None
  with assms show ?thesis by (simp add: stopped_at_def)
next
  case (Some err)
  with assms obtain n zs where ys: "ys = n # zs" by (auto simp: stopped_at_def split: list.splits)
  have p: "passes (xs @ ys) = passes xs @ (n, TransitionConfigure) # (n, TransitionActivate) # passes zs" by (simp add: passes_def ys)
  have "evs = passes xs @ [(n, TransitionConfigure)] \<or> evs = passes xs @ [(n, TransitionConfigure), (n, TransitionActivate)]"
    using assms Some ys by (simp add: stopped_at_def)
  with p show ?thesis by auto
qed

lemma app_bring_up_stops:
  assumes "new_app pf tr start t tree description sim only nss = Inr a" "distinct (map struct_name nss)" "app_bring_up env a = (e, ms, evs)"
  shows "\<exists>xs ys. fst (app_order a) = xs @ ys \<and> (\<forall>n \<in> set xs. state_in ms n = Some StateActive)
      \<and> stopped_at (machines_of (ap_nodes a)) ms evs xs ys e"
    and "hooks_in ms = hooks_in (machines_of (ap_nodes a))"
    and "distinct (fst (app_order a))" "set (fst (app_order a)) = set (map fst (ap_nodes a))"
proof -
  note b = new_app_built[OF assms(1,2)]
  have dist: "distinct (map fst (ap_nodes a))" using assms(2) by (simp add: b(1) selected_def distinct_map_filter)
  obtain order cycles where o: "app_order a = (order, cycles)" by fastforce
  from bringup_order_ok[OF dist, of "rt_deps (ap_runtime a)"] o have m: "mset order = mset (map fst (ap_nodes a))"
    by (auto simp: app_order_def)
  show s: "set (fst (app_order a)) = set (map fst (ap_nodes a))" using m o by (metis fst_conv mset_eq_setD)
  show d: "distinct (fst (app_order a))" using m o dist by (metis fst_conv mset_eq_imp_distinct_iff)
  have u: "\<forall>n \<in> set (fst (app_order a)). state_in (machines_of (ap_nodes a)) n = Some StateUnconfigured"
    using b(2) s by blast
  from bring_up_nodes_outcome[OF d u assms(3)[unfolded app_bring_up_def]]
  show "\<exists>xs ys. fst (app_order a) = xs @ ys \<and> (\<forall>n \<in> set xs. state_in ms n = Some StateActive)
      \<and> stopped_at (machines_of (ap_nodes a)) ms evs xs ys e" "hooks_in ms = hooks_in (machines_of (ap_nodes a))"
    by blast+
qed

text \<open>C9. From declarations to a running process: when the process configures a node, every node that publishes
  a topic it subscribes to, serves a service it calls or runs an action it sends goals to is active already, in the machines as
  the transitions before have left them, unless the node is one of those on or behind a dependency cycle. The
  transitions are the only changes bring-up makes.\<close>

theorem providers_active_first:
  assumes "new_app pf tr start t tree description sim only nss = Inr a" "distinct (map struct_name nss)"
    and "app_bring_up env a = (e, ms, evs)" "evs = as @ (struct_name x, TransitionConfigure) # bs"
    and "x \<in> set (selected only nss)" "y \<in> set (selected only nss)" "struct_name x \<noteq> struct_name y"
    and "c \<in> struct_consumes x" "c \<in> struct_provides y" "struct_name x \<notin> set (snd (app_order a))"
  shows "state_in (driven env as (machines_of (ap_nodes a))) (struct_name y) = Some StateActive
    \<and> (struct_name y, TransitionActivate) \<in> set as \<and> ms = driven env evs (machines_of (ap_nodes a))"
proof -
  note b = new_app_built[OF assms(1,2)] and s = app_bring_up_stops[OF assms(1-3)]
  have dist: "distinct (map fst (ap_nodes a))" using assms(2) by (simp add: b(1) selected_def distinct_map_filter)
  obtain xs ys where o: "fst (app_order a) = xs @ ys" "stopped_at (machines_of (ap_nodes a)) ms evs xs ys e" using s(1) by blast
  from stopped_prefix[OF o(2)] obtain rest where "evs @ rest = passes (fst (app_order a))" using o(1) by auto
  then have "passes (fst (app_order a)) = as @ (struct_name x, TransitionConfigure) # bs @ rest" using assms(4) by simp
  from passes_split[OF this] obtain us vs where u: "fst (app_order a) = us @ struct_name x # vs" "as = passes us" by blast
  have dep: "(struct_name x, struct_name y) \<in> depends (map fst (ap_nodes a)) (rt_deps (ap_runtime a))"
    using b(3)[OF assms(5-9)] .
  obtain order cycles where oc: "bringup_order (map fst (ap_nodes a)) (rt_deps (ap_runtime a)) = (order, cycles)" by fastforce
  have "struct_name y \<in> set us"
    using bringup_order_ok[OF dist oc] u(1) assms(10) dep oc by (fastforce simp: app_order_def)
  then have act: "(struct_name y, TransitionActivate) \<in> set as" using u(2) by (auto simp: passes_def)
  have "\<forall>n \<in> set (fst (app_order a)). state_in (machines_of (ap_nodes a)) n = Some StateUnconfigured"
    using b(2) s(4) by blast
  from bring_up_nodes_active[OF s(3) this assms(3)[unfolded app_bring_up_def] assms(4) act]
    bring_up_nodes_events[OF assms(3)[unfolded app_bring_up_def]] act show ?thesis by blast
qed

text \<open>C11. A process always ends clean: whatever bring-up came to - all nodes active, or stopped at one that
  failed - shutting down takes every node to Finalized, provided its shutdown hook succeeds; the other
  hooks may fail.\<close>

theorem process_finalizes:
  assumes "new_app pf tr start t tree description sim only nss = Inr a" "distinct (map struct_name nss)"
    and "app_bring_up env a = (e, ms, evs)"
    and "\<forall>ns \<in> set nss. \<forall>hs h. ns_hooks ns = Inr hs \<and> shutdown hs = Some h \<longrightarrow> env' (struct_name ns) h = Returned None"
  shows "\<forall>n \<in> set (map fst (ap_nodes a)). state_in (app_shut_down env' a ms) n = Some StateFinalized"
proof -
  note b = new_app_built[OF assms(1,2)] and s = app_bring_up_stops[OF assms(1-3)]
  obtain xs ys where o: "fst (app_order a) = xs @ ys" "\<forall>n \<in> set xs. state_in ms n = Some StateActive"
    "stopped_at (machines_of (ap_nodes a)) ms evs xs ys e" using s(1) by blast
  have "state_in ms n \<in> Some ` primary" if n: "n \<in> set (fst (app_order a))" for n
  proof (cases "n \<in> set xs")
    case True
    with o(2) show ?thesis by (simp add: primary_def)
  next
    case False
    with n o(1) have ys: "n \<in> set ys" by simp
    have init: "state_in (machines_of (ap_nodes a)) n = Some StateUnconfigured" using b(2) n s(4) by blast
    obtain err k zs where "e = Some err" "ys = k # zs" using o(3) ys by (auto simp: stopped_at_def split: option.splits list.splits)
    with o(3) ys have "ms n = machines_of (ap_nodes a) n \<or> state_in ms n \<in> {Some StateUnconfigured, Some StateInactive}"
      by (auto simp: stopped_at_def)
    with init show ?thesis by (auto simp: state_in_def primary_def)
  qed
  moreover have "\<exists>hs. hooks_in ms n = Some hs \<and> (\<forall>h. shutdown hs = Some h \<longrightarrow> env' n h = Returned None)"
    if n: "n \<in> set (fst (app_order a))" for n
    using b(2)[of n] n assms(4) unfolding s(2,4) by metis
  ultimately have "\<forall>n \<in> set (rev (fst (app_order a))). state_in (app_shut_down env' a ms) n = Some StateFinalized"
    unfolding app_shut_down_def using s(3) by (intro conjunct1[OF shut_down_all]) simp_all
  then show ?thesis using s(4) by simp
qed

section \<open>The transform tree is published once\<close>

definition sends :: "on_active \<Rightarrow> ('tr, 'v) runtime \<Rightarrow> nat" where
  "sends c rt = count_list (map snd (rt_on_active rt)) c"

text \<open>The state of the tree's publication: the transforms go out when some node publishes them, the description
  goes out with them.\<close>

definition tf_inv :: "('tr, 'v) runtime \<Rightarrow> bool" where
  "tf_inv rt \<longleftrightarrow> sends Send_statics rt = (if rt_tf_publisher rt = [] then 0 else 1)
     \<and> sends Send_description rt = (if rt_description_publisher rt = [] then 0 else 1)
     \<and> (rt_tf_publisher rt = [] \<longrightarrow> rt_description_publisher rt = [])"

definition tf_same :: "('tr, 'v) runtime \<Rightarrow> ('tr, 'v) runtime \<Rightarrow> bool" where
  "tf_same rt rt' \<longleftrightarrow> rt_tf_publisher rt' = rt_tf_publisher rt \<and> rt_description_publisher rt' = rt_description_publisher rt
     \<and> rt_frames rt' = rt_frames rt \<and> sends Send_statics rt' = sends Send_statics rt \<and> sends Send_description rt' = sends Send_description rt"

lemma tf_same_refl: "tf_same rt rt" and tf_same_trans: "tf_same a b \<Longrightarrow> tf_same b c \<Longrightarrow> tf_same a c"
  by (simp_all add: tf_same_def)

lemma tf_same_inv: "tf_same rt rt' \<Longrightarrow> tf_inv rt' = tf_inv rt"
  by (simp add: tf_same_def tf_inv_def)

lemma tf_same_updates:
  "tf_same rt (record_endpoint e rt)" "tf_same rt (note_provides n t rt)" "tf_same rt (note_consumes n t rt)"
  "tf_same rt (rt\<lparr>rt_timers := ts\<rparr>)" "tf_same rt (rt\<lparr>rt_transport := tr\<rparr>)" "tf_same rt (rt\<lparr>rt_deps := d\<rparr>)"
  "tf_same rt (rt\<lparr>rt_on_active := rt_on_active rt @ [(n, Deliver_latched t)]\<rparr>)"
  by (simp_all add: tf_same_def sends_def record_endpoint_def note_provides_def note_consumes_def)

lemma tf_same_declares: "declares tr d rt = Inr rt' \<Longrightarrow> tf_same rt rt'"
  by (auto simp: declares_def Let_def tf_same_updates split: prod.splits option.splits)

lemma tf_same_declare_all: "declare_all tr ds rt = Inr rt' \<Longrightarrow> tf_same rt rt'"
  by (induction ds arbitrary: rt) (auto simp: bind_result_Inr tf_same_refl intro: tf_same_trans dest!: tf_same_declares)

lemma tf_same_local: "local_bind r rt = Inr rt' \<Longrightarrow> tf_same rt rt'"
  by (auto simp: local_bind_def bind_result_Inr tf_same_refl tf_same_updates split: option.splits)

definition is_tf :: "field \<Rightarrow> bool" where "is_tf x \<longleftrightarrow> (\<exists>f. x = TFField f)"

lemma tf_same_field:
  assumes "bind_field pf tr node x rt = Inr rt'" "\<not> is_tf x"
  shows "tf_same rt rt'"
proof (cases x)
  case (SubField f)
  have base: "tf_same rt (record_endpoint e (note_consumes n t rt))" for e n t
    using tf_same_trans[OF tf_same_updates(3) tf_same_updates(1)] .
  have latched: "tf_same rt (record_endpoint e (note_consumes n t rt)\<lparr>rt_on_active := rt_on_active (record_endpoint e (note_consumes n t rt))
      @ [(m, Deliver_latched u)]\<rparr>)" for e n t m u
    using tf_same_trans[OF base tf_same_updates(7)] .
  have "\<exists>r d. declares tr d r = Inr rt' \<and> tf_same rt r"
    using assms SubField
    by (simp add: bind_field_def sub_bind_def Let_def bind_result_Inr split: if_splits) (blast intro: base latched)+
  then show ?thesis using tf_same_trans[OF _ tf_same_declares] by blast
next
  case (PubField f)
  with assms obtain q fr r where "declares tr (Declare_pub \<lparr>ts_topic = fd_tag f ''topic'', ts_qos = q, ts_node = node\<rparr>) rt = Inr r"
    "rt' = record_endpoint (endpoint_entry node EndpointPub (fd_name f) (fd_tag f ''topic'') (ros_type_name f) (qname q) [] fr)
       (note_provides node (fd_tag f ''topic'') r)"
    by (auto simp: bind_field_def pub_bind_def Let_def bind_result_Inr split: if_splits)
  then show ?thesis using tf_same_trans[OF tf_same_declares tf_same_trans[OF tf_same_updates(2) tf_same_updates(1)]] by simp
next
  case (TimerField f)
  with assms obtain p where "rt' = record_endpoint (endpoint_entry node EndpointTimer (fd_name f) (fd_name f) [] [] (fd_tag f ''rate'') [])
       (rt\<lparr>rt_timers := rt_timers rt @ [(node, fd_name f, p)]\<rparr>)"
    by (auto simp: bind_field_def timer_bind_def Let_def bind_result_Inr split: if_splits)
  then show ?thesis using tf_same_trans[OF tf_same_updates(4) tf_same_updates(1)] by simp
next
  case (SvcField f)
  with assms have "declares tr (Declare_srv \<lparr>ss_service = fd_tag f ''service'', ss_node = node, ss_timeout = 0\<rparr>)
      (record_endpoint (endpoint_entry node EndpointService (fd_name f) (fd_tag f ''service'') (ros_type_name f) [] [] [])
        (note_provides node (fd_tag f ''service'') rt)) = Inr rt'"
    by (auto simp: bind_field_def svc_bind_def Let_def bind_result_Inr split: if_splits)
  from tf_same_declares[OF this] show ?thesis
    by (rule tf_same_trans[OF tf_same_trans[OF tf_same_updates(2) tf_same_updates(1)]])
next
  case (ClientField f)
  with assms obtain d where "declares tr (Declare_client \<lparr>ss_service = fd_tag f ''service'', ss_node = node, ss_timeout = d\<rparr>)
      (record_endpoint (endpoint_entry node EndpointClient (fd_name f) (fd_tag f ''service'') (ros_type_name f) [] [] [])
        (note_consumes node (fd_tag f ''service'') rt)) = Inr rt'"
    by (auto simp: bind_field_def client_bind_def Let_def bind_result_Inr split: if_splits)
  from tf_same_declares[OF this] show ?thesis
    by (rule tf_same_trans[OF tf_same_trans[OF tf_same_updates(3) tf_same_updates(1)]])
next
  case (ActionField f)
  with assms obtain ty where "declare_all tr (action_server_calls node (fd_tag f ''action''))
      (record_endpoint (endpoint_entry node EndpointAction (fd_name f) (fd_tag f ''action'') ty [] [] []) (note_provides node (fd_tag f ''action'') rt)) = Inr rt'"
    by (auto simp: bind_field_def action_bind_def Let_def bind_result_Inr split: if_splits option.splits)
  from tf_same_declare_all[OF this] show ?thesis
    by (rule tf_same_trans[OF tf_same_trans[OF tf_same_updates(2) tf_same_updates(1)]])
next
  case (ActionClientField f)
  with assms obtain ty d where "declare_all tr (action_client_calls node (fd_tag f ''action'') d)
      (record_endpoint (endpoint_entry node EndpointActionClient (fd_name f) (fd_tag f ''action'') ty [] [] []) (note_consumes node (fd_tag f ''action'') rt)) = Inr rt'"
    by (auto simp: bind_field_def action_client_bind_def Let_def bind_result_Inr split: if_splits option.splits)
  from tf_same_declare_all[OF this] show ?thesis
    by (rule tf_same_trans[OF tf_same_trans[OF tf_same_updates(3) tf_same_updates(1)]])
next
  case (ManagedField f)
  with assms obtain d ns r e where "declare_all tr (managed_calls node d ns) rt = Inr r" "rt' = record_endpoint e r"
    by (auto simp: bind_field_def managed_bind_def bind_result_Inr)
  then show ?thesis using tf_same_trans[OF tf_same_declare_all tf_same_updates(1)] by blast
next
  case (LocalField f r)
  with assms(1) show ?thesis by (simp add: bind_field_def tf_same_local)
next
  case (TFField f)
  with assms(2) show ?thesis by (simp add: is_tf_def)
qed

lemma tf_inv_description:
  assumes "tf_inv rt" "rt_tf_publisher rt = []" "node \<noteq> []"
  shows "tf_inv ((publish_description tr node (rt\<lparr>rt_tf_publisher := node\<rparr>))\<lparr>rt_on_active :=
      rt_on_active (publish_description tr node (rt\<lparr>rt_tf_publisher := node\<rparr>)) @ [(node, Send_statics)]\<rparr>)"
    and "rt_tf_publisher (publish_description tr node (rt\<lparr>rt_tf_publisher := node\<rparr>)) = node"
  using assms
  by (auto simp: publish_description_def Let_def tf_inv_def sends_def record_endpoint_def note_provides_def split: option.split prod.split)

lemma tf_inv_field:
  assumes "bind_field pf tr node x rt = Inr rt'" "tf_inv rt" "node \<noteq> []"
  shows "tf_inv rt' \<and> rt_frames rt' = rt_frames rt
    \<and> (rt_tf_publisher rt' \<noteq> [] \<longleftrightarrow> rt_tf_publisher rt \<noteq> [] \<or> is_tf x \<and> published (rt_frames rt) \<noteq> [])"
proof (cases "is_tf x")
  case False
  from tf_same_field[OF assms(1) False] show ?thesis using assms(2) tf_same_inv False by (auto simp: tf_same_def)
next
  case True
  then obtain f where x: "x = TFField f" by (auto simp: is_tf_def)
  define r1 where "r1 = record_endpoint (endpoint_entry node EndpointTF (fd_name f) tf_static_topic ''tf2_msgs/msg/TFMessage'' []
                 (describe_frames (rt_frames rt)) []) rt"
  have same: "tf_same rt r1" by (simp add: r1_def tf_same_updates)
  then have r1: "tf_inv r1" "rt_tf_publisher r1 = rt_tf_publisher rt" "rt_frames r1 = rt_frames rt"
    using assms(2) tf_same_inv by (auto simp: tf_same_def)
  show ?thesis
  proof (cases "published (rt_frames rt) = [] \<or> rt_tf_publisher r1 \<noteq> []")
    case True
    then have "rt' = r1" using assms(1) x by (simp add: bind_field_def tf_bind_def Let_def r1_def[symmetric])
    with True r1 show ?thesis by auto
  next
    case False
    define r2 where "r2 = publish_description tr node (r1\<lparr>rt_tf_publisher := node\<rparr>)"
    obtain q where q: "qos_profile ''transient'' = Some q" using transient_profile by blast
    from False assms(1) x obtain r3 where r3: "declares tr (Declare_pub \<lparr>ts_topic = tf_static_topic, ts_qos = q, ts_node = node\<rparr>) r2 = Inr r3"
      "rt' = (note_provides node tf_static_topic r3)\<lparr>rt_on_active := rt_on_active r3 @ [(node, Send_statics)]\<rparr>"
      using q by (auto simp: bind_field_def tf_bind_def Let_def r1_def[symmetric] r2_def[symmetric] bind_result_Inr)
    have d: "tf_inv (r2\<lparr>rt_on_active := rt_on_active r2 @ [(node, Send_statics)]\<rparr>)" "rt_tf_publisher r2 = node"
      unfolding r2_def using False by (intro tf_inv_description r1(1) assms(3); simp)+
    have "rt_frames r2 = rt_frames r1"
      by (simp add: r2_def publish_description_def Let_def record_endpoint_def note_provides_def split: option.split prod.split)
    moreover have "tf_same r2 r3" using r3(1) by (rule tf_same_declares)
    ultimately have "tf_inv rt'" "rt_tf_publisher rt' = node" "rt_frames rt' = rt_frames rt"
      using d r1(3) by (simp_all add: r3(2) tf_same_def tf_inv_def sends_def note_provides_def)
    with False r1(2) True assms(3) show ?thesis by auto
  qed
qed

lemma tf_inv_fields:
  "bind_fields pf tr node xs rt = Inr rt' \<Longrightarrow> tf_inv rt \<Longrightarrow> node \<noteq> [] \<Longrightarrow>
   tf_inv rt' \<and> rt_frames rt' = rt_frames rt
    \<and> (rt_tf_publisher rt' \<noteq> [] \<longleftrightarrow> rt_tf_publisher rt \<noteq> [] \<or> (\<exists>x \<in> set xs. is_tf x) \<and> published (rt_frames rt) \<noteq> [])"
proof (induction xs arbitrary: rt)
  case (Cons x xs)
  then obtain r where r: "bind_field pf tr node x rt = Inr r" "bind_fields pf tr node xs r = Inr rt'"
    by (auto split: sum.splits)
  note f = tf_inv_field[OF r(1) Cons.prems(2,3)]
  from Cons.IH[OF r(2) _ Cons.prems(3)] f show ?case by auto
qed simp

lemma tf_inv_nodes:
  "wire_nodes pf tr only nss rt = Inr (wired, rt') \<Longrightarrow> tf_inv rt \<Longrightarrow> \<forall>ns \<in> set nss. struct_name ns \<noteq> [] \<Longrightarrow>
   tf_inv rt' \<and> rt_frames rt' = rt_frames rt
    \<and> (rt_tf_publisher rt' \<noteq> [] \<longleftrightarrow> rt_tf_publisher rt \<noteq> []
        \<or> (\<exists>ns \<in> set (selected only nss). \<exists>x \<in> set (ns_fields ns). is_tf x) \<and> published (rt_frames rt) \<noteq> [])"
proof (induction nss arbitrary: rt wired)
  case Nil
  then show ?case by (simp add: selected_def)
next
  case (Cons ns nss)
  show ?case
  proof (cases "only \<noteq> [] \<and> struct_name ns \<noteq> only")
    case True
    with Cons show ?thesis by (auto simp: selected_def struct_name_def)
  next
    case False
    then obtain n r ws where w: "wire_node pf tr (struct_name ns) ns rt = Inr (n, r)" "wire_nodes pf tr only nss r = Inr (ws, rt')"
      using Cons.prems(1) by (auto simp: struct_name_def Let_def bind_result_Inr)
    obtain r1 r2 r3 r4 where b: "declares tr (Declare_node (struct_name ns)) rt = Inr r1"
      "bind_fields pf tr (struct_name ns) (ns_fields ns) (r1\<lparr>rt_deps := snd (deps_for (struct_name ns) (rt_deps r1))\<rparr>) = Inr r2"
      "declare_all tr (lifecycle_calls (struct_name ns)) r2 = Inr r3" "declare_all tr (param_calls (struct_name ns)) r3 = Inr r4"
      "local_bind (ns_mission ns) r4 = Inr r"
      using w(1) by (auto simp: wire_node_def bind_result_Inr)
    have s1: "tf_same rt (r1\<lparr>rt_deps := snd (deps_for (struct_name ns) (rt_deps r1))\<rparr>)"
      using tf_same_trans[OF tf_same_declares[OF b(1)] tf_same_updates(6)] .
    have s2: "tf_same r2 r" using tf_same_trans[OF tf_same_trans[OF tf_same_declare_all[OF b(3)] tf_same_declare_all[OF b(4)]] tf_same_local[OF b(5)]] .
    have nm: "struct_name ns \<noteq> []" using Cons.prems(3) by simp
    have i1: "tf_inv (r1\<lparr>rt_deps := snd (deps_for (struct_name ns) (rt_deps r1))\<rparr>)" using tf_same_inv[OF s1] Cons.prems(2) by simp
    note f = tf_inv_fields[OF b(2) i1 nm]
    have "tf_inv r \<and> rt_frames r = rt_frames rt
      \<and> (rt_tf_publisher r \<noteq> [] \<longleftrightarrow> rt_tf_publisher rt \<noteq> [] \<or> (\<exists>x \<in> set (ns_fields ns). is_tf x) \<and> published (rt_frames rt) \<noteq> [])"
      using f s1 s2 tf_same_inv[OF s2] by (simp add: tf_same_def)
    moreover have "selected only (ns # nss) = ns # selected only nss" using False by (auto simp: selected_def)
    ultimately show ?thesis using Cons.IH[OF w(2)] Cons.prems(3) by auto
  qed
qed

text \<open>C16. A process publishes its transform tree once, however many of its nodes declare one: the latched
  transforms go out from exactly one node when some node it runs has a field for them and the application
  owns any, and from none otherwise; and its description from at most one, and only with them.\<close>

theorem tree_published_once:
  assumes "new_app pf tr start t tree description sim only nss = Inr a" "\<forall>ns \<in> set nss. struct_name ns \<noteq> []"
  shows "sends Send_statics (ap_runtime a)
      = (if (\<exists>ns \<in> set (selected only nss). \<exists>x \<in> set (ns_fields ns). is_tf x) \<and> published tree \<noteq> [] then 1 else 0)
    \<and> sends Send_description (ap_runtime a) \<le> sends Send_statics (ap_runtime a)"
proof -
  obtain rt wired where w: "wire_nodes pf tr only nss rt = Inr (wired, ap_runtime a)" "rt = new_runtime t tree description
      \<or> (\<exists>d. declares tr d (new_runtime t tree description) = Inr rt)"
    using assms(1) by (auto simp: new_app_def bind_result_Inr split: if_splits option.splits) metis+
  have n: "tf_inv (new_runtime t tree description)" "rt_tf_publisher (new_runtime t tree description) = []"
    "rt_frames (new_runtime t tree description) = tree"
    by (simp_all add: tf_inv_def sends_def new_runtime_def)
  have same: "tf_same (new_runtime t tree description) rt" using w(2) tf_same_refl tf_same_declares by metis
  have rt: "tf_inv rt" "rt_tf_publisher rt = []" "rt_frames rt = tree"
    using n tf_same_inv[OF same] same by (simp_all add: tf_same_def)
  from tf_inv_nodes[OF w(1) rt(1) assms(2)] rt(2,3) show ?thesis by (auto simp: tf_inv_def)
qed

section \<open>Hooks that succeed\<close>

lemma bring_up_nodes_ok:
  assumes "distinct ns" "\<forall>n \<in> set ns. state_in ms n = Some StateUnconfigured"
    and "\<forall>n \<in> set ns. \<exists>hs. hooks_in ms n = Some hs \<and> (\<forall>h. configure hs = Some h \<or> activate hs = Some h \<longrightarrow> env n h = Returned None)"
  shows "fst (bring_up_nodes env ns ms) = None"
  using assms
proof (induction ns arbitrary: ms)
  case (Cons n ns)
  obtain hs where hs: "hooks_in ms n = Some hs" "\<forall>h. configure hs = Some h \<or> activate hs = Some h \<longrightarrow> env n h = Returned None"
    using Cons.prems(3) by auto
  have s0: "state_in ms n = Some StateUnconfigured" using Cons.prems(2) by simp
  have hook: "env n h = Returned None" if "for_transition hs TransitionConfigure = Some h \<or> for_transition hs TransitionActivate = Some h" for h
    using hs(2) that by (auto simp: for_transition_def)
  obtain ms1 where d1: "drive_machine env TransitionConfigure n ms = (None, ms1)"
    using drive_machine_ok[OF s0 table_edges(1) hs(1)] hook by (metis prod.collapse)
  note c1 = drive_machine_state[OF s0 table_edges(1) d1]
  have s1: "state_in ms1 n = Some StateInactive" "hooks_in ms1 n = Some hs" using c1 hs(1) by simp_all
  obtain ms2 where d2: "drive_machine env TransitionActivate n ms1 = (None, ms2)"
    using drive_machine_ok[OF s1(1) table_edges(2) s1(2)] hook by (metis prod.collapse)
  note c2 = drive_machine_state[OF s1(1) table_edges(2) d2]
  have "n \<notin> set ns" "distinct ns" using Cons.prems(1) by simp_all
  then have other: "ms2 m = ms m" if "m \<in> set ns" for m using c1(2) c2(2) that by metis
  have "\<forall>m \<in> set ns. state_in ms2 m = Some StateUnconfigured" using Cons.prems(2) other by (simp add: state_in_def)
  moreover have "\<forall>m \<in> set ns. \<exists>hs. hooks_in ms2 m = Some hs \<and> (\<forall>h. configure hs = Some h \<or> activate hs = Some h \<longrightarrow> env m h = Returned None)"
    using Cons.prems(3) c1(3) c2(3) by simp
  ultimately have "fst (bring_up_nodes env ns ms2) = None" using Cons.IH[OF \<open>distinct ns\<close>] by simp
  then show ?case using d1 d2 by (simp add: case_prod_beta)
qed simp

text \<open>C10. When no configure or activate hook fails, bring-up succeeds and every node of the process is active.\<close>

theorem bring_up_completes:
  assumes "new_app pf tr start t tree description sim only nss = Inr a" "distinct (map struct_name nss)"
    and "\<forall>ns \<in> set nss. \<forall>hs h. ns_hooks ns = Inr hs \<and> (configure hs = Some h \<or> activate hs = Some h) \<longrightarrow> env (struct_name ns) h = Returned None"
  shows "\<exists>ms evs. app_bring_up env a = (None, ms, evs) \<and> evs = passes (fst (app_order a))
    \<and> (\<forall>n \<in> set (map fst (ap_nodes a)). state_in ms n = Some StateActive)"
proof -
  obtain e ms evs where r: "app_bring_up env a = (e, ms, evs)" by (metis prod_cases3)
  note b = new_app_built[OF assms(1,2)] and s = app_bring_up_stops[OF assms(1,2) r]
  have "\<forall>n \<in> set (fst (app_order a)). state_in (machines_of (ap_nodes a)) n = Some StateUnconfigured"
    using b(2) s(4) by blast
  moreover have "\<forall>n \<in> set (fst (app_order a)). \<exists>hs. hooks_in (machines_of (ap_nodes a)) n = Some hs
      \<and> (\<forall>h. configure hs = Some h \<or> activate hs = Some h \<longrightarrow> env n h = Returned None)"
    using b(2) assms(3) unfolding s(4) by metis
  ultimately have "e = None" using bring_up_nodes_ok[OF s(3)] r unfolding app_bring_up_def by (metis fst_conv)
  with s(1) have "evs = passes (fst (app_order a)) \<and> (\<forall>n \<in> set (fst (app_order a)). state_in ms n = Some StateActive)"
    by (auto simp: stopped_at_def)
  with r \<open>e = None\<close> s(4) show ?thesis by blast
qed

section \<open>Witnesses\<close>

definition accept :: "unit transport" where "accept d t = (None, t)"

definition desk_field :: "string \<Rightarrow> string \<Rightarrow> field_info" where
  "desk_field name topic = \<lparr>fd_name = name, fd_tag = (\<lambda>k. if k = ''topic'' then topic else []), fd_handler = Handler, fd_type = ''Scan'',
     fd_ros = None, fd_header = False\<rparr>"

definition desk_hooks :: "nat hooks" where
  "desk_hooks = \<lparr>configure = Some 0, activate = None, deactivate = None, cleanup = None, shutdown = Some 1\<rparr>"

definition nav_struct :: "nat node_struct" where
  "nav_struct = \<lparr>ns_type = ''Nav'', ns_fields = [SubField (desk_field ''Scan'' ''scan'')], ns_hooks = Inr desk_hooks, ns_mission = Inr None\<rparr>"

definition lidar_struct :: "nat node_struct" where
  "lidar_struct = \<lparr>ns_type = ''Lidar'', ns_fields = [PubField (desk_field ''Out'' ''scan''), TFField (desk_field ''TF'' [])],
     ns_hooks = Inr desk_hooks, ns_mission = Inr None\<rparr>"

definition desk_tree :: "unit frame_tree" where
  "desk_tree = \<lparr>path_name = ''frames.json'', transforms = [\<lparr>parent = ''base'', child = ''laser'', pose = (), dynamic = False, by_node = []\<rparr>]\<rparr>"

definition desk_works :: "string \<Rightarrow> nat \<Rightarrow> hook_run" where "desk_works n h = Returned None"
definition desk_stuck :: "string \<Rightarrow> nat \<Rightarrow> hook_run" where "desk_stuck n h = (if h = 0 then Refused else Returned None)"

abbreviation desk_new :: "(nat, unit, unit) application result" where
  "desk_new \<equiv> new_app (\<lambda>_. None) accept (\<lambda>_. None) () (Some desk_tree) [] False [] [nav_struct, lidar_struct]"

lemma desk_names [simp]: "struct_name nav_struct = ''nav''" "struct_name lidar_struct = ''lidar''"
  by code_simp+

lemma accept_declares [simp]: "declares accept d rt = Inr rt"
  by (simp add: declares_def accept_def)

lemma accept_all [simp]: "declare_all accept ds rt = Inr rt"
  by (induction ds) simp_all

lemma desk_qos: "qos_from_tag [] = Inr reliable_qos"
  by code_simp

lemma desk_binds:
  "topic \<noteq> [] \<Longrightarrow> \<exists>r. sub_bind accept n (desk_field f topic) rt = Inr r"
  "topic \<noteq> [] \<Longrightarrow> \<exists>r. pub_bind accept n (desk_field f topic) rt = Inr r"
  "\<exists>r. tf_bind accept n g rt = Inr r"
  using transient_profile
  by (auto simp: sub_bind_def pub_bind_def tf_bind_def desk_field_def desk_qos handler_error_def require_def frame_tag_def Let_def)

lemma desk_wires:
  "\<exists>r. wire_node pf accept n nav_struct rt = Inr ((n, desk_hooks), r)" "\<exists>r. wire_node pf accept n lidar_struct rt = Inr ((n, desk_hooks), r)"
proof -
  show "\<exists>r. wire_node pf accept n nav_struct rt = Inr ((n, desk_hooks), r)"
    using desk_binds(1)[of "''scan''" n "''Scan''" "rt\<lparr>rt_deps := snd (deps_for n (rt_deps rt))\<rparr>"]
    by (auto simp: wire_node_def nav_struct_def wrap_def bind_field_def local_bind_def)
  obtain r where r: "pub_bind accept n (desk_field ''Out'' ''scan'') (rt\<lparr>rt_deps := snd (deps_for n (rt_deps rt))\<rparr>) = Inr r"
    using desk_binds(2) by blast
  show "\<exists>r. wire_node pf accept n lidar_struct rt = Inr ((n, desk_hooks), r)"
    using r desk_binds(3)[of n "desk_field ''TF'' []" r]
    by (auto simp: wire_node_def lidar_struct_def wrap_def bind_field_def local_bind_def)
qed

lemma desk_built: "\<exists>a. desk_new = Inr a"
proof -
  obtain r1 where r1: "wire_node (\<lambda>_. None) accept ''nav'' nav_struct (new_runtime () (Some desk_tree) []) = Inr ((''nav'', desk_hooks), r1)"
    using desk_wires(1) by blast
  obtain r2 where r2: "wire_node (\<lambda>_. None) accept ''lidar'' lidar_struct r1 = Inr ((''lidar'', desk_hooks), r2)"
    using desk_wires(2) by blast
  show ?thesis using r1 r2 desk_names by (simp add: new_app_def struct_name_def)
qed

lemma desk_distinct: "distinct (map struct_name [nav_struct, lidar_struct])"
  by simp

lemma desk_selected: "selected [] [nav_struct, lidar_struct] = [nav_struct, lidar_struct]"
  by (simp add: selected_def)

lemma desk_hooks_of: "ns \<in> set [nav_struct, lidar_struct] \<Longrightarrow> ns_hooks ns = Inr desk_hooks"
  by (auto simp: nav_struct_def lidar_struct_def)

lemma desk_bring_up: "desk_new = Inr a \<Longrightarrow> \<exists>ms evs. app_bring_up desk_works a = (None, ms, evs)"
proof -
  assume a: "desk_new = Inr a"
  note b = new_app_built(2)[OF a desk_distinct]
  obtain e ms evs where r: "app_bring_up desk_works a = (e, ms, evs)" by (metis prod_cases3)
  note s = app_bring_up_stops[OF a desk_distinct r]
  have "fst (bring_up_nodes desk_works (fst (app_order a)) (machines_of (ap_nodes a))) = None"
    using s(3) b unfolding s(4)[symmetric] by (intro bring_up_nodes_ok) (auto simp: desk_works_def)
  with r show ?thesis by (simp add: app_bring_up_def)
qed

theorem bring_up_completes_witness:
  "\<exists>a ms evs. desk_new = Inr a \<and> app_bring_up desk_works a = (None, ms, evs) \<and> state_in ms ''nav'' = Some StateActive"
proof -
  obtain a where a: "desk_new = Inr a" using desk_built by blast
  have h: "\<forall>ns \<in> set [nav_struct, lidar_struct]. \<forall>hs h. ns_hooks ns = Inr hs \<and> (configure hs = Some h \<or> activate hs = Some h)
      \<longrightarrow> desk_works (struct_name ns) h = Returned None" by (simp add: desk_works_def)
  obtain ms evs where r: "app_bring_up desk_works a = (None, ms, evs)" "\<forall>n \<in> set (map fst (ap_nodes a)). state_in ms n = Some StateActive"
    using bring_up_completes[OF a desk_distinct h] by blast
  have "''nav'' \<in> set (map fst (ap_nodes a))" using new_app_built(1)[OF a desk_distinct] by (simp add: desk_selected)
  with a r show ?thesis by blast
qed

theorem process_finalizes_witness:
  "\<exists>a e ms evs. desk_new = Inr a \<and> app_bring_up desk_stuck a = (e, ms, evs) \<and> state_in (app_shut_down desk_stuck a ms) ''lidar'' = Some StateFinalized"
proof -
  obtain a where a: "desk_new = Inr a" using desk_built by blast
  obtain e ms evs where r: "app_bring_up desk_stuck a = (e, ms, evs)" by (metis prod_cases3)
  have "desk_stuck n h = Returned None" if "ns_hooks ns = Inr hs" "shutdown hs = Some h" "ns \<in> set [nav_struct, lidar_struct]" for ns hs h n
    using desk_hooks_of[OF that(3)] that(1,2) by (simp add: desk_hooks_def desk_stuck_def)
  then have h: "\<forall>ns \<in> set [nav_struct, lidar_struct]. \<forall>hs h. ns_hooks ns = Inr hs \<and> shutdown hs = Some h
      \<longrightarrow> desk_stuck (struct_name ns) h = Returned None" by blast
  have "''lidar'' \<in> set (map fst (ap_nodes a))" using new_app_built(1)[OF a desk_distinct] by (simp add: desk_selected)
  then have "state_in (app_shut_down desk_stuck a ms) ''lidar'' = Some StateFinalized" using process_finalizes[OF a desk_distinct r h] by blast
  with a r show ?thesis by blast
qed

theorem tree_published_once_witness:
  "\<exists>a. desk_new = Inr a \<and> sends Send_statics (ap_runtime a) = 1"
proof -
  obtain a where a: "desk_new = Inr a" using desk_built by blast
  have n: "\<forall>ns \<in> set [nav_struct, lidar_struct]. struct_name ns \<noteq> []" by simp
  have "\<exists>ns \<in> set (selected [] [nav_struct, lidar_struct]). \<exists>x \<in> set (ns_fields ns). is_tf x"
    unfolding desk_selected by (simp add: lidar_struct_def is_tf_def)
  moreover have "published (Some desk_tree) \<noteq> []" by (simp add: published_def tfs_of_def desk_tree_def ours_def)
  ultimately show ?thesis using tree_published_once[OF a n] a by auto
qed

text \<open>The subscriber is declared first, and is brought up second.\<close>

theorem providers_active_first_witness:
  "\<exists>a ms evs as bs. desk_new = Inr a \<and> app_bring_up desk_works a = (None, ms, evs) \<and> evs = as @ (''nav'', TransitionConfigure) # bs
     \<and> state_in (driven desk_works as (machines_of (ap_nodes a))) ''lidar'' = Some StateActive"
proof -
  obtain a where a: "desk_new = Inr a" using desk_built by blast
  note b = new_app_built[OF a desk_distinct]
  have names: "map fst (ap_nodes a) = [''nav'', ''lidar'']" using b(1) by (simp add: desk_selected)
  obtain ms evs where r: "app_bring_up desk_works a = (None, ms, evs)" by (metis desk_bring_up a)
  note s = app_bring_up_stops[OF a desk_distinct r]
  have "evs = passes (fst (app_order a))" using s(1) by (auto simp: stopped_at_def)
  moreover have "''nav'' \<in> set (fst (app_order a))" using s(4) names by simp
  ultimately have "(''nav'', TransitionConfigure) \<in> set evs" by (auto simp: passes_def)
  then obtain as bs where e: "evs = as @ (struct_name nav_struct, TransitionConfigure) # bs" by (auto dest: split_list)
  have c: "''scan'' \<in> struct_consumes nav_struct" "''scan'' \<in> struct_provides lidar_struct" "struct_consumes lidar_struct = {}"
    by (simp_all add: struct_consumes_def struct_provides_def nav_struct_def lidar_struct_def field_consumes_def field_provides_def desk_field_def)
  let ?r = "depends (map fst (ap_nodes a)) (rt_deps (ap_runtime a))"
  have "consumes_of (ap_runtime a) ''lidar'' = {}"
    using new_app_consumes[OF a desk_distinct, of lidar_struct] c(3) by (simp add: desk_selected)
  then have dep: "?r \<subseteq> {(''nav'', ''lidar'')}" by (auto simp: depends_def names consumes_of_def)
  have "p = ''nav'' \<and> q = ''lidar''" if "(p, q) \<in> ?r\<^sup>+" for p q
    using that by (induction rule: trancl_induct) (use dep in auto)
  then have "(p, p) \<notin> ?r\<^sup>+" for p by fastforce
  then have "''nav'' \<notin> set (snd (app_order a))"
    using bringup_cycles_exact[of "map fst (ap_nodes a)" "rt_deps (ap_runtime a)"] names by (auto simp: app_order_def)
  then have "state_in (driven desk_works as (machines_of (ap_nodes a))) (struct_name lidar_struct) = Some StateActive"
    using providers_active_first[OF a desk_distinct r e _ _ _ c(1,2)] by (simp add: desk_selected)
  with a r e show ?thesis by auto
qed

end
