(* ===== verification/Action_Server.thy ===== *)
theory Action_Server
imports Go_Prelude "HOL-Library.AList" "HOL-Library.Word"
begin

text \<open>
  The action server (\<^verbatim>\<open>action.go\<close>, \<^verbatim>\<open>action_wire.go\<close>): goal records, the three services, the
  completion of a goal by its handler, the deletion of a terminal goal and the status topic.

  Goal records are shared by pointer: the handler's goroutine and waiting \<^verbatim>\<open>get_result\<close> calls
  keep a record after the map has dropped it. They live in a store, the list \<open>as_recs\<close>, and the
  map holds their index. Each critical section under the mutex is one function; \<open>as_step\<close>
  interleaves them. The type \<^typ>\<open>'r\<close> is the action's result.
\<close>

section \<open>Wire types\<close>

type_synonym uuid = "8 word list"

definition zero_uuid :: uuid where "zero_uuid = replicate 16 0"

type_synonym goal_info = "uuid \<times> int"

text \<open>Status and return codes are \<^verbatim>\<open>int8\<close> constants; nothing is computed with them.\<close>

abbreviation goal_unknown :: int where "goal_unknown \<equiv> 0"
abbreviation goal_executing :: int where "goal_executing \<equiv> 2"
abbreviation goal_canceling :: int where "goal_canceling \<equiv> 3"
abbreviation goal_succeeded :: int where "goal_succeeded \<equiv> 4"
abbreviation goal_canceled :: int where "goal_canceled \<equiv> 5"
abbreviation goal_aborted :: int where "goal_aborted \<equiv> 6"

abbreviation cancel_err_none :: int where "cancel_err_none \<equiv> 0"
abbreviation cancel_err_unknown_goal :: int where "cancel_err_unknown_goal \<equiv> 2"
abbreviation cancel_err_terminated :: int where "cancel_err_terminated \<equiv> 3"

datatype send_response = Accepted int | NotAccepted

section \<open>State\<close>

text \<open>\<open>g_ctx_done\<close>: the goal's context was canceled; \<open>g_done\<close>: the channel \<^verbatim>\<open>done\<close> was closed.\<close>

record 'r goal_record =
  g_info :: goal_info
  g_status :: int
  g_result :: 'r
  g_done :: bool
  g_ctx_done :: bool

definition terminal :: "'r goal_record \<Rightarrow> bool" where
  "terminal r \<longleftrightarrow> g_status r = goal_succeeded \<or> g_status r = goal_canceled \<or> g_status r = goal_aborted"

record 'r action_server =
  as_recs :: "'r goal_record list"
  as_goals :: "(uuid \<times> nat) list"
  as_accepted :: "64 word"

definition new_action_server :: "'r action_server" where
  "new_action_server = \<lparr>as_recs = [], as_goals = [], as_accepted = 0\<rparr>"

section \<open>Operations\<close>

text \<open>\<open>zero\<close> is the result type's zero value, which a record starts with.\<close>

definition handle_send_goal :: "'r \<Rightarrow> uuid \<Rightarrow> int \<Rightarrow> 'r action_server \<Rightarrow> send_response \<times> 'r action_server" where
  "handle_send_goal zero gid now s =
     (case map_of (as_goals s) gid of
        Some _ \<Rightarrow> (NotAccepted, s)
      | None \<Rightarrow> (Accepted now,
          s\<lparr>as_accepted := as_accepted s + 1,
            as_recs := as_recs s @ [\<lparr>g_info = (gid, now), g_status = goal_executing, g_result = zero,
                                     g_done = False, g_ctx_done = False\<rparr>],
            as_goals := AList.update gid (length (as_recs s)) (as_goals s)\<rparr>))"

text \<open>What the handler's goroutine does to its record when the handler returned.\<close>

definition complete :: "bool \<Rightarrow> 'r \<Rightarrow> 'r goal_record \<Rightarrow> 'r goal_record" where
  "complete err result r =
     r\<lparr>g_status := (if err \<and> g_ctx_done r then goal_canceled else if err then goal_aborted else goal_succeeded),
       g_result := result, g_done := True\<rparr>"

definition complete_goal :: "nat \<Rightarrow> bool \<Rightarrow> 'r \<Rightarrow> 'r action_server \<Rightarrow> 'r action_server" where
  "complete_goal n err result s = s\<lparr>as_recs := (as_recs s)[n := complete err result (as_recs s ! n)]\<rparr>"

definition forget_goal :: "uuid \<Rightarrow> 'r action_server \<Rightarrow> 'r action_server" where
  "forget_goal gid s = s\<lparr>as_goals := AList.delete gid (as_goals s)\<rparr>"

text \<open>\<^verbatim>\<open>handleGetResult\<close> looks the record up; for a goal not listed it answers at once, with the response
  type's zero value (\<open>Inl\<close>), else it waits for the record to be done (\<open>Inr\<close>) and reads it.\<close>

definition find_goal :: "uuid \<Rightarrow> 'r action_server \<Rightarrow> nat option" where
  "find_goal gid s = map_of (as_goals s) gid"

definition get_result :: "'r \<Rightarrow> uuid \<Rightarrow> 'r action_server \<Rightarrow> (int \<times> 'r) + nat" where
  "get_result zero gid s = (case find_goal gid s of None \<Rightarrow> Inl (goal_unknown, zero) | Some n \<Rightarrow> Inr n)"

definition read_result :: "nat \<Rightarrow> 'r action_server \<Rightarrow> int \<times> 'r" where
  "read_result n s = (g_status (as_recs s ! n), g_result (as_recs s ! n))"

definition cancel_record :: "'r goal_record \<Rightarrow> 'r goal_record" where
  "cancel_record r = r\<lparr>g_status := goal_canceling, g_ctx_done := True\<rparr>"

fun cancel_all :: "(uuid \<times> nat) list \<Rightarrow> 'r goal_record list \<Rightarrow> goal_info list \<times> 'r goal_record list" where
  "cancel_all [] rs = ([], rs)"
| "cancel_all ((gid, n) # gs) rs =
     (if terminal (rs ! n) then cancel_all gs rs
      else let (infos, rs') = cancel_all gs (rs[n := cancel_record (rs ! n)]) in (g_info (rs ! n) # infos, rs'))"

text \<open>The response is the return code and the goals now canceling.\<close>

definition handle_cancel :: "uuid \<Rightarrow> 'r action_server \<Rightarrow> (int \<times> goal_info list) \<times> 'r action_server" where
  "handle_cancel gid s =
     (if gid = zero_uuid
      then let (infos, rs) = cancel_all (as_goals s) (as_recs s) in ((cancel_err_none, infos), s\<lparr>as_recs := rs\<rparr>)
      else case map_of (as_goals s) gid of
             None \<Rightarrow> ((cancel_err_unknown_goal, []), s)
           | Some n \<Rightarrow>
               if terminal (as_recs s ! n) then ((cancel_err_terminated, []), s)
               else ((cancel_err_none, [g_info (as_recs s ! n)]),
                     s\<lparr>as_recs := (as_recs s)[n := cancel_record (as_recs s ! n)]\<rparr>))"

text \<open>The locked part of \<^verbatim>\<open>publishStatus\<close>: the array it then publishes.\<close>

definition status_array :: "'r action_server \<Rightarrow> (goal_info \<times> int) list" where
  "status_array s = map (\<lambda>(gid, n). (g_info (as_recs s ! n), g_status (as_recs s ! n))) (as_goals s)"

section \<open>Interleaved calls\<close>

text \<open>\<open>handlers\<close>: goals whose handler has not returned; \<open>expiring\<close>: deletions that have been
  scheduled; \<open>waiting\<close>: \<^verbatim>\<open>get_result\<close> calls past the lookup; \<open>answers\<close>: what they returned, with the id asked for and
  the record it was read from, if any;
  \<open>due\<close>: calls of \<^verbatim>\<open>publishStatus\<close> that have not read the goals yet; \<open>publishing\<close>: arrays read and
  not yet published; \<open>latched_status\<close>: the last message of the status topic.\<close>

record 'r as_system =
  server :: "'r action_server"
  handlers :: "nat list"
  expiring :: "uuid list"
  waiting :: "nat list"
  answers :: "(uuid \<times> nat option \<times> int \<times> 'r) list"
  due :: nat
  publishing :: "(goal_info \<times> int) list list"
  latched_status :: "(goal_info \<times> int) list option"

inductive as_step :: "'r \<Rightarrow> 'r as_system \<Rightarrow> 'r as_system \<Rightarrow> bool" for zero :: 'r where
  refused: "handle_send_goal zero gid now (server x) = (NotAccepted, s) \<Longrightarrow> as_step zero x (x\<lparr>server := s\<rparr>)"
| accepted: "handle_send_goal zero gid now (server x) = (Accepted t, s) \<Longrightarrow>
    as_step zero x (x\<lparr>server := s, handlers := length (as_recs (server x)) # handlers x, due := Suc (due x)\<rparr>)"
| returned: "handlers x = hs @ n # hs' \<Longrightarrow>
    as_step zero x (x\<lparr>server := complete_goal n err res (server x), handlers := hs @ hs',
      expiring := fst (g_info (as_recs (server x) ! n)) # expiring x, due := Suc (due x)\<rparr>)"
| expired: "expiring x = es @ gid # es' \<Longrightarrow>
    as_step zero x (x\<lparr>server := forget_goal gid (server x), expiring := es @ es'\<rparr>)"
| asked: "get_result zero gid (server x) = Inr n \<Longrightarrow> as_step zero x (x\<lparr>waiting := n # waiting x\<rparr>)"
| unlisted: "get_result zero gid (server x) = Inl (st, res) \<Longrightarrow>
    as_step zero x (x\<lparr>answers := (gid, None, st, res) # answers x\<rparr>)"
| answered: "waiting x = ws @ n # ws' \<Longrightarrow> g_done (as_recs (server x) ! n) \<Longrightarrow>
    read_result n (server x) = (st, res) \<Longrightarrow>
    as_step zero x (x\<lparr>waiting := ws @ ws', answers := (fst (g_info (as_recs (server x) ! n)), Some n, st, res) # answers x\<rparr>)"
| canceled: "handle_cancel gid (server x) = ((code, infos), s) \<Longrightarrow>
    as_step zero x (x\<lparr>server := s, due := (if infos = [] then due x else Suc (due x))\<rparr>)"
| snapshot: "due x = Suc k \<Longrightarrow>
    as_step zero x (x\<lparr>due := k, publishing := status_array (server x) # publishing x\<rparr>)"
| publish: "publishing x = ps @ a # ps' \<Longrightarrow>
    as_step zero x (x\<lparr>publishing := ps @ ps', latched_status := Some a\<rparr>)"

definition as_init :: "'r as_system" where
  "as_init = \<lparr>server = new_action_server, handlers = [], expiring = [], waiting = [], answers = [],
     due = 0, publishing = [], latched_status = None\<rparr>"

inductive as_reachable :: "'r \<Rightarrow> 'r as_system \<Rightarrow> bool" for zero :: 'r where
  init: "as_reachable zero as_init"
| step: "as_reachable zero x \<Longrightarrow> as_step zero x y \<Longrightarrow> as_reachable zero y"

section \<open>Invariant\<close>

definition id_of :: "'r goal_record \<Rightarrow> uuid" where "id_of r = fst (g_info r)"

text \<open>What an answer says of the records, where \<open>goal_unknown\<close> stands for no record at all.\<close>

definition answer_ok :: "'r \<Rightarrow> 'r goal_record list \<Rightarrow> uuid \<times> nat option \<times> int \<times> 'r \<Rightarrow> bool" where
  "answer_ok zero rs a \<longleftrightarrow> (case a of (gid, found, st, res) \<Rightarrow> case found of
       None \<Rightarrow> st = goal_unknown \<and> res = zero
     | Some n \<Rightarrow> n < length rs \<and> g_done (rs ! n) \<and> id_of (rs ! n) = gid \<and> g_status (rs ! n) = st \<and> g_result (rs ! n) = res)"

text \<open>A record is terminal exactly when its channel is closed, it is canceling exactly when its
  context was canceled first, and a canceled one was canceled by request.\<close>

definition record_ok :: "'r goal_record \<Rightarrow> bool" where
  "record_ok r \<longleftrightarrow> (g_done r \<longleftrightarrow> terminal r)
     \<and> (\<not> g_done r \<longrightarrow> g_status r = (if g_ctx_done r then goal_canceling else goal_executing))
     \<and> (g_status r = goal_canceled \<longrightarrow> g_ctx_done r)"

definition server_typed :: "'r action_server \<Rightarrow> bool" where
  "server_typed s \<longleftrightarrow> (\<forall>r \<in> set (as_recs s). record_ok r)
     \<and> distinct (map fst (as_goals s))
     \<and> (\<forall>(gid, n) \<in> set (as_goals s). n < length (as_recs s) \<and> id_of (as_recs s ! n) = gid)
     \<and> (\<forall>n < length (as_recs s). \<not> g_done (as_recs s ! n) \<longrightarrow> (id_of (as_recs s ! n), n) \<in> set (as_goals s))"

definition as_inv :: "'r \<Rightarrow> 'r as_system \<Rightarrow> bool" where
  "as_inv zero x \<longleftrightarrow> server_typed (server x)
     \<and> distinct (handlers x)
     \<and> set (handlers x) = {n. n < length (as_recs (server x)) \<and> \<not> g_done (as_recs (server x) ! n)}
     \<and> distinct (expiring x)
     \<and> (\<forall>gid \<in> set (expiring x). \<exists>n. (gid, n) \<in> set (as_goals (server x)) \<and> g_done (as_recs (server x) ! n))
     \<and> (\<forall>n \<in> set (waiting x). n < length (as_recs (server x)))
     \<and> (\<forall>a \<in> set (answers x). answer_ok zero (as_recs (server x)) a)"

section \<open>Lemmas\<close>

lemma record_ok_complete: "record_ok (complete err res r)"
  by (cases err; cases "g_ctx_done r") (simp_all add: record_ok_def complete_def terminal_def)

lemma record_ok_cancel: "record_ok r \<Longrightarrow> \<not> terminal r \<Longrightarrow> record_ok (cancel_record r)"
  by (cases "g_done r") (simp_all add: record_ok_def cancel_record_def terminal_def)

lemma id_of_update [simp]: "id_of (complete err res r) = id_of r" "id_of (cancel_record r) = id_of r"
  by (simp_all add: id_of_def complete_def cancel_record_def)

lemma done_update [simp]: "g_done (complete err res r)" "g_done (cancel_record r) = g_done r"
  by (simp_all add: complete_def cancel_record_def)

lemma goals_lookup:
  "server_typed s \<Longrightarrow> map_of (as_goals s) gid = Some n \<longleftrightarrow> (gid, n) \<in> set (as_goals s)"
  by (auto simp: server_typed_def dest: map_of_SomeD)

lemma goal_index:
  "server_typed s \<Longrightarrow> (gid, n) \<in> set (as_goals s) \<Longrightarrow> n < length (as_recs s) \<and> id_of (as_recs s ! n) = gid
     \<and> record_ok (as_recs s ! n)"
  unfolding server_typed_def by (auto dest: nth_mem)

text \<open>Replacing one record by another of the same goal.\<close>

lemma server_typed_update:
  assumes "server_typed s" and "n < length (as_recs s)" and "record_ok r"
    and "id_of r = id_of (as_recs s ! n)" and "g_done (as_recs s ! n) \<longrightarrow> g_done r"
  shows "server_typed (s\<lparr>as_recs := (as_recs s)[n := r]\<rparr>)"
  using assms unfolding server_typed_def
  by (auto simp: nth_list_update dest!: subsetD[OF set_update_subset_insert])

lemma update_fresh: "k \<notin> fst ` set al \<Longrightarrow> AList.update k v al = al @ [(k, v)]"
  by (induction al) auto

lemma server_typed_new:
  assumes "server_typed s" and "map_of (as_goals s) gid = None" and "record_ok r" and "id_of r = gid"
  shows "server_typed (s\<lparr>as_accepted := k, as_recs := as_recs s @ [r],
    as_goals := AList.update gid (length (as_recs s)) (as_goals s)\<rparr>)"
proof -
  have fresh: "gid \<notin> fst ` set (as_goals s)" using assms(2) by (simp add: map_of_eq_None_iff)
  then have "AList.update gid n (as_goals s) = as_goals s @ [(gid, n)]" for n by (rule update_fresh)
  then show ?thesis
    using assms fresh unfolding server_typed_def
    by (auto simp: nth_append less_Suc_eq)
qed


text \<open>A cancel request changes only records that are not done, and leaves them so.\<close>

definition only_live :: "'r goal_record list \<Rightarrow> 'r goal_record list \<Rightarrow> bool" where
  "only_live rs rs' \<longleftrightarrow> length rs' = length rs \<and>
     (\<forall>n < length rs. rs' ! n = rs ! n \<or>
        (\<not> g_done (rs ! n) \<and> \<not> g_done (rs' ! n) \<and> id_of (rs' ! n) = id_of (rs ! n) \<and> record_ok (rs' ! n)))"

lemma only_live_refl: "only_live rs rs"
  by (simp add: only_live_def)

lemma only_live_trans:
  assumes "only_live a b" and "only_live b c"
  shows "only_live a c"
  unfolding only_live_def
proof (intro conjI allI impI)
  show "length c = length a" using assms by (simp add: only_live_def)
  fix n assume "n < length a"
  with assms have "b ! n = a ! n \<or> (\<not> g_done (a ! n) \<and> \<not> g_done (b ! n) \<and> id_of (b ! n) = id_of (a ! n) \<and> record_ok (b ! n))"
    "c ! n = b ! n \<or> (\<not> g_done (b ! n) \<and> \<not> g_done (c ! n) \<and> id_of (c ! n) = id_of (b ! n) \<and> record_ok (c ! n))"
    by (auto simp: only_live_def)
  then show "c ! n = a ! n \<or> (\<not> g_done (a ! n) \<and> \<not> g_done (c ! n) \<and> id_of (c ! n) = id_of (a ! n) \<and> record_ok (c ! n))"
    by auto
qed

lemma only_live_cancel:
  "n < length rs \<Longrightarrow> record_ok (rs ! n) \<Longrightarrow> \<not> terminal (rs ! n) \<Longrightarrow> only_live rs (rs[n := cancel_record (rs ! n)])"
proof -
  assume a: "n < length rs" "record_ok (rs ! n)" "\<not> terminal (rs ! n)"
  then have "\<not> g_done (rs ! n)" by (simp add: record_ok_def)
  with a record_ok_cancel[of "rs ! n"] show ?thesis by (simp add: only_live_def nth_list_update)
qed

lemma only_live_ok: "only_live rs rs' \<Longrightarrow> \<forall>r \<in> set rs. record_ok r \<Longrightarrow> \<forall>r \<in> set rs'. record_ok r"
  unfolding only_live_def all_set_conv_all_nth by metis

lemma cancel_all_live:
  "cancel_all gs rs = (infos, rs') \<Longrightarrow> \<forall>(gid, n) \<in> set gs. n < length rs \<Longrightarrow> \<forall>r \<in> set rs. record_ok r \<Longrightarrow>
     only_live rs rs'"
proof (induction gs arbitrary: rs infos)
  case (Cons g gs)
  obtain gid n where g: "g = (gid, n)" by (cases g)
  then have n: "n < length rs" using Cons.prems(2) by simp
  show ?case
  proof (cases "terminal (rs ! n)")
    case True
    then have "cancel_all gs rs = (infos, rs')" using Cons.prems(1) g by simp
    then show ?thesis by (rule Cons.IH) (use Cons.prems(2,3) in auto)
  next
    case False
    let ?rs = "rs[n := cancel_record (rs ! n)]"
    have l: "only_live rs ?rs" using n False Cons.prems(3) by (intro only_live_cancel) auto
    obtain infos' where "cancel_all gs ?rs = (infos', rs')"
      using Cons.prems(1) g False by (auto split: prod.splits)
    then have "only_live ?rs rs'"
      by (rule Cons.IH) (use Cons.prems(2) only_live_ok[OF l Cons.prems(3)] in auto)
    with l show ?thesis by (rule only_live_trans)
  qed
qed (simp add: only_live_refl)

lemma handle_cancel_live:
  assumes "server_typed s" and "handle_cancel gid s = (res, s')"
  shows "only_live (as_recs s) (as_recs s') \<and> as_goals s' = as_goals s"
proof -
  have ok: "\<forall>r \<in> set (as_recs s). record_ok r" and idx: "\<forall>(gid, n) \<in> set (as_goals s). n < length (as_recs s)"
    using assms(1) by (auto simp: server_typed_def)
  show ?thesis
  proof (cases "gid = zero_uuid")
    case True
    obtain infos rs where c: "cancel_all (as_goals s) (as_recs s) = (infos, rs)" by fastforce
    with assms(2) True have "s' = s\<lparr>as_recs := rs\<rparr>" by (simp add: handle_cancel_def)
    with cancel_all_live[OF c idx ok] show ?thesis by simp
  next
    case False
    show ?thesis
    proof (cases "\<exists>n. map_of (as_goals s) gid = Some n \<and> \<not> terminal (as_recs s ! n)")
      case True
      then obtain n where n: "map_of (as_goals s) gid = Some n" "\<not> terminal (as_recs s ! n)" by blast
      then have "n < length (as_recs s) \<and> record_ok (as_recs s ! n)"
        using goal_index[OF assms(1)] goals_lookup[OF assms(1)] by blast
      with only_live_cancel n assms(2) False show ?thesis by (auto simp: handle_cancel_def)
    next
      case no: False
      then have "s' = s" using assms(2) False by (auto simp: handle_cancel_def split: option.splits if_splits)
      then show ?thesis by (simp add: only_live_refl)
    qed
  qed
qed

lemma server_typed_live:
  assumes "server_typed s" and "only_live (as_recs s) (as_recs s')" and "as_goals s' = as_goals s"
  shows "server_typed s'"
proof -
  have l: "length (as_recs s') = length (as_recs s)"
    and each: "\<And>n. n < length (as_recs s) \<Longrightarrow> id_of (as_recs s' ! n) = id_of (as_recs s ! n)
      \<and> g_done (as_recs s' ! n) = g_done (as_recs s ! n)"
    using assms(2) unfolding only_live_def by metis+
  show ?thesis
    using assms(1,3) only_live_ok[OF assms(2)] l each unfolding server_typed_def by (auto 0 3)
qed

section \<open>The invariant is kept\<close>

text \<open>Answers outlast every change that keeps the records that are done.\<close>

lemma answer_ok_mono:
  assumes "answer_ok zero rs a" and "length rs \<le> length rs'"
    and "\<And>n. n < length rs \<Longrightarrow> g_done (rs ! n) \<Longrightarrow> rs' ! n = rs ! n"
  shows "answer_ok zero rs' a"
  using assms by (force simp: answer_ok_def split: option.splits prod.splits)

lemma as_inv_live:
  assumes "as_inv zero x" and "only_live (as_recs (server x)) (as_recs s)" and "as_goals s = as_goals (server x)"
  shows "as_inv zero (x\<lparr>server := s, due := k\<rparr>)"
proof -
  have t: "server_typed (server x)" using assms(1) by (simp add: as_inv_def)
  have l: "length (as_recs s) = length (as_recs (server x))"
    and d: "\<And>n. n < length (as_recs (server x)) \<Longrightarrow> g_done (as_recs s ! n) = g_done (as_recs (server x) ! n)"
    and f: "\<And>n. n < length (as_recs (server x)) \<Longrightarrow> g_done (as_recs (server x) ! n) \<Longrightarrow> as_recs s ! n = as_recs (server x) ! n"
    using assms(2) unfolding only_live_def by metis+
  have "\<exists>n. (gid, n) \<in> set (as_goals s) \<and> g_done (as_recs s ! n)" if "gid \<in> set (expiring x)" for gid
  proof -
    from assms(1) that obtain n where "(gid, n) \<in> set (as_goals (server x))" "g_done (as_recs (server x) ! n)"
      by (auto simp: as_inv_def)
    with d goal_index[OF t] assms(3) show ?thesis by auto
  qed
  moreover have "{n. n < length (as_recs s) \<and> \<not> g_done (as_recs s ! n)} = set (handlers x)"
    using assms(1) l d by (auto simp: as_inv_def)
  moreover have "\<forall>a \<in> set (answers x). answer_ok zero (as_recs s) a"
    using assms(1) l f answer_ok_mono[of zero "as_recs (server x)" _ "as_recs s"] by (simp add: as_inv_def)
  ultimately show ?thesis
    using assms server_typed_live[OF t assms(2,3)] l by (simp add: as_inv_def)
qed

lemma as_inv_accept:
  assumes "as_inv zero x" and "handle_send_goal zero gid now (server x) = (Accepted t, s)"
  shows "as_inv zero (x\<lparr>server := s, handlers := length (as_recs (server x)) # handlers x, due := Suc (due x)\<rparr>)"
proof -
  define r where "r = \<lparr>g_info = (gid, now), g_status = goal_executing, g_result = zero, g_done = False, g_ctx_done = False\<rparr>"
  have new: "map_of (as_goals (server x)) gid = None"
    and s: "s = (server x)\<lparr>as_accepted := as_accepted (server x) + 1, as_recs := as_recs (server x) @ [r],
      as_goals := AList.update gid (length (as_recs (server x))) (as_goals (server x))\<rparr>"
    using assms(2) by (auto simp: handle_send_goal_def r_def split: option.splits)
  have t: "server_typed (server x)" using assms(1) by (simp add: as_inv_def)
  have "record_ok r" "id_of r = gid" by (simp_all add: r_def record_ok_def terminal_def id_of_def)
  then have ts: "server_typed s" unfolding s using server_typed_new[OF t new] by blast
  have fresh: "gid \<notin> fst ` set (as_goals (server x))" using new by (simp add: map_of_eq_None_iff)
  have exp: "\<exists>n. (e, n) \<in> set (as_goals s) \<and> g_done (as_recs s ! n)" if "e \<in> set (expiring x)" for e
  proof -
    from assms(1) that obtain n where n: "(e, n) \<in> set (as_goals (server x))" "g_done (as_recs (server x) ! n)"
      by (auto simp: as_inv_def)
    with goal_index[OF t n(1)] show ?thesis by (auto simp: s update_fresh[OF fresh] nth_append)
  qed
  have "{n. n < length (as_recs s) \<and> \<not> g_done (as_recs s ! n)} = insert (length (as_recs (server x))) (set (handlers x))"
    using assms(1) by (auto simp: s r_def as_inv_def nth_append less_Suc_eq)
  moreover have "\<forall>a \<in> set (answers x). answer_ok zero (as_recs s) a"
    using assms(1) answer_ok_mono[of zero "as_recs (server x)" _ "as_recs s"] by (simp add: as_inv_def s nth_append)
  ultimately show ?thesis
    using assms(1) ts exp by (auto simp: as_inv_def s)
qed

lemma as_inv_return:
  assumes "as_inv zero x" and "handlers x = hs @ n # hs'"
  shows "as_inv zero (x\<lparr>server := complete_goal n err res (server x), handlers := hs @ hs',
      expiring := fst (g_info (as_recs (server x) ! n)) # expiring x, due := Suc (due x)\<rparr>)"
proof -
  let ?s = "server x" let ?s' = "complete_goal n err res ?s"
  have t: "server_typed ?s" using assms(1) by (simp add: as_inv_def)
  have n: "n < length (as_recs ?s)" "\<not> g_done (as_recs ?s ! n)" using assms by (auto simp: as_inv_def)
  then have g: "(id_of (as_recs ?s ! n), n) \<in> set (as_goals ?s)" using t by (simp add: server_typed_def)
  have t': "server_typed ?s'"
    unfolding complete_goal_def by (rule server_typed_update[OF t n(1) record_ok_complete]) simp_all
  have uniq: "m = n" if "(id_of (as_recs ?s ! n), m) \<in> set (as_goals ?s)" for m
    using that g t by (auto simp: server_typed_def dest: eq_key_imp_eq_value)
  have new: "id_of (as_recs ?s ! n) \<notin> set (expiring x)"
  proof
    assume "id_of (as_recs ?s ! n) \<in> set (expiring x)"
    then obtain m where "(id_of (as_recs ?s ! n), m) \<in> set (as_goals ?s)" "g_done (as_recs ?s ! m)"
      using assms(1) unfolding as_inv_def by blast
    with uniq n(2) show False by blast
  qed
  have exp: "\<exists>m. (e, m) \<in> set (as_goals ?s') \<and> g_done (as_recs ?s' ! m)"
    if "e \<in> set (id_of (as_recs ?s ! n) # expiring x)" for e
  proof (cases "e = id_of (as_recs ?s ! n)")
    case True
    with g n show ?thesis by (auto simp: complete_goal_def)
  next
    case False
    with that assms(1) obtain m where "(e, m) \<in> set (as_goals ?s)" "g_done (as_recs ?s ! m)"
      by (auto simp: as_inv_def)
    with n show ?thesis by (auto simp: complete_goal_def nth_list_update)
  qed
  have "{m. m < length (as_recs ?s') \<and> \<not> g_done (as_recs ?s' ! m)} = set (hs @ hs')"
    using assms n by (auto simp: as_inv_def complete_goal_def nth_list_update)
  moreover have "as_recs ?s' ! m = as_recs ?s ! m" if "g_done (as_recs ?s ! m)" for m
    using that n(2) by (cases "m = n") (auto simp: complete_goal_def)
  then have "\<forall>a \<in> set (answers x). answer_ok zero (as_recs ?s') a"
    using assms(1) answer_ok_mono[of zero "as_recs ?s" _ "as_recs ?s'"] by (simp add: as_inv_def complete_goal_def)
  ultimately show ?thesis
    using assms t' exp new by (auto simp: as_inv_def complete_goal_def id_of_def)
qed

lemma as_inv_expire:
  assumes "as_inv zero x" and "expiring x = es @ gid # es'"
  shows "as_inv zero (x\<lparr>server := forget_goal gid (server x), expiring := es @ es'\<rparr>)"
proof -
  have t: "server_typed (server x)" using assms(1) by (simp add: as_inv_def)
  obtain n where n: "(gid, n) \<in> set (as_goals (server x))" "g_done (as_recs (server x) ! n)"
    using assms by (auto simp: as_inv_def)
  have uniq: "m = n" if "(gid, m) \<in> set (as_goals (server x))" for m
    using that n t by (auto simp: server_typed_def dest: eq_key_imp_eq_value)
  have sub: "set (AList.delete gid (as_goals (server x))) = {(k, m) \<in> set (as_goals (server x)). k \<noteq> gid}"
    by (auto simp: AList.delete_eq)
  have "id_of (as_recs (server x) ! m) \<noteq> gid" if "m < length (as_recs (server x))" "\<not> g_done (as_recs (server x) ! m)" for m
    using that t uniq n(2) unfolding server_typed_def by metis
  moreover have "distinct (map fst (AList.delete gid (as_goals (server x))))"
    using t by (intro distinct_delete) (simp add: server_typed_def)
  ultimately have "server_typed (forget_goal gid (server x))"
    using t unfolding server_typed_def forget_goal_def by (auto simp: sub)
  moreover have "\<exists>m. (e, m) \<in> set (as_goals (forget_goal gid (server x))) \<and> g_done (as_recs (server x) ! m)"
    if "e \<in> set (es @ es')" for e
  proof -
    have "e \<noteq> gid" "e \<in> set (expiring x)" using that assms by (auto simp: as_inv_def)
    moreover from this obtain m where "(e, m) \<in> set (as_goals (server x))" "g_done (as_recs (server x) ! m)"
      using assms(1) unfolding as_inv_def by blast
    ultimately show ?thesis by (auto simp: forget_goal_def sub)
  qed
  ultimately show ?thesis
    using assms by (simp add: as_inv_def forget_goal_def)
qed

lemma as_step_inv: "as_step zero x y \<Longrightarrow> as_inv zero x \<Longrightarrow> as_inv zero y"
proof (induction rule: as_step.induct)
  case (refused gid now x s)
  then have "s = server x" by (auto simp: handle_send_goal_def split: option.splits)
  with refused show ?case by simp
next
  case (canceled gid x code infos s)
  have "server_typed (server x)" using canceled by (simp add: as_inv_def)
  from handle_cancel_live[OF this canceled.hyps] as_inv_live[OF canceled.prems] show ?case by blast
next
  case (asked gid x n)
  then have t: "server_typed (server x)" by (simp add: as_inv_def)
  with asked have "n < length (as_recs (server x))"
    using goal_index[OF t] by (auto simp: get_result_def find_goal_def goals_lookup[OF t] split: option.splits)
  with asked show ?case by (simp add: as_inv_def)
next
  case (unlisted gid x st res)
  then show ?case by (auto simp: as_inv_def get_result_def answer_ok_def split: option.splits)
next
  case (answered x ws n ws' st res)
  then show ?case by (auto simp: as_inv_def read_result_def answer_ok_def id_of_def)
next
  case (snapshot x k)
  then show ?case by (simp add: as_inv_def)
next
  case (publish x ps a ps')
  then show ?case by (simp add: as_inv_def)
qed (simp_all add: as_inv_accept as_inv_return as_inv_expire)

lemma as_inv_init: "as_inv zero as_init"
  by (simp add: as_inv_def as_init_def new_action_server_def server_typed_def)

lemma as_reachable_inv: "as_reachable zero x \<Longrightarrow> as_inv zero x"
  by (induction rule: as_reachable.induct) (blast intro: as_inv_init as_step_inv)+


lemma goal_indices_distinct:
  assumes "server_typed s"
  shows "distinct (map snd (as_goals s))"
proof -
  have "map fst (as_goals s) = map (\<lambda>n. id_of (as_recs s ! n)) (map snd (as_goals s))"
    using assms by (auto simp: server_typed_def)
  moreover have "distinct (map fst (as_goals s))" using assms by (simp add: server_typed_def)
  ultimately show ?thesis using distinct_map by metis
qed

lemma cancel_all_spec:
  assumes "cancel_all gs rs = (infos, rs')" and "distinct (map snd gs)" and "\<forall>(gid, n) \<in> set gs. n < length rs"
  shows "length rs' = length rs
    \<and> (\<forall>n < length rs. rs' ! n = (if n \<in> snd ` set gs \<and> \<not> terminal (rs ! n) then cancel_record (rs ! n) else rs ! n))
    \<and> set infos = (\<lambda>n. g_info (rs ! n)) ` {n \<in> snd ` set gs. \<not> terminal (rs ! n)}"
  using assms
proof (induction gs arbitrary: rs infos)
  case (Cons g gs)
  obtain k n where g: "g = (k, n)" by (cases g)
  show ?case
  proof (cases "terminal (rs ! n)")
    case True
    then have "cancel_all gs rs = (infos, rs')" using Cons.prems(1) g by simp
    from Cons.IH[OF this] Cons.prems(2,3) g True show ?thesis by auto
  next
    case False
    let ?rs = "rs[n := cancel_record (rs ! n)]"
    obtain infos' where c: "cancel_all gs ?rs = (infos', rs')" "infos = g_info (rs ! n) # infos'"
      using Cons.prems(1) g False by (auto split: prod.splits)
    have n: "n \<notin> snd ` set gs" "n < length rs" using Cons.prems(2,3) g by auto
    have other: "?rs ! m = rs ! m" if "m \<in> snd ` set gs" for m
    proof -
      have "m \<noteq> n" using n(1) that by blast
      then show ?thesis by simp
    qed
    have IH: "length rs' = length ?rs"
      "\<And>m. m < length ?rs \<Longrightarrow> rs' ! m = (if m \<in> snd ` set gs \<and> \<not> terminal (?rs ! m) then cancel_record (?rs ! m) else ?rs ! m)"
      "set infos' = (\<lambda>m. g_info (?rs ! m)) ` {m \<in> snd ` set gs. \<not> terminal (?rs ! m)}"
      using Cons.IH[OF c(1)] Cons.prems(2,3) by auto
    have "{m \<in> snd ` set gs. \<not> terminal (?rs ! m)} = {m \<in> snd ` set gs. \<not> terminal (rs ! m)}"
      by (rule Collect_cong, rule conj_cong[OF refl], simp only: other)
    then have "set infos' = (\<lambda>m. g_info (rs ! m)) ` {m \<in> snd ` set gs. \<not> terminal (rs ! m)}"
      unfolding IH(3) by (intro image_cong) (simp_all add: other)
    moreover have "{m \<in> snd ` set (g # gs). \<not> terminal (rs ! m)} = insert n {m \<in> snd ` set gs. \<not> terminal (rs ! m)}"
      using g False by auto
    ultimately have "set infos = (\<lambda>m. g_info (rs ! m)) ` {m \<in> snd ` set (g # gs). \<not> terminal (rs ! m)}"
      by (simp only: c(2) list.set(2) image_insert)
    moreover have "rs' ! m = (if m \<in> snd ` set (g # gs) \<and> \<not> terminal (rs ! m) then cancel_record (rs ! m) else rs ! m)"
      if "m < length rs" for m
      using IH(2)[of m] that n False g by (cases "m = n") auto

    ultimately show ?thesis using IH(1) by simp
  qed
qed auto

section \<open>Properties\<close>

text \<open>C25. The action server's state is well typed however its calls interleave: the goals still
  running are exactly the records whose result channel is open, each is listed under its own id
  (so two running goals never share one), and no scheduled deletion hits a running goal.\<close>

theorem action_server_typed:
  assumes "as_reachable zero x"
  shows "server_typed (server x)
    \<and> set (handlers x) = {n. n < length (as_recs (server x)) \<and> \<not> terminal (as_recs (server x) ! n)}
    \<and> (\<forall>gid \<in> set (expiring x). \<exists>n. find_goal gid (server x) = Some n \<and> terminal (as_recs (server x) ! n))"
proof -
  have inv: "as_inv zero x" using as_reachable_inv[OF assms(1)] .
  then have t: "server_typed (server x)" by (simp add: as_inv_def)
  have d: "g_done (as_recs (server x) ! n) = terminal (as_recs (server x) ! n)" if "n < length (as_recs (server x))" for n
    using t that by (simp add: server_typed_def record_ok_def)
  have "\<exists>n. find_goal gid (server x) = Some n \<and> terminal (as_recs (server x) ! n)" if "gid \<in> set (expiring x)" for gid
  proof -
    from inv that obtain n where "(gid, n) \<in> set (as_goals (server x))" "g_done (as_recs (server x) ! n)"
      unfolding as_inv_def by blast
    with goal_index[OF t] d goals_lookup[OF t] show ?thesis by (auto simp: find_goal_def)
  qed
  with inv t d show ?thesis by (auto simp: as_inv_def)
qed

text \<open>A goal that has not ended is listed, so nobody who asks is told that it is unknown.\<close>

lemma unlisted_ended:
  assumes "as_inv zero x" and "get_result zero gid (server x) = Inl a" and "n < length (as_recs (server x))"
    and "id_of (as_recs (server x) ! n) = gid"
  shows "terminal (as_recs (server x) ! n)"
proof (rule ccontr)
  have t: "server_typed (server x)" using assms(1) by (simp add: as_inv_def)
  assume "\<not> terminal (as_recs (server x) ! n)"
  with t assms(3) have "\<not> g_done (as_recs (server x) ! n)" by (simp add: server_typed_def record_ok_def)
  with t assms(3,4) have "find_goal gid (server x) = Some n"
    unfolding find_goal_def goals_lookup[OF t] by (auto simp: server_typed_def)
  with assms(2) show False by (simp add: get_result_def)
qed

lemma new_unlisted:
  assumes "as_step zero x y" and "answers y = (gid, None, st, res) # answers x"
  shows "\<exists>a. get_result zero gid (server x) = Inl a \<and> server y = server x"
  using assms by (cases rule: as_step.cases) auto


text \<open>The example the witnesses use: one goal sent.\<close>

definition one_goal :: "nat as_system" where
  "one_goal = \<lparr>server = \<lparr>as_recs = [\<lparr>g_info = ([1], 7), g_status = goal_executing, g_result = 0, g_done = False, g_ctx_done = False\<rparr>],
       as_goals = [([1], 0)], as_accepted = 1\<rparr>,
     handlers = [0], expiring = [], waiting = [], answers = [], due = 1, publishing = [], latched_status = None\<rparr>"

lemma one_goal_reachable: "as_reachable 0 one_goal"
proof -
  have "handle_send_goal 0 [1] 7 (server as_init) = (Accepted 7, server one_goal)"
    by (simp add: handle_send_goal_def as_init_def new_action_server_def one_goal_def)
  from as_reachable.step[OF as_reachable.init as_step.accepted[OF this]] show ?thesis
    by (simp add: one_goal_def as_init_def new_action_server_def)
qed

lemma one_goal_returned:
  "as_reachable 0 (one_goal\<lparr>server := complete_goal 0 False 42 (server one_goal), handlers := [], expiring := [[1]], due := 2\<rparr>)"
  using as_reachable.step[OF one_goal_reachable as_step.returned[of one_goal "[]" 0 "[]" 0 False 42]]
  by (simp add: one_goal_def eval_nat_numeral)

theorem action_server_typed_witness: "server_typed (server one_goal) \<and> set (handlers one_goal) = {0}"
  using action_server_typed[OF one_goal_reachable] by (simp add: one_goal_def)


text \<open>The status topic can be left stale: \<^verbatim>\<open>publishStatus\<close> reads the goals under the lock but
  publishes after releasing it, so an older array may be published last, and the latched message
  then shows a goal as executing that has succeeded, with no publication to follow.\<close>

theorem status_left_stale:
  "\<exists>x :: nat as_system. as_reachable 0 x \<and> handlers x = [] \<and> due x = 0 \<and> publishing x = []
     \<and> latched_status x = Some [(([1], 7), goal_executing)]
     \<and> status_array (server x) = [(([1], 7), goal_succeeded)]"
proof -
  define a :: "(goal_info \<times> int) list" where "a = [(([1], 7), goal_executing)]"
  define b :: "(goal_info \<times> int) list" where "b = [(([1], 7), goal_succeeded)]"
  define s1 where "s1 = one_goal\<lparr>due := 0, publishing := [a]\<rparr>"
  define s2 where "s2 = s1\<lparr>server := complete_goal 0 False 42 (server one_goal), handlers := [], expiring := [[1]], due := 1\<rparr>"
  define s3 where "s3 = s2\<lparr>due := 0, publishing := [b, a]\<rparr>"
  define s4 where "s4 = s3\<lparr>publishing := [a], latched_status := Some b\<rparr>"
  define s5 where "s5 = s4\<lparr>publishing := [], latched_status := Some a\<rparr>"
  note step = as_reachable.step[rotated]
  have "as_step 0 one_goal s1"
    using as_step.snapshot[of one_goal 0] by (simp add: s1_def a_def one_goal_def status_array_def)
  then have "as_reachable 0 s1" using one_goal_reachable by (rule step)
  moreover have "as_step 0 s1 s2"
    using as_step.returned[of s1 "[]" 0 "[]" 0 False 42] by (simp add: s1_def s2_def one_goal_def)
  ultimately have "as_reachable 0 s2" by (blast intro: step)
  moreover have "as_step 0 s2 s3"
    using as_step.snapshot[of s2 0]
    by (simp add: s1_def s2_def s3_def a_def b_def one_goal_def status_array_def complete_goal_def complete_def)
  ultimately have "as_reachable 0 s3" by (blast intro: step)
  moreover have "as_step 0 s3 s4"
    using as_step.publish[of s3 "[]" b "[a]"] by (simp add: s3_def s4_def)
  ultimately have "as_reachable 0 s4" by (blast intro: step)
  moreover have "as_step 0 s4 s5"
    using as_step.publish[of s4 "[]" a "[]"] by (simp add: s4_def s5_def)
  ultimately have "as_reachable 0 s5" by (blast intro: step)
  moreover have "handlers s5 = []" "due s5 = 0" "publishing s5 = []" "latched_status s5 = Some a"
    "status_array (server s5) = b"
    by (simp_all add: s1_def s2_def s3_def s4_def s5_def b_def one_goal_def status_array_def complete_goal_def complete_def)
  ultimately show ?thesis unfolding a_def b_def by blast
qed

text \<open>\<^verbatim>\<open>handleCancel\<close> on every branch: an unknown goal and a terminated one are reported as such and
  change nothing; a running one is now canceling and reported; the zero id cancels exactly the
  goals that are not terminal.\<close>

theorem cancel_outcome:
  assumes "server_typed s" and "handle_cancel gid s = ((code, infos), s')"
  shows "if gid = zero_uuid
    then code = cancel_err_none \<and> as_goals s' = as_goals s
      \<and> as_recs s' = map (\<lambda>r. if terminal r then r else cancel_record r) (as_recs s)
      \<and> set infos = {g_info r | r. r \<in> set (as_recs s) \<and> \<not> terminal r}
    else case find_goal gid s of
      None \<Rightarrow> code = cancel_err_unknown_goal \<and> infos = [] \<and> s' = s
    | Some n \<Rightarrow>
        if terminal (as_recs s ! n) then code = cancel_err_terminated \<and> infos = [] \<and> s' = s
        else code = cancel_err_none \<and> infos = [g_info (as_recs s ! n)]
          \<and> s' = s\<lparr>as_recs := (as_recs s)[n := cancel_record (as_recs s ! n)]\<rparr>"
proof (cases "gid = zero_uuid")
  case True
  obtain gis rs where c: "cancel_all (as_goals s) (as_recs s) = (gis, rs)" by fastforce
  with assms(2) True have e: "code = cancel_err_none" "infos = gis" "s' = s\<lparr>as_recs := rs\<rparr>"
    by (simp_all add: handle_cancel_def)
  have d: "distinct (map snd (as_goals s))" by (rule goal_indices_distinct[OF assms(1)])
  have idx: "\<forall>(gid, n) \<in> set (as_goals s). n < length (as_recs s)"
    using assms(1) by (auto simp: server_typed_def)
  note a = cancel_all_spec[OF c d idx]
  have live: "n \<in> snd ` set (as_goals s)" if "n < length (as_recs s)" "\<not> terminal (as_recs s ! n)" for n
  proof -
    have "record_ok (as_recs s ! n)" using assms(1) that(1) by (simp add: server_typed_def)
    then have "\<not> g_done (as_recs s ! n)" using that(2) by (simp add: record_ok_def)
    then have "(id_of (as_recs s ! n), n) \<in> set (as_goals s)" using assms(1) that(1) by (simp add: server_typed_def)
    then show ?thesis by (metis image_eqI snd_conv)
  qed
  have "rs = map (\<lambda>r. if terminal r then r else cancel_record r) (as_recs s)"
    using a live by (intro nth_equalityI) auto
  moreover have "set gis = {g_info r | r. r \<in> set (as_recs s) \<and> \<not> terminal r}"
  proof
    show "set gis \<subseteq> {g_info r | r. r \<in> set (as_recs s) \<and> \<not> terminal r}"
    proof
      fix i assume "i \<in> set gis"
      with a obtain n where n: "n \<in> snd ` set (as_goals s)" "\<not> terminal (as_recs s ! n)" "i = g_info (as_recs s ! n)" by blast
      moreover have "as_recs s ! n \<in> set (as_recs s)" using n(1) idx by auto
      ultimately show "i \<in> {g_info r | r. r \<in> set (as_recs s) \<and> \<not> terminal r}" by blast
    qed
    show "{g_info r | r. r \<in> set (as_recs s) \<and> \<not> terminal r} \<subseteq> set gis"
    proof
      fix i assume "i \<in> {g_info r | r. r \<in> set (as_recs s) \<and> \<not> terminal r}"
      then obtain r where i: "i = g_info r" and "r \<in> set (as_recs s)" "\<not> terminal r" by blast
      then obtain n where n: "n < length (as_recs s)" "as_recs s ! n = r" "\<not> terminal (as_recs s ! n)"
        by (auto simp: in_set_conv_nth)
      from a live[OF n(1,3)] n i show "i \<in> set gis" by blast
    qed
  qed
  ultimately show ?thesis using True e by simp
next
  case False
  then show ?thesis
    using assms(2) by (auto simp: handle_cancel_def find_goal_def split: option.splits if_splits)
qed

theorem cancel_outcome_witness:
  "fst (handle_cancel zero_uuid (server one_goal)) = (cancel_err_none, [([1], 7)])"
proof -
  have t: "server_typed (server one_goal)"
    using as_reachable_inv[OF one_goal_reachable] by (simp add: as_inv_def)
  obtain code infos s' where c: "handle_cancel zero_uuid (server one_goal) = ((code, infos), s')"
    by (metis prod.collapse)
  have "code = cancel_err_none" using cancel_outcome[OF t c] by simp
  with c show ?thesis by (simp add: handle_cancel_def one_goal_def terminal_def)
qed

end
