(* ===== verification/Action_Client.thy ===== *)
theory Action_Client
imports Action_Server Go_Time Hex
begin

text \<open>
  The action client (\<^verbatim>\<open>action_client.go\<close>): sending a goal, the feedback channel of each goal,
  cancellation, and the result of a goal's handle.

  Channels are a store, as in \<^verbatim>\<open>Action_Server\<close>: \<open>ac_chans\<close> lists them and the map
  \<open>ac_pending\<close> holds their index. A send on a closed channel and a close of a closed one panic in
  Go; the operations that do either return \<^const>\<open>None\<close> there. The transport's three calls are
  parameters. \<open>ac_step\<close> interleaves the callers of \<^verbatim>\<open>SendGoal\<close> and \<^verbatim>\<open>Result\<close>, the feedback
  callback and the consumers of the channels.
\<close>

section \<open>Statuses\<close>

definition status_string :: "int \<Rightarrow> string" where
  "status_string s =
     (if s = 1 then ''ACCEPTED'' else if s = goal_executing then ''EXECUTING''
      else if s = goal_canceling then ''CANCELING'' else if s = goal_succeeded then ''SUCCEEDED''
      else if s = goal_canceled then ''CANCELED'' else if s = goal_aborted then ''ABORTED'' else ''UNKNOWN'')"

definition succeeded :: "int \<Rightarrow> bool" where
  "succeeded s \<longleftrightarrow> s = goal_succeeded"

text \<open>\<^verbatim>\<open>GoalHandle.ID\<close>: the bytes in hexadecimal.\<close>

definition handle_id :: "uuid \<Rightarrow> string" where
  "handle_id gid = hex_encode gid"

section \<open>Feedback channels\<close>

record 'f channel =
  ch_items :: "'f list"
  ch_closed :: bool

definition chan_capacity :: nat where "chan_capacity = 16"

record 'f ac_state =
  ac_pending :: "(uuid \<times> nat) list"
  ac_chans :: "'f channel list"

definition open_feedback :: "uuid \<Rightarrow> 'f ac_state \<Rightarrow> nat \<times> 'f ac_state" where
  "open_feedback gid c =
     (length (ac_chans c),
      c\<lparr>ac_pending := AList.update gid (length (ac_chans c)) (ac_pending c),
        ac_chans := ac_chans c @ [\<lparr>ch_items = [], ch_closed = False\<rparr>]\<rparr>)"

definition release :: "uuid \<Rightarrow> nat \<Rightarrow> 'f ac_state \<Rightarrow> 'f ac_state option" where
  "release gid n c =
     (case map_of (ac_pending c) gid of
        None \<Rightarrow> Some c
      | Some _ \<Rightarrow>
          if ch_closed (ac_chans c ! n) then None
          else Some (c\<lparr>ac_pending := AList.delete gid (ac_pending c),
                       ac_chans := (ac_chans c)[n := (ac_chans c ! n)\<lparr>ch_closed := True\<rparr>]\<rparr>))"

text \<open>The feedback callback: a full channel drops the message.\<close>

definition on_feedback :: "uuid \<Rightarrow> 'f \<Rightarrow> 'f ac_state \<Rightarrow> 'f ac_state option" where
  "on_feedback gid f c =
     (case map_of (ac_pending c) gid of
        None \<Rightarrow> Some c
      | Some n \<Rightarrow>
          if ch_closed (ac_chans c ! n) then None
          else if length (ch_items (ac_chans c ! n)) < chan_capacity
          then Some (c\<lparr>ac_chans := (ac_chans c)[n := (ac_chans c ! n)\<lparr>ch_items := ch_items (ac_chans c ! n) @ [f]\<rparr>]\<rparr>)
          else Some c)"

section \<open>Sending and waiting\<close>

definition err_goal_rejected :: goerror where
  "err_goal_rejected = Errorf ''conductor: goal rejected by action server'' []"

text \<open>How \<^verbatim>\<open>SendGoal\<close> goes on after the call: the error it returns, if any.\<close>

definition send_outcome :: "string \<Rightarrow> send_response result \<Rightarrow> goerror option" where
  "send_outcome name r =
     (case r of
        Inl err \<Rightarrow> Some (Errorf ''action %q: send_goal: %w'' [GStr name, GErr err])
      | Inr NotAccepted \<Rightarrow> Some err_goal_rejected
      | Inr (Accepted _) \<Rightarrow> None)"

definition cancel_outcome_of :: "string \<Rightarrow> 'a result \<Rightarrow> goerror option" where
  "cancel_outcome_of name r =
     (case r of Inl err \<Rightarrow> Some (Errorf ''action %q: cancel_goal: %w'' [GStr name, GErr err]) | Inr _ \<Rightarrow> None)"

text \<open>The body of \<^verbatim>\<open>h.result\<close>, before the deferred release.\<close>

definition result_outcome :: "'r \<Rightarrow> string \<Rightarrow> (int \<times> 'r) result \<Rightarrow> 'r \<times> int \<times> goerror option" where
  "result_outcome zero name r =
     (case r of
        Inl err \<Rightarrow> (zero, 0, Some (Errorf ''action %q: get_result: %w'' [GStr name, GErr err]))
      | Inr (st, res) \<Rightarrow> (res, st, None))"

definition action_timeout :: "string \<Rightarrow> int result" where
  "action_timeout tag =
     (if tag = [] then Inr (5 * 60 * 1000000000)
      else case parse_duration tag of
             None \<Rightarrow> Inl (Errorf ''invalid timeout %q'' [GStr tag])
           | Some d \<Rightarrow> if d \<le> 0 then Inl (Errorf ''invalid timeout %q'' [GStr tag]) else Inr d)"

text \<open>A goal of this client: still being sent, refused (its error), running, or its result, which
  \<^verbatim>\<open>sync.Once\<close> keeps for every later call.\<close>

datatype 'r goal_phase = Sending | Refused goerror | Running | Resolved "'r \<times> int \<times> goerror option"

record ('f, 'r) ac_system =
  client :: "'f ac_state"
  sent_goals :: "(uuid \<times> 'r goal_phase) list"
  panicked :: bool

text \<open>\<^verbatim>\<open>Result\<close> of the goal with index \<open>n\<close>: the first call runs the body and releases the
  channel.\<close>

definition resolve :: "'r \<Rightarrow> string \<Rightarrow> nat \<Rightarrow> (int \<times> 'r) result \<Rightarrow> ('f, 'r) ac_system
    \<Rightarrow> ('r \<times> int \<times> goerror option) \<times> ('f, 'r) ac_system" where
  "resolve zero name n r x =
     (let (gid, ph) = sent_goals x ! n in
      case ph of
        Resolved out \<Rightarrow> (out, x)
      | _ \<Rightarrow> let out = result_outcome zero name r in
          (out, case release gid n (client x) of
             None \<Rightarrow> x\<lparr>panicked := True\<rparr>
           | Some c \<Rightarrow> x\<lparr>client := c, sent_goals := (sent_goals x)[n := (gid, Resolved out)]\<rparr>))"

inductive ac_step :: "'r \<Rightarrow> string \<Rightarrow> ('f, 'r) ac_system \<Rightarrow> ('f, 'r) ac_system \<Rightarrow> bool" for zero :: 'r and name :: string where
  opened: "open_feedback gid (client x) = (n, c) \<Longrightarrow>
    ac_step zero name x (x\<lparr>client := c, sent_goals := sent_goals x @ [(gid, Sending)]\<rparr>)"
| sent_ok: "n < length (sent_goals x) \<Longrightarrow> sent_goals x ! n = (gid, Sending) \<Longrightarrow> send_outcome name r = None \<Longrightarrow>
    ac_step zero name x (x\<lparr>sent_goals := (sent_goals x)[n := (gid, Running)]\<rparr>)"
| sent_bad: "n < length (sent_goals x) \<Longrightarrow> sent_goals x ! n = (gid, Sending) \<Longrightarrow> send_outcome name r = Some e \<Longrightarrow>
    release gid n (client x) = Some c \<Longrightarrow>
    ac_step zero name x (x\<lparr>client := c, sent_goals := (sent_goals x)[n := (gid, Refused e)]\<rparr>)"
| sent_bad_panic: "n < length (sent_goals x) \<Longrightarrow> sent_goals x ! n = (gid, Sending) \<Longrightarrow> send_outcome name r = Some e \<Longrightarrow>
    release gid n (client x) = None \<Longrightarrow> ac_step zero name x (x\<lparr>panicked := True\<rparr>)"
| resolved: "n < length (sent_goals x) \<Longrightarrow> snd (sent_goals x ! n) = Running \<or> snd (sent_goals x ! n) = Resolved o0 \<Longrightarrow>
    ac_step zero name x (snd (resolve zero name n r x))"
| fed: "on_feedback gid f (client x) = Some c \<Longrightarrow> ac_step zero name x (x\<lparr>client := c\<rparr>)"
| fed_panic: "on_feedback gid f (client x) = None \<Longrightarrow> ac_step zero name x (x\<lparr>panicked := True\<rparr>)"
| consumed: "n < length (ac_chans (client x)) \<Longrightarrow> ch_items (ac_chans (client x) ! n) = f # fs \<Longrightarrow>
    ac_step zero name x (x\<lparr>client := (client x)\<lparr>ac_chans := (ac_chans (client x))[n := (ac_chans (client x) ! n)\<lparr>ch_items := fs\<rparr>]\<rparr>\<rparr>)"

definition ac_init :: "('f, 'r) ac_system" where
  "ac_init = \<lparr>client = \<lparr>ac_pending = [], ac_chans = []\<rparr>, sent_goals = [], panicked = False\<rparr>"

inductive ac_reachable :: "'r \<Rightarrow> string \<Rightarrow> ('f, 'r) ac_system \<Rightarrow> bool" for zero :: 'r and name :: string where
  init: "ac_reachable zero name ac_init"
| step: "ac_reachable zero name x \<Longrightarrow> ac_step zero name x y \<Longrightarrow> ac_reachable zero name y"

section \<open>Invariant\<close>

fun finished :: "'r goal_phase \<Rightarrow> bool" where
  "finished (Refused _) = True"
| "finished (Resolved _) = True"
| "finished _ = False"

text \<open>One channel per goal sent. A channel the map holds belongs to a goal with that id that is
  not finished, and only the channel of a finished goal is closed. Ids need not be distinct: two
  goals that drew the same random id share the map's entry, and this still holds.\<close>

definition ac_inv :: "('f, 'r) ac_system \<Rightarrow> bool" where
  "ac_inv x \<longleftrightarrow> \<not> panicked x
     \<and> length (ac_chans (client x)) = length (sent_goals x)
     \<and> (\<forall>gid n. map_of (ac_pending (client x)) gid = Some n \<longrightarrow> n < length (sent_goals x) \<and> fst (sent_goals x ! n) = gid
          \<and> \<not> ch_closed (ac_chans (client x) ! n))
     \<and> (\<forall>n < length (sent_goals x). ch_closed (ac_chans (client x) ! n) \<longrightarrow> finished (snd (sent_goals x ! n)))
     \<and> (\<forall>n < length (sent_goals x). length (ch_items (ac_chans (client x) ! n)) \<le> chan_capacity)"

lemma release_ok:
  assumes "ac_inv x" and "n < length (sent_goals x)" and "fst (sent_goals x ! n) = gid" and "\<not> finished (snd (sent_goals x ! n))"
    and "finished ph"
  shows "\<exists>c. release gid n (client x) = Some c \<and> ac_inv (x\<lparr>client := c, sent_goals := (sent_goals x)[n := (gid, ph)]\<rparr>)"
  using assms
  by (cases "map_of (ac_pending (client x)) gid")
    (auto simp: release_def ac_inv_def nth_list_update delete_conv' split: if_splits)

lemma ac_inv_open:
  assumes "ac_inv x" and "open_feedback gid (client x) = (n, c)"
  shows "ac_inv (x\<lparr>client := c, sent_goals := sent_goals x @ [(gid, Sending)]\<rparr>)"
  using assms
  by (auto simp: open_feedback_def ac_inv_def nth_append update_conv' less_Suc_eq split: if_splits)

lemma ac_inv_feedback:
  assumes "ac_inv x"
  shows "\<exists>c. on_feedback gid f (client x) = Some c \<and> ac_inv (x\<lparr>client := c\<rparr>)"
  using assms
  by (cases "map_of (ac_pending (client x)) gid")
    (auto simp: on_feedback_def ac_inv_def nth_list_update split: if_splits)

lemma resolve_inv:
  assumes "ac_inv x" and "n < length (sent_goals x)" and "snd (sent_goals x ! n) = Running \<or> snd (sent_goals x ! n) = Resolved o0"
  shows "ac_inv (snd (resolve zero name n r x))"
proof -
  obtain gid ph where g: "sent_goals x ! n = (gid, ph)" by fastforce
  with assms(3) consider "ph = Running" | "ph = Resolved o0" by auto
  then show ?thesis
  proof cases
    case 1
    with release_ok[OF assms(1,2), of gid "Resolved (result_outcome zero name r)"] g
    show ?thesis by (auto simp: resolve_def Let_def)
  next
    case 2
    with g assms(1) show ?thesis by (simp add: resolve_def)
  qed
qed

lemma ac_step_inv: "ac_step zero name x y \<Longrightarrow> ac_inv x \<Longrightarrow> ac_inv y"
proof (induction rule: ac_step.induct)
  case (opened gid x n c)
  then show ?case by (blast intro: ac_inv_open)
next
  case (sent_ok n x gid r)
  then show ?case by (auto simp: ac_inv_def nth_list_update) (metis fst_conv)
next
  case (sent_bad n x gid r e c)
  with release_ok[of x n gid "Refused e"] show ?case by auto
next
  case (sent_bad_panic n x gid r e)
  with release_ok[of x n gid "Refused e"] show ?case by auto
next
  case (resolved n x o0 r)
  then show ?case by (blast intro: resolve_inv)
next
  case (fed gid f x c)
  with ac_inv_feedback[of x gid f] show ?case by auto
next
  case (fed_panic gid f x)
  with ac_inv_feedback[of x gid f] show ?case by auto
next
  case (consumed n x f fs)
  then show ?case by (auto simp: ac_inv_def nth_list_update)
qed

lemma ac_inv_init: "ac_inv ac_init"
  by (simp add: ac_inv_def ac_init_def)

lemma ac_reachable_inv: "ac_reachable zero name x \<Longrightarrow> ac_inv x"
  by (induction rule: ac_reachable.induct) (blast intro: ac_inv_init ac_step_inv)+

section \<open>Properties\<close>

text \<open>The client never panics on a feedback channel: however sends, refusals, results, feedback
  messages and consumers interleave, nothing sends on a closed channel or closes one twice, even
  when two goals draw the same id; a channel of an unfinished goal is open, and none holds more
  than its 16 messages.\<close>

theorem feedback_never_panics:
  assumes "ac_reachable zero name x"
  shows "\<not> panicked x
    \<and> (\<forall>n < length (sent_goals x). \<not> finished (snd (sent_goals x ! n)) \<longrightarrow> \<not> ch_closed (ac_chans (client x) ! n))
    \<and> (\<forall>n < length (sent_goals x). length (ch_items (ac_chans (client x) ! n)) \<le> 16)"
  using ac_reachable_inv[OF assms] by (auto simp: ac_inv_def chan_capacity_def)

theorem feedback_never_panics_witness:
  "\<exists>x :: (nat, nat) ac_system. ac_reachable 0 ''nav'' x \<and> sent_goals x = [([1], Sending)]
     \<and> \<not> ch_closed (ac_chans (client x) ! 0)"
proof -
  obtain n c where o: "open_feedback [1] (client (ac_init :: (nat, nat) ac_system)) = (n, c)" by fastforce
  from ac_reachable.step[OF ac_reachable.init ac_step.opened[OF o]]
  have r: "ac_reachable 0 ''nav'' ((ac_init :: (nat, nat) ac_system)\<lparr>client := c, sent_goals := [([1], Sending)]\<rparr>)"
    by (simp add: ac_init_def)
  from feedback_never_panics[OF r] r show ?thesis by (intro exI conjI) (assumption, simp_all)
qed

text \<open>\<^verbatim>\<open>Result\<close> may be called any number of times: once a goal has resolved, every later call
  returns the same result, status and error, whatever the server would answer by then, and
  changes nothing.\<close>

theorem result_once:
  assumes "n < length (sent_goals x)" and "snd (sent_goals x ! n) = Running"
    and "resolve zero name n r x = (out, y)" and "\<not> panicked y"
    and "resolve zero name n r' y = (out', z)"
  shows "out' = out \<and> z = y"
  using assms
  by (cases "sent_goals x ! n") (auto simp: resolve_def Let_def split: option.splits)

theorem result_once_witness:
  "fst (resolve 0 ''nav'' 0 (Inr (4, 9)) (snd (resolve (0::nat) ''nav'' 0 (Inr (4, 42))
     \<lparr>client = \<lparr>ac_pending = [([1], 0)], ac_chans = [\<lparr>ch_items = [3::nat], ch_closed = False\<rparr>]\<rparr>,
       sent_goals = [([1], Running)], panicked = False\<rparr>))) = (42, 4, None)"
proof -
  let ?x = "\<lparr>client = \<lparr>ac_pending = [([1], 0)], ac_chans = [\<lparr>ch_items = [3::nat], ch_closed = False\<rparr>]\<rparr>,
       sent_goals = [([1], Running)], panicked = False\<rparr> :: (nat, nat) ac_system"
  obtain o1 y where y: "resolve 0 ''nav'' 0 (Inr (4, 42)) ?x = (o1, y)" by fastforce
  obtain o2 z where z: "resolve 0 ''nav'' 0 (Inr (4, 9)) y = (o2, z)" by fastforce
  from y have "o1 = (42, 4, None)" "\<not> panicked y"
    by (auto simp: resolve_def release_def result_outcome_def Let_def)
  with result_once[OF _ _ y _ z] y z show ?thesis by simp
qed

end
