(* ===== verification/Fleet_Base.thy ===== *)
theory Fleet_Base
imports Go_Prelude
begin

text \<open>
  What the fleet's merged graph and its stitched traces share (\<^verbatim>\<open>fleet.go\<close>): the peers, the
  names of processes and nodes, and the findings.
\<close>

record peer =
  p_name :: string
  p_host :: string
  p_url :: string
  p_robot :: string

definition process_label :: "peer \<Rightarrow> string" where
  "process_label p =
     (if p_host p \<noteq> [] \<and> p_name p \<noteq> [] then p_host p @ ''/'' @ p_name p
      else if p_name p \<noteq> [] then p_name p
      else if p_host p \<noteq> [] then p_host p
      else p_url p)"

definition node_key :: "string \<Rightarrow> string \<Rightarrow> string" where
  "node_key process node =
     (if process = node \<or> suffix (''/'' @ node) process then process else process @ ''/'' @ node)"

definition on_robot :: "string \<Rightarrow> string" where
  "on_robot robot = (if robot = [] then [] else '' on '' @ robot)"

text \<open>A finding keeps its message unrendered, like an error.\<close>

record finding =
  fd_severity :: string
  fd_code :: string
  fd_msg :: goerror

definition is_error :: "finding \<Rightarrow> bool" where
  "is_error f \<longleftrightarrow> fd_severity f = ''error''"

text \<open>\<^verbatim>\<open>sortFindings\<close> is a stable sort that puts errors first.\<close>

definition sort_findings :: "finding list \<Rightarrow> finding list" where
  "sort_findings fs = sort_key (\<lambda>f. if is_error f then 0 else 1 :: nat) fs"

lemma set_sort_findings [simp]: "set (sort_findings fs) = set fs"
  by (simp add: sort_findings_def)

end
