(* ===== verification/Span_Forest.thy ===== *)
theory Span_Forest
imports Go_Prelude
begin

text \<open>
  The causal tree of one trace, as \<^verbatim>\<open>stitch\<close> (\<^verbatim>\<open>fleet_traces.go\<close>) and \<^verbatim>\<open>orderSpans\<close>
  (\<^verbatim>\<open>dashboard.go\<close>) both build it: spans grouped under the span their parent id names, the spans
  without a parent in the list as roots, and a depth-first walk from each root. A locale states
  what the two have in common and what follows: the walk ends, and shows every span whose
  ancestors lead to a root exactly once.
\<close>

section \<open>The walk\<close>

text \<open>The recursive closure \<^verbatim>\<open>walk\<close>: a span with its depth, then its children's walks. The result is
  \<^const>\<open>None\<close> when the recursion is deeper than \<open>fuel\<close>.\<close>

fun preorder :: "('a \<Rightarrow> 'a list) \<Rightarrow> nat \<Rightarrow> nat \<Rightarrow> 'a \<Rightarrow> ('a \<times> nat) list option" where
  "preorder kids 0 d s = None"
| "preorder kids (Suc fuel) d s =
     map_option (\<lambda>ls. (s, d) # concat ls) (those (map (preorder kids fuel (Suc d)) (kids s)))"

definition preorder_all :: "('a \<Rightarrow> 'a list) \<Rightarrow> nat \<Rightarrow> 'a list \<Rightarrow> ('a \<times> nat) list option" where
  "preorder_all kids fuel rs = map_option concat (those (map (preorder kids fuel 0) rs))"

lemma those_map_Some: "\<forall>x \<in> set xs. \<exists>y. f x = Some y \<Longrightarrow> those (map f xs) = Some (map (\<lambda>x. the (f x)) xs)"
  by (induction xs) auto

section \<open>Forests\<close>

text \<open>\<open>kids\<close> and \<open>rs\<close> are the children and the roots of the spans in \<open>ss\<close>. A child has one parent
  among them and a root has none: that is what distinct span ids give.\<close>

locale span_forest =
  fixes ok :: "'a list \<Rightarrow> bool" and kids :: "'a list \<Rightarrow> 'a \<Rightarrow> 'a list" and rs :: "'a list \<Rightarrow> 'a list"
  assumes kids_spans: "ok ss \<Longrightarrow> p \<in> set ss \<Longrightarrow> set (kids ss p) \<subseteq> set ss"
    and roots_spans: "ok ss \<Longrightarrow> set (rs ss) \<subseteq> set ss"
    and kids_distinct: "ok ss \<Longrightarrow> p \<in> set ss \<Longrightarrow> distinct (kids ss p)"
    and roots_distinct: "ok ss \<Longrightarrow> distinct (rs ss)"
    and one_parent: "ok ss \<Longrightarrow> p \<in> set ss \<Longrightarrow> q \<in> set ss \<Longrightarrow> t \<in> set (kids ss p) \<Longrightarrow> t \<in> set (kids ss q) \<Longrightarrow> p = q"
    and root_no_parent: "ok ss \<Longrightarrow> p \<in> set ss \<Longrightarrow> t \<in> set (kids ss p) \<Longrightarrow> t \<notin> set (rs ss)"
begin

inductive level :: "'a list \<Rightarrow> nat \<Rightarrow> 'a \<Rightarrow> bool" for ss where
  top: "s \<in> set (rs ss) \<Longrightarrow> level ss 0 s"
| below: "level ss n p \<Longrightarrow> t \<in> set (kids ss p) \<Longrightarrow> level ss (Suc n) t"

lemma level_span: "level ss n s \<Longrightarrow> ok ss \<Longrightarrow> s \<in> set ss"
  by (induction rule: level.induct) (use roots_spans kids_spans in blast)+

lemma level_unique: "level ss n s \<Longrightarrow> ok ss \<Longrightarrow> level ss m s \<Longrightarrow> m = n"
proof (induction arbitrary: m rule: level.induct)
  case (top s)
  from top(3) top(1,2) show ?case
    by (cases rule: level.cases) (auto dest: root_no_parent level_span)
next
  case (below n p t)
  from below.prems(2) show ?case
  proof (cases rule: level.cases)
    case top
    with below.hyps below.prems(1) show ?thesis by (auto dest: root_no_parent level_span)
  next
    case (below k q)
    with \<open>level ss n p\<close> \<open>t \<in> set (kids ss p)\<close> \<open>ok ss\<close> have "q = p" using one_parent level_span by blast
    with below \<open>ok ss\<close> \<open>\<And>m. ok ss \<Longrightarrow> level ss m p \<Longrightarrow> m = n\<close> show ?thesis by auto
  qed
qed

lemma level_chain: "level ss n s \<Longrightarrow> k \<le> n \<Longrightarrow> \<exists>t. level ss k t"
proof (induction arbitrary: k rule: level.induct)
  case (below n p t)
  then show ?case by (cases "k = Suc n") (auto intro: level.below)
qed (auto intro: level.top)

text \<open>The depth is bounded by the number of spans: a span at depth \<open>n\<close> has \<open>n\<close> others above it.\<close>

lemma level_bound: "ok ss \<Longrightarrow> level ss n s \<Longrightarrow> n < length ss"
proof -
  assume ok: "ok ss" and "level ss n s"
  then have "\<forall>k \<in> {..n}. \<exists>t. level ss k t" using level_chain by auto
  then obtain f where f: "\<forall>k \<in> {..n}. level ss k (f k)" by metis
  then have "inj_on f {..n}" using ok by (auto simp: inj_on_def) (metis atMost_iff level_unique)
  moreover have "f ` {..n} \<subseteq> set ss" using f level_span ok by auto
  ultimately have "card {..n} \<le> card (set ss)" by (metis card_inj_on_le finite_set)
  then show ?thesis using card_length[of ss] by simp
qed

definition descends :: "'a list \<Rightarrow> 'a \<Rightarrow> 'a \<Rightarrow> bool" where
  "descends ss = rtranclp (\<lambda>p t. p \<in> set ss \<and> t \<in> set (kids ss p))"

lemma descends_level: "descends ss s t \<Longrightarrow> level ss n s \<Longrightarrow> \<exists>m \<ge> n. level ss m t \<and> (m = n \<longrightarrow> t = s)"
  unfolding descends_def
proof (induction rule: rtranclp_induct)
  case (step t u)
  then obtain m where "m \<ge> n" "level ss m t" by blast
  with step(2) show ?case by (intro exI[of _ "Suc m"]) (auto intro: level.below)
qed auto

lemma descends_step: "s \<in> set ss \<Longrightarrow> descends ss s t \<longleftrightarrow> t = s \<or> (\<exists>k \<in> set (kids ss s). descends ss k t)"
  unfolding descends_def
  by (rule iffI, erule converse_rtranclpE) (auto intro: converse_rtranclp_into_rtranclp)

lemma descends_unique:
  "ok ss \<Longrightarrow> descends ss a t \<Longrightarrow> descends ss b t \<Longrightarrow> level ss n a \<Longrightarrow> level ss n b \<Longrightarrow> a = b"
proof -
  assume ok: "ok ss" and d: "descends ss a t" "descends ss b t" "level ss n a" "level ss n b"
  from d show "a = b"
    unfolding descends_def
  proof (induction rule: rtranclp_induct)
    case base
    then show ?case using descends_level[of ss b a n] level_unique[OF _ ok] unfolding descends_def by blast
  next
    case (step t u)
    from step.prems(1) show ?case
    proof (cases rule: rtranclp.cases)
      case rtrancl_refl
      have "descends ss a t" using step.hyps(1) by (simp add: descends_def)
      then obtain m where m: "m \<ge> n" "level ss m t" using descends_level step.prems(2) by blast
      with step.hyps(2) have "level ss (Suc m) u" by (auto intro: level.below)
      moreover have "level ss n u" using step.prems(3) rtrancl_refl by simp
      ultimately have "Suc m = n" using level_unique[OF _ ok] by blast
      with m(1) show ?thesis by simp
    next
      case (rtrancl_into_rtrancl v)
      have "v = t" using step.hyps(2) rtrancl_into_rtrancl(2) one_parent[OF ok] by blast
      with rtrancl_into_rtrancl(1) step.IH step.prems(2,3) show ?thesis by blast
    qed
  qed
qed

lemma preorder_spec:
  assumes "level ss n s" and "length ss \<le> n + fuel" and ok: "ok ss"
  shows "\<exists>out. preorder (kids ss) fuel n s = Some out \<and> distinct (map fst out)
    \<and> set (map fst out) = {t. descends ss s t} \<and> (\<forall>(t, d) \<in> set out. level ss d t)"
  using assms(1,2)
proof (induction fuel arbitrary: n s)
  case 0
  then show ?case using level_bound[OF ok, of n s] by simp
next
  case (Suc fuel)
  have s: "s \<in> set ss" using level_span[OF Suc.prems(1) ok] .
  have kl: "level ss (Suc n) k" if "k \<in> set (kids ss s)" for k using Suc.prems(1) that by (rule level.below)
  let ?o = "\<lambda>k. the (preorder (kids ss) fuel (Suc n) k)"
  have IH: "preorder (kids ss) fuel (Suc n) k = Some (?o k) \<and> distinct (map fst (?o k))
    \<and> set (map fst (?o k)) = {t. descends ss k t} \<and> (\<forall>(t, d) \<in> set (?o k). level ss d t)" if "k \<in> set (kids ss s)" for k
  proof -
    have l: "level ss (Suc n) k" using kl[OF that] .
    have "length ss \<le> Suc n + fuel" using Suc.prems(2) by simp
    with Suc.IH[OF l] show ?thesis by fastforce
  qed
  let ?out = "(s, n) # concat (map ?o (kids ss s))"
  have out: "preorder (kids ss) (Suc fuel) n s = Some ?out"
    using those_map_Some[of "kids ss s" "preorder (kids ss) fuel (Suc n)"] IH by (auto simp: comp_def)
  have fsts: "map fst ?out = s # concat (map (\<lambda>k. map fst (?o k)) (kids ss s))"
    by (simp add: map_concat comp_def)
  have apart: "s \<notin> {t. descends ss k t}" if "k \<in> set (kids ss s)" for k
    using descends_level[OF _ kl[OF that], of s] level_unique[OF Suc.prems(1) ok] by fastforce
  have disj: "{t. descends ss k t} \<inter> {t. descends ss j t} = {}" if "k \<in> set (kids ss s)" "j \<in> set (kids ss s)" "k \<noteq> j" for k j
    using that kl descends_unique[OF ok] by blast
  have "distinct (concat (map (\<lambda>k. map fst (?o k)) (kids ss s)))"
    by (rule distinct_concat_map[OF kids_distinct[OF ok s]]) (use IH disj in \<open>simp_all del: set_map\<close>)
  moreover have "s \<notin> set (concat (map (\<lambda>k. map fst (?o k)) (kids ss s)))"
  proof
    assume "s \<in> set (concat (map (\<lambda>k. map fst (?o k)) (kids ss s)))"
    then obtain k where k: "k \<in> set (kids ss s)" "s \<in> set (map fst (?o k))" by auto
    with IH[OF k(1)] apart[OF k(1)] show False by blast
  qed
  ultimately have "distinct (map fst ?out)" unfolding fsts by simp
  moreover have "set (map fst ?out) = {t. descends ss s t}"
    unfolding fsts using IH descends_step[OF s] by auto
  moreover have "\<forall>(t, d) \<in> set ?out. level ss d t" using IH Suc.prems(1) by auto
  ultimately show ?case using out by blast
qed

text \<open>A span is shown if its ancestors lead to a root.\<close>

lemma level_descends:
  assumes ok: "ok ss"
  shows "(\<exists>n. level ss n t) \<longleftrightarrow> (\<exists>r \<in> set (rs ss). descends ss r t)"
proof
  show "\<exists>n. level ss n t \<Longrightarrow> \<exists>r \<in> set (rs ss). descends ss r t"
  proof (elim exE)
    fix n assume "level ss n t"
    then show "\<exists>r \<in> set (rs ss). descends ss r t"
    proof (induction rule: level.induct)
      case (below n p t)
      then obtain r where "r \<in> set (rs ss)" "descends ss r p" by blast
      moreover have "p \<in> set ss \<and> t \<in> set (kids ss p)" using below.hyps level_span ok by blast
      ultimately show ?case unfolding descends_def by (blast intro: rtranclp.rtrancl_into_rtrancl)
    qed (auto simp: descends_def)
  qed
  show "\<exists>r \<in> set (rs ss). descends ss r t \<Longrightarrow> \<exists>n. level ss n t"
    using descends_level level.top by blast
qed

lemma preorder_all_spec:
  assumes ok: "ok ss" and fuel: "length ss \<le> fuel"
  shows "\<exists>out. preorder_all (kids ss) fuel (rs ss) = Some out \<and> distinct (map fst out)
    \<and> set (map fst out) = {t. \<exists>n. level ss n t} \<and> (\<forall>(t, d) \<in> set out. level ss d t)"
proof -
  let ?o = "\<lambda>k. the (preorder (kids ss) fuel 0 k)"
  have IH: "preorder (kids ss) fuel 0 k = Some (?o k) \<and> distinct (map fst (?o k))
    \<and> set (map fst (?o k)) = {t. descends ss k t} \<and> (\<forall>(t, d) \<in> set (?o k). level ss d t)" if "k \<in> set (rs ss)" for k
  proof -
    have l: "level ss 0 k" using level.top[OF that] .
    with preorder_spec[OF l _ ok] fuel show ?thesis by fastforce
  qed
  let ?out = "concat (map ?o (rs ss))"
  have out: "preorder_all (kids ss) fuel (rs ss) = Some ?out"
    unfolding preorder_all_def using those_map_Some[of "rs ss" "preorder (kids ss) fuel 0"] IH by auto
  have fsts: "map fst ?out = concat (map (\<lambda>k. map fst (?o k)) (rs ss))"
    by (simp add: map_concat comp_def)
  have "{t. descends ss k t} \<inter> {t. descends ss j t} = {}" if "k \<in> set (rs ss)" "j \<in> set (rs ss)" "k \<noteq> j" for k j
    using that level.top descends_unique[OF ok] by blast
  then have "distinct (map fst ?out)"
    unfolding fsts by (intro distinct_concat_map[OF roots_distinct[OF ok]]) (use IH in \<open>simp_all del: set_map\<close>)
  moreover have "set (map fst ?out) = {t. \<exists>r \<in> set (rs ss). descends ss r t}"
    unfolding fsts using IH by auto
  moreover have "\<forall>(t, d) \<in> set ?out. level ss d t" using IH by auto
  ultimately show ?thesis using out level_descends[OF ok] by simp
qed

end

section \<open>Spans with ids\<close>

text \<open>The grouping both implementations do: \<open>key\<close> is a span's id and \<open>par\<close> its parent's, \<open>none\<close> the
  value of \<open>par\<close> for a span that has no parent. Children are sorted by start time; Go's sort may
  order equal starts differently, which changes the order of the walk only.\<close>

definition is_child :: "('a \<Rightarrow> 'k) \<Rightarrow> ('a \<Rightarrow> 'k) \<Rightarrow> 'k \<Rightarrow> 'a list \<Rightarrow> 'a \<Rightarrow> bool" where
  "is_child key par none ss s \<longleftrightarrow> par s \<noteq> none \<and> par s \<in> key ` set ss"

definition trace_roots :: "('a \<Rightarrow> 'k) \<Rightarrow> ('a \<Rightarrow> 'k) \<Rightarrow> 'k \<Rightarrow> 'a list \<Rightarrow> 'a list" where
  "trace_roots key par none ss = filter (\<lambda>s. \<not> is_child key par none ss s) ss"

definition trace_kids :: "('a \<Rightarrow> 'k) \<Rightarrow> ('a \<Rightarrow> 'k) \<Rightarrow> 'k \<Rightarrow> ('a \<Rightarrow> int) \<Rightarrow> 'a list \<Rightarrow> 'a \<Rightarrow> 'a list" where
  "trace_kids key par none start ss p =
     sort_key start (filter (\<lambda>s. is_child key par none ss s \<and> par s = key p) ss)"

interpretation trace: span_forest "\<lambda>ss. distinct (map key ss)"
  "trace_kids key par none start" "trace_roots key par none"
proof
  fix ss :: "'a list" and p q t :: 'a
  assume "distinct (map key ss)"
  then have d: "distinct ss" and k: "inj_on key (set ss)" by (simp_all add: distinct_map)
  show "distinct (trace_kids key par none start ss p)" using d by (simp add: trace_kids_def)
  show "distinct (trace_roots key par none ss)" using d by (simp add: trace_roots_def)
  show "p = q" if "p \<in> set ss" "q \<in> set ss" "t \<in> set (trace_kids key par none start ss p)"
    "t \<in> set (trace_kids key par none start ss q)"
    using that k by (auto simp: trace_kids_def inj_on_def)
qed (auto simp: trace_kids_def trace_roots_def)

text \<open>When every parent ranks before its children (no two spans are each other's ancestors), every
  span's ancestors lead to a root.\<close>

lemma ranked_all_rooted:
  assumes "\<forall>p \<in> set ss. \<forall>s \<in> set ss. par s \<noteq> none \<and> par s = key p \<longrightarrow> (rank p :: int) < rank s"
    and "s \<in> set ss"
  shows "\<exists>n. span_forest.level (trace_kids key par none start) (trace_roots key par none) ss n s"
  using assms(2)
proof (induction "card {t \<in> set ss. rank t < rank s}" arbitrary: s rule: less_induct)
  case less
  show ?case
  proof (cases "is_child key par none ss s")
    case False
    then have "s \<in> set (trace_roots key par none ss)" using less.prems by (simp add: trace_roots_def)
    then show ?thesis by (intro exI) (rule trace.level.top)
  next
    case True
    then obtain p where p: "p \<in> set ss" "par s = key p" "par s \<noteq> none" by (auto simp: is_child_def)
    then have r: "rank p < rank s" using assms(1) less.prems by blast
    then have "{t \<in> set ss. rank t < rank p} \<subset> {t \<in> set ss. rank t < rank s}" using p(1) by force
    then have "card {t \<in> set ss. rank t < rank p} < card {t \<in> set ss. rank t < rank s}"
      by (intro psubset_card_mono) auto
    from less.hyps[OF this p(1)] obtain n where "span_forest.level (trace_kids key par none start) (trace_roots key par none) ss n p" by blast
    moreover have "s \<in> set (trace_kids key par none start ss p)"
      using True p less.prems by (simp add: trace_kids_def)
    ultimately show ?thesis by (intro exI) (rule trace.level.below)
  qed
qed

lemma trace_walk_complete:
  assumes "distinct (map key ss)"
    and "\<forall>p \<in> set ss. \<forall>s \<in> set ss. par s \<noteq> none \<and> par s = key p \<longrightarrow> (rank p :: int) < rank s"
    and "length ss \<le> fuel"
  shows "\<exists>out. preorder_all (trace_kids key par none start ss) fuel (trace_roots key par none ss) = Some out
    \<and> mset (map fst out) = mset ss"
proof -
  obtain out where out: "preorder_all (trace_kids key par none start ss) fuel (trace_roots key par none ss) = Some out"
    "distinct (map fst out)" "set (map fst out) = {t. \<exists>n. span_forest.level (trace_kids key par none start) (trace_roots key par none) ss n t}"
    using trace.preorder_all_spec[OF assms(1,3)] by blast
  have "{t. \<exists>n. span_forest.level (trace_kids key par none start) (trace_roots key par none) ss n t} = set ss"
    using trace.level_span[OF _ assms(1)] ranked_all_rooted[OF assms(2)] by blast
  moreover have "distinct ss" using assms(1) by (simp add: distinct_map)
  ultimately show ?thesis using out by (metis set_eq_iff_mset_eq_distinct)
qed

end
