(* ===== verification/Traces.thy ===== *)
theory Traces
imports Hex Fleet_Base Span_Forest "HOL-Library.AList" "HOL-Library.Multiset"
begin

text \<open>
  Distributed traces: contexts and spans (\<^verbatim>\<open>trace.go\<close>), the process's ring of recent spans and its
  trace view (\<^verbatim>\<open>dashboard.go\<close>), the records it reports (\<^verbatim>\<open>spans.go\<close>), and the fleet's store of
  spans, its polling cursor and the stitching of traces (\<^verbatim>\<open>fleet_traces.go\<close>).

  Times are nanoseconds, durations too; where Go turns a duration into milliseconds as a float, the
  model keeps the whole microseconds the float is made of. A zero time is \<^const>\<open>None\<close> where the
  code tests for it.
\<close>

section \<open>Contexts and spans\<close>

type_synonym bytes = "8 word list"

record trace_context =
  tc_trace :: bytes
  tc_span :: bytes
  tc_sampled :: bool

definition no_trace_id :: bytes where "no_trace_id = replicate 16 0"
definition no_span_id :: bytes where "no_span_id = replicate 8 0"

definition valid_context :: "trace_context \<Rightarrow> bool" where
  "valid_context tc \<longleftrightarrow> tc_trace tc \<noteq> no_trace_id"

definition traceparent :: "trace_context \<Rightarrow> string" where
  "traceparent tc = ''00-'' @ hex_encode (tc_trace tc) @ ''-'' @ hex_encode (tc_span tc) @ ''-''
     @ (if tc_sampled tc then ''01'' else ''00'')"

record span =
  sp_context :: trace_context
  sp_parent :: bytes
  sp_node :: string
  sp_kind :: string
  sp_name :: string
  sp_start :: int
  sp_dur :: int
  sp_err :: "string option"

text \<open>\<^verbatim>\<open>startSpan\<close>; \<open>new_trace\<close> and \<open>new_span\<close> are the random ids it draws.\<close>

definition start_span :: "bytes \<Rightarrow> bytes \<Rightarrow> int \<Rightarrow> string \<Rightarrow> string \<Rightarrow> string \<Rightarrow> trace_context \<Rightarrow> span" where
  "start_span new_trace new_span now node kind name parent =
     \<lparr>sp_context =
        (if valid_context parent
         then \<lparr>tc_trace = tc_trace parent, tc_span = new_span, tc_sampled = tc_sampled parent\<rparr>
         else \<lparr>tc_trace = new_trace, tc_span = new_span, tc_sampled = True\<rparr>),
      sp_parent = (if valid_context parent then tc_span parent else no_span_id),
      sp_node = node, sp_kind = kind, sp_name = name, sp_start = now, sp_dur = 0, sp_err = None\<rparr>"

definition finish_span :: "int \<Rightarrow> string option \<Rightarrow> span \<Rightarrow> span" where
  "finish_span now err s = s\<lparr>sp_dur := now - sp_start s, sp_err := err\<rparr>"

section \<open>The process's ring\<close>

record trace_ring =
  tr_spans :: "span list"
  tr_next :: nat
  tr_cap :: nat

definition new_trace_ring :: "nat \<Rightarrow> trace_ring" where
  "new_trace_ring capacity = \<lparr>tr_spans = [], tr_next = 0, tr_cap = capacity\<rparr>"

definition ring_export :: "span \<Rightarrow> trace_ring \<Rightarrow> trace_ring" where
  "ring_export s r =
     (if length (tr_spans r) < tr_cap r then r\<lparr>tr_spans := tr_spans r @ [s]\<rparr>
      else r\<lparr>tr_spans := (tr_spans r)[tr_next r := s], tr_next := (tr_next r + 1) mod tr_cap r\<rparr>)"

section \<open>Span records\<close>

record span_record =
  sr_trace :: string
  sr_id :: string
  sr_parent :: string
  sr_node :: string
  sr_kind :: string
  sr_name :: string
  sr_start :: int
  sr_us :: int
  sr_err :: string
  sr_process :: string

definition microseconds :: "int \<Rightarrow> int" where
  "microseconds d = (if d < 0 then - (- d div 1000) else d div 1000)"

definition span_record_of :: "span \<Rightarrow> span_record" where
  "span_record_of s =
     \<lparr>sr_trace = hex_encode (tc_trace (sp_context s)), sr_id = hex_encode (tc_span (sp_context s)),
      sr_parent = (if sp_parent s \<noteq> no_span_id then hex_encode (sp_parent s) else []),
      sr_node = sp_node s, sr_kind = sp_kind s, sr_name = sp_name s, sr_start = sp_start s,
      sr_us = microseconds (sp_dur s), sr_err = (case sp_err s of None \<Rightarrow> [] | Some e \<Rightarrow> e), sr_process = []\<rparr>"

definition last_n :: "nat \<Rightarrow> 'a list \<Rightarrow> 'a list" where
  "last_n n xs = drop (length xs - n) xs"

definition after_cursor :: "int option \<Rightarrow> int \<Rightarrow> bool" where
  "after_cursor since t = (case since of None \<Rightarrow> True | Some c \<Rightarrow> t > c)"

definition ring_records :: "int option \<Rightarrow> int \<Rightarrow> trace_ring \<Rightarrow> span_record list" where
  "ring_records since limit r =
     (let out = sort_key sr_start (map span_record_of (filter (\<lambda>s. after_cursor since (sp_start s)) (tr_spans r)))
      in if limit > 0 \<and> int (length out) > limit then last_n (nat limit) out else out)"

section \<open>The process's trace view\<close>

record span_view =
  sv_id :: string
  sv_parent :: string
  sv_node :: string
  sv_kind :: string
  sv_name :: string
  sv_offset_us :: int
  sv_us :: int
  sv_err :: string
  sv_depth :: nat

definition span_view_of :: "int \<Rightarrow> span \<times> nat \<Rightarrow> span_view" where
  "span_view_of start = (\<lambda>(s, depth).
     \<lparr>sv_id = hex_encode (tc_span (sp_context s)), sv_parent = hex_encode (sp_parent s), sv_node = sp_node s,
      sv_kind = sp_kind s, sv_name = sp_name s, sv_offset_us = microseconds (sp_start s - start),
      sv_us = microseconds (sp_dur s), sv_err = (case sp_err s of None \<Rightarrow> [] | Some e \<Rightarrow> e), sv_depth = depth\<rparr>)"

definition span_key :: "span \<Rightarrow> bytes" where "span_key s = tc_span (sp_context s)"

definition order_spans :: "nat \<Rightarrow> span list \<Rightarrow> int \<Rightarrow> span_view list option" where
  "order_spans fuel ss start =
     map_option (map (span_view_of start))
       (preorder_all (trace_kids span_key sp_parent no_span_id sp_start ss) fuel
         (trace_roots span_key sp_parent no_span_id ss))"

record trace_view =
  tv_id :: string
  tv_start :: int
  tv_us :: int
  tv_spans :: "span_view list"

text \<open>The end of a trace: the latest end of its spans, and its start when none ends later.\<close>

definition trace_end :: "('a \<Rightarrow> int) \<Rightarrow> int \<Rightarrow> 'a list \<Rightarrow> int" where
  "trace_end fin start ss = foldl (\<lambda>e s. if fin s > e then fin s else e) start ss"

definition group_by :: "('a \<Rightarrow> string) \<Rightarrow> 'a list \<Rightarrow> (string \<times> 'a list) list" where
  "group_by k ss = map (\<lambda>t. (t, filter (\<lambda>s. k s = t) ss)) (remdups (map k ss))"

text \<open>One group of \<^verbatim>\<open>traceRing.traces\<close>. A group is never empty.\<close>

definition ring_trace :: "string \<times> span list \<Rightarrow> trace_view option" where
  "ring_trace = (\<lambda>(t, grp).
     (let ss = sort_key sp_start grp; start = sp_start (hd ss)
      in map_option (\<lambda>views. \<lparr>tv_id = t, tv_start = start,
             tv_us = microseconds (trace_end (\<lambda>s. sp_start s + sp_dur s) start ss - start), tv_spans = views\<rparr>)
           (order_spans (length ss) ss start)))"

definition ring_traces :: "nat \<Rightarrow> trace_ring \<Rightarrow> trace_view list option" where
  "ring_traces limit r =
     map_option (\<lambda>out. take limit (sort_key (\<lambda>t. - tv_start t) out))
       (those (map ring_trace (group_by (\<lambda>s. hex_encode (tc_trace (sp_context s))) (tr_spans r))))"

section \<open>The fleet's store\<close>

record trace_store =
  ts_spans :: "span_record list"
  ts_next :: nat
  ts_cap :: nat
  ts_cursor :: "string \<Rightarrow> int option"
  ts_recording :: "(string \<times> bool) list"

definition new_trace_store :: "nat \<Rightarrow> trace_store" where
  "new_trace_store capacity = \<lparr>ts_spans = [], ts_next = 0, ts_cap = capacity, ts_cursor = (\<lambda>_. None), ts_recording = []\<rparr>"

definition store_put :: "span_record \<Rightarrow> trace_store \<Rightarrow> trace_store" where
  "store_put r s =
     (if length (ts_spans s) < ts_cap s then s\<lparr>ts_spans := ts_spans s @ [r]\<rparr>
      else s\<lparr>ts_spans := (ts_spans s)[ts_next s := r], ts_next := (ts_next s + 1) mod ts_cap s\<rparr>)"

definition store_add :: "span_record list \<Rightarrow> trace_store \<Rightarrow> trace_store" where
  "store_add rs s = fold store_put rs s"

definition advance_one :: "string \<Rightarrow> span_record \<Rightarrow> trace_store \<Rightarrow> trace_store" where
  "advance_one process r s =
     (if after_cursor (ts_cursor s process) (sr_start r)
      then s\<lparr>ts_cursor := (ts_cursor s)(process := Some (sr_start r))\<rparr> else s)"

definition store_advance :: "string \<Rightarrow> span_record list \<Rightarrow> bool \<Rightarrow> trace_store \<Rightarrow> trace_store" where
  "store_advance process rs tracing s =
     fold (advance_one process) rs (s\<lparr>ts_recording := AList.update process tracing (ts_recording s)\<rparr>)"

text \<open>One successful poll of a process: the query with the cursor, the answer, and what the
  collector does with it.\<close>

definition collect_spans :: "peer \<Rightarrow> int \<Rightarrow> trace_ring option \<Rightarrow> trace_store \<Rightarrow> trace_store" where
  "collect_spans p limit ring s =
     (let label = process_label p;
          body = (case ring of None \<Rightarrow> [] | Some r \<Rightarrow> ring_records (ts_cursor s label) limit r);
          rs = map (\<lambda>r. r\<lparr>sr_process := label\<rparr>) body
      in store_advance label rs (ring \<noteq> None) (store_add rs s))"

section \<open>Stitching\<close>

record fleet_span =
  fs_record :: span_record
  fs_depth :: nat
  fs_offset_us :: int
  fs_handover :: bool
  fs_orphan :: bool

text \<open>\<open>byID\<close> keeps the last span of an id.\<close>

definition by_id :: "span_record list \<Rightarrow> string \<Rightarrow> span_record option" where
  "by_id ss i = map_of (map (\<lambda>s. (sr_id s, s)) (rev ss)) i"

definition fleet_span_of :: "span_record list \<Rightarrow> int \<Rightarrow> span_record \<times> nat \<Rightarrow> fleet_span" where
  "fleet_span_of ss start = (\<lambda>(s, depth).
     \<lparr>fs_record = s, fs_depth = depth,
      fs_offset_us = (let o1 = microseconds (sr_start s - start) in if o1 < 0 then 0 else o1),
      fs_handover = (case by_id ss (sr_parent s) of None \<Rightarrow> False | Some p \<Rightarrow> sr_process p \<noteq> sr_process s),
      fs_orphan = (by_id ss (sr_parent s) = None \<and> sr_parent s \<noteq> [])\<rparr>)"

definition note_skew :: "span_record list \<Rightarrow> span_record \<Rightarrow> (string \<times> int) list \<Rightarrow> (string \<times> int) list" where
  "note_skew ss s skew =
     (case by_id ss (sr_parent s) of
        None \<Rightarrow> skew
      | Some p \<Rightarrow>
          (if sr_process p \<noteq> sr_process s \<and> sr_start s < sr_start p
           then let pair = sr_process p @ '' and '' @ sr_process s; d = sr_start p - sr_start s
                in if d > (case map_of skew pair of None \<Rightarrow> 0 | Some x \<Rightarrow> x) then AList.update pair d skew else skew
           else skew))"

record fleet_trace =
  ft_id :: string
  ft_start :: int
  ft_us :: int
  ft_processes :: "string list"
  ft_crosses :: bool
  ft_spans :: "fleet_span list"

definition stitch :: "nat \<Rightarrow> string \<Rightarrow> span_record list \<Rightarrow> (string \<times> int) list \<Rightarrow> (fleet_trace \<times> (string \<times> int) list) option" where
  "stitch fuel t grp skew =
     (let ss = sort_key sr_start grp;
          start = sr_start (hd ss);
          fin = trace_end (\<lambda>s. sr_start s + sr_us s * 1000) start ss;
          procs = sort (filter (\<lambda>p. p \<noteq> []) (remdups (map sr_process ss)))
      in map_option (\<lambda>walked.
           (\<lparr>ft_id = t, ft_start = start, ft_us = microseconds (fin - start), ft_processes = procs,
             ft_crosses = (length procs > 1), ft_spans = map (fleet_span_of ss start) walked\<rparr>,
            fold (\<lambda>(s, _). note_skew ss s) walked skew))
         (preorder_all (trace_kids sr_id sr_parent [] sr_start ss) fuel (trace_roots sr_id sr_parent [] ss)))"

fun stitch_all :: "(string \<times> span_record list) list \<Rightarrow> (string \<times> int) list \<Rightarrow> (fleet_trace list \<times> (string \<times> int) list) option" where
  "stitch_all [] skew = Some ([], skew)"
| "stitch_all ((t, grp) # gs) skew =
     Option.bind (stitch (length grp) t grp skew) (\<lambda>(x, skew).
     map_option (\<lambda>(xs, skew). (x # xs, skew)) (stitch_all gs skew))"

text \<open>\<^verbatim>\<open>Duration.Round\<close> to milliseconds, for a positive duration.\<close>

definition round_ms :: "int \<Rightarrow> int" where
  "round_ms d = (d + 500000) div 1000000 * 1000000"

definition skew_finding :: "string \<times> int \<Rightarrow> finding" where
  "skew_finding = (\<lambda>(pair, d). \<lparr>fd_severity = ''warning'', fd_code = ''FLEET07'',
     fd_msg = Errorf ''spans from %s start up to %s before the parent that caused them: those clocks disagree''
       [GStr pair, GInt (round_ms d)]\<rparr>)"

record traces_response =
  rs_traces :: "fleet_trace list"
  rs_recording :: "string list"
  rs_silent :: "string list"
  rs_findings :: "finding list"

definition sort_traces :: "fleet_trace list \<Rightarrow> fleet_trace list" where
  "sort_traces ts = sort_key (\<lambda>t. if ft_crosses t then 0 else 1 :: nat) (sort_key (\<lambda>t. - ft_start t) ts)"

definition store_traces :: "int \<Rightarrow> trace_store \<Rightarrow> traces_response option" where
  "store_traces limit s =
     map_option (\<lambda>(ts, skew).
       \<lparr>rs_traces = (let out = sort_traces ts in if limit > 0 \<and> int (length out) > limit then take (nat limit) out else out),
        rs_recording = sort (map fst (filter snd (ts_recording s))),
        rs_silent = sort (map fst (filter (\<lambda>x. \<not> snd x) (ts_recording s))),
        rs_findings = sort_findings (map skew_finding (filter (\<lambda>(_, d). d > 1000000) skew))\<rparr>)
     (stitch_all (group_by sr_trace (ts_spans s)) [])"

section \<open>Both rings keep the latest\<close>

text \<open>\<^verbatim>\<open>traceRing.Export\<close> and \<^verbatim>\<open>traceStore.add\<close> are one data structure written twice: a slice
  that grows to its capacity and is then overwritten at a cursor that wraps around. The locale states
  that, and that such a slice holds the last \<open>cap\<close> items, in some rotation.\<close>

locale ring_buffer =
  fixes put :: "'x \<Rightarrow> 's \<Rightarrow> 's" and items :: "'s \<Rightarrow> 'x list" and nxt :: "'s \<Rightarrow> nat" and cap :: "'s \<Rightarrow> nat"
  assumes put_grow: "length (items s) < cap s \<Longrightarrow> items (put x s) = items s @ [x] \<and> nxt (put x s) = nxt s"
    and put_wrap: "cap s \<le> length (items s) \<Longrightarrow> items (put x s) = (items s)[nxt s := x] \<and> nxt (put x s) = (nxt s + 1) mod cap s"
    and cap_put: "cap (put x s) = cap s"
begin

definition inv :: "'s \<Rightarrow> bool" where
  "inv s \<longleftrightarrow> length (items s) \<le> cap s \<and> nxt s < cap s \<and> (length (items s) < cap s \<longrightarrow> nxt s = 0)"

definition view :: "'s \<Rightarrow> 'x list" where "view s = drop (nxt s) (items s) @ take (nxt s) (items s)"

lemma mset_view: "mset (view s) = mset (items s)"
  unfolding view_def by (metis add.commute append_take_drop_id mset_append)

lemma inv_put: "inv s \<Longrightarrow> inv (put x s)"
  using put_grow[of s x] put_wrap[of s x] cap_put[of x s]
  by (cases "length (items s) < cap s") (auto simp: inv_def)

lemma view_put: "inv s \<Longrightarrow> view (put x s) = last_n (cap s) (view s @ [x])"
proof (cases "length (items s) < cap s")
  case True
  assume "inv s"
  with True put_grow[OF True, of x] show ?thesis by (simp add: inv_def view_def last_n_def)
next
  case False
  assume i: "inv s"
  then have len: "length (items s) = cap s" "nxt s < cap s" using False by (auto simp: inv_def)
  have v: "last_n (cap s) (view s @ [x]) = drop (Suc (nxt s)) (items s) @ take (nxt s) (items s) @ [x]"
    using len by (simp add: last_n_def view_def)
  have p: "items (put x s) = (items s)[nxt s := x]" "nxt (put x s) = (nxt s + 1) mod cap s"
    using put_wrap[of s x] False by auto
  show ?thesis
  proof (cases "Suc (nxt s) = cap s")
    case True
    with len p show ?thesis unfolding v by (simp add: view_def upd_conv_take_nth_drop)
  next
    case False
    then have "nxt (put x s) = Suc (nxt s)" using p len by simp
    moreover have "take (Suc (nxt s)) ((items s)[nxt s := x]) = take (nxt s) (items s) @ [x]"
      using len by (subst take_Suc_conv_app_nth) auto
    ultimately show ?thesis using len p unfolding v by (simp add: view_def)
  qed
qed

lemma last_n_last_n: "last_n n (last_n n xs @ ys) = last_n n (xs @ ys)"
proof (cases "length xs \<le> n")
  case False
  then have "length xs + length ys - (length xs - n + n) + (length xs - n) = length xs + length ys - n" by simp
  then show ?thesis using False by (simp add: last_n_def)
qed (simp add: last_n_def)

lemma view_fold: "inv s \<Longrightarrow> inv (fold put xs s) \<and> cap (fold put xs s) = cap s
    \<and> (view s = last_n (cap s) (view s) \<longrightarrow> view (fold put xs s) = last_n (cap s) (view s @ xs))"
proof (induction xs arbitrary: s)
  case (Cons x xs)
  have "view (put x s) = last_n (cap (put x s)) (view (put x s))"
    using view_put[OF Cons.prems] last_n_last_n[of "cap s" "view s @ [x]" "[]"] by (simp add: cap_put)
  with Cons.IH[OF inv_put[OF Cons.prems], of x] show ?case
    using view_put[OF Cons.prems] last_n_last_n[of "cap s" "view s @ [x]" xs] by (simp add: cap_put)
qed simp

lemma fold_from_empty:
  assumes "items s = []" "nxt s = 0" "0 < cap s"
  shows "mset (items (fold put xs s)) = mset (last_n (cap s) xs)"
proof -
  have i: "inv s" and v: "view s = []" using assms by (simp_all add: inv_def view_def)
  then have "view (fold put xs s) = last_n (cap s) xs" using view_fold[OF i, of xs] by (simp add: last_n_def)
  then show ?thesis using mset_view by metis
qed

lemma put_mset_le: "mset (items (put x s)) \<subseteq># add_mset x (mset (items s))"
proof (cases "length (items s) < cap s")
  case False
  with put_wrap[of s x] show ?thesis
    by (cases "nxt s < length (items s)")
      (auto simp: mset_update list_update_beyond subset_eq_diff_conv intro: subset_mset.order_trans)
qed (use put_grow[of s x] in auto)

lemma fold_mset_le: "mset (items (fold put xs s)) \<subseteq># mset (items s) + mset xs"
proof (induction xs arbitrary: s)
  case (Cons x xs)
  have "mset (items (fold put xs (put x s))) \<subseteq># mset (items (put x s)) + mset xs" by (rule Cons.IH)
  also have "\<dots> \<subseteq># add_mset x (mset (items s)) + mset xs" using put_mset_le by (rule subset_mset.add_right_mono)
  finally show ?case by simp
qed simp

end

interpretation ring: ring_buffer ring_export tr_spans tr_next tr_cap
  by unfold_locales (auto simp: ring_export_def)

interpretation store: ring_buffer store_put ts_spans ts_next ts_cap
  by unfold_locales (auto simp: store_put_def)

text \<open>The fleet's store is bounded and keeps the latest: whatever is added to a fresh store, it
  holds exactly the last \<open>capacity\<close> records of what was added.
\<close>
theorem store_keeps_latest:
  assumes "0 < capacity"
  shows "mset (ts_spans (store_add rs (new_trace_store capacity))) = mset (last_n capacity rs)"
  using store.fold_from_empty[of "new_trace_store capacity" rs] assms
  by (simp add: store_add_def new_trace_store_def)

section \<open>Stitching shows every span\<close>

lemma mset_walk:
  "preorder_all (trace_kids sr_id sr_parent [] sr_start (sort_key sr_start g)) n
     (trace_roots sr_id sr_parent [] (sort_key sr_start g)) = Some out \<Longrightarrow>
   \<exists>tr sk. stitch n t g skew = Some (tr, sk) \<and> map fs_record (ft_spans tr) = map fst out
     \<and> ft_spans tr = map (fleet_span_of (sort_key sr_start g) (sr_start (hd (sort_key sr_start g)))) out"
  by (auto simp: stitch_def Let_def fleet_span_of_def comp_def case_prod_beta)

lemma by_id_distinct: "distinct (map sr_id ss) \<Longrightarrow> by_id ss i = Some p \<longleftrightarrow> p \<in> set ss \<and> sr_id p = i"
  unfolding by_id_def by (subst map_of_eq_Some_iff) (auto simp: comp_def rev_map[symmetric])

lemma by_id_None: "by_id ss i = None \<longleftrightarrow> i \<notin> sr_id ` set ss"
  by (simp add: by_id_def map_of_eq_None_iff image_image)

text \<open>C30. Stitching ends and shows every span of a trace exactly once, whichever processes recorded
  them, when span ids are distinct and a span's parent is not among its descendants. A span is
  marked a handover exactly when its parent is in the trace and ran in another process, and an
  orphan exactly when it names a parent that is not there.
\<close>
theorem stitch_complete:
  assumes "distinct (map sr_id g)"
    and "\<forall>p \<in> set g. \<forall>s \<in> set g. sr_parent s \<noteq> [] \<and> sr_parent s = sr_id p \<longrightarrow> (rank p :: int) < rank s"
  shows "\<exists>tr sk. stitch (length g) t g skew = Some (tr, sk) \<and> mset (map fs_record (ft_spans tr)) = mset g
    \<and> (\<forall>v \<in> set (ft_spans tr).
         (fs_handover v \<longleftrightarrow> (\<exists>p \<in> set g. sr_id p = sr_parent (fs_record v) \<and> sr_process p \<noteq> sr_process (fs_record v)))
       \<and> (fs_orphan v \<longleftrightarrow> sr_parent (fs_record v) \<noteq> [] \<and> sr_parent (fs_record v) \<notin> sr_id ` set g))"
proof -
  let ?ss = "sort_key sr_start g"
  have d: "distinct (map sr_id ?ss)" using assms(1)
    by (metis (no_types) mset_map mset_sort mset_eq_imp_distinct_iff)
  obtain out where out: "preorder_all (trace_kids sr_id sr_parent [] sr_start ?ss) (length g) (trace_roots sr_id sr_parent [] ?ss) = Some out"
    "mset (map fst out) = mset ?ss"
    using trace_walk_complete[OF d, of sr_parent "[]" rank "length g" sr_start] assms(2) by auto
  from mset_walk[OF out(1)] obtain tr sk where st: "stitch (length g) t g skew = Some (tr, sk)"
    "map fs_record (ft_spans tr) = map fst out"
    "ft_spans tr = map (fleet_span_of ?ss (sr_start (hd ?ss))) out" by blast
  have "(fs_handover v \<longleftrightarrow> (\<exists>p \<in> set g. sr_id p = sr_parent (fs_record v) \<and> sr_process p \<noteq> sr_process (fs_record v)))
      \<and> (fs_orphan v \<longleftrightarrow> sr_parent (fs_record v) \<noteq> [] \<and> sr_parent (fs_record v) \<notin> sr_id ` set g)"
    if "v \<in> set (ft_spans tr)" for v
  proof -
    from that st(3) obtain s n where v: "v = fleet_span_of ?ss (sr_start (hd ?ss)) (s, n)" by auto
    have "(case by_id ?ss (sr_parent s) of None \<Rightarrow> False | Some p \<Rightarrow> sr_process p \<noteq> sr_process s)
      \<longleftrightarrow> (\<exists>p \<in> set g. sr_id p = sr_parent s \<and> sr_process p \<noteq> sr_process s)"
    proof (cases "by_id ?ss (sr_parent s)")
      case None
      with by_id_None[of ?ss "sr_parent s"] show ?thesis by force
    next
      case (Some a)
      then have "p = a \<longleftrightarrow> p \<in> set g \<and> sr_id p = sr_parent s" for p
        using by_id_distinct[OF d, of "sr_parent s" p] by auto
      then have "a \<in> set g" "sr_id a = sr_parent s" "\<And>p. p \<in> set g \<Longrightarrow> sr_id p = sr_parent s \<Longrightarrow> p = a" by blast+
      then show ?thesis unfolding Some option.case by blast
    qed
    then show ?thesis using by_id_None[of ?ss "sr_parent s"] by (auto simp: v fleet_span_of_def Let_def)
  qed
  moreover have "mset (map fs_record (ft_spans tr)) = mset g" using out(2) unfolding st(2) by simp
  ultimately show ?thesis using st(1) by blast
qed

definition example_span :: "string \<Rightarrow> string \<Rightarrow> string \<Rightarrow> int \<Rightarrow> span_record" where
  "example_span i par proc t = \<lparr>sr_trace = ''t'', sr_id = i, sr_parent = par, sr_node = ''n'', sr_kind = ''timer'',
     sr_name = ''/x'', sr_start = t, sr_us = 5, sr_err = [], sr_process = proc\<rparr>"

lemma store_keeps_latest_witness:
  "mset (ts_spans (store_add [example_span ''a'' [] ''p'' 1, example_span ''b'' [] ''p'' 2, example_span ''c'' [] ''p'' 3]
     (new_trace_store 2))) = {#example_span ''b'' [] ''p'' 2, example_span ''c'' [] ''p'' 3#}"
  using store_keeps_latest[of 2 "[example_span ''a'' [] ''p'' 1, example_span ''b'' [] ''p'' 2, example_span ''c'' [] ''p'' 3]"]
  by (simp add: last_n_def)

lemma stitch_complete_witness:
  "\<exists>tr sk. stitch 2 ''t'' [example_span ''b'' ''a'' ''q'' 1, example_span ''a'' [] ''p'' 2] [] = Some (tr, sk)
     \<and> mset (map fs_record (ft_spans tr)) = {#example_span ''b'' ''a'' ''q'' 1, example_span ''a'' [] ''p'' 2#}"
proof -
  let ?g = "[example_span ''b'' ''a'' ''q'' 1, example_span ''a'' [] ''p'' 2]"
  have "distinct (map sr_id ?g)"
    and "\<forall>p \<in> set ?g. \<forall>s \<in> set ?g. sr_parent s \<noteq> [] \<and> sr_parent s = sr_id p \<longrightarrow> - sr_start p < - sr_start s"
    by (simp_all add: example_span_def)
  from stitch_complete[OF this, of "''t''" "[]"]
  obtain tr sk where "stitch (length ?g) ''t'' ?g [] = Some (tr, sk)" "mset (map fs_record (ft_spans tr)) = mset ?g" by blast
  then show ?thesis by (intro exI[of _ tr] exI[of _ sk]) (simp add: numeral_2_eq_2)
qed

section \<open>Polling a process\<close>

lemma advance_rings [simp]:
  "ts_spans (store_advance p rs b s) = ts_spans s \<and> ts_next (store_advance p rs b s) = ts_next s
   \<and> ts_cap (store_advance p rs b s) = ts_cap s"
proof -
  have "ts_spans (fold (advance_one p) rs s) = ts_spans s \<and> ts_next (fold (advance_one p) rs s) = ts_next s
    \<and> ts_cap (fold (advance_one p) rs s) = ts_cap s" for s
    by (induction rs arbitrary: s) (auto simp: advance_one_def)
  then show ?thesis by (simp add: store_advance_def)
qed

definition covers :: "int option \<Rightarrow> int \<Rightarrow> bool" where "covers c t \<longleftrightarrow> \<not> after_cursor c t"

lemma advance_cursor:
  "(q \<noteq> p \<longrightarrow> ts_cursor (store_advance p rs b s) q = ts_cursor s q)
   \<and> (covers (ts_cursor s p) t \<or> (\<exists>r \<in> set rs. sr_start r = t) \<longrightarrow> covers (ts_cursor (store_advance p rs b s) p) t)"
proof -
  have "(q \<noteq> p \<longrightarrow> ts_cursor (fold (advance_one p) rs s) q = ts_cursor s q)
   \<and> (covers (ts_cursor s p) t \<or> (\<exists>r \<in> set rs. sr_start r = t) \<longrightarrow> covers (ts_cursor (fold (advance_one p) rs s) p) t)" for s
  proof (induction rs arbitrary: s)
    case (Cons r rs)
    have "covers (ts_cursor s p) t \<or> sr_start r = t \<Longrightarrow> covers (ts_cursor (advance_one p r s) p) t"
      by (auto simp: advance_one_def covers_def after_cursor_def split: option.splits)
    moreover have "q \<noteq> p \<Longrightarrow> ts_cursor (advance_one p r s) q = ts_cursor s q" by (simp add: advance_one_def)
    ultimately show ?case using Cons.IH[of "advance_one p r s"] by auto
  qed simp
  then show ?thesis unfolding store_advance_def by (metis trace_store.select_convs(4) trace_store.surjective trace_store.update_convs(5))
qed

lemma store_add_cursor [simp]: "ts_cursor (store_add rs s) = ts_cursor s"
  by (induction rs arbitrary: s) (auto simp: store_add_def store_put_def)

lemma set_last_n: "set (last_n n xs) \<subseteq> set xs"
  by (simp add: last_n_def set_drop_subset)

lemma ring_records_after:
  "x \<in> set (ring_records since limit r) \<Longrightarrow> after_cursor since (sr_start x) \<and> x \<in> span_record_of ` set (tr_spans r)"
proof -
  let ?out = "sort_key sr_start (map span_record_of (filter (\<lambda>s. after_cursor since (sp_start s)) (tr_spans r)))"
  assume "x \<in> set (ring_records since limit r)"
  then have "x \<in> set ?out" using set_last_n[of "nat limit" ?out] by (auto simp: ring_records_def Let_def split: if_splits)
  then show ?thesis by (auto simp: span_record_of_def)
qed

lemma ring_records_distinct: "distinct (map span_record_of (tr_spans r)) \<Longrightarrow> distinct (ring_records since limit r)"
  by (simp add: ring_records_def Let_def last_n_def distinct_map_filter)

definition polled :: "peer \<Rightarrow> int \<Rightarrow> trace_ring option \<Rightarrow> trace_store \<Rightarrow> span_record list" where
  "polled p limit ring s =
     map (\<lambda>r. r\<lparr>sr_process := process_label p\<rparr>)
       (case ring of None \<Rightarrow> [] | Some r \<Rightarrow> ring_records (ts_cursor s (process_label p)) limit r)"

lemma collect_polled:
  "ts_spans (collect_spans p limit ring s) = ts_spans (store_add (polled p limit ring s) s)"
  "q \<noteq> process_label p \<Longrightarrow> ts_cursor (collect_spans p limit ring s) q = ts_cursor s q"
  "covers (ts_cursor s (process_label p)) t \<Longrightarrow> covers (ts_cursor (collect_spans p limit ring s) (process_label p)) t"
  "x \<in> set (polled p limit ring s) \<Longrightarrow> covers (ts_cursor (collect_spans p limit ring s) (process_label p)) (sr_start x)"
  unfolding collect_spans_def polled_def[symmetric] Let_def
  by (simp_all add: advance_cursor) (metis advance_cursor)

lemma polled_new:
  "x \<in> set (polled p limit ring s) \<Longrightarrow> sr_process x = process_label p \<and> \<not> covers (ts_cursor s (process_label p)) (sr_start x)"
  by (auto simp: polled_def covers_def dest: ring_records_after split: option.splits)

text \<open>A process \<open>p\<close> and its collector. The process finishes spans, the collector polls it, and polls
  other processes; a poll that fails changes nothing.\<close>

inductive poll_step :: "peer \<Rightarrow> int \<Rightarrow> trace_ring \<times> trace_store \<Rightarrow> trace_ring \<times> trace_store \<Rightarrow> bool" for p limit where
  finish: "span_record_of s \<notin> span_record_of ` set (tr_spans r) \<Longrightarrow> poll_step p limit (r, st) (ring_export s r, st)"
| poll: "poll_step p limit (r, st) (r, collect_spans p limit (Some r) st)"
| other: "process_label q \<noteq> process_label p \<Longrightarrow> poll_step p limit (r, st) (r, collect_spans q limit ring st)"

inductive polls :: "peer \<Rightarrow> int \<Rightarrow> trace_ring \<times> trace_store \<Rightarrow> trace_ring \<times> trace_store \<Rightarrow> bool" for p limit c where
  start: "polls p limit c c"
| more: "polls p limit c c' \<Longrightarrow> poll_step p limit c' c'' \<Longrightarrow> polls p limit c c''"

lemma polled_distinct: "distinct (map span_record_of (tr_spans r)) \<Longrightarrow> distinct (polled p limit (Some r) s)"
proof -
  assume "distinct (map span_record_of (tr_spans r))"
  moreover have "inj_on (\<lambda>r. r\<lparr>sr_process := process_label p\<rparr>) (set (ring_records since limit r))" for since
  proof (rule inj_onI)
    fix x y assume "x \<in> set (ring_records since limit r)" "y \<in> set (ring_records since limit r)"
      and eq: "x\<lparr>sr_process := process_label p\<rparr> = y\<lparr>sr_process := process_label p\<rparr>"
    then have "sr_process x = []" "sr_process y = []" by (auto dest!: ring_records_after simp: span_record_of_def)
    with eq show "x = y" by (cases x; cases y) simp
  qed
  ultimately show ?thesis by (simp add: polled_def distinct_map ring_records_distinct)
qed

lemma store_add_count:
  "count (mset (ts_spans (store_add rs s))) x \<le> count (mset (ts_spans s)) x + count (mset rs) x"
  using mset_subset_eq_count[OF store.fold_mset_le[of rs s]] by (simp add: store_add_def)

definition poll_inv :: "peer \<Rightarrow> trace_ring \<times> trace_store \<Rightarrow> bool" where
  "poll_inv p = (\<lambda>(r, st). distinct (map span_record_of (tr_spans r))
     \<and> (\<forall>x. sr_process x = process_label p \<longrightarrow> count (mset (ts_spans st)) x \<le> 1
          \<and> (x \<in> set (ts_spans st) \<longrightarrow> covers (ts_cursor st (process_label p)) (sr_start x))))"

lemma polled_in_store: "x \<in> set (ts_spans (collect_spans q limit ring s)) \<Longrightarrow> x \<in> set (ts_spans s) \<or> x \<in> set (polled q limit ring s)"
  using set_mset_mono[OF store.fold_mset_le[of "polled q limit ring s" s]] by (auto simp: collect_polled store_add_def)

lemma poll_step_inv: "poll_step p limit c c' \<Longrightarrow> poll_inv p c \<Longrightarrow> poll_inv p c'"
proof (induction rule: poll_step.induct)
  case (finish s r st)
  have "map span_record_of (tr_spans (ring_export s r)) = map span_record_of (tr_spans r) @ [span_record_of s]
    \<or> map span_record_of (tr_spans (ring_export s r)) = (map span_record_of (tr_spans r))[tr_next r := span_record_of s]"
    by (simp add: ring_export_def map_update)
  moreover have "distinct (map span_record_of (tr_spans r))" "span_record_of s \<notin> set (map span_record_of (tr_spans r))"
    using finish by (auto simp: poll_inv_def)
  ultimately have "distinct (map span_record_of (tr_spans (ring_export s r)))"
    using distinct_list_update[of "map span_record_of (tr_spans r)" "span_record_of s" "tr_next r"] by force
  with finish show ?case by (simp add: poll_inv_def)
next
  case (poll r st)
  have "count (mset (ts_spans (collect_spans p limit (Some r) st))) x \<le> 1
    \<and> (x \<in> set (ts_spans (collect_spans p limit (Some r) st)) \<longrightarrow> covers (ts_cursor (collect_spans p limit (Some r) st) (process_label p)) (sr_start x))"
    if "sr_process x = process_label p" for x
  proof -
    have new: "count (mset (polled p limit (Some r) st)) x \<le> 1"
      using polled_distinct poll by (simp add: poll_inv_def distinct_count_atmost_1)
    have "count (mset (ts_spans (collect_spans p limit (Some r) st))) x \<le> count (mset (ts_spans st)) x + count (mset (polled p limit (Some r) st)) x"
      using store_add_count by (simp add: collect_polled)
    moreover have "count (mset (ts_spans st)) x \<le> 1" using poll that by (simp add: poll_inv_def)
    moreover have "x \<in> set (ts_spans st) \<Longrightarrow> x \<notin> set (polled p limit (Some r) st)"
      using poll that polled_new by (fastforce simp: poll_inv_def)
    ultimately have "count (mset (ts_spans (collect_spans p limit (Some r) st))) x \<le> 1"
      using new by (cases "x \<in> set (ts_spans st)") (simp_all add: count_mset_0_iff[THEN iffD2])
    moreover have "x \<in> set (ts_spans (collect_spans p limit (Some r) st)) \<Longrightarrow> covers (ts_cursor (collect_spans p limit (Some r) st) (process_label p)) (sr_start x)"
      using polled_in_store[of x p limit "Some r" st] collect_polled(3,4) poll that by (auto simp: poll_inv_def)
    ultimately show ?thesis by blast
  qed
  with poll show ?case by (simp add: poll_inv_def)
next
  case (other q r st ring)
  have "count (mset (ts_spans (collect_spans q limit ring st))) x \<le> count (mset (ts_spans st)) x"
    if "sr_process x = process_label p" for x
  proof -
    have "x \<notin> set (polled q limit ring st)" using that other(1) polled_new by metis
    then show ?thesis using store_add_count[of "polled q limit ring st" st x] by (simp add: collect_polled count_mset_0_iff[THEN iffD2])
  qed
  moreover have "x \<in> set (ts_spans (collect_spans q limit ring st)) \<Longrightarrow> sr_process x = process_label p \<Longrightarrow> x \<in> set (ts_spans st)" for x
    using polled_in_store[of x q limit ring st] polled_new other(1) by metis
  ultimately show ?case using other(2) collect_polled(2)[of "process_label p" q limit ring st] other(1)
    unfolding poll_inv_def by (auto intro: order_trans)
qed

text \<open>However often a process is polled while it goes on finishing spans, the fleet's store holds
  each span it recorded at most once: a poll asks only for spans after the last it saw.
\<close>
theorem collected_at_most_once:
  assumes "polls p limit (new_trace_ring n, new_trace_store m) (r, st)" and "sr_process x = process_label p"
  shows "count (mset (ts_spans st)) x \<le> 1"
proof -
  have "polls p limit (new_trace_ring n, new_trace_store m) c \<Longrightarrow> poll_inv p c" for c
    by (induction rule: polls.induct[consumes 1])
      (auto simp: poll_inv_def new_trace_ring_def new_trace_store_def dest: poll_step_inv)
  with assms show ?thesis by (auto simp: poll_inv_def)
qed

text \<open>The cursor moves by the start of a span but a span is only recorded when it finishes: a span
  that starts before the latest one the collector has seen, and has not been collected by then,
  never will be, however often the process is polled.
\<close>
theorem late_span_lost:
  assumes "polls p limit (r, st) (r', st')"
    and "ts_cursor st (process_label p) = Some c" and "sr_start x \<le> c"
    and "sr_process x = process_label p" and "x \<notin> set (ts_spans st)"
  shows "x \<notin> set (ts_spans st')"
proof -
  have "polls p limit (r, st) d \<Longrightarrow>
    covers (ts_cursor (snd d) (process_label p)) (sr_start x) \<and> x \<notin> set (ts_spans (snd d))" for d
  proof (induction rule: polls.induct)
    case start
    then show ?case using assms by (simp add: covers_def after_cursor_def)
  next
    case (more c' c'')
    from more(2) more(3) show ?case
    proof (induction rule: poll_step.induct)
      case (poll r st)
      then show ?case using polled_in_store[of x p limit "Some r" st] polled_new collect_polled(3) by fastforce
    next
      case (other q r st ring)
      then have "x \<notin> set (ts_spans (collect_spans q limit ring st))"
        using polled_in_store[of x q limit ring st] polled_new assms(4) by fastforce
      with other show ?case using collect_polled(2)[of "process_label p" q limit ring st] by simp
    qed simp
  qed
  with assms(1) show ?thesis by fastforce
qed


definition example_finished :: "bytes \<Rightarrow> int \<Rightarrow> int \<Rightarrow> span" where
  "example_finished i t0 t1 = finish_span t1 None
     (start_span (1 # replicate 15 0) i t0 ''n'' ''timer'' ''/x'' \<lparr>tc_trace = no_trace_id, tc_span = no_span_id, tc_sampled = False\<rparr>)"

definition example_peer :: peer where
  "example_peer = \<lparr>p_name = ''p'', p_host = [], p_url = ''http://p'', p_robot = []\<rparr>"

text \<open>The inner of two nested spans, from 2 to 3, is collected before the outer, from 1 to 4, ends.\<close>

definition example_inner :: trace_ring where
  "example_inner = ring_export (example_finished (replicate 8 2) 2 3) (new_trace_ring 4)"

definition example_polled :: trace_store where
  "example_polled = collect_spans example_peer 10 (Some example_inner) (new_trace_store 8)"

definition example_both :: trace_ring where
  "example_both = ring_export (example_finished (replicate 8 3) 1 4) example_inner"

definition example_outer :: span_record where
  "example_outer = (span_record_of (example_finished (replicate 8 3) 1 4))\<lparr>sr_process := ''p''\<rparr>"


lemma example_polls:
  "polls example_peer 10 (example_inner, example_polled) (example_both, collect_spans example_peer 10 (Some example_both) example_polled)"
  unfolding example_both_def
  by (rule polls.more, rule polls.more, rule polls.start,
      rule poll_step.finish[where s = "example_finished (replicate 8 3) 1 4"]) (code_simp, rule poll_step.poll)

lemma late_span_lost_witness:
  "example_outer \<in> (\<lambda>s. (span_record_of s)\<lparr>sr_process := ''p''\<rparr>) ` set (tr_spans example_both)
   \<and> example_outer \<notin> set (ts_spans (collect_spans example_peer 10 (Some example_both) example_polled))"
proof
  show "example_outer \<notin> set (ts_spans (collect_spans example_peer 10 (Some example_both) example_polled))"
    by (rule late_span_lost[OF example_polls, of 2]) code_simp+
qed code_simp

lemma collected_at_most_once_witness:
  "count (mset (ts_spans (collect_spans example_peer 10 (Some example_inner) example_polled)))
     ((span_record_of (example_finished (replicate 8 2) 2 3))\<lparr>sr_process := ''p''\<rparr>) \<le> 1"
proof (rule collected_at_most_once)
  show "polls example_peer 10 (new_trace_ring 4, new_trace_store 8)
    (example_inner, collect_spans example_peer 10 (Some example_inner) example_polled)"
    unfolding example_polled_def example_inner_def
    by (rule polls.more, rule polls.more, rule polls.more, rule polls.start,
        rule poll_step.finish[where s = "example_finished (replicate 8 2) 2 3"]) (code_simp, (rule poll_step.poll)+)
qed code_simp

end
