(* ===== verification/Fleet.thy ===== *)
theory Fleet
imports Fleet_Base Bringup Inventory
begin

text \<open>
  The graph of a whole deployment, merged from its processes' answers (\<^verbatim>\<open>FleetWith\<close>, \<^verbatim>\<open>fetchPeer\<close> and
  \<^verbatim>\<open>mergeFleet\<close> in \<^verbatim>\<open>fleet.go\<close>). The requests run at once and each fills in a slot of its own, so their
  results are a function of the peer.

  Counters are 64-bit words. Maps that the code ranges over are association lists in the order of
  first insertion; Go's order is unspecified, and only the order of the \<^verbatim>\<open>FLEET04\<close> findings
  depends on it. \<^verbatim>\<open>sort.Slice\<close> is a stable sort here, which is one of the orders it may produce.
  The pose of a frame is a value of any type. The dash of a message is an ASCII one.
\<close>

section \<open>What a process answered\<close>

record 'p process_view =
  pv_peer :: peer
  pv_ok :: bool
  pv_err :: string
  pv_latency :: int
  pv_app :: app_view
  pv_nodes :: "node_view list"
  pv_frames :: "'p frame_view list"
  pv_topics :: "topic_view list"
  pv_missions :: "mission_view list"

definition view_label :: "'p process_view \<Rightarrow> string" where "view_label v = process_label (pv_peer v)"

definition view_robot :: "'p process_view \<Rightarrow> string" where "view_robot v = p_robot (pv_peer v)"

text \<open>What asking a peer comes to: no request could be made, none got through, or an answer arrived with
  a latency, a status and a body that decodes or does not.\<close>

datatype 'p fetched =
  Unrequested string
| Unreached string
| Answered int int string "string + 'p summary_view"

text \<open>\<^verbatim>\<open>strings.LastIndex(msg, ": ")\<close>, and what follows it when it is past the first byte.\<close>

fun after_last_colon :: "string \<Rightarrow> string option" where
  "after_last_colon [] = None"
| "after_last_colon (c # cs) =
     (case after_last_colon cs of
        Some r \<Rightarrow> Some r
      | None \<Rightarrow> if prefix '': '' (c # cs) then Some (drop 2 (c # cs)) else None)"

definition trim_url :: "string \<Rightarrow> string" where
  "trim_url msg =
     (if prefix ''Get '' msg then (case after_last_colon msg of Some r \<Rightarrow> r | None \<Rightarrow> msg) else msg)"

definition fetch_peer :: "peer \<Rightarrow> 'p fetched \<Rightarrow> 'p process_view" where
  "fetch_peer p r =
     (let out = \<lparr>pv_peer = p, pv_ok = False, pv_err = [], pv_latency = 0, pv_app = blank_app_view,
                 pv_nodes = [], pv_frames = [], pv_topics = [], pv_missions = []\<rparr>
      in case r of
           Unrequested e \<Rightarrow> out\<lparr>pv_err := e\<rparr>
         | Unreached e \<Rightarrow> out\<lparr>pv_err := trim_url e\<rparr>
         | Answered latency code status body \<Rightarrow>
             (let out = out\<lparr>pv_latency := latency\<rparr>
              in if code \<noteq> 200 then out\<lparr>pv_err := ''HTTP '' @ status\<rparr>
                 else case body of
                   Inl e \<Rightarrow> out\<lparr>pv_err := ''not a conductor dashboard: '' @ e\<rparr>
                 | Inr s \<Rightarrow> out\<lparr>pv_ok := True, pv_app := su_app s, pv_nodes := su_nodes s, pv_frames := su_frames s,
                             pv_topics := su_topics s, pv_missions := su_missions s\<rparr>))"

section \<open>The merged state\<close>

record fleet_endpoint =
  fe_process :: string
  fe_node :: string
  fe_key :: string
  fe_counts :: "64 word"

record fleet_topic =
  ft_name :: string
  ft_robot :: string
  ft_type :: string
  ft_qos :: string
  ft_pubs :: "fleet_endpoint list"
  ft_subs :: "fleet_endpoint list"
  ft_sent :: "64 word"
  ft_recvd :: "64 word"
  ft_external :: bool

record fleet_robot =
  fr_name :: string
  fr_order :: "string list"
  fr_processes :: nat
  fr_reachable :: nat

text \<open>The local state of \<^verbatim>\<open>mergeFleet\<close> while it ranges over the processes. A topic's key is its
  robot and its name, which the code joins with a zero byte.\<close>

record 'p merge =
  mg_robots :: "string list"
  mg_seen :: "string list"
  mg_order :: "string \<Rightarrow> string list"
  mg_deps :: deps_map
  mg_topics :: "((string \<times> string) \<times> fleet_topic) list"
  mg_missions :: "mission_view list"
  mg_frames :: "string \<Rightarrow> ('p frame_view list \<times> string) option"
  mg_page_frames :: "'p frame_view list"
  mg_reachable :: nat
  mg_findings :: "finding list"

definition merge_start :: "'p merge" where
  "merge_start = \<lparr>mg_robots = [], mg_seen = [], mg_order = (\<lambda>_. []), mg_deps = Map.empty, mg_topics = [],
     mg_missions = [], mg_frames = Map.empty, mg_page_frames = [], mg_reachable = 0, mg_findings = []\<rparr>"

definition report :: "string \<Rightarrow> string \<Rightarrow> string \<Rightarrow> goarg list \<Rightarrow> 'p merge \<Rightarrow> 'p merge" where
  "report sev code fmt args m =
     m\<lparr>mg_findings := mg_findings m @ [\<lparr>fd_severity = sev, fd_code = code, fd_msg = Errorf fmt args\<rparr>]\<rparr>"

definition add_node :: "string \<Rightarrow> string \<Rightarrow> 'p merge \<Rightarrow> 'p merge" where
  "add_node robot key m =
     (if key \<in> set (mg_seen m) then m
      else m\<lparr>mg_seen := mg_seen m @ [key], mg_order := (mg_order m)(robot := mg_order m robot @ [key]),
             mg_deps := (mg_deps m)(key \<mapsto> new_node_deps)\<rparr>)"

definition merge_node :: "string \<Rightarrow> string \<Rightarrow> node_view \<Rightarrow> 'p merge \<Rightarrow> 'p merge" where
  "merge_node label robot n m =
     (let key = node_key label (nv_name n);
          m = add_node robot key m;
          m = (if nv_state n \<noteq> ''active''
               then report ''warning'' ''FLEET02'' ''%s is %s, not active'' [GStr key, GStr (nv_state n)] m else m)
      in if nv_dropped n > 0
         then report ''warning'' ''FLEET03'' ''%s has dropped %d message(s): its mailbox is overrunning''
                [GStr key, GInt (uint (nv_dropped n))] m
         else m)"

text \<open>\<^verbatim>\<open>mergeTopicFacts\<close>: of what the processes report of a topic, the first is kept and the others
  are compared with it. \<open>what\<close> is \<^verbatim>\<open>type\<close> or \<^verbatim>\<open>qos\<close>; the result is the fact kept.\<close>

definition merge_fact :: "string \<Rightarrow> fleet_topic \<Rightarrow> string \<Rightarrow> string \<Rightarrow> string \<Rightarrow> 'p merge \<Rightarrow> string \<times> 'p merge" where
  "merge_fact label ft what seen got m =
     (if got = [] then (seen, m)
      else if seen = [] then (got, m)
      else if seen \<noteq> got
      then (seen, report ''error'' ''FLEET05'' ''topic %q%s: processes disagree on %s (%s vs %s from %s) - a partial deploy?''
              [GStr (ft_name ft), GStr (on_robot (ft_robot ft)), GStr what, GStr seen, GStr got, GStr label] m)
      else (seen, m))"

definition merge_topic_facts :: "string \<Rightarrow> topic_view \<Rightarrow> fleet_topic \<Rightarrow> 'p merge \<Rightarrow> fleet_topic \<times> 'p merge" where
  "merge_topic_facts label t ft m =
     (let (ty, m) = merge_fact label ft ''type'' (ft_type ft) (tp_type t) m;
          (q, m) = merge_fact label ft ''qos'' (ft_qos ft) (tp_qos t) m
      in (ft\<lparr>ft_type := ty, ft_qos := q\<rparr>, m))"

definition new_fleet_topic :: "(string \<Rightarrow> bool) \<Rightarrow> string \<Rightarrow> string \<Rightarrow> fleet_topic" where
  "new_fleet_topic external robot name =
     \<lparr>ft_name = name, ft_robot = robot, ft_type = [], ft_qos = [], ft_pubs = [], ft_subs = [],
      ft_sent = 0, ft_recvd = 0, ft_external = external name\<rparr>"

definition fleet_endpoint_of :: "string \<Rightarrow> 64 word \<Rightarrow> string \<Rightarrow> fleet_endpoint" where
  "fleet_endpoint_of label counts node =
     \<lparr>fe_process = label, fe_node = node, fe_key = node_key label node, fe_counts = counts\<rparr>"

definition merge_pub :: "string \<Rightarrow> topic_view \<Rightarrow> string \<Rightarrow> fleet_topic \<times> deps_map \<Rightarrow> fleet_topic \<times> deps_map" where
  "merge_pub label t node = (\<lambda>(ft, deps).
     (ft\<lparr>ft_pubs := ft_pubs ft @ [fleet_endpoint_of label (tp_sent t) node], ft_sent := ft_sent ft + tp_sent t\<rparr>,
      record_provides (node_key label node) (tp_name t) deps))"

definition merge_sub :: "string \<Rightarrow> topic_view \<Rightarrow> string \<Rightarrow> fleet_topic \<times> deps_map \<Rightarrow> fleet_topic \<times> deps_map" where
  "merge_sub label t node = (\<lambda>(ft, deps).
     (ft\<lparr>ft_subs := ft_subs ft @ [fleet_endpoint_of label (tp_recvd t) node], ft_recvd := ft_recvd ft + tp_recvd t\<rparr>,
      record_consumes (node_key label node) (tp_name t) deps))"

definition merge_topic :: "(string \<Rightarrow> bool) \<Rightarrow> string \<Rightarrow> string \<Rightarrow> topic_view \<Rightarrow> 'p merge \<Rightarrow> 'p merge" where
  "merge_topic external label robot t m =
     (let ft = (case map_of (mg_topics m) (robot, tp_name t) of None \<Rightarrow> new_fleet_topic external robot (tp_name t) | Some ft \<Rightarrow> ft);
          (ft, m) = merge_topic_facts label t ft m;
          (ft, deps) = fold (merge_pub label t) (tp_pubs t) (ft, mg_deps m);
          (ft, deps) = fold (merge_sub label t) (tp_subs t) (ft, deps)
      in m\<lparr>mg_topics := AList.update (robot, tp_name t) ft (mg_topics m), mg_deps := deps\<rparr>)"

definition same_frames :: "'p frame_view list \<Rightarrow> 'p frame_view list \<Rightarrow> bool" where
  "same_frames as bs \<longleftrightarrow> length as = length bs \<and> list_all2 (=) as bs"

definition merge_frames :: "'p process_view \<Rightarrow> string \<Rightarrow> 'p merge \<Rightarrow> 'p merge" where
  "merge_frames v robot m =
     (if pv_frames v = [] then m
      else case mg_frames m robot of
        None \<Rightarrow> m\<lparr>mg_frames := (mg_frames m)(robot \<mapsto> (pv_frames v, view_label v)),
                 mg_page_frames := (if mg_page_frames m = [] then pv_frames v else mg_page_frames m)\<rparr>
      | Some (seen, from) \<Rightarrow>
          (if same_frames seen (pv_frames v) then m
           else report ''error'' ''FLEET06''
                  ''%s reports a different transform tree from %s%s: one of them is running an older release''
                  [GStr (view_label v), GStr from, GStr (on_robot robot)] m))"

text \<open>The body of the loop over the processes.\<close>

definition merge_view :: "(string \<Rightarrow> bool) \<Rightarrow> 'p process_view \<Rightarrow> 'p merge \<Rightarrow> 'p merge" where
  "merge_view external v m =
     (let label = view_label v; robot = view_robot v;
          m = m\<lparr>mg_robots := append_once (mg_robots m) robot\<rparr>
      in if \<not> pv_ok v
         then add_node robot label
                (report ''error'' ''FLEET01'' ''%s is not answering on %s: %s''
                   [GStr label, GStr (p_url (pv_peer v)), GStr (pv_err v)] m)
         else
          (let m = m\<lparr>mg_reachable := mg_reachable m + 1\<rparr>;
               m = fold (merge_node label robot) (pv_nodes v) m;
               m = fold (merge_topic external label robot) (pv_topics v) m;
               m = m\<lparr>mg_missions := mg_missions m @ map (\<lambda>x. x\<lparr>mv_node := node_key label (mv_node x)\<rparr>) (pv_missions v)\<rparr>
           in merge_frames v robot m))"

definition merge_views :: "(string \<Rightarrow> bool) \<Rightarrow> 'p process_view list \<Rightarrow> 'p merge" where
  "merge_views external views = fold (merge_view external) views merge_start"

section \<open>The merged answer\<close>

definition finish_topic :: "fleet_topic \<Rightarrow> fleet_topic" where
  "finish_topic t = t\<lparr>ft_pubs := sort_key fe_node (ft_pubs t), ft_subs := sort_key fe_node (ft_subs t)\<rparr>"

definition unpublished :: "fleet_topic \<Rightarrow> bool" where
  "unpublished t \<longleftrightarrow> ft_pubs t = [] \<and> ft_subs t \<noteq> [] \<and> \<not> ft_external t"

definition unpublished_finding :: "fleet_topic \<Rightarrow> finding" where
  "unpublished_finding t = \<lparr>fd_severity = ''error'', fd_code = ''FLEET04'',
     fd_msg = Errorf ''topic %q%s: %d subscriber(s) in this deployment and no publisher answering''
       [GStr (ft_name t), GStr (on_robot (ft_robot t)), GInt (int (length (ft_subs t)))]\<rparr>"

definition fleet_robot_of :: "'p process_view list \<Rightarrow> 'p merge \<Rightarrow> string \<Rightarrow> fleet_robot" where
  "fleet_robot_of views m r =
     (let mine = filter (\<lambda>v. view_robot v = r) views
      in \<lparr>fr_name = r, fr_order = fst (bringup_order (mg_order m r) (mg_deps m)),
          fr_processes = length mine, fr_reachable = length (filter pv_ok mine)\<rparr>)"

record 'p deployment_state =
  fl_processes :: "'p process_view list"
  fl_order :: "string list"
  fl_topics :: "fleet_topic list"
  fl_missions :: "mission_view list"
  fl_frames :: "'p frame_view list"
  fl_robots :: "fleet_robot list"
  fl_findings :: "finding list"
  fl_reachable :: nat

definition merge_fleet :: "(string \<Rightarrow> bool) \<Rightarrow> 'p process_view list \<Rightarrow> 'p deployment_state" where
  "merge_fleet external views =
     (let m = merge_views external views;
          ts = map (\<lambda>x. finish_topic (snd x)) (mg_topics m);
          robots = map (fleet_robot_of views m) (sort (mg_robots m))
      in \<lparr>fl_processes = views, fl_order = concat (map fr_order robots),
          fl_topics = sort_key ft_robot (sort_key ft_name ts), fl_missions = sort_key mv_node (mg_missions m),
          fl_frames = mg_page_frames m, fl_robots = robots,
          fl_findings = sort_findings (mg_findings m @ map unpublished_finding (filter unpublished ts)),
          fl_reachable = mg_reachable m\<rparr>)"

definition fleet_with :: "(peer \<Rightarrow> 'p fetched) \<Rightarrow> (string \<Rightarrow> bool) \<Rightarrow> peer list \<Rightarrow> 'p deployment_state" where
  "fleet_with fetch external peers = merge_fleet external (map (\<lambda>p. fetch_peer p (fetch p)) peers)"

section \<open>What is merged\<close>

text \<open>A contribution is a topic as one process of a robot reports it. The topics and the
  disagreements the merge finds depend on the list of all contributions only.\<close>

type_synonym contribution = "string \<times> string \<times> topic_view"

definition contributions :: "'p process_view \<Rightarrow> contribution list" where
  "contributions v = (if pv_ok v then map (\<lambda>t. (view_robot v, view_label v, t)) (pv_topics v) else [])"

definition first_known :: "string \<Rightarrow> string \<Rightarrow> string" where
  "first_known seen got = (if seen = [] then got else seen)"

definition clash :: "string \<Rightarrow> string \<Rightarrow> bool" where
  "clash a b \<longleftrightarrow> a \<noteq> [] \<and> b \<noteq> [] \<and> a \<noteq> b"

definition contribute :: "contribution \<Rightarrow> fleet_topic \<Rightarrow> fleet_topic" where
  "contribute = (\<lambda>(r, l, t) ft.
     ft\<lparr>ft_type := first_known (ft_type ft) (tp_type t), ft_qos := first_known (ft_qos ft) (tp_qos t),
        ft_pubs := ft_pubs ft @ map (fleet_endpoint_of l (tp_sent t)) (tp_pubs t),
        ft_subs := ft_subs ft @ map (fleet_endpoint_of l (tp_recvd t)) (tp_subs t),
        ft_sent := ft_sent ft + of_nat (length (tp_pubs t)) * tp_sent t,
        ft_recvd := ft_recvd ft + of_nat (length (tp_subs t)) * tp_recvd t\<rparr>)"

definition disputed :: "'p merge \<Rightarrow> bool" where
  "disputed m \<longleftrightarrow> (\<exists>f \<in> set (mg_findings m). fd_code f = ''FLEET05'')"

definition topic_at :: "(string \<Rightarrow> bool) \<Rightarrow> ((string \<times> string) \<times> fleet_topic) list \<Rightarrow> contribution \<Rightarrow> fleet_topic" where
  "topic_at external ts = (\<lambda>(r, l, t).
     case map_of ts (r, tp_name t) of None \<Rightarrow> new_fleet_topic external r (tp_name t) | Some ft \<Rightarrow> ft)"

definition flat_step :: "(string \<Rightarrow> bool) \<Rightarrow> contribution \<Rightarrow> ((string \<times> string) \<times> fleet_topic) list \<times> bool
    \<Rightarrow> ((string \<times> string) \<times> fleet_topic) list \<times> bool" where
  "flat_step external = (\<lambda>(r, l, t) (ts, bad).
     (let ft = topic_at external ts (r, l, t)
      in (AList.update (r, tp_name t) (contribute (r, l, t) ft) ts,
          bad \<or> clash (ft_type ft) (tp_type t) \<or> clash (ft_qos ft) (tp_qos t))))"

lemma disputed_report: "disputed (report s c f a m) \<longleftrightarrow> disputed m \<or> c = ''FLEET05''"
  by (auto simp: disputed_def report_def)

lemma report_rest [simp]:
  "mg_topics (report s c f a m) = mg_topics m" "mg_deps (report s c f a m) = mg_deps m"
  "mg_seen (report s c f a m) = mg_seen m" "mg_order (report s c f a m) = mg_order m"
  "mg_robots (report s c f a m) = mg_robots m" "mg_reachable (report s c f a m) = mg_reachable m"
  by (simp_all add: report_def)

lemma fold_merge_pub:
  "fst (fold (merge_pub l t) ns (ft, deps)) =
     ft\<lparr>ft_pubs := ft_pubs ft @ map (fleet_endpoint_of l (tp_sent t)) ns,
        ft_sent := ft_sent ft + of_nat (length ns) * tp_sent t\<rparr>"
  by (induction ns arbitrary: ft deps) (simp_all add: merge_pub_def distrib_right add.assoc)

lemma fold_merge_sub:
  "fst (fold (merge_sub l t) ns (ft, deps)) =
     ft\<lparr>ft_subs := ft_subs ft @ map (fleet_endpoint_of l (tp_recvd t)) ns,
        ft_recvd := ft_recvd ft + of_nat (length ns) * tp_recvd t\<rparr>"
  by (induction ns arbitrary: ft deps) (simp_all add: merge_sub_def distrib_right add.assoc)

lemma merge_fact_spec:
  "fst (merge_fact l ft what seen got m) = first_known seen got"
  "mg_topics (snd (merge_fact l ft what seen got m)) = mg_topics m"
  "disputed (snd (merge_fact l ft what seen got m)) \<longleftrightarrow> disputed m \<or> clash seen got"
  by (auto simp: merge_fact_def first_known_def clash_def disputed_report)

lemma facts_spec:
  "fst (merge_topic_facts l t ft m) = ft\<lparr>ft_type := first_known (ft_type ft) (tp_type t), ft_qos := first_known (ft_qos ft) (tp_qos t)\<rparr>"
  "mg_topics (snd (merge_topic_facts l t ft m)) = mg_topics m"
  "disputed (snd (merge_topic_facts l t ft m)) \<longleftrightarrow> disputed m \<or> clash (ft_type ft) (tp_type t) \<or> clash (ft_qos ft) (tp_qos t)"
  by (auto simp: merge_topic_facts_def case_prod_beta merge_fact_spec)

lemma merge_topic_flat:
  "mg_topics (merge_topic ext l r t m) = fst (flat_step ext (r, l, t) (mg_topics m, disputed m))
   \<and> disputed (merge_topic ext l r t m) = snd (flat_step ext (r, l, t) (mg_topics m, disputed m))"
proof -
  define ft where "ft = topic_at ext (mg_topics m) (r, l, t)"
  obtain ft1 m1 where f: "merge_topic_facts l t ft m = (ft1, m1)" by fastforce
  obtain ft2 d2 where p: "fold (merge_pub l t) (tp_pubs t) (ft1, mg_deps m1) = (ft2, d2)" by fastforce
  obtain ft3 d3 where s: "fold (merge_sub l t) (tp_subs t) (ft2, d2) = (ft3, d3)" by fastforce
  have mt: "merge_topic ext l r t m = m1\<lparr>mg_topics := AList.update (r, tp_name t) ft3 (mg_topics m1), mg_deps := d3\<rparr>"
    using f p s by (simp add: merge_topic_def ft_def topic_at_def)
  have "ft3 = contribute (r, l, t) ft"
    using fold_merge_sub[of l t "tp_subs t" ft2 d2] fold_merge_pub[of l t "tp_pubs t" ft1 "mg_deps m1"] facts_spec(1)[of l t ft m] f p s
    by (simp add: contribute_def)
  then show ?thesis using facts_spec(2,3)[of l t ft m] f mt
    by (simp add: flat_step_def ft_def[symmetric] Let_def) (simp add: disputed_def)
qed

lemma merge_topics_flat:
  "(mg_topics (fold (merge_topic ext l r) ts m), disputed (fold (merge_topic ext l r) ts m))
     = fold (flat_step ext) (map (\<lambda>t. (r, l, t)) ts) (mg_topics m, disputed m)"
proof (induction ts arbitrary: m)
  case (Cons t ts)
  have "flat_step ext (r, l, t) (mg_topics m, disputed m) = (mg_topics (merge_topic ext l r t m), disputed (merge_topic ext l r t m))"
    using merge_topic_flat[of ext l r t m] by (simp add: prod_eq_iff)
  with Cons.IH[of "merge_topic ext l r t m"] show ?case by simp
qed simp

lemma fold_keep: "(\<And>x m. f (g x m) = f m) \<Longrightarrow> f (fold g xs m) = f m"
  by (induction xs arbitrary: m) auto

lemma merge_node_flat:
  "mg_topics (merge_node l r n m) = mg_topics m" "disputed (merge_node l r n m) = disputed m"
  by (simp_all add: merge_node_def Let_def disputed_report add_node_def) (simp add: disputed_def)

lemma merge_frames_flat:
  "mg_topics (merge_frames v r m) = mg_topics m" "disputed (merge_frames v r m) = disputed m"
  by (simp_all add: merge_frames_def disputed_report disputed_def[of "_\<lparr>mg_frames := _, mg_page_frames := _\<rparr>"] split: option.splits)
    (auto simp: disputed_def)

lemma merge_view_flat:
  "(mg_topics (merge_view ext v m), disputed (merge_view ext v m)) = fold (flat_step ext) (contributions v) (mg_topics m, disputed m)"
proof (cases "pv_ok v")
  case True
  define m1 where "m1 = fold (merge_node (view_label v) (view_robot v)) (pv_nodes v)
    (m\<lparr>mg_robots := append_once (mg_robots m) (view_robot v), mg_reachable := mg_reachable m + 1\<rparr>)"
  have m1: "mg_topics m1 = mg_topics m" "disputed m1 = disputed m"
    unfolding m1_def
    by (simp_all add: fold_keep[of mg_topics] fold_keep[of disputed] merge_node_flat) (simp add: disputed_def)
  have d: "disputed (x\<lparr>mg_missions := y\<rparr>) = disputed x" for x :: "'a merge" and y by (simp add: disputed_def)
  show ?thesis
    using True merge_topics_flat[of ext "view_label v" "view_robot v" "pv_topics v" m1]
    by (simp add: merge_view_def Let_def merge_frames_flat contributions_def d m1[symmetric] m1_def)
next
  case False
  then show ?thesis
    by (simp add: merge_view_def Let_def contributions_def add_node_def disputed_report) (simp add: disputed_def report_def)
qed

lemma merge_views_flat:
  "(mg_topics (merge_views ext vs), disputed (merge_views ext vs)) = fold (flat_step ext) (concat (map contributions vs)) ([], False)"
proof -
  have "(mg_topics (fold (merge_view ext) vs m), disputed (fold (merge_view ext) vs m))
    = fold (flat_step ext) (concat (map contributions vs)) (mg_topics m, disputed m)" for m
    by (induction vs arbitrary: m) (simp_all add: merge_view_flat[symmetric])
  from this[of merge_start] show ?thesis by (simp add: merge_views_def merge_start_def disputed_def)
qed

text \<open>The contributions to one topic of one robot, and what they amount to.\<close>

definition of_topic :: "string \<Rightarrow> string \<Rightarrow> contribution list \<Rightarrow> contribution list" where
  "of_topic r n cs = filter (\<lambda>(r', l, t). r' = r \<and> tp_name t = n) cs"

definition topic_of :: "(string \<Rightarrow> bool) \<Rightarrow> string \<Rightarrow> string \<Rightarrow> contribution list \<Rightarrow> fleet_topic" where
  "topic_of external r n cs = fold contribute (of_topic r n cs) (new_fleet_topic external r n)"

definition differ :: "topic_view \<Rightarrow> topic_view \<Rightarrow> bool" where
  "differ t u \<longleftrightarrow> tp_name t = tp_name u \<and> (clash (tp_type t) (tp_type u) \<or> clash (tp_qos t) (tp_qos u))"

definition rival :: "contribution \<Rightarrow> contribution \<Rightarrow> bool" where
  "rival = (\<lambda>(r, l, t) (r', l', t'). r = r' \<and> differ t t')"

definition conflicting :: "contribution list \<Rightarrow> bool" where
  "conflicting cs \<longleftrightarrow> (\<exists>c \<in> set cs. \<exists>d \<in> set cs. rival c d)"

lemma rival_sym: "rival c d \<longleftrightarrow> rival d c" and rival_irrefl: "\<not> rival c c"
  by (auto simp: rival_def differ_def clash_def split: prod.splits)

lemma conflicting_snoc: "conflicting (cs @ [c]) \<longleftrightarrow> conflicting cs \<or> (\<exists>d \<in> set cs. rival d c)"
  using rival_irrefl rival_sym by (auto simp: conflicting_def)

lemma of_topic_snoc: "of_topic r n (cs @ [(r', l, t)]) = of_topic r n cs @ (if r' = r \<and> tp_name t = n then [(r', l, t)] else [])"
  by (simp add: of_topic_def)

lemma contribute_simps:
  "ft_type (contribute (r, l, t) ft) = first_known (ft_type ft) (tp_type t)"
  "ft_qos (contribute (r, l, t) ft) = first_known (ft_qos ft) (tp_qos t)"
  "ft_pubs (contribute (r, l, t) ft) = ft_pubs ft @ map (fleet_endpoint_of l (tp_sent t)) (tp_pubs t)"
  "ft_subs (contribute (r, l, t) ft) = ft_subs ft @ map (fleet_endpoint_of l (tp_recvd t)) (tp_subs t)"
  "ft_sent (contribute (r, l, t) ft) = ft_sent ft + of_nat (length (tp_pubs t)) * tp_sent t"
  "ft_name (contribute (r, l, t) ft) = ft_name ft" "ft_robot (contribute (r, l, t) ft) = ft_robot ft"
  "ft_external (contribute (r, l, t) ft) = ft_external ft"
  by (simp_all add: contribute_def)

lemma fold_contribute:
  "ft_type (fold contribute cs ft) = foldl first_known (ft_type ft) (map (\<lambda>(r, l, t). tp_type t) cs)
   \<and> ft_qos (fold contribute cs ft) = foldl first_known (ft_qos ft) (map (\<lambda>(r, l, t). tp_qos t) cs)
   \<and> ft_pubs (fold contribute cs ft) = ft_pubs ft @ concat (map (\<lambda>(r, l, t). map (fleet_endpoint_of l (tp_sent t)) (tp_pubs t)) cs)
   \<and> ft_subs (fold contribute cs ft) = ft_subs ft @ concat (map (\<lambda>(r, l, t). map (fleet_endpoint_of l (tp_recvd t)) (tp_subs t)) cs)
   \<and> ft_sent (fold contribute cs ft) = ft_sent ft + sum_list (map (\<lambda>(r, l, t). of_nat (length (tp_pubs t)) * tp_sent t) cs)
   \<and> ft_name (fold contribute cs ft) = ft_name ft \<and> ft_robot (fold contribute cs ft) = ft_robot ft
   \<and> ft_external (fold contribute cs ft) = ft_external ft"
proof (induction cs arbitrary: ft)
  case (Cons c cs)
  obtain r l t where "c = (r, l, t)" by (cases c) auto
  then show ?case by (simp add: Cons.IH contribute_simps add.assoc)
qed simp

lemma foldl_first_known:
  "foldl first_known s xs = (case filter (\<lambda>x. x \<noteq> []) (s # xs) of [] \<Rightarrow> [] | x # _ \<Rightarrow> x)"
  by (induction xs arbitrary: s) (auto simp: first_known_def)

lemma clash_first:
  assumes "\<not> (\<exists>a \<in> set xs. \<exists>b \<in> set xs. clash a b)"
  shows "clash (foldl first_known [] xs) y \<longleftrightarrow> (\<exists>a \<in> set xs. clash a y)"
proof (cases "filter (\<lambda>x. x \<noteq> []) xs")
  case Nil
  then have "\<forall>x \<in> set xs. x = []" by (simp add: filter_empty_conv)
  then show ?thesis using Nil by (auto simp: foldl_first_known clash_def)
next
  case (Cons z zs)
  then have z: "z \<in> set xs" "z \<noteq> []" using filter_eq_Cons_iff[of "\<lambda>x. x \<noteq> []" xs z zs] by auto
  then have "\<And>a. a \<in> set xs \<Longrightarrow> a \<noteq> [] \<Longrightarrow> a = z" using assms by (auto simp: clash_def)
  moreover have "foldl first_known [] xs = z" using Cons by (simp add: foldl_first_known)
  ultimately show ?thesis using z by (metis clash_def)
qed

lemma flat_step_pair:
  "flat_step ext (r, l, t) (ts, bad) =
     (AList.update (r, tp_name t) (contribute (r, l, t) (topic_at ext ts (r, l, t))) ts,
      bad \<or> clash (ft_type (topic_at ext ts (r, l, t))) (tp_type t) \<or> clash (ft_qos (topic_at ext ts (r, l, t))) (tp_qos t))"
  by (simp add: flat_step_def Let_def)

lemma flat_topics:
  "map_of (fst (fold (flat_step ext) cs ([], False))) (r, n) =
     (if of_topic r n cs = [] then None else Some (topic_of ext r n cs))
   \<and> distinct (map fst (fst (fold (flat_step ext) cs ([], False))))"
proof (induction cs arbitrary: r n rule: rev_induct)
  case (snoc c cs)
  obtain r' l t where c: "c = (r', l, t)" by (cases c) auto
  obtain ts bad where f: "fold (flat_step ext) cs ([], False) = (ts, bad)" by fastforce
  have at: "topic_at ext ts (r', l, t) = topic_of ext r' (tp_name t) cs"
    using snoc.IH[of r' "tp_name t"] f by (simp add: topic_at_def topic_of_def)
  have "distinct (map fst ts)" using snoc.IH f by simp
  with snoc.IH[of r n] show ?case
    by (auto simp: c f flat_step_pair at update_conv of_topic_snoc topic_of_def distinct_update)
qed (simp add: of_topic_def)

lemma flat_disputed: "snd (fold (flat_step ext) cs ([], False)) \<longleftrightarrow> conflicting cs"
proof (induction cs rule: rev_induct)
  case (snoc c cs)
  obtain r l t where c: "c = (r, l, t)" by (cases c) auto
  obtain ts bad where f: "fold (flat_step ext) cs ([], False) = (ts, bad)" by fastforce
  let ?mine = "of_topic r (tp_name t) cs"
  have at: "topic_at ext ts (r, l, t) = topic_of ext r (tp_name t) cs"
    using flat_topics[of ext cs r "tp_name t"] f by (simp add: topic_at_def topic_of_def)
  have ft: "ft_type (topic_at ext ts (r, l, t)) = foldl first_known [] (map (\<lambda>(r, l, t). tp_type t) ?mine)"
    "ft_qos (topic_at ext ts (r, l, t)) = foldl first_known [] (map (\<lambda>(r, l, t). tp_qos t) ?mine)"
    by (simp_all add: at topic_of_def fold_contribute new_fleet_topic_def)
  show ?case
  proof (cases "conflicting cs")
    case True
    then show ?thesis using snoc f by (simp add: c flat_step_pair conflicting_snoc)
  next
    case False
    have ok: "\<not> (\<exists>a \<in> set (map (\<lambda>(r, l, t). tp_type t) ?mine). \<exists>b \<in> set (map (\<lambda>(r, l, t). tp_type t) ?mine). clash a b)"
      "\<not> (\<exists>a \<in> set (map (\<lambda>(r, l, t). tp_qos t) ?mine). \<exists>b \<in> set (map (\<lambda>(r, l, t). tp_qos t) ?mine). clash a b)"
      using False by (fastforce simp: conflicting_def rival_def differ_def of_topic_def)+
    have "(\<exists>d \<in> set cs. rival d c) \<longleftrightarrow> clash (ft_type (topic_at ext ts (r, l, t))) (tp_type t)
        \<or> clash (ft_qos (topic_at ext ts (r, l, t))) (tp_qos t)"
      unfolding ft clash_first[OF ok(1)] clash_first[OF ok(2)] by (force simp: of_topic_def rival_def differ_def c)
    then show ?thesis using snoc f False by (simp add: c flat_step_pair conflicting_snoc)
  qed
qed (simp add: conflicting_def)

section \<open>The topics of the deployment\<close>

lemma merged_topics:
  "map_of (mg_topics (merge_views ext vs)) (r, n) =
     (if of_topic r n (concat (map contributions vs)) = [] then None else Some (topic_of ext r n (concat (map contributions vs))))"
  "distinct (map fst (mg_topics (merge_views ext vs)))"
  "disputed (merge_views ext vs) \<longleftrightarrow> conflicting (concat (map contributions vs))"
  using flat_topics flat_disputed merge_views_flat[of ext vs] by (metis fst_conv snd_conv)+

lemma set_contributions:
  "(r, l, t) \<in> set (concat (map contributions vs)) \<longleftrightarrow>
     (\<exists>v \<in> set vs. pv_ok v \<and> view_robot v = r \<and> view_label v = l \<and> t \<in> set (pv_topics v))"
  by (auto simp: contributions_def)

lemma in_mg_topics:
  "(k, t) \<in> set (mg_topics (merge_views ext vs)) \<longleftrightarrow>
     (\<exists>r n. k = (r, n) \<and> of_topic r n (concat (map contributions vs)) \<noteq> [] \<and> t = topic_of ext r n (concat (map contributions vs)))"
  using map_of_eq_Some_iff[OF merged_topics(2)[of ext vs], of k t] merged_topics(1)[of ext vs "fst k" "snd k"]
  by (cases k) (auto split: if_splits)

lemma set_fl_topics:
  "set (fl_topics (merge_fleet ext vs)) = finish_topic ` {topic_of ext r n (concat (map contributions vs)) | r n.
     of_topic r n (concat (map contributions vs)) \<noteq> []}"
proof -
  have "set (fl_topics (merge_fleet ext vs)) = finish_topic ` snd ` set (mg_topics (merge_views ext vs))"
    by (simp add: merge_fleet_def Let_def image_image)
  also have "snd ` set (mg_topics (merge_views ext vs)) = {topic_of ext r n (concat (map contributions vs)) | r n.
     of_topic r n (concat (map contributions vs)) \<noteq> []}"
    using in_mg_topics[of _ _ ext vs] by (force simp: image_iff)
  finally show ?thesis .
qed

lemma topic_of_fields:
  "ft_name (topic_of ext r n cs) = n" "ft_robot (topic_of ext r n cs) = r" "ft_external (topic_of ext r n cs) = ext n"
  "ft_pubs (topic_of ext r n cs) = concat (map (\<lambda>(r, l, t). map (fleet_endpoint_of l (tp_sent t)) (tp_pubs t)) (of_topic r n cs))"
  "ft_subs (topic_of ext r n cs) = concat (map (\<lambda>(r, l, t). map (fleet_endpoint_of l (tp_recvd t)) (tp_subs t)) (of_topic r n cs))"
  "ft_sent (topic_of ext r n cs) = sum_list (map (\<lambda>(r, l, t). of_nat (length (tp_pubs t)) * tp_sent t) (of_topic r n cs))"
  by (simp_all add: topic_of_def fold_contribute new_fleet_topic_def)

lemma finish_topic_fields [simp]:
  "ft_name (finish_topic t) = ft_name t" "ft_robot (finish_topic t) = ft_robot t" "ft_sent (finish_topic t) = ft_sent t"
  "set (ft_pubs (finish_topic t)) = set (ft_pubs t)" "set (ft_subs (finish_topic t)) = set (ft_subs t)"
  "length (ft_pubs (finish_topic t)) = length (ft_pubs t)" "length (ft_subs (finish_topic t)) = length (ft_subs t)"
  "ft_external (finish_topic t) = ft_external t"
  by (simp_all add: finish_topic_def)

text \<open>C28. No edge of the merged graph joins two robots: every publisher and subscriber of a merged
  topic is a node that a process of the topic's own robot reported on a topic of that name.
\<close>
theorem fleet_edges_stay_on_robot:
  assumes "t \<in> set (fl_topics (merge_fleet external views))" and "e \<in> set (ft_pubs t) \<union> set (ft_subs t)"
  shows "\<exists>v \<in> set views. pv_ok v \<and> view_robot v = ft_robot t \<and> view_label v = fe_process e
    \<and> fe_key e = node_key (view_label v) (fe_node e)
    \<and> (\<exists>tv \<in> set (pv_topics v). tp_name tv = ft_name t \<and> fe_node e \<in> set (tp_pubs tv) \<union> set (tp_subs tv))"
proof -
  let ?cs = "concat (map contributions views)"
  obtain r n where t: "t = finish_topic (topic_of external r n ?cs)" using assms(1) by (auto simp: set_fl_topics)
  with assms(2) obtain l tv node c where "(r, l, tv) \<in> set (of_topic r n ?cs)" "node \<in> set (tp_pubs tv) \<union> set (tp_subs tv)"
    "e = fleet_endpoint_of l c node"
    by (fastforce simp: topic_of_fields of_topic_def)
  then have "(r, l, tv) \<in> set ?cs" "tp_name tv = n" by (auto simp: of_topic_def)
  with \<open>e = _\<close> \<open>node \<in> _\<close> show ?thesis unfolding set_contributions
    by (auto simp: t topic_of_fields fleet_endpoint_of_def)
qed

lemma in_findings: "f \<in> set (fl_findings (merge_fleet ext vs)) \<longleftrightarrow>
    f \<in> set (mg_findings (merge_views ext vs)) \<or> (\<exists>t \<in> set (fl_topics (merge_fleet ext vs)). unpublished t \<and> f = unpublished_finding t)"
  by (auto simp: merge_fleet_def Let_def)

lemma conflicting_contributions:
  "conflicting (concat (map contributions vs)) \<longleftrightarrow>
     (\<exists>v \<in> set vs. \<exists>w \<in> set vs. pv_ok v \<and> pv_ok w \<and> view_robot v = view_robot w
        \<and> (\<exists>t \<in> set (pv_topics v). \<exists>u \<in> set (pv_topics w). differ t u))"
proof
  assume "conflicting (concat (map contributions vs))"
  then obtain c d where cd: "c \<in> set (concat (map contributions vs))" "d \<in> set (concat (map contributions vs))" "rival c d"
    unfolding conflicting_def by blast
  obtain r l t r' l' t' where "c = (r, l, t)" "d = (r', l', t')" by (metis prod_cases3)
  with cd have "(r, l, t) \<in> set (concat (map contributions vs))"
    "(r, l', t') \<in> set (concat (map contributions vs))" "differ t t'"
    by (simp_all add: rival_def)
  then show "\<exists>v \<in> set vs. \<exists>w \<in> set vs. pv_ok v \<and> pv_ok w \<and> view_robot v = view_robot w
        \<and> (\<exists>t \<in> set (pv_topics v). \<exists>u \<in> set (pv_topics w). differ t u)"
    unfolding set_contributions by (elim bexE conjE) (intro bexI conjI; simp)
next
  assume "\<exists>v \<in> set vs. \<exists>w \<in> set vs. pv_ok v \<and> pv_ok w \<and> view_robot v = view_robot w
        \<and> (\<exists>t \<in> set (pv_topics v). \<exists>u \<in> set (pv_topics w). differ t u)"
  then obtain v w t u where vw: "v \<in> set vs" "w \<in> set vs" "pv_ok v" "pv_ok w" "view_robot v = view_robot w"
    "t \<in> set (pv_topics v)" "u \<in> set (pv_topics w)" "differ t u" by blast
  then have "(view_robot v, view_label v, t) \<in> set (concat (map contributions vs))"
    unfolding set_contributions by blast
  moreover from vw have "(view_robot v, view_label w, u) \<in> set (concat (map contributions vs))"
    unfolding set_contributions by metis
  moreover from vw(8) have "rival (view_robot v, view_label v, t) (view_robot v, view_label w, u)" by (simp add: rival_def)
  ultimately show "conflicting (concat (map contributions vs))"
    unfolding conflicting_def by blast
qed

text \<open>C29. The merge reports a disagreement (\<^verbatim>\<open>FLEET05\<close>) exactly when two answering processes of one
  robot report different types, or different QoS profiles, for the same topic.
\<close>
theorem fleet_agreement:
  "(\<exists>f \<in> set (fl_findings (merge_fleet external views)). fd_code f = ''FLEET05'') \<longleftrightarrow>
   (\<exists>v \<in> set views. \<exists>w \<in> set views. pv_ok v \<and> pv_ok w \<and> view_robot v = view_robot w
      \<and> (\<exists>t \<in> set (pv_topics v). \<exists>u \<in> set (pv_topics w). differ t u))"
  unfolding conflicting_contributions[symmetric] merged_topics(3)[symmetric, of _ external]
  by (auto simp: in_findings disputed_def unpublished_finding_def)

section \<open>The deployment's bringup order\<close>

definition view_keys :: "'p process_view \<Rightarrow> string list" where
  "view_keys v = (if pv_ok v then map (\<lambda>n. node_key (view_label v) (nv_name n)) (pv_nodes v) else [view_label v])"

definition order_inv :: "'p merge \<Rightarrow> bool" where
  "order_inv m \<longleftrightarrow> distinct (mg_robots m) \<and> (\<forall>r. distinct (mg_order m r)) \<and> (\<forall>r. set (mg_order m r) \<subseteq> set (mg_seen m))
     \<and> (\<forall>r s. r \<noteq> s \<longrightarrow> set (mg_order m r) \<inter> set (mg_order m s) = {})
     \<and> set (mg_seen m) \<subseteq> (\<Union>r \<in> set (mg_robots m). set (mg_order m r)) \<and> (\<forall>r. r \<notin> set (mg_robots m) \<longrightarrow> mg_order m r = [])"

definition order_view :: "'p merge \<Rightarrow> string list \<times> string list \<times> (string \<Rightarrow> string list)" where
  "order_view m = (mg_robots m, mg_seen m, mg_order m)"

lemma order_view_inv: "order_view m = order_view m' \<Longrightarrow> order_inv m \<Longrightarrow> order_inv m'"
  by (simp add: order_view_def order_inv_def)

lemma add_node_inv:
  assumes "order_inv m" and "r \<in> set (mg_robots m)"
  shows "order_inv (add_node r k m) \<and> set (mg_seen (add_node r k m)) = insert k (set (mg_seen m))
    \<and> mg_robots (add_node r k m) = mg_robots m"
proof (cases "k \<in> set (mg_seen m)")
  case True
  then show ?thesis using assms by (auto simp: add_node_def)
next
  case False
  then have new: "k \<notin> set (mg_order m s)" for s using assms(1) by (auto simp: order_inv_def)
  have m: "mg_robots (add_node r k m) = mg_robots m" "mg_seen (add_node r k m) = mg_seen m @ [k]"
    "mg_order (add_node r k m) = (mg_order m)(r := mg_order m r @ [k])"
    using False by (simp_all add: add_node_def)
  have "\<exists>s \<in> set (mg_robots m). x \<in> set (mg_order (add_node r k m) s)" if x: "x \<in> insert k (set (mg_seen m))" for x
  proof (cases "x = k")
    case False
    with x assms(1) obtain s where "s \<in> set (mg_robots m)" "x \<in> set (mg_order m s)" by (auto simp: order_inv_def)
    then show ?thesis by (intro bexI[of _ s]) (auto simp: m)
  qed (use assms(2) m in auto)
  then have "set (mg_seen (add_node r k m)) \<subseteq> (\<Union>s \<in> set (mg_robots m). set (mg_order (add_node r k m) s))"
    by (auto simp: m(2))
  with assms new show ?thesis
    unfolding order_inv_def m by (auto simp: disjoint_iff)
qed

lemma order_view_report [simp]: "order_view (report s c f a m) = order_view m"
  by (simp add: order_view_def)

lemma merge_node_order: "order_view (merge_node l r n m) = order_view (add_node r (node_key l (nv_name n)) m)"
  by (simp add: merge_node_def Let_def)

lemma order_view_D: "order_view m = order_view m' \<Longrightarrow> mg_robots m = mg_robots m' \<and> mg_seen m = mg_seen m' \<and> mg_order m = mg_order m'"
  by (simp add: order_view_def)

lemma merge_nodes_inv:
  "order_inv m \<Longrightarrow> r \<in> set (mg_robots m) \<Longrightarrow> order_inv (fold (merge_node l r) ns m)
     \<and> set (mg_seen (fold (merge_node l r) ns m)) = (\<lambda>n. node_key l (nv_name n)) ` set ns \<union> set (mg_seen m)
     \<and> mg_robots (fold (merge_node l r) ns m) = mg_robots m"
proof (induction ns arbitrary: m)
  case (Cons n ns)
  note a = add_node_inv[OF Cons.prems, of "node_key l (nv_name n)"]
  note o = order_view_D[OF merge_node_order[of l r n m]]
  have "order_inv (merge_node l r n m)" using a order_view_inv[OF merge_node_order[of l r n m, symmetric]] by blast
  with Cons.IH[of "merge_node l r n m"] a o Cons.prems(2) show ?case by auto
qed simp

lemma merge_topic_order: "order_view (merge_topic ext l r t m) = order_view m"
proof -
  have f: "order_view (snd (merge_fact l ft what seen got m)) = order_view m" for ft what seen got m
    by (simp add: merge_fact_def)
  have "order_view (snd (merge_topic_facts l t ft m)) = order_view m" for ft
    by (simp add: merge_topic_facts_def case_prod_beta f)
  moreover have "order_view (m\<lparr>mg_topics := a, mg_deps := b\<rparr>) = order_view m" for m :: "'a merge" and a b
    by (simp add: order_view_def)
  ultimately show ?thesis by (simp add: merge_topic_def case_prod_beta Let_def)
qed

lemma merge_frames_order: "order_view (merge_frames v r m) = order_view m"
  by (simp add: merge_frames_def order_view_def split: option.splits prod.splits)

lemma merge_view_inv:
  assumes "order_inv m"
  shows "order_inv (merge_view ext v m) \<and> set (mg_seen (merge_view ext v m)) = set (view_keys v) \<union> set (mg_seen m)"
proof -
  let ?m = "m\<lparr>mg_robots := append_once (mg_robots m) (view_robot v)\<rparr>"
  have i: "order_inv ?m" using assms unfolding order_inv_def by (auto simp: distinct_append_once)
  show ?thesis
  proof (cases "pv_ok v")
    case True
    let ?m1 = "?m\<lparr>mg_reachable := mg_reachable m + 1\<rparr>"
    let ?m2 = "fold (merge_node (view_label v) (view_robot v)) (pv_nodes v) ?m1"
    have "order_inv ?m1" by (rule order_view_inv[OF _ i]) (simp add: order_view_def)
    note n = merge_nodes_inv[OF this, of "view_robot v" "view_label v" "pv_nodes v"]
    have "order_view (merge_view ext v m) = order_view ?m2"
      using True fold_keep[of order_view "merge_topic ext (view_label v) (view_robot v)"]
      by (simp add: merge_view_def Let_def merge_frames_order merge_topic_order)
        (simp add: order_view_def merge_topic_order[unfolded order_view_def])
    with n True show ?thesis
      using order_view_inv[of ?m2 "merge_view ext v m"] order_view_D[of "merge_view ext v m" ?m2] by (auto simp: view_keys_def)
  next
    case False
    let ?m1 = "report ''error'' ''FLEET01'' ''%s is not answering on %s: %s''
                   [GStr (view_label v), GStr (p_url (pv_peer v)), GStr (pv_err v)] ?m"
    have "order_inv ?m1" by (rule order_view_inv[OF _ i]) simp
    from add_node_inv[OF this, of "view_robot v" "view_label v"] False show ?thesis
      by (simp add: merge_view_def Let_def view_keys_def)
  qed
qed

lemma merge_views_inv:
  "order_inv (merge_views ext vs) \<and> set (mg_seen (merge_views ext vs)) = (\<Union>v \<in> set vs. set (view_keys v))"
proof -
  have "order_inv m \<Longrightarrow> order_inv (fold (merge_view ext) vs m)
    \<and> set (mg_seen (fold (merge_view ext) vs m)) = (\<Union>v \<in> set vs. set (view_keys v)) \<union> set (mg_seen m)" for m
    by (induction vs arbitrary: m) (auto simp: merge_view_inv)
  moreover have "order_inv (merge_start :: 'a merge)" by (simp add: order_inv_def merge_start_def)
  ultimately show ?thesis by (fastforce simp: merge_views_def merge_start_def)
qed

lemma bringup_order_perm:
  "distinct nodes \<Longrightarrow> mset (fst (bringup_order nodes deps)) = mset nodes"
  using fifo.order_perm[OF bringup_started[of nodes deps]] by (simp add: bringup_order_def Let_def)

text \<open>The merged bringup order leaves out no process and repeats no node: it holds each node of
  each answering process, and each process that does not answer, exactly once.
\<close>
theorem fleet_order_exact:
  "distinct (fl_order (merge_fleet external views))
   \<and> set (fl_order (merge_fleet external views)) = (\<Union>v \<in> set views. set (view_keys v))"
proof -
  let ?m = "merge_views external views"
  have inv: "order_inv ?m" and seen: "set (mg_seen ?m) = (\<Union>v \<in> set views. set (view_keys v))"
    using merge_views_inv[of external views] by auto
  let ?o = "\<lambda>r. fst (bringup_order (mg_order ?m r) (mg_deps ?m))"
  have perm: "mset (?o r) = mset (mg_order ?m r)" for r
    using bringup_order_perm inv by (auto simp: order_inv_def)
  then have s: "set (?o r) = set (mg_order ?m r)" "distinct (?o r)" for r
    using inv mset_eq_setD[OF perm] mset_eq_imp_distinct_iff[OF perm] by (auto simp: order_inv_def)
  have o: "fl_order (merge_fleet external views) = concat (map ?o (sort (mg_robots ?m)))"
    by (simp add: merge_fleet_def Let_def fleet_robot_of_def comp_def)
  have "distinct (concat (map ?o (sort (mg_robots ?m))))"
    by (rule distinct_concat_map) (use inv s in \<open>auto simp: order_inv_def\<close>)
  moreover have "(\<Union>r \<in> set (mg_robots ?m). set (mg_order ?m r)) = set (mg_seen ?m)"
    using inv unfolding order_inv_def by blast
  ultimately show ?thesis unfolding o using seen s by simp
qed

section \<open>Counts of the merge\<close>

text \<open>The deployment's count of a topic is not what was sent: a process serves one total for a topic,
  and the merge adds it once for each of the process's nodes that publish it.
\<close>
theorem fleet_sent_multiplied:
  assumes "pv_ok v" and "pv_topics v = topic_views es" and "t \<in> set (fl_topics (merge_fleet external [v]))"
  shows "ft_sent t = of_nat (card (e_node ` {e \<in> set es. is_pub (ft_name t) e}))
    * sum_list (map e_counts (filter (is_pub (ft_name t)) es))"
proof -
  let ?cs = "concat (map contributions [v])"
  obtain r n where t: "t = finish_topic (topic_of external r n ?cs)" "of_topic r n ?cs \<noteq> []"
    using assms(3) by (auto simp: set_fl_topics simp del: concat.simps list.map)
  have cs: "?cs = map (\<lambda>t. (view_robot v, view_label v, t)) (topic_views es)" using assms(1,2) by (simp add: contributions_def)
  have f: "filter (\<lambda>t. tp_name t = n) (topic_views es) = [x]"
    if x: "x \<in> set (topic_views es)" "tp_name x = n" for x
  proof -
    obtain xs ys where s: "topic_views es = xs @ x # ys" using split_list[OF x(1)] by blast
    then have "n \<notin> tp_name ` set xs" "n \<notin> tp_name ` set ys" using topic_views_names[of es] x(2) by auto
    then have "filter (\<lambda>t. tp_name t = n) xs = []" "filter (\<lambda>t. tp_name t = n) ys = []"
      by (auto simp: filter_empty_conv)
    then show ?thesis using s x(2) by simp
  qed
  have "view_robot v = r" and "\<exists>x \<in> set (topic_views es). tp_name x = n"
    using t(2) unfolding cs by (auto simp: of_topic_def filter_empty_conv)
  then obtain x where x: "x \<in> set (topic_views es)" "tp_name x = n" by blast
  have "of_topic r n ?cs = [(r, view_label v, x)]"
    unfolding cs using f[OF x] \<open>view_robot v = r\<close> by (simp add: of_topic_def filter_map comp_def)
  then have s: "ft_sent t = of_nat (length (tp_pubs x)) * tp_sent x" "ft_name t = n"
    unfolding t(1) finish_topic_fields topic_of_fields by simp_all
  have "views_topic es x" using in_topic_views[OF x(1)] by simp
  then have "distinct (tp_pubs x)" "set (tp_pubs x) = e_node ` {e \<in> set es. is_pub n e}"
    and "tp_sent x = sum_list (map e_counts (filter (is_pub n) es))"
    using x(2) by (auto simp: views_topic_def foldl_append_once_set foldl_append_once_distinct)
  then show ?thesis using s by (metis distinct_card)
qed

section \<open>Missing publishers and processes that are down\<close>

text \<open>The findings of one code, as the fold over the processes adds them.\<close>

definition coded :: "string \<Rightarrow> 'p merge \<Rightarrow> finding list" where
  "coded c m = filter (\<lambda>f. fd_code f = c) (mg_findings m)"

lemma coded_report [simp]:
  "coded c (report s c' f a m) = coded c m @ (if c' = c then [\<lparr>fd_severity = s, fd_code = c', fd_msg = Errorf f a\<rparr>] else [])"
  by (simp add: coded_def report_def)

lemma coded_update [simp]:
  "coded c (m\<lparr>mg_robots := x1\<rparr>) = coded c m" "coded c (m\<lparr>mg_reachable := x2\<rparr>) = coded c m"
  "coded c (m\<lparr>mg_missions := x3\<rparr>) = coded c m" "coded c (m\<lparr>mg_frames := x4\<rparr>) = coded c m" "coded c (m\<lparr>mg_frames := x4, mg_page_frames := x5\<rparr>) = coded c m"
  "coded c (m\<lparr>mg_robots := x1, mg_reachable := x2\<rparr>) = coded c m"
  "coded c (m\<lparr>mg_topics := x6, mg_deps := x7\<rparr>) = coded c m" "coded c (add_node r k m) = coded c m"
  by (simp_all add: coded_def add_node_def)

lemma coded_parts:
  "c \<notin> {''FLEET02'', ''FLEET03''} \<Longrightarrow> coded c (merge_node l r n m) = coded c m"
  "c \<noteq> ''FLEET06'' \<Longrightarrow> coded c (merge_frames v r m) = coded c m"
  by (auto simp: merge_node_def merge_frames_def Let_def split: option.splits)

lemma coded_topic: "c \<noteq> ''FLEET05'' \<Longrightarrow> coded c (merge_topic ext l r t m) = coded c m"
proof -
  assume c: "c \<noteq> ''FLEET05''"
  have f: "coded c (snd (merge_fact l ft what seen got m)) = coded c m" for ft what seen got m
    using c by (simp add: merge_fact_def)
  have "coded c (snd (merge_topic_facts l t ft m)) = coded c m" for ft
    by (simp add: merge_topic_facts_def case_prod_beta f)
  then show ?thesis by (simp add: merge_topic_def case_prod_beta Let_def)
qed

definition down_finding :: "'p process_view \<Rightarrow> finding" where
  "down_finding v = \<lparr>fd_severity = ''error'', fd_code = ''FLEET01'', fd_msg = Errorf ''%s is not answering on %s: %s''
     [GStr (view_label v), GStr (p_url (pv_peer v)), GStr (pv_err v)]\<rparr>"

lemma coded_view:
  assumes c: "c \<in> {''FLEET01'', ''FLEET04''}"
  shows "coded c (merge_view ext v m) = coded c m @ (if c = ''FLEET01'' \<and> \<not> pv_ok v then [down_finding v] else [])"
proof -
  have "coded c (merge_node l r n m) = coded c m" "coded c (merge_topic ext l r t m) = coded c m"
    "coded c (merge_frames v r m) = coded c m" for l r n t and m :: "'a merge"
    using c by (auto intro: coded_parts coded_topic)
  then show ?thesis using c by (auto simp: merge_view_def Let_def fold_keep[of "coded c"] down_finding_def)
qed

lemma coded_views:
  assumes "c \<in> {''FLEET01'', ''FLEET04''}"
  shows "coded c (merge_views ext vs) = (if c = ''FLEET01'' then map down_finding (filter (\<lambda>v. \<not> pv_ok v) vs) else [])"
proof -
  have "coded c (fold (merge_view ext) vs m)
      = coded c m @ (if c = ''FLEET01'' then map down_finding (filter (\<lambda>v. \<not> pv_ok v) vs) else [])"
    for m :: "'a merge" by (induction vs arbitrary: m) (auto simp: coded_view[OF assms])
  moreover have "coded c (merge_start :: 'a merge) = []" by (simp add: coded_def merge_start_def)
  ultimately show ?thesis by (simp add: merge_views_def)
qed

lemma reachable_parts:
  "mg_reachable (add_node r k m) = mg_reachable m" "mg_reachable (report s c f a m) = mg_reachable m"
  "mg_reachable (merge_node l r n m) = mg_reachable m" "mg_reachable (merge_frames v r m) = mg_reachable m"
  by (auto simp: add_node_def report_def merge_node_def merge_frames_def Let_def split: option.splits)

lemma reachable_topic: "mg_reachable (merge_topic ext l r t m) = mg_reachable m"
proof -
  have f: "mg_reachable (snd (merge_fact l ft what seen got m)) = mg_reachable m" for ft what seen got m
    by (simp add: merge_fact_def reachable_parts)
  have "mg_reachable (snd (merge_topic_facts l t ft m)) = mg_reachable m" for ft
    by (simp add: merge_topic_facts_def case_prod_beta f)
  then show ?thesis by (simp add: merge_topic_def case_prod_beta Let_def)
qed

lemma reachable_views: "mg_reachable (merge_views ext vs) = length (filter pv_ok vs)"
proof -
  have "mg_reachable (merge_view ext v m) = mg_reachable m + (if pv_ok v then 1 else 0)"
    for v :: "'a process_view" and m
    by (simp add: merge_view_def Let_def reachable_parts reachable_topic fold_keep[of mg_reachable])
  then have "mg_reachable (fold (merge_view ext) vs m) = mg_reachable m + length (filter pv_ok vs)" for m
    by (induction vs arbitrary: m) auto
  then show ?thesis by (simp add: merge_views_def merge_start_def)
qed

definition answers :: "'p fetched \<Rightarrow> bool" where
  "answers r \<longleftrightarrow> (\<exists>latency status s. r = Answered latency 200 status (Inr s))"

lemma fetch_peer_view: "pv_peer (fetch_peer p r) = p" "pv_ok (fetch_peer p r) \<longleftrightarrow> answers r"
  by (auto simp: fetch_peer_def answers_def Let_def split: fetched.split sum.split)

text \<open>Nothing is quietly left out: the merged state has one process for every peer, in the order of
  the peers; it counts as reachable those whose answer arrived with status 200 and decoded; and it
  has an error (\<^verbatim>\<open>FLEET01\<close>) for each of the others, naming it, and for nothing else.\<close>

theorem fleet_reports_down:
  "map pv_peer (fl_processes (fleet_with fetch external peers)) = peers
   \<and> fl_reachable (fleet_with fetch external peers) = length (filter (\<lambda>p. answers (fetch p)) peers)
   \<and> {f \<in> set (fl_findings (fleet_with fetch external peers)). fd_code f = ''FLEET01''}
     = {down_finding (fetch_peer p (fetch p)) | p. p \<in> set peers \<and> \<not> answers (fetch p)}"
proof -
  define views where "views = map (\<lambda>p. fetch_peer p (fetch p)) peers"
  have "fd_code (unpublished_finding t) \<noteq> ''FLEET01''" for t by (simp add: unpublished_finding_def)
  then have "{f \<in> set (fl_findings (merge_fleet external views)). fd_code f = ''FLEET01''}
      = set (coded ''FLEET01'' (merge_views external views))"
    by (auto simp: in_findings coded_def)
  also have "\<dots> = down_finding ` {v \<in> set views. \<not> pv_ok v}" by (auto simp: coded_views)
  also have "\<dots> = {down_finding (fetch_peer p (fetch p)) | p. p \<in> set peers \<and> \<not> answers (fetch p)}"
    by (auto simp: views_def fetch_peer_view)
  moreover have "fl_processes (merge_fleet external views) = views"
    "fl_reachable (merge_fleet external views) = length (filter pv_ok views)"
    by (simp_all add: merge_fleet_def Let_def reachable_views)
  ultimately show ?thesis
    unfolding fleet_with_def views_def[symmetric]
    by (simp add: views_def fetch_peer_view comp_def filter_map)
qed

definition reports :: "(topic_view \<Rightarrow> string list) \<Rightarrow> string \<Rightarrow> string \<Rightarrow> 'p process_view \<Rightarrow> bool" where
  "reports ends r n v \<longleftrightarrow> pv_ok v \<and> view_robot v = r \<and> (\<exists>t \<in> set (pv_topics v). tp_name t = n \<and> ends t \<noteq> [])"

lemma topic_of_ends:
  "ft_pubs (topic_of ext r n (concat (map contributions vs))) \<noteq> [] \<longleftrightarrow> (\<exists>v \<in> set vs. reports tp_pubs r n v)"
  "ft_subs (topic_of ext r n (concat (map contributions vs))) \<noteq> [] \<longleftrightarrow> (\<exists>v \<in> set vs. reports tp_subs r n v)"
  unfolding topic_of_fields reports_def of_topic_def
  by (auto simp: contributions_def split: if_splits; blast)+

text \<open>A topic is reported as unpublished (\<^verbatim>\<open>FLEET04\<close>) exactly when some answering process of a robot
  subscribes to it, no answering process of that robot publishes it, and the application does not
  declare it as coming from outside.
\<close>
theorem fleet_unpublished_exact:
  "(\<exists>f \<in> set (fl_findings (merge_fleet external views)). fd_code f = ''FLEET04'') \<longleftrightarrow>
   (\<exists>r n. \<not> external n \<and> (\<exists>v \<in> set views. reports tp_subs r n v) \<and> \<not> (\<exists>v \<in> set views. reports tp_pubs r n v))"
proof -
  let ?cs = "concat (map contributions views)"
  have "(\<exists>f \<in> set (fl_findings (merge_fleet external views)). fd_code f = ''FLEET04'')
    \<longleftrightarrow> (\<exists>t \<in> set (fl_topics (merge_fleet external views)). unpublished t)"
  proof -
    have "fd_code (unpublished_finding t) = ''FLEET04''" for t by (simp add: unpublished_finding_def)
    then show ?thesis using coded_views[of "''FLEET04''" external views]
      unfolding Bex_def in_findings coded_def by (auto simp: filter_empty_conv)
  qed
  also have "\<dots> \<longleftrightarrow> (\<exists>r n. of_topic r n ?cs \<noteq> [] \<and> unpublished (finish_topic (topic_of external r n ?cs)))"
    unfolding set_fl_topics by blast
  also have "\<dots> \<longleftrightarrow> (\<exists>r n. unpublished (topic_of external r n ?cs))"
  proof -
    have "ft_subs (topic_of external r n ?cs) \<noteq> [] \<Longrightarrow> of_topic r n ?cs \<noteq> []" for r n
      unfolding topic_of_fields by (cases "of_topic r n ?cs") simp_all
    moreover have "unpublished (finish_topic t) = unpublished t" for t
      unfolding unpublished_def finish_topic_fields(8)
      by (metis finish_topic_fields(6,7) length_0_conv)
    ultimately show ?thesis by (metis unpublished_def)
  qed
  also have "\<dots> \<longleftrightarrow> (\<exists>r n. \<not> external n \<and> (\<exists>v \<in> set views. reports tp_subs r n v) \<and> \<not> (\<exists>v \<in> set views. reports tp_pubs r n v))"
  proof -
    have "unpublished (topic_of external r n ?cs) \<longleftrightarrow>
      \<not> external n \<and> (\<exists>v \<in> set views. reports tp_subs r n v) \<and> \<not> (\<exists>v \<in> set views. reports tp_pubs r n v)" for r n
      using topic_of_ends[of external r n views] unfolding unpublished_def topic_of_fields(3) by blast
    then show ?thesis by simp
  qed
  finally show ?thesis .
qed

section \<open>A deployment of two processes\<close>

definition sample_pub :: "string \<Rightarrow> endpoint_info" where
  "sample_pub node = \<lparr>e_node = node, e_kind = EndpointPub, e_field = ''Diag'', e_name = ''/diag'', e_type = ''d/D'', e_qos = [],
     e_rate = [], e_frame = [], e_count = None, e_detail = None, e_counts = 3\<rparr>"

definition active_node_view :: "string \<Rightarrow> node_view" where
  "active_node_view n = \<lparr>nv_name = n, nv_state = ''active'', nv_processed = 0, nv_dropped = 0, nv_mailbox_depth = 0,
     nv_mailbox_cap = 64, nv_endpoints = [], nv_params = [], nv_depends_on = []\<rparr>"

definition sample_view :: "nat process_view" where
  "sample_view = \<lparr>pv_peer = \<lparr>p_name = ''robot'', p_host = [], p_url = ''u'', p_robot = []\<rparr>, pv_ok = True, pv_err = [],
     pv_latency = 0, pv_app = blank_app_view, pv_nodes = [active_node_view ''a''], pv_frames = [],
     pv_topics = topic_views [sample_pub ''a'', sample_pub ''b''], pv_missions = []\<rparr>"

lemma fleet_sent_multiplied_witness:
  "map ft_sent (fl_topics (merge_fleet (\<lambda>_. False) [sample_view])) = [12]"
proof -
  let ?es = "[sample_pub ''a'', sample_pub ''b'']" and ?ts = "fl_topics (merge_fleet (\<lambda>_. False) [sample_view])"
  have "map ft_name ?ts = [''/diag'']" by code_simp
  then obtain t where ts: "?ts = [t]" and n: "ft_name t = ''/diag''" by auto
  have "pv_ok sample_view" "pv_topics sample_view = topic_views ?es" by (simp_all add: sample_view_def)
  moreover have "t \<in> set ?ts" unfolding ts by simp
  ultimately have "ft_sent t = of_nat (card (e_node ` {e \<in> set ?es. is_pub (ft_name t) e}))
      * sum_list (map e_counts (filter (is_pub (ft_name t)) ?es))" by (rule fleet_sent_multiplied)
  moreover have "{e \<in> set ?es. is_pub ''/diag'' e} = set ?es" by (auto simp: sample_pub_def is_pub_def)
  ultimately show ?thesis unfolding ts n by (simp add: sample_pub_def is_pub_def n)
qed

lemma fleet_edges_stay_on_robot_witness:
  "\<exists>t e. t \<in> set (fl_topics (merge_fleet (\<lambda>_. False) [sample_view])) \<and> e \<in> set (ft_pubs t)
     \<and> (\<exists>v \<in> {sample_view}. view_label v = fe_process e)"
proof -
  let ?t = "hd (fl_topics (merge_fleet (\<lambda>_. False) [sample_view]))" and ?e = "hd (ft_pubs (hd (fl_topics (merge_fleet (\<lambda>_. False) [sample_view]))))"
  have ne: "fl_topics (merge_fleet (\<lambda>_. False) [sample_view]) \<noteq> []" "ft_pubs ?t \<noteq> []" by code_simp+
  then have "?t \<in> set (fl_topics (merge_fleet (\<lambda>_. False) [sample_view]))" "?e \<in> set (ft_pubs ?t) \<union> set (ft_subs ?t)"
    by simp_all
  from fleet_edges_stay_on_robot[OF this] show ?thesis using ne by (intro exI[of _ ?t] exI[of _ ?e]) auto
qed

end
