(* ===== verification/Go_Net.thy ===== *)
theory Go_Net
imports Go_Prelude
begin

text \<open>
  The functions of packages \<^verbatim>\<open>path\<close> and \<^verbatim>\<open>net\<close> that deployment uses, with their documented
  behaviour: \<^verbatim>\<open>path.Clean\<close> and \<^verbatim>\<open>path.Join\<close> (\<^verbatim>\<open>filepath.Join\<close> is the same on Unix),
  \<^verbatim>\<open>net.SplitHostPort\<close> and \<^verbatim>\<open>net.JoinHostPort\<close>; and the wrap-around of a 64-bit sum.
\<close>

section \<open>Paths\<close>

text \<open>\<open>stack\<close> holds the elements kept so far, the last first.\<close>

definition clean_step :: "bool \<Rightarrow> string list \<Rightarrow> string \<Rightarrow> string list" where
  "clean_step rooted stack c =
     (if c = [] \<or> c = ''.'' then stack
      else if c = ''..'' then
        (case stack of
           [] \<Rightarrow> if rooted then [] else [''..'']
         | x # xs \<Rightarrow> if x = ''..'' then ''..'' # stack else xs)
      else c # stack)"

definition path_clean :: "string \<Rightarrow> string" where
  "path_clean p =
     (let rooted = (p \<noteq> [] \<and> hd p = CHR ''/'');
          r = (if rooted then ''/'' else []) @ join ''/'' (rev (foldl (clean_step rooted) [] (split_on CHR ''/'' p)))
      in if r = [] then ''.'' else r)"

definition path_join :: "string list \<Rightarrow> string" where
  "path_join es = (case filter (\<lambda>e. e \<noteq> []) es of [] \<Rightarrow> [] | es \<Rightarrow> path_clean (join ''/'' es))"

text \<open>\<^verbatim>\<open>filepath.Base\<close> and \<^verbatim>\<open>filepath.IsAbs\<close>.\<close>

definition path_base :: "string \<Rightarrow> string" where
  "path_base p =
     (if p = [] then ''.''
      else let q = rev (dropWhile (\<lambda>c. c = CHR ''/'') (rev p));
               b = rev (takeWhile (\<lambda>c. c \<noteq> CHR ''/'') (rev q))
           in if b = [] then ''/'' else b)"

definition path_abs :: "string \<Rightarrow> bool" where
  "path_abs p \<longleftrightarrow> p \<noteq> [] \<and> hd p = CHR ''/''"

section \<open>Host and port\<close>

definition split_last :: "char \<Rightarrow> string \<Rightarrow> (string \<times> string) option" where
  "split_last c s =
     (if c \<in> set s then Some (rev (tl (dropWhile (\<lambda>x. x \<noteq> c) (rev s))), rev (takeWhile (\<lambda>x. x \<noteq> c) (rev s)))
      else None)"

definition split_host_port :: "string \<Rightarrow> (string \<times> string) option" where
  "split_host_port s =
     (case split_last CHR '':'' s of
        None \<Rightarrow> None
      | Some (front, port) \<Rightarrow>
          if hd s = CHR ''['' then
            (let host = takeWhile (\<lambda>x. x \<noteq> CHR '']'') (tl s)
             in if CHR '']'' \<in> set s \<and> front = ''['' @ host @ '']'' \<and> CHR ''['' \<notin> set (tl s) \<and> CHR '']'' \<notin> set port
                then Some (host, port) else None)
          else if CHR '':'' \<in> set front \<or> CHR ''['' \<in> set s \<or> CHR '']'' \<in> set s then None
          else Some (front, port))"

definition join_host_port :: "string \<Rightarrow> string \<Rightarrow> string" where
  "join_host_port host port =
     (if CHR '':'' \<in> set host then ''['' @ host @ '']:'' @ port else host @ '':'' @ port)"

lemma split_last_append: "c \<notin> set ys \<Longrightarrow> split_last c (xs @ c # ys) = Some (xs, ys)"
proof -
  assume c: "c \<notin> set ys"
  have "dropWhile (\<lambda>x. x \<noteq> c) (rev ys @ c # rev xs) = c # rev xs" using c by (subst dropWhile_append2) auto
  moreover have "takeWhile (\<lambda>x. x \<noteq> c) (rev ys @ c # rev xs) = rev ys" using c by (subst takeWhile_append2) auto
  ultimately show ?thesis by (simp add: split_last_def)
qed

lemma split_join_host_port:
  assumes "\<forall>c \<in> {CHR '':'', CHR ''['', CHR '']''}. c \<notin> set port"
    and "CHR ''['' \<notin> set host" "CHR '']'' \<notin> set host"
  shows "split_host_port (join_host_port host port) = Some (host, port)"
proof (cases "CHR '':'' \<in> set host")
  case True
  have s: "split_last CHR '':'' (''['' @ host @ '']:'' @ port) = Some (''['' @ host @ '']'', port)"
    using split_last_append[of "CHR '':''" port "''['' @ host @ '']''"] assms(1) by simp
  have "takeWhile (\<lambda>x. x \<noteq> CHR '']'') (host @ CHR '']'' # CHR '':'' # port) = host"
    using assms(3) by (subst takeWhile_append2) auto
  with True s assms show ?thesis by (simp add: split_host_port_def join_host_port_def)
next
  case False
  have "split_last CHR '':'' (host @ '':'' @ port) = Some (host, port)"
    using split_last_append[of "CHR '':''" port host] assms(1) by simp
  moreover have "hd (host @ CHR '':'' # port) \<noteq> CHR ''[''" using assms(2) by (cases host) auto
  ultimately show ?thesis using False assms by (simp add: split_host_port_def join_host_port_def)
qed

lemma join_host_port_inj:
  assumes "\<forall>c \<in> {CHR '':'', CHR ''['', CHR '']''}. c \<notin> set p \<and> c \<notin> set q"
    and "join_host_port h p = join_host_port h q"
  shows "p = q"
  using assms by (simp add: join_host_port_def split: if_splits)

section \<open>Sums of 64 bits\<close>

definition add64 :: "int \<Rightarrow> int \<Rightarrow> int" where
  "add64 a b = (a + b + 2 ^ 63) mod 2 ^ 64 - 2 ^ 63"

lemma wrap_range: "0 \<le> m \<Longrightarrow> m < 2 ^ 64 \<Longrightarrow> min_int \<le> m - 2 ^ 63 \<and> m - 2 ^ 63 \<le> max_int"
  by (simp add: min_int_def max_int_def)

lemma add64_range: "min_int \<le> add64 a b" "add64 a b \<le> max_int"
  using wrap_range[of "(a + b + 2 ^ 63) mod 2 ^ 64"] by (simp_all add: add64_def)

lemma add64_inj:
  assumes "add64 a i = add64 a j" and "0 \<le> i" "0 \<le> j" "i < 2 ^ 64" "j < 2 ^ 64"
  shows "i = j"
proof -
  have "(a + 2 ^ 63 + i) mod 2 ^ 64 = (a + 2 ^ 63 + j) mod 2 ^ 64"
    using assms(1) unfolding add64_def by (simp add: algebra_simps)
  then have "(a + 2 ^ 63 + i - (a + 2 ^ 63)) mod 2 ^ 64 = (a + 2 ^ 63 + j - (a + 2 ^ 63)) mod 2 ^ 64"
    by (rule mod_diff_cong) simp
  then have "i mod 2 ^ 64 = j mod 2 ^ 64" by (simp only: add_diff_cancel_left')
  with assms(2-5) show ?thesis by (simp only: mod_pos_pos_trivial)
qed

lemma add64_small: "min_int \<le> a + b \<Longrightarrow> a + b \<le> max_int \<Longrightarrow> add64 a b = a + b"
proof -
  assume "min_int \<le> a + b" "a + b \<le> max_int"
  moreover have "(2::int) ^ 64 = 2 ^ 63 + 2 ^ 63" by simp
  ultimately have "0 \<le> a + b + 2 ^ 63" "a + b + 2 ^ 63 < 2 ^ 64"
    unfolding min_int_def max_int_def by linarith+
  then have "(a + b + 2 ^ 63) mod 2 ^ 64 = a + b + 2 ^ 63" by (rule mod_pos_pos_trivial)
  then show ?thesis by (simp add: add64_def)
qed

lemma itoa_inj: "min_int \<le> n \<Longrightarrow> n \<le> max_int \<Longrightarrow> min_int \<le> m \<Longrightarrow> m \<le> max_int \<Longrightarrow> itoa n = itoa m \<Longrightarrow> n = m"
  using atoi_itoa by (metis option.inject)

lemma itoa_plain: "c \<in> {CHR '':'', CHR ''['', CHR '']''} \<Longrightarrow> c \<notin> set (itoa n)"
  by (rule itoa_no) (auto simp: digit_val_def)

end
