(* ===== verification/Environments.thy ===== *)
theory Environments
imports App_Model Go_Net "HOL-Library.AList"
begin

text \<open>
  Deployment environments and the robots they run on (\<^verbatim>\<open>internal/scan/environments.go\<close>, and
  \<^verbatim>\<open>resolveFrames\<close> of \<^verbatim>\<open>internal/scan/frames.go\<close>): what \<^verbatim>\<open>environments.json\<close> declares, the checks made
  when it is read, and the application as one environment, on one robot, sees it.

  The frames files are outside the program: \<open>load\<close> is \<^verbatim>\<open>conductor.LoadFrames\<close> of a path, which is
  \<^const>\<open>None\<close> when there is no such file. Decoding \<^verbatim>\<open>environments.json\<close> is not
  modelled: a declaration is the list of its environments, in the order of Go's map.
\<close>

section \<open>Declarations\<close>

record readiness =
  rd_endpoint :: string
  rd_command :: string
  rd_delay :: string

definition readiness_declared :: "readiness \<Rightarrow> bool" where
  "readiness_declared r \<longleftrightarrow> rd_endpoint r \<noteq> [] \<or> rd_command r \<noteq> [] \<or> rd_delay r \<noteq> []"

record required_process =
  rp_name :: string
  rp_run :: string
  rp_dir :: string
  rp_env :: "(string \<times> string) list"
  rp_ready :: readiness
  rp_timeout :: string

record deploy_config =
  dc_host :: string
  dc_goos :: string
  dc_goarch :: string
  dc_tags :: "string list"
  dc_cgo :: bool
  dc_cc :: string
  dc_scope :: string
  dc_prefix :: string
  dc_sudo :: string
  dc_env :: "(string \<times> string) list"
  dc_keep :: int

definition empty_deploy :: deploy_config where
  "empty_deploy = \<lparr>dc_host = [], dc_goos = [], dc_goarch = [], dc_tags = [], dc_cgo = False, dc_cc = [],
     dc_scope = [], dc_prefix = [], dc_sudo = [], dc_env = [], dc_keep = 0\<rparr>"

record robot =
  rb_name :: string
  rb_host :: string
  rb_params :: "string list"
  rb_frames :: string
  rb_domain :: "int option"
  rb_endpoint :: string
  rb_metrics :: string
  rb_dashboard :: string
  rb_prefix :: string
  rb_scope :: string

text \<open>A robot of the list may be a JSON \<^verbatim>\<open>null\<close>, which is \<^const>\<open>None\<close>.\<close>

record environment =
  en_transport :: string
  en_endpoint :: string
  en_domain :: "int option"
  en_params :: "string list"
  en_externals :: "external list"
  en_without :: "string list"
  en_frames :: string
  en_metrics :: string
  en_dashboard :: string
  en_trace :: bool
  en_requires :: "required_process list"
  en_deploy :: "deploy_config option"
  en_robots :: "robot option list"
  en_name :: string

definition empty_env :: environment where
  "empty_env = \<lparr>en_transport = [], en_endpoint = [], en_domain = None, en_params = [], en_externals = [],
     en_without = [], en_frames = [], en_metrics = [], en_dashboard = [], en_trace = False, en_requires = [],
     en_deploy = None, en_robots = [], en_name = []\<rparr>"

text \<open>The application with the fields that environments fill in.\<close>

record 'v env_app =
  ea_app :: "'v app"
  ea_description :: string
  ea_environments :: "(string \<times> environment) list"
  ea_env_names :: "string list"
  ea_default :: string
  ea_env :: "environment option"
  ea_robot :: "robot option"

section \<open>Reading the declarations\<close>

text \<open>The names in \<open>seen\<close> are those of the robots before.\<close>

fun check_robots_from :: "string \<Rightarrow> nat \<Rightarrow> string list \<Rightarrow> robot option list \<Rightarrow> goerror option" where
  "check_robots_from env i seen [] = None"
| "check_robots_from env i seen (None # rs) =
     Some (Errorf ''environment %q: robot %d is empty'' [GStr env, GInt (int i)])"
| "check_robots_from env i seen (Some r # rs) =
     (if rb_name r = [] then Some (Errorf ''environment %q: robot %d has no name'' [GStr env, GInt (int i)])
      else if rb_name r \<in> set seen
      then Some (Errorf ''environment %q: two robots are named %q'' [GStr env, GStr (rb_name r)])
      else check_robots_from env (i + 1) (seen @ [rb_name r]) rs)"

definition check_robots :: "environment \<Rightarrow> goerror option" where
  "check_robots env = check_robots_from (en_name env) 0 [] (en_robots env)"

definition first_error :: "('a \<Rightarrow> goerror option) \<Rightarrow> 'a list \<Rightarrow> goerror option" where
  "first_error f xs = (case filter (\<lambda>e. e \<noteq> None) (map f xs) of [] \<Rightarrow> None | e # _ \<Rightarrow> e)"

text \<open>\<open>decl\<close> is the decoded file: an environment may be \<^verbatim>\<open>null\<close>.\<close>

definition load_environments :: "string \<Rightarrow> (string \<times> environment option) list \<Rightarrow> 'v env_app \<Rightarrow> 'v env_app result" where
  "load_environments default_name decl app =
     (let envs = map (\<lambda>(name, e). (name, (case e of None \<Rightarrow> empty_env | Some e \<Rightarrow> e)\<lparr>en_name := name\<rparr>)) decl;
          app = app\<lparr>ea_environments := envs, ea_env_names := sort (ea_env_names app @ map fst envs), ea_default := default_name\<rparr>
      in if default_name \<noteq> [] \<and> map_of envs default_name = None
         then Inl (Errorf ''environments.json: default environment %q is not declared'' [GStr default_name])
         else case first_error (\<lambda>n. case map_of envs n of None \<Rightarrow> None | Some e \<Rightarrow> check_robots e) (ea_env_names app) of
           Some e \<Rightarrow> Inl (Errorf ''environments.json: %w'' [GErr e])
         | None \<Rightarrow> Inr app)"

definition robots_of :: "environment \<Rightarrow> robot list" where
  "robots_of env = List.map_filter id (en_robots env)"

definition robot_names :: "environment \<Rightarrow> string list" where
  "robot_names env = map rb_name (robots_of env)"

definition robot_by_name :: "environment \<Rightarrow> string \<Rightarrow> robot result" where
  "robot_by_name env name =
     (case find (\<lambda>r. rb_name r = name) (robots_of env) of
        Some r \<Rightarrow> Inr r
      | None \<Rightarrow>
          if en_robots env = []
          then Inl (Errorf ''environment %q declares no robots (add a robots list to environments.json)'' [GStr (en_name env)])
          else Inl (Errorf ''unknown robot %q in environment %q (declared: %s)''
                 [GStr name, GStr (en_name env), GStr (join '', '' (robot_names env))]))"

section \<open>Resolving\<close>

type_synonym 'v frames_files = "string \<Rightarrow> 'v frame_tree option result"

definition resolve_frames :: "'v frames_files \<Rightarrow> 'v app \<Rightarrow> string \<Rightarrow> string \<Rightarrow> 'v env_app \<Rightarrow> 'v env_app result" where
  "resolve_frames load app env_name frames_name out =
     (if frames_name = [] then Inr out
      else bind_result (load (path_join [app_dir app, frames_name])) (\<lambda>tree.
        case tree of
          None \<Rightarrow> Inl (Errorf ''environment %q names frames file %s, which does not exist''
                    [GStr env_name, GStr (path_join [app_dir app, frames_name])])
        | Some t \<Rightarrow> Inr (out\<lparr>ea_app := (ea_app out)\<lparr>app_frames := Some t, frames_file := frames_name\<rparr>\<rparr>)))"

definition external_key :: "external \<Rightarrow> string \<times> string" where
  "external_key e = (ex_topic e, ex_role e)"

text \<open>The index of \<^verbatim>\<open>mergeExternals\<close>, by topic and role; the code joins the two with a zero byte.\<close>

definition merge_base :: "string list \<Rightarrow> external \<Rightarrow> external list \<times> (string \<times> string \<Rightarrow> nat option)
    \<Rightarrow> external list \<times> (string \<times> string \<Rightarrow> nat option)" where
  "merge_base without e = (\<lambda>(out, ix).
     if ex_topic e \<in> set without then (out, ix) else (out @ [e], ix(external_key e \<mapsto> length out)))"

definition merge_over :: "external \<Rightarrow> external list \<times> (string \<times> string \<Rightarrow> nat option)
    \<Rightarrow> external list \<times> (string \<times> string \<Rightarrow> nat option)" where
  "merge_over e = (\<lambda>(out, ix).
     case ix (external_key e) of
       Some i \<Rightarrow> (out[i := e], ix)
     | None \<Rightarrow> (out @ [e], ix(external_key e \<mapsto> length out)))"

definition merge_externals :: "external list \<Rightarrow> environment \<Rightarrow> external list" where
  "merge_externals base env =
     fst (fold merge_over (en_externals env) (fold (merge_base (en_without env)) base ([], Map.empty)))"

definition resolve_env :: "'v frames_files \<Rightarrow> 'v env_app \<Rightarrow> string \<Rightarrow> 'v env_app result" where
  "resolve_env load a name0 =
     (let name = (if name0 = [] then ea_default a else name0)
      in if name = [] then Inr a
         else case map_of (ea_environments a) name of
           None \<Rightarrow>
             if ea_env_names a = []
             then Inl (Errorf ''environment %q selected but the app declares none (add environments.json)'' [GStr name])
             else Inl (Errorf ''unknown environment %q (declared: %s)'' [GStr name, GStr (join '', '' (ea_env_names a))])
         | Some env \<Rightarrow>
             resolve_frames load (ea_app a) (en_name env) (en_frames env)
               (a\<lparr>ea_env := Some env,
                  ea_app := (ea_app a)\<lparr>externals := merge_externals (externals (ea_app a)) env\<rparr>\<rparr>))"

definition override :: "string \<Rightarrow> string \<Rightarrow> string" where
  "override old new = (if new \<noteq> [] then new else old)"

text \<open>The environment of one robot. The application must have been resolved: a \<^verbatim>\<open>nil\<close> environment
  would panic in the code, and the callers have made sure there is one.\<close>

definition robot_deploy :: "environment \<Rightarrow> robot \<Rightarrow> deploy_config" where
  "robot_deploy env r =
     (let d = (case en_deploy env of None \<Rightarrow> empty_deploy | Some d \<Rightarrow> d)
      in d\<lparr>dc_host := override (dc_host d) (rb_host r), dc_prefix := override (dc_prefix d) (rb_prefix r),
           dc_scope := override (dc_scope d) (rb_scope r)\<rparr>)"

definition robot_env :: "environment \<Rightarrow> robot \<Rightarrow> environment" where
  "robot_env env r =
     env\<lparr>en_robots := [],
         en_domain := (if rb_domain r \<noteq> None then rb_domain r else en_domain env),
         en_endpoint := override (en_endpoint env) (rb_endpoint r),
         en_metrics := override (en_metrics env) (rb_metrics r),
         en_dashboard := override (en_dashboard env) (rb_dashboard r),
         en_params := en_params env @ rb_params r,
         en_deploy := Some (robot_deploy env r)\<rparr>"

definition for_robot :: "'v frames_files \<Rightarrow> 'v env_app \<Rightarrow> environment \<Rightarrow> robot \<Rightarrow> 'v env_app result" where
  "for_robot load a env r =
     resolve_frames load (ea_app a) (en_name env) (rb_frames r)
       (a\<lparr>ea_env := Some (robot_env env r), ea_robot := Some r\<rparr>)"

definition resolve_robot :: "'v frames_files \<Rightarrow> 'v env_app \<Rightarrow> string \<Rightarrow> string \<Rightarrow> 'v env_app result" where
  "resolve_robot load a env_name robot_name =
     bind_result (resolve_env load a env_name) (\<lambda>a'.
       if robot_name = [] then Inr a'
       else case ea_env a' of
         None \<Rightarrow> Inl (Errorf ''robot %q selected but no environment is declared'' [GStr robot_name])
       | Some env \<Rightarrow> bind_result (robot_by_name env robot_name) (for_robot load a' env))"

definition app_robots :: "'v env_app \<Rightarrow> robot list" where
  "app_robots a = (case ea_env a of None \<Rightarrow> [] | Some env \<Rightarrow> robots_of env)"

definition external_topics :: "'v env_app \<Rightarrow> string \<Rightarrow> bool" where
  "external_topics a t \<longleftrightarrow>
     (\<exists>e \<in> set (externals (ea_app a)). (ex_role e = ''publisher'' \<or> ex_role e = ''subscriber'') \<and> ex_topic e = t)"

section \<open>Properties\<close>

lemma check_robots_ok:
  "check_robots_from env i seen rs = None \<Longrightarrow>
     None \<notin> set rs \<and> distinct (map rb_name (List.map_filter id rs)) \<and> [] \<notin> rb_name ` set (List.map_filter id rs)
   \<and> set seen \<inter> rb_name ` set (List.map_filter id rs) = {}"
  by (induction env i seen rs rule: check_robots_from.induct) (auto simp: map_filter_simps split: if_splits)

lemma first_error_None: "first_error f xs = None \<longleftrightarrow> (\<forall>x \<in> set xs. f x = None)"
proof (cases "filter (\<lambda>e. e \<noteq> None) (map f xs)")
  case Nil
  then show ?thesis by (auto simp: first_error_def filter_empty_conv)
next
  case (Cons e es)
  then have "e \<in> set (filter (\<lambda>e. e \<noteq> None) (map f xs))" by (metis list.set_intros(1))
  then have "e \<noteq> None" "\<exists>x \<in> set xs. f x = e" by auto
  with Cons show ?thesis unfolding first_error_def by auto
qed

lemma find_distinct: "distinct (map f xs) \<Longrightarrow> x \<in> set xs \<Longrightarrow> find (\<lambda>y. f y = f x) xs = Some x"
  by (induction xs) auto

lemma loaded:
  assumes "load_environments d decl app0 = Inr app" and "distinct (map fst decl)" and "(n, env) \<in> set (ea_environments app)"
  shows "en_name env = n \<and> check_robots env = None \<and> (d \<noteq> [] \<longrightarrow> d \<in> fst ` set (ea_environments app))"
proof -
  define envs where "envs = map (\<lambda>(name, e). (name, (case e of None \<Rightarrow> empty_env | Some e \<Rightarrow> e)\<lparr>en_name := name\<rparr>)) decl"
  have keys: "map fst envs = map fst decl" by (auto simp: envs_def)
  have app: "ea_environments app = envs" "set (ea_env_names app) = set (ea_env_names app0) \<union> fst ` set envs"
    and err: "first_error (\<lambda>n. case map_of envs n of None \<Rightarrow> None | Some e \<Rightarrow> check_robots e) (ea_env_names app) = None"
    and def: "\<not> (d \<noteq> [] \<and> map_of envs d = None)"
    using assms(1) unfolding load_environments_def Let_def envs_def[symmetric]
    by (auto simp: image_iff split: if_splits option.splits) force+
  have "map_of envs n = Some env" using assms(2,3) keys app(1) by (simp add: map_of_eq_Some_iff)
  then have "check_robots env = None" using err app assms(3) unfolding first_error_None by (force simp: image_iff)
  moreover have "en_name env = n" using assms(3) app(1) by (auto simp: envs_def)
  moreover have "d \<noteq> [] \<longrightarrow> d \<in> fst ` set (ea_environments app)" using def app(1) unfolding map_of_eq_None_iff by blast
  ultimately show ?thesis by blast
qed

text \<open>What is accepted can be addressed: in an application whose environments were read without an
  error the default environment is declared, and in each environment every robot has a name and is
  the one found by that name.
\<close>
theorem loaded_robots_found:
  assumes "load_environments d decl app0 = Inr app" and "distinct (map fst decl)"
    and "(n, env) \<in> set (ea_environments app)" and "r \<in> set (robots_of env)"
  shows "rb_name r \<noteq> [] \<and> robot_by_name env (rb_name r) = Inr r \<and> length (robots_of env) = length (en_robots env)
    \<and> (d \<noteq> [] \<longrightarrow> d \<in> fst ` set (ea_environments app))"
proof -
  note l = loaded[OF assms(1-3)]
  then have c: "None \<notin> set (en_robots env)" "distinct (map rb_name (robots_of env))" "[] \<notin> rb_name ` set (robots_of env)"
    using check_robots_ok[of "en_name env" 0 "[]" "en_robots env"] by (auto simp: check_robots_def robots_of_def)
  have "length (List.map_filter id rs) = length rs" if "None \<notin> set rs" for rs :: "robot option list"
    using that
  proof (induction rs)
    case (Cons a rs)
    then show ?case by (cases a) (auto simp: map_filter_simps)
  qed (simp add: map_filter_simps)
  then have "length (robots_of env) = length (en_robots env)" using c(1) by (simp add: robots_of_def)
  moreover have "rb_name r \<noteq> []" using c(3) assms(4) by (metis image_eqI)
  moreover have "robot_by_name env (rb_name r) = Inr r" using find_distinct[OF c(2) assms(4)] by (simp add: robot_by_name_def)
  ultimately show ?thesis using l by blast
qed

definition external_at :: "external list \<Rightarrow> string \<times> string \<Rightarrow> external option" where
  "external_at es k = find (\<lambda>e. external_key e = k) es"

definition indexed :: "external list \<times> (string \<times> string \<Rightarrow> nat option) \<Rightarrow> bool" where
  "indexed = (\<lambda>(out, ix). distinct (map external_key out)
     \<and> (\<forall>k i. ix k = Some i \<longleftrightarrow> i < length out \<and> external_key (out ! i) = k))"

lemma external_at_key: "external_at es k = Some e \<Longrightarrow> external_key e = k \<and> e \<in> set es"
  by (auto simp: external_at_def find_Some_iff)

lemma external_at_append: "external_at (xs @ ys) k = (case external_at xs k of Some e \<Rightarrow> Some e | None \<Rightarrow> external_at ys k)"
  by (induction xs) (auto simp: external_at_def)

lemma external_at_single: "external_at [e] k = (if k = external_key e then Some e else None)"
  by (auto simp: external_at_def)

lemma external_at_None: "external_at es k = None \<longleftrightarrow> k \<notin> external_key ` set es"
  by (auto simp: external_at_def find_None_iff)

lemma external_at_update:
  "i < length es \<Longrightarrow> distinct (map external_key es) \<Longrightarrow> external_key (es ! i) = external_key e \<Longrightarrow>
   external_at (es[i := e]) k = (if k = external_key e then Some e else external_at es k)"
proof (induction es arbitrary: i)
  case (Cons x es)
  show ?case
  proof (cases i)
    case 0
    then show ?thesis using Cons.prems by (simp add: external_at_def)
  next
    case (Suc j)
    then have "external_key e \<in> external_key ` set es" using Cons.prems by (auto simp: image_iff intro!: bexI[of _ "es ! j"])
    then have "external_key x \<noteq> external_key e" using Cons.prems by auto
    with Suc Cons show ?thesis by (auto simp: external_at_def)
  qed
qed simp

lemma indexed_append: "indexed (out, ix) \<Longrightarrow> ix (external_key e) = None \<Longrightarrow> indexed (out @ [e], ix(external_key e \<mapsto> length out))"
proof -
  assume i: "indexed (out, ix)" and n: "ix (external_key e) = None"
  have "external_key e \<notin> external_key ` set out"
  proof
    assume "external_key e \<in> external_key ` set out"
    then obtain j where "j < length out" "external_key (out ! j) = external_key e" by (auto simp: in_set_conv_nth)
    then have "ix (external_key e) = Some j" using i unfolding indexed_def prod.case by blast
    with n show False by simp
  qed
  then have "external_key (out ! j) \<noteq> external_key e" if "j < length out" for j using that by (metis image_eqI nth_mem)
  with i \<open>external_key e \<notin> _\<close> show ?thesis by (auto simp: indexed_def nth_append less_Suc_eq)
qed

lemma indexed_index: "indexed (out, ix) \<Longrightarrow> ix k = None \<longleftrightarrow> external_at out k = None"
proof -
  assume i: "indexed (out, ix)"
  have "ix k = Some j \<longleftrightarrow> j < length out \<and> external_key (out ! j) = k" for j
    using i unfolding indexed_def prod.case by blast
  then have "ix k = None \<longleftrightarrow> (\<nexists>j. j < length out \<and> external_key (out ! j) = k)" by (metis not_None_eq)
  then show ?thesis unfolding external_at_None by (force simp: set_conv_nth)
qed

lemma merge_base_fold:
  "distinct (map external_key base) \<Longrightarrow> indexed (out, ix) \<Longrightarrow> external_key ` set base \<inter> external_key ` set out = {} \<Longrightarrow>
   \<exists>ix'. fold (merge_base wo) base (out, ix) = (out @ filter (\<lambda>e. ex_topic e \<notin> set wo) base, ix')
     \<and> indexed (out @ filter (\<lambda>e. ex_topic e \<notin> set wo) base, ix')"
proof (induction base arbitrary: out ix)
  case (Cons e base)
  show ?case
  proof (cases "ex_topic e \<in> set wo")
    case True
    then have "merge_base wo e (out, ix) = (out, ix)" by (simp add: merge_base_def)
    with Cons True show ?thesis by simp
  next
    case False
    have "ix (external_key e) = None" using Cons.prems indexed_index[of out ix "external_key e"] by (auto simp: external_at_None)
    from indexed_append[OF Cons.prems(2) this]
    have "indexed (out @ [e], ix(external_key e \<mapsto> length out))" .
    moreover have "merge_base wo e (out, ix) = (out @ [e], ix(external_key e \<mapsto> length out))"
      using False by (simp add: merge_base_def)
    moreover have "distinct (map external_key base)" "external_key ` set base \<inter> external_key ` set (out @ [e]) = {}"
      using Cons.prems by auto
    ultimately obtain ix' where "fold (merge_base wo) base (merge_base wo e (out, ix)) =
        ((out @ [e]) @ filter (\<lambda>e. ex_topic e \<notin> set wo) base, ix')
      \<and> indexed ((out @ [e]) @ filter (\<lambda>e. ex_topic e \<notin> set wo) base, ix')"
      using Cons.IH[of "out @ [e]" "ix(external_key e \<mapsto> length out)"] by metis
    then show ?thesis using False by (intro exI[of _ ix']) simp
  qed
qed simp

lemma merge_over_fold:
  "indexed (out, ix) \<Longrightarrow> \<exists>out' ix'. fold merge_over es (out, ix) = (out', ix') \<and> indexed (out', ix')
     \<and> (\<forall>k. external_at out' k = (case external_at (rev es) k of Some e \<Rightarrow> Some e | None \<Rightarrow> external_at out k))"
proof (induction es arbitrary: out ix)
  case (Cons e es)
  obtain out1 ix1 where m: "merge_over e (out, ix) = (out1, ix1)" by fastforce
  have "indexed (out1, ix1) \<and> (\<forall>k. external_at out1 k = (if k = external_key e then Some e else external_at out k))"
  proof (cases "ix (external_key e)")
    case None
    then have "out1 = out @ [e]" "ix1 = ix(external_key e \<mapsto> length out)" using m by (auto simp: merge_over_def)
    moreover have "external_at out (external_key e) = None" using None indexed_index Cons.prems by blast
    ultimately show ?thesis using indexed_append[OF Cons.prems None]
      by (auto simp: external_at_append external_at_single split: option.splits)
  next
    case (Some i)
    then have u: "out1 = out[i := e]" "ix1 = ix" using m by (auto simp: merge_over_def)
    have i: "i < length out" "external_key (out ! i) = external_key e" "distinct (map external_key out)"
      using Cons.prems Some unfolding indexed_def prod.case by blast+
    have "map external_key (out[i := e]) = map external_key out" using i by (metis list_update_id map_update nth_map)
    moreover from this have "external_key (out[i := e] ! j) = external_key (out ! j)" if "j < length out" for j
      using that by (metis length_list_update nth_map)
    ultimately have "indexed (out1, ix1)" using Cons.prems unfolding u indexed_def by auto
    then show ?thesis using external_at_update[OF i(1,3,2)] u by simp
  qed
  moreover from Cons.IH[of out1 ix1] this obtain out' ix' where "fold merge_over es (out1, ix1) = (out', ix')"
    "indexed (out', ix')" "\<forall>k. external_at out' k = (case external_at (rev es) k of Some e \<Rightarrow> Some e | None \<Rightarrow> external_at out1 k)"
    by blast
  ultimately show ?case
    by (auto simp: m external_at_append external_at_single split: option.splits)
qed (auto simp: external_at_def)

text \<open>An environment overlays the application's externals by topic and role: the merged list has
  one entry for each, which is the environment's last entry if it declares one, and otherwise the
  application's, unless the environment does without that topic.
\<close>
theorem merge_externals_exact:
  assumes "distinct (map external_key base)"
  shows "distinct (map external_key (merge_externals base env))
    \<and> (\<forall>k. external_at (merge_externals base env) k =
         (case external_at (rev (en_externals env)) k of Some e \<Rightarrow> Some e
          | None \<Rightarrow> if fst k \<in> set (en_without env) then None else external_at base k))"
proof -
  have "indexed ([], Map.empty)" by (simp add: indexed_def)
  from merge_base_fold[OF assms this, of "en_without env"] obtain ix where
    b: "fold (merge_base (en_without env)) base ([], Map.empty) = (filter (\<lambda>e. ex_topic e \<notin> set (en_without env)) base, ix)"
    and i: "indexed (filter (\<lambda>e. ex_topic e \<notin> set (en_without env)) base, ix)" by auto
  from merge_over_fold[OF i, of "en_externals env"] obtain out' ix' where
    o: "fold merge_over (en_externals env) (filter (\<lambda>e. ex_topic e \<notin> set (en_without env)) base, ix) = (out', ix')"
    "indexed (out', ix')" "\<forall>k. external_at out' k = (case external_at (rev (en_externals env)) k of Some e \<Rightarrow> Some e
       | None \<Rightarrow> external_at (filter (\<lambda>e. ex_topic e \<notin> set (en_without env)) base) k)" by blast
  have "external_at (filter (\<lambda>e. ex_topic e \<notin> set wo) es) k = (if fst k \<in> set wo then None else external_at es k)" for es wo k
    by (induction es) (auto simp: external_at_def external_key_def)
  note dropped = this[of "en_without env" base]
  have "merge_externals base env = out'" by (simp add: merge_externals_def b o(1))
  moreover have "distinct (map external_key out')" using o(2) by (simp add: indexed_def)
  ultimately show ?thesis using o(3) unfolding dropped by blast
qed

lemma resolve_frames_Inr:
  "resolve_frames load app en fr out = Inr out' \<longleftrightarrow>
     (if fr = [] then out' = out
      else \<exists>t. load (path_join [app_dir app, fr]) = Inr (Some t)
             \<and> out' = out\<lparr>ea_app := (ea_app out)\<lparr>app_frames := Some t, frames_file := fr\<rparr>\<rparr>)"
  by (auto simp: resolve_frames_def bind_result_Inr split: option.splits)

text \<open>The frames file that a robot runs with: its own, or the environment's, or the application's.\<close>

definition frames_choice :: "environment \<Rightarrow> robot \<Rightarrow> string \<Rightarrow> string" where
  "frames_choice env r base = override (override base (en_frames env)) (rb_frames r)"

text \<open>A robot never silently runs with another machine's calibration: when an application is resolved for
  a robot, the frames file it names is loaded, and if neither the robot nor the environment
  names one the application's own tree is kept; a named file that is missing is an error.
\<close>
theorem robot_frames_exact:
  assumes "map_of (ea_environments a) name = Some env" and "name \<noteq> []" and "rname \<noteq> []"
    and "resolve_robot load a name rname = Inr a'"
  shows "\<exists>r. robot_by_name env rname = Inr r \<and> ea_robot a' = Some r \<and> ea_env a' = Some (robot_env env r)
    \<and> frames_file (ea_app a') = frames_choice env r (frames_file (ea_app a))
    \<and> (if rb_frames r = [] \<and> en_frames env = [] then app_frames (ea_app a') = app_frames (ea_app a)
       else load (path_join [app_dir (ea_app a), frames_file (ea_app a')]) = Inr (app_frames (ea_app a')) \<and> app_frames (ea_app a') \<noteq> None)"
proof -
  obtain a1 where a1: "resolve_env load a name = Inr a1"
    and r: "(case ea_env a1 of None \<Rightarrow> Inl (Errorf ''robot %q selected but no environment is declared'' [GStr rname])
       | Some env \<Rightarrow> bind_result (robot_by_name env rname) (for_robot load a1 env)) = Inr a'"
    using assms(3,4) by (auto simp: resolve_robot_def bind_result_Inr)
  have f1: "resolve_frames load (ea_app a) (en_name env) (en_frames env)
      (a\<lparr>ea_env := Some env, ea_app := (ea_app a)\<lparr>externals := merge_externals (externals (ea_app a)) env\<rparr>\<rparr>) = Inr a1"
    using a1 assms(1,2) by (simp add: resolve_env_def)
  then have e1: "ea_env a1 = Some env" "app_dir (ea_app a1) = app_dir (ea_app a)"
    "frames_file (ea_app a1) = override (frames_file (ea_app a)) (en_frames env)"
    "if en_frames env = [] then app_frames (ea_app a1) = app_frames (ea_app a)
     else load (path_join [app_dir (ea_app a), en_frames env]) = Inr (app_frames (ea_app a1)) \<and> app_frames (ea_app a1) \<noteq> None"
    by (auto simp: resolve_frames_Inr override_def split: if_splits)
  from r e1(1) obtain rb where rb: "robot_by_name env rname = Inr rb" "for_robot load a1 env rb = Inr a'"
    by (auto simp: bind_result_Inr)
  from rb(2) have "ea_robot a' = Some rb" "ea_env a' = Some (robot_env env rb)"
    "frames_file (ea_app a') = override (frames_file (ea_app a1)) (rb_frames rb)"
    "if rb_frames rb = [] then app_frames (ea_app a') = app_frames (ea_app a1)
     else load (path_join [app_dir (ea_app a1), rb_frames rb]) = Inr (app_frames (ea_app a')) \<and> app_frames (ea_app a') \<noteq> None"
    by (auto simp: for_robot_def resolve_frames_Inr override_def split: if_splits)
  with rb(1) e1 show ?thesis by (intro exI[of _ rb]) (auto simp: frames_choice_def override_def)
qed

section \<open>A fleet of two robots\<close>

definition plain_robot :: "string \<Rightarrow> string \<Rightarrow> robot" where
  "plain_robot name host = \<lparr>rb_name = name, rb_host = host, rb_params = [], rb_frames = [], rb_domain = None,
     rb_endpoint = [], rb_metrics = [], rb_dashboard = [], rb_prefix = [], rb_scope = []\<rparr>"

definition scan_external :: "string \<Rightarrow> external" where
  "scan_external q = \<lparr>ex_topic = ''scan'', ex_type = ''sensor_msgs/msg/LaserScan'', ex_role = ''publisher'', ex_qos = q\<rparr>"

definition field_env :: environment where
  "field_env = empty_env\<lparr>en_transport := ''zenoh'', en_frames := ''field.json'', en_dashboard := '':4000'', en_name := ''field'',
     en_externals := [scan_external ''sensor''],
     en_robots := [Some (plain_robot ''p1'' ''pi@p1''), Some ((plain_robot ''p2'' ''pi@p2'')\<lparr>rb_frames := ''p2.json''\<rparr>)]\<rparr>"

definition bare_app :: "nat env_app" where
  "bare_app = \<lparr>ea_app = empty_app, ea_description = [], ea_environments = [], ea_env_names = [], ea_default = [], ea_env = None, ea_robot = None\<rparr>"

definition field_app :: "nat env_app" where
  "field_app = bare_app\<lparr>ea_environments := [(''field'', field_env)], ea_env_names := [''field''], ea_default := ''field''\<rparr>"

definition field_files :: "nat frames_files" where
  "field_files file =
     (if file = ''/app/p2.json'' \<or> file = ''/app/field.json'' then Inr (Some \<lparr>path_name = file, transforms = []\<rparr>) else Inr None)"

lemma field_loaded: "load_environments ''field'' [(''field'', Some field_env)] bare_app = Inr field_app"
  by (simp add: load_environments_def bare_app_def field_app_def field_env_def first_error_def check_robots_def plain_robot_def)

theorem loaded_robots_found_witness:
  "robot_by_name field_env ''p1'' = Inr (plain_robot ''p1'' ''pi@p1'')"
proof -
  have "(''field'', field_env) \<in> set (ea_environments field_app)" "plain_robot ''p1'' ''pi@p1'' \<in> set (robots_of field_env)"
    by (simp_all add: field_app_def field_env_def robots_of_def map_filter_simps)
  from loaded_robots_found[OF field_loaded _ this] show ?thesis by (simp add: plain_robot_def)
qed

theorem merge_externals_exact_witness:
  "external_at (merge_externals [scan_external ''reliable''] field_env) (''scan'', ''publisher'') = Some (scan_external ''sensor'')"
  using merge_externals_exact[of "[scan_external ''reliable'']" field_env]
  by (simp add: field_env_def external_at_def external_key_def scan_external_def)

theorem robot_frames_exact_witness:
  "\<exists>a'. resolve_robot field_files field_app ''field'' ''p2'' = Inr a' \<and> frames_file (ea_app a') = ''p2.json''"
proof -
  obtain a' where a': "resolve_robot field_files field_app ''field'' ''p2'' = Inr a'"
  proof -
    have "isl (resolve_robot field_files field_app ''field'' ''p2'') = False" by code_simp
    then show ?thesis using that by (cases "resolve_robot field_files field_app ''field'' ''p2''") auto
  qed
  moreover have "map_of (ea_environments field_app) ''field'' = Some field_env" by (simp add: field_app_def)
  moreover have "robot_by_name field_env ''p2'' = Inr ((plain_robot ''p2'' ''pi@p2'')\<lparr>rb_frames := ''p2.json''\<rparr>)" by code_simp
  ultimately show ?thesis using robot_frames_exact[of field_app "''field''" field_env "''p2''" field_files a']
    by (auto simp: frames_choice_def override_def)
qed

end
