(* ===== verification/Units.thy ===== *)
theory Units
imports Environments Graph_Order Gen_Text
begin

text \<open>
  The systemd units of a release (\<^verbatim>\<open>internal/gen/systemd.go\<close>): the text of a unit per node and of the
  application's target, the ordering read off the dependency graph, and the addresses at which the
  processes serve their metrics and dashboards.
\<close>

record deployment =
  dp_app :: string
  dp_env :: string
  dp_version :: string
  dp_prefix :: string
  dp_scope :: string
  dp_flags :: "string list"
  dp_environ :: "(string \<times> string) list"
  dp_metrics :: string
  dp_dashboard :: string
  dp_single :: bool

definition install_dir :: "deployment \<Rightarrow> string" where
  "install_dir d = path_join [dp_prefix d, dp_app d]"

definition release_dir :: "deployment \<Rightarrow> string" where
  "release_dir d = path_join [install_dir d, ''releases'', dp_version d]"

definition current_dir :: "deployment \<Rightarrow> string" where
  "current_dir d = path_join [install_dir d, ''current'']"

definition unit_name :: "deployment \<Rightarrow> string \<Rightarrow> string" where
  "unit_name d node = dp_app d @ ''-'' @ node @ ''.service''"

definition target_name :: "deployment \<Rightarrow> string" where
  "target_name d = dp_app d @ ''.target''"

text \<open>\<^verbatim>\<open>offsetPort\<close>; the sum of a port and a position wraps at 64 bits.\<close>

definition offset_port :: "string \<Rightarrow> int \<Rightarrow> string" where
  "offset_port addr index =
     (if addr = [] then []
      else case split_host_port addr of
        None \<Rightarrow> addr
      | Some (host, port) \<Rightarrow>
          (case atoi port of
             None \<Rightarrow> addr
           | Some n \<Rightarrow> join_host_port host (itoa (add64 n index))))"

definition metrics_addr :: "deployment \<Rightarrow> int \<Rightarrow> string" where
  "metrics_addr d index = offset_port (dp_metrics d) index"

definition dashboard_addr :: "deployment \<Rightarrow> int \<Rightarrow> string" where
  "dashboard_addr d index = offset_port (dp_dashboard d) index"

definition exec_args :: "deployment \<Rightarrow> string \<Rightarrow> int \<Rightarrow> string list" where
  "exec_args d node index =
     [path_join [current_dir d, ''bin'', dp_app d]]
     @ (if node \<noteq> [] then [''-node'', node] else [])
     @ dp_flags d
     @ (if metrics_addr d index \<noteq> [] then [''-metrics-addr'', metrics_addr d index] else [])
     @ (if dashboard_addr d index \<noteq> [] then [''-dashboard'', dashboard_addr d index] else [])"

definition exec_start :: "deployment \<Rightarrow> string \<Rightarrow> int \<Rightarrow> string" where
  "exec_start d node index = join '' '' (exec_args d node index)"

definition env_suffix :: "deployment \<Rightarrow> string" where
  "env_suffix d = (if dp_env d = [] then [] else '', env '' @ dp_env d)"

definition service_unit :: "deployment \<Rightarrow> string \<Rightarrow> string list \<Rightarrow> bool \<Rightarrow> int \<Rightarrow> string" where
  "service_unit d node after_units in_cycle index =
     lines ([''# '' @ header_text]
       @ (if in_cycle
          then [''# This node is part of a dependency cycle in the graph; systemd cannot'',
                ''# order it, and the runtime'' @ [CHR 0x27] @ ''s lifecycle handles the wait instead.'']
          else [])
       @ [''[Unit]'',
          ''Description='' @ dp_app d @ (if node = [] then [] else '' / '' @ node) @ '' (conductor'' @ env_suffix d @ '')'',
          ''PartOf='' @ target_name d,
          ''After='' @ join '' '' (''network-online.target'' # after_units)]
       @ (if after_units \<noteq> [] then [''Wants='' @ join '' '' after_units] else [])
       @ [[], ''[Service]'', ''Type=simple'', ''WorkingDirectory='' @ current_dir d, ''ExecStart='' @ exec_start d node index]
       @ map (\<lambda>(k, v). ''Environment='' @ k @ ''='' @ v) (sort_key fst (dp_environ d))
       @ [''Restart=on-failure'', ''RestartSec=2'', ''KillSignal=SIGINT'', ''TimeoutStopSec=10'',
          ''StandardOutput=journal'', ''StandardError=journal'', [], ''[Install]'', ''WantedBy='' @ target_name d])"

definition target_unit :: "deployment \<Rightarrow> string list \<Rightarrow> string list \<Rightarrow> string" where
  "target_unit d units order =
     lines [''# '' @ header_text, ''# Bringup order from the application graph: '' @ join '' -> '' order, ''[Unit]'',
       ''Description='' @ dp_app d @ '' (conductor application'' @ env_suffix d @ '')'',
       ''Wants='' @ join '' '' units, ''After='' @ join '' '' units, [], ''[Install]'',
       ''WantedBy='' @ (if dp_scope d = ''user'' then ''default.target'' else ''multi-user.target'')]"

text \<open>The nodes a node's unit is ordered after: those of its dependencies that come before it.\<close>

definition after_nodes :: "'v graph \<Rightarrow> string list \<Rightarrow> string \<Rightarrow> string list" where
  "after_nodes g order node =
     filter (\<lambda>dep. position order dep < position order node)
       (case sorted_dependencies g node of None \<Rightarrow> [] | Some ds \<Rightarrow> ds)"

definition node_unit :: "'v graph \<Rightarrow> deployment \<Rightarrow> string list \<Rightarrow> string list \<Rightarrow> nat \<times> string \<Rightarrow> string \<times> string" where
  "node_unit g d order cycles = (\<lambda>(i, node).
     (unit_name d node,
      service_unit d node (sort (map (unit_name d) (after_nodes g order node))) (node \<in> set cycles) (int i)))"

text \<open>The map of file names to texts, in the order it is filled.\<close>

definition systemd_units :: "'v graph \<Rightarrow> deployment \<Rightarrow> (string \<times> string) list" where
  "systemd_units g d =
     (let (order, cycles) = static_bringup_order g
      in if dp_single d
         then [(dp_app d @ ''.service'', service_unit d [] [] False 0),
               (target_name d, target_unit d [dp_app d @ ''.service''] order)]
         else map (node_unit g d order cycles) (zip [0..<length order] order)
              @ [(target_name d, target_unit d (map (unit_name d) order) order)])"

section \<open>The units follow the graph\<close>

lemma position_nth: "distinct xs \<Longrightarrow> i < length xs \<Longrightarrow> position xs (xs ! i) = i"
proof -
  assume d: "distinct xs" and i: "i < length xs"
  let ?m = "rev (zip xs [0..<length xs])"
  have "distinct (map fst ?m)" using d by (simp add: rev_map[symmetric])
  moreover have "(xs ! i, i) \<in> set ?m" using i by (force simp: set_zip)
  ultimately have "map_of ?m (xs ! i) = Some i" by (rule map_of_is_SomeI)
  then show ?thesis by (simp add: position_def)
qed

lemma position_split: "distinct (us @ n # vs) \<Longrightarrow> p \<in> set us \<Longrightarrow> position (us @ n # vs) p < position (us @ n # vs) n"
proof -
  assume d: "distinct (us @ n # vs)" and "p \<in> set us"
  then obtain i where i: "i < length us" "us ! i = p" by (auto simp: in_set_conv_nth)
  have "position (us @ n # vs) p = i" using position_nth[OF d, of i] i by (simp add: nth_append)
  moreover have "position (us @ n # vs) n = length us" using position_nth[OF d, of "length us"] by simp
  ultimately show ?thesis using i by simp
qed

lemma after_nodes_set:
  "set (after_nodes (build app) order n) = {p. (n, p) \<in> declared_needs app \<and> position order p < position order n}"
  by (auto simp: after_nodes_def sorted_dependencies_def set_dependencies dest: declared_needs_nodes)

text \<open>The units encode the graph's order: a unit is ordered after dependencies of its node only,
  and after all of them unless the node waits on a cycle; and the ordering systemd sees never has a
  cycle in it.
\<close>
theorem unit_order_sound:
  assumes "distinct (map nd_name (nodes app))" and "static_bringup_order (build app) = (order, cycles)"
  shows "(\<forall>n p. p \<in> set (after_nodes (build app) order n) \<longrightarrow> (n, p) \<in> declared_needs app)
    \<and> (\<forall>n \<in> set order. n \<notin> set cycles \<longrightarrow> set (after_nodes (build app) order n) = {p. (n, p) \<in> declared_needs app})
    \<and> acyclic {(n, p). p \<in> set (after_nodes (build app) order n)}"
proof -
  note st = static_started[OF assms(1)]
  have m: "mset order = mset (map nd_name (nodes app))"
    using assms(2) declared.order_perm[OF st] by (auto simp: static_bringup_order_def Let_def)
  then have d: "distinct order" using assms(1) mset_eq_imp_distinct_iff by blast
  have "p \<in> set (after_nodes (build app) order n)" if "n \<in> set order" "n \<notin> set cycles" "(n, p) \<in> declared_needs app" for n p
  proof -
    obtain us vs where s: "order = us @ n # vs" using \<open>n \<in> set order\<close> by (auto simp: in_set_conv_decomp)
    have "p \<in> set us" using declared.order_split[OF st, of us n vs p] assms(2) that s
      by (auto simp: static_bringup_order_def Let_def set_dependencies)
    then show ?thesis using position_split d that s by (simp add: after_nodes_set)
  qed
  moreover have "acyclic {(n, p). p \<in> set (after_nodes (build app) order n)}"
  proof (rule acyclic_subset)
    have "wf (inv_image less_than (position order))" by simp
    then show "acyclic ((inv_image less_than (position order))\<inverse>)" unfolding acyclic_converse by (rule wf_acyclic)
    show "{(n, p). p \<in> set (after_nodes (build app) order n)} \<subseteq> (inv_image less_than (position order))\<inverse>"
      by (auto simp: after_nodes_set)
  qed
  ultimately show ?thesis by (auto simp: after_nodes_set)
qed

theorem unit_order_sound_witness:
  "set (after_nodes (build three_nodes) [''y'', ''x'', ''z''] ''x'') = {p. (''x'', p) \<in> declared_needs three_nodes}"
proof -
  have "distinct (map nd_name (nodes three_nodes))" by (simp add: order_eval)
  from unit_order_sound[OF this three_static, THEN conjunct2, THEN conjunct1]
  have "''x'' \<in> set [''y'', ''x'', ''z''] \<Longrightarrow> ''x'' \<notin> set ([] :: string list) \<Longrightarrow> ?thesis" by blast
  then show ?thesis by (rule meta_mp) simp_all
qed

section \<open>Addresses\<close>

text \<open>The processes of a per-node deployment do not fight over a port: when the environment's dashboard
  address has a numeric port, any two units are given different addresses, each on the same host.
\<close>
theorem dashboards_distinct:
  assumes "split_host_port (dp_dashboard d) = Some (host, port)" and "atoi port = Some n"
    and "i \<le> max_int" and "j \<le> max_int" and "0 \<le> i" and "0 \<le> j" and "i \<noteq> j"
  shows "dashboard_addr d i \<noteq> dashboard_addr d j \<and> (\<exists>p. dashboard_addr d i = join_host_port host p)"
proof -
  have "split_host_port [] = None" by (simp add: split_host_port_def split_last_def)
  then have "dp_dashboard d \<noteq> []" using assms(1) by (metis option.distinct(1))
  then have a: "dashboard_addr d k = join_host_port host (itoa (add64 n k))" for k
    using assms(1,2) by (simp add: dashboard_addr_def offset_port_def)
  have lt: "i < 2 ^ 64" "j < 2 ^ 64" using assms(3,4) by (simp_all add: max_int_def)
  have "dashboard_addr d i \<noteq> dashboard_addr d j"
  proof
    assume "dashboard_addr d i = dashboard_addr d j"
    then have "itoa (add64 n i) = itoa (add64 n j)" unfolding a by (rule join_host_port_inj[rotated]) (use itoa_plain in blast)
    then have "add64 n i = add64 n j" using itoa_inj add64_range by blast
    then show False using add64_inj lt assms(5-7) by blast
  qed
  with a show ?thesis by blast
qed

definition field_deployment :: deployment where
  "field_deployment = \<lparr>dp_app = ''patrol'', dp_env = ''field'', dp_version = ''1'', dp_prefix = ''/opt/conductor'', dp_scope = ''system'',
     dp_flags = [], dp_environ = [], dp_metrics = [], dp_dashboard = '':4000'', dp_single = False\<rparr>"

theorem dashboards_distinct_witness:
  "dashboard_addr field_deployment 0 \<noteq> dashboard_addr field_deployment 1"
proof -
  have "split_host_port (dp_dashboard field_deployment) = Some ([], ''4000'')" "atoi ''4000'' = Some 4000" by code_simp+
  from dashboards_distinct[OF this, of 0 1] show ?thesis by (simp add: max_int_def)
qed

end
