(* ===== verification/Deploy.thy ===== *)
theory Deploy
imports Units Fleet_Base
begin

text \<open>
  How a release is planned (\<^verbatim>\<open>internal/deploy/deploy.go\<close>: defaults, validation and the flags of the units)
  and where its dashboards are (\<^verbatim>\<open>internal/deploy/peers.go\<close>). What the machine says of itself is an
  argument: its architecture, the home directory, the version string made from the time and the
  working directory of the application. Building, archiving and shipping the bundle are not modelled.
\<close>

section \<open>Options\<close>

record deploy_opts =
  do_version :: string
  do_goos :: string
  do_goarch :: string
  do_tags :: "string list"
  do_cgo :: bool
  do_cc :: string
  do_host :: string
  do_prefix :: string
  do_scope :: string
  do_sudo :: string
  do_keep :: int
  do_bundle_only :: bool
  do_no_restart :: bool
  do_no_systemd :: bool
  do_rollback :: bool
  do_dry_run :: bool
  do_out_dir :: string

record build_host =
  mc_goarch :: string
  mc_home :: "string option"
  mc_version :: string

definition pick :: "string \<Rightarrow> string list \<Rightarrow> string" where
  "pick dst vals = foldl (\<lambda>d v. if d = [] \<and> v \<noteq> [] then v else d) dst vals"

definition default_prefix :: "build_host \<Rightarrow> string \<Rightarrow> string \<Rightarrow> string" where
  "default_prefix mc scope host =
     (if scope \<noteq> ''user'' then ''/opt/conductor''
      else if host \<noteq> [] then []
      else case mc_home mc of None \<Rightarrow> [] | Some home \<Rightarrow> path_join [home, ''.local'', ''share'', ''conductor''])"

definition env_deploy :: "'v env_app \<Rightarrow> deploy_config" where
  "env_deploy app =
     (case ea_env app of None \<Rightarrow> empty_deploy
      | Some env \<Rightarrow> (case en_deploy env of None \<Rightarrow> empty_deploy | Some d \<Rightarrow> d))"

text \<open>The scope and the host are settled before the install root, which depends on them, and the
  privilege prefix after the scope.\<close>

definition apply_defaults :: "build_host \<Rightarrow> 'v env_app \<Rightarrow> deploy_opts \<Rightarrow> deploy_opts" where
  "apply_defaults mc app opts =
     (let d = env_deploy app;
          host0 = pick (do_host opts) [dc_host d];
          host = (if host0 = ''local'' then [] else host0);
          scope = pick (do_scope opts) [dc_scope d, ''system''];
          sudo0 = (if do_sudo opts = []
                   then (if dc_sudo d = [] \<and> scope = ''system'' then ''sudo -n'' else dc_sudo d)
                   else do_sudo opts)
      in opts\<lparr>do_host := host,
              do_goos := pick (do_goos opts) [dc_goos d, ''linux''],
              do_goarch := pick (do_goarch opts) [dc_goarch d, mc_goarch mc],
              do_scope := scope,
              do_prefix := pick (do_prefix opts) [dc_prefix d, default_prefix mc scope host],
              do_cc := pick (do_cc opts) [dc_cc d],
              do_sudo := (if sudo0 = ''none'' \<or> scope = ''user'' then [] else sudo0),
              do_tags := (if do_tags opts = [] then dc_tags d else do_tags opts),
              do_cgo := (do_cgo opts \<or> dc_cgo d),
              do_keep := (if do_keep opts = 0 then dc_keep d else do_keep opts),
              do_version := (if do_version opts = [] then mc_version mc else do_version opts),
              do_out_dir := (if do_out_dir opts = [] then path_join [app_dir (ea_app app), ''gen'', ''deploy''] else do_out_dir opts)\<rparr>)"

definition env_name_of :: "'v env_app \<Rightarrow> string" where
  "env_name_of app = (case ea_env app of None \<Rightarrow> [] | Some env \<Rightarrow> en_name env)"

definition validate_deploy :: "build_host \<Rightarrow> 'v env_app \<Rightarrow> deploy_opts \<Rightarrow> goerror option" where
  "validate_deploy mc app opts =
     (if (case ea_env app of None \<Rightarrow> [] | Some env \<Rightarrow> en_transport env) = ''zenoh'' \<and> ''zenoh'' \<notin> set (do_tags opts)
      then Some (Errorf ''environment %q uses the zenoh transport, but the build has no zenoh tag: add \"tags\": [\"zenoh\"] and \"cgo\": true to its deploy config (the binary would exit at startup with \"unknown transport\")'' [GStr (env_name_of app)])
      else if ''zenoh'' \<in> set (do_tags opts) \<and> \<not> do_cgo opts
      then Some (Errorf ''the zenoh transport is cgo; set \"cgo\": true in the environment's deploy config'' [])
      else if do_cgo opts \<and> do_cc opts = [] \<and> do_goarch opts \<noteq> mc_goarch mc
      then Some (Errorf ''cross-compiling %s/%s with cgo needs a cross compiler: set \"cc\" in the environment's deploy config (e.g. aarch64-linux-gnu-gcc)'' [GStr (do_goos opts), GStr (do_goarch opts)])
      else if do_scope opts \<noteq> ''system'' \<and> do_scope opts \<noteq> ''user''
      then Some (Errorf ''unknown systemd scope %q (want system or user)'' [GStr (do_scope opts)])
      else if \<not> path_abs (do_prefix opts)
      then Some (Errorf ''install prefix must be absolute (the units name it directly); set \"prefix\" in the environment's deploy config or pass -prefix, got %q'' [GStr (do_prefix opts)])
      else None)"

section \<open>What the units are told\<close>

definition runtime_flags :: "'v env_app \<Rightarrow> deploy_opts \<Rightarrow> string list" where
  "runtime_flags app opts =
     (case ea_env app of
        None \<Rightarrow> []
      | Some env \<Rightarrow>
          (let current = path_join [do_prefix opts, app_name (ea_app app), ''current'']
           in (if en_transport env \<noteq> [] then [''-transport'', en_transport env] else [])
            @ (if en_endpoint env \<noteq> [] then [''-zenoh-endpoint'', en_endpoint env] else [])
            @ (case en_domain env of None \<Rightarrow> [] | Some d \<Rightarrow> [''-domain'', itoa d])
            @ [''-params'', path_join [current, ''params.yaml'']]
            @ concat (map (\<lambda>pf. [''-params'', path_join [current, path_base pf]]) (en_params env))
            @ (if frames_file (ea_app app) \<noteq> [] then [''-frames'', path_join [current, ''frames.json'']] else [])
            @ (if groups_file (ea_app app) \<noteq> [] then [''-groups'', path_join [current, ''groups.json'']] else [])
            @ (if ea_description app \<noteq> [] then [''-description'', path_join [current, ea_description app]] else [])
            @ (if en_trace env then [''-trace''] else [])))"

definition install_flags :: "deploy_opts \<Rightarrow> string list" where
  "install_flags opts =
     [''--prefix'', do_prefix opts, ''--scope'', do_scope opts]
     @ (if do_keep opts > 0 then [''--keep'', itoa (do_keep opts)] else [])
     @ (if do_no_restart opts then [''--no-restart''] else [])
     @ (if do_no_systemd opts then [''--no-systemd''] else [])"

definition transport_name :: "'v env_app \<Rightarrow> string" where
  "transport_name app =
     (case ea_env app of None \<Rightarrow> ''inproc''
      | Some env \<Rightarrow> if en_transport env = [] then ''inproc'' else en_transport env)"

definition single_process :: "'v env_app \<Rightarrow> bool" where
  "single_process app \<longleftrightarrow> transport_name app = ''inproc''"

definition env_addr :: "'v env_app \<Rightarrow> (environment \<Rightarrow> string) \<Rightarrow> string" where
  "env_addr app f = (case ea_env app of None \<Rightarrow> [] | Some env \<Rightarrow> f env)"

definition environ_of :: "'v env_app \<Rightarrow> (string \<times> string) list" where
  "environ_of app = dc_env (env_deploy app)"

text \<open>The deployment \<^verbatim>\<open>Run\<close> renders the units from.\<close>

definition release_of :: "'v env_app \<Rightarrow> deploy_opts \<Rightarrow> deployment" where
  "release_of app opts =
     \<lparr>dp_app = app_name (ea_app app), dp_env = env_name_of app, dp_version = do_version opts, dp_prefix = do_prefix opts,
      dp_scope = do_scope opts, dp_flags = runtime_flags app opts, dp_environ = environ_of app,
      dp_metrics = env_addr app en_metrics, dp_dashboard = env_addr app en_dashboard, dp_single = single_process app\<rparr>"

section \<open>Where the dashboards are\<close>

definition after_at :: "string \<Rightarrow> string" where
  "after_at host = (if CHR 0x40 \<in> set host then tl (dropWhile (\<lambda>c. c \<noteq> CHR 0x40) host) else host)"

definition peer_host :: "'v env_app \<Rightarrow> string" where
  "peer_host app =
     (let host = dc_host (env_deploy app)
      in if host = [] \<or> host = ''local'' then [] else after_at host)"

definition peer_url :: "string \<Rightarrow> string \<Rightarrow> string" where
  "peer_url host addr =
     (case split_host_port addr of
        None \<Rightarrow> ''http://'' @ addr
      | Some (h, port) \<Rightarrow>
          ''http://'' @ join_host_port
            (if h = [] \<or> h = ''0.0.0.0'' \<or> h = ''::'' then (if host = [] then ''127.0.0.1'' else host) else h) port)"

definition peers_of :: "'v env_app \<Rightarrow> string list \<Rightarrow> peer list" where
  "peers_of app order =
     (case ea_env app of
        None \<Rightarrow> []
      | Some env \<Rightarrow>
          if en_dashboard env = [] then []
          else
           (let dep = \<lparr>dp_app = app_name (ea_app app), dp_env = [], dp_version = [], dp_prefix = [], dp_scope = [], dp_flags = [],
                  dp_environ = [], dp_metrics = [], dp_dashboard = en_dashboard env, dp_single = single_process app\<rparr>;
                host = peer_host app;
                robot = (case ea_robot app of None \<Rightarrow> [] | Some r \<Rightarrow> rb_name r);
                label = (case ea_robot app of None \<Rightarrow> host | Some r \<Rightarrow> rb_name r)
            in if dp_single dep
               then [\<lparr>p_name = app_name (ea_app app), p_host = label, p_url = peer_url host (dashboard_addr dep 0), p_robot = robot\<rparr>]
               else map (\<lambda>(i, node). \<lparr>p_name = node, p_host = label, p_url = peer_url host (dashboard_addr dep (int i)), p_robot = robot\<rparr>)
                      (zip [0..<length order] order)))"

definition fleet_peers :: "'v frames_files \<Rightarrow> 'v env_app \<Rightarrow> string list \<Rightarrow> peer list result" where
  "fleet_peers load app order =
     (case ea_env app of
        None \<Rightarrow> Inr (peers_of app order)
      | Some env \<Rightarrow>
          if robots_of env = [] then Inr (peers_of app order)
          else bind_result (map_result (\<lambda>r. map_sum id (\<lambda>on. peers_of on order) (for_robot load app env r)) (robots_of env))
                 (\<lambda>pss. Inr (concat pss)))"

section \<open>Properties\<close>

lemma pick_Nil [simp]: "pick dst [] = dst"
  by (simp add: pick_def)

lemma pick_Cons [simp]: "pick dst (v # vs) = pick (if dst = [] then v else dst) vs"
  by (simp add: pick_def)

text \<open>A release that passes validation can run where it is going: a zenoh environment is built with the
  zenoh tag and cgo, a cgo build for another architecture has a cross compiler, the units have a
  known scope and an absolute install root, and privilege is only asked for in system scope.
\<close>
theorem validated_release:
  assumes "opts = apply_defaults mc app opts0" and "validate_deploy mc app opts = None"
  shows "(transport_name app = ''zenoh'' \<longrightarrow> ''zenoh'' \<in> set (do_tags opts) \<and> do_cgo opts)
    \<and> (do_cgo opts \<and> do_goarch opts \<noteq> mc_goarch mc \<longrightarrow> do_cc opts \<noteq> [])
    \<and> do_scope opts \<in> {''system'', ''user''} \<and> path_abs (do_prefix opts)
    \<and> (do_sudo opts \<noteq> [] \<longrightarrow> do_scope opts = ''system'') \<and> do_host opts \<noteq> ''local''"
proof -
  have "do_host opts \<noteq> ''local''" unfolding assms(1) apply_defaults_def Let_def by simp
  moreover have "do_scope opts = ''user'' \<Longrightarrow> do_sudo opts = []"
    unfolding assms(1) apply_defaults_def Let_def by (simp del: pick_Cons)
  moreover have "transport_name app = ''zenoh'' \<longleftrightarrow> (case ea_env app of None \<Rightarrow> [] | Some env \<Rightarrow> en_transport env) = ''zenoh''"
    by (auto simp: transport_name_def split: option.splits)
  ultimately show ?thesis using assms(2) unfolding validate_deploy_def by (auto split: if_splits)
qed

lemma dashboard_addr_nonempty: "dp_dashboard d \<noteq> [] \<Longrightarrow> dashboard_addr d i \<noteq> []"
  by (auto simp: dashboard_addr_def offset_port_def join_host_port_def split: option.splits)

lemma dashboard_addr_cong: "dp_dashboard d = dp_dashboard e \<Longrightarrow> dashboard_addr d i = dashboard_addr e i"
  by (simp add: dashboard_addr_def)

text \<open>The fleet view looks where the units serve: the peer found for a node is asked for at the very
  address the node's unit passes to its process with \<^verbatim>\<open>-dashboard\<close>.
\<close>
theorem peers_match_units:
  assumes "ea_env app = Some env" and "en_dashboard env \<noteq> []" and "\<not> single_process app" and "i < length order"
  shows "length (peers_of app order) = length order \<and> p_name (peers_of app order ! i) = order ! i
    \<and> (\<exists>pre addr. exec_args (release_of app opts) (order ! i) (int i) = pre @ [''-dashboard'', addr]
         \<and> p_url (peers_of app order ! i) = peer_url (peer_host app) addr)"
proof -
  let ?addr = "dashboard_addr (release_of app opts) (int i)"
  have "dp_dashboard (release_of app opts) = en_dashboard env" using assms(1) by (simp add: release_of_def env_addr_def)
  moreover from this have "?addr \<noteq> []" using assms(2) by (simp add: dashboard_addr_nonempty)
  ultimately have "\<exists>pre. exec_args (release_of app opts) (order ! i) (int i) = pre @ [''-dashboard'', ?addr]"
    and "p_url (peers_of app order ! i) = peer_url (peer_host app) ?addr"
    using assms by (simp_all add: exec_args_def peers_of_def Let_def dashboard_addr_def)
  then show ?thesis using assms by (auto simp: peers_of_def Let_def)
qed

definition field_opts :: deploy_opts where
  "field_opts = \<lparr>do_version = [], do_goos = [], do_goarch = [], do_tags = [], do_cgo = False, do_cc = [], do_host = [],
     do_prefix = [], do_scope = [], do_sudo = [], do_keep = 0, do_bundle_only = False, do_no_restart = False,
     do_no_systemd = False, do_rollback = False, do_dry_run = False, do_out_dir = []\<rparr>"

definition field_machine :: build_host where
  "field_machine = \<lparr>mc_goarch = ''arm64'', mc_home = None, mc_version = ''1''\<rparr>"

definition deployed_app :: "nat env_app" where
  "deployed_app = field_app\<lparr>ea_env := Some (field_env\<lparr>en_deploy :=
     Some (empty_deploy\<lparr>dc_host := ''pi@p1'', dc_tags := [''zenoh''], dc_cgo := True\<rparr>)\<rparr>)\<rparr>"

theorem validated_release_witness:
  "transport_name deployed_app = ''zenoh''
   \<and> ''zenoh'' \<in> set (do_tags (apply_defaults field_machine deployed_app field_opts))
   \<and> path_abs (do_prefix (apply_defaults field_machine deployed_app field_opts))"
proof -
  have "validate_deploy field_machine deployed_app (apply_defaults field_machine deployed_app field_opts) = None"
    and "transport_name deployed_app = ''zenoh''" by code_simp+
  with validated_release[OF refl this(1)] show ?thesis by metis
qed

theorem peers_match_units_witness:
  "p_url (peers_of deployed_app [''a'', ''b''] ! 1) = ''http://p1:4001''"
proof -
  have env: "ea_env deployed_app = Some (field_env\<lparr>en_deploy := Some (empty_deploy\<lparr>dc_host := ''pi@p1'', dc_tags := [''zenoh''], dc_cgo := True\<rparr>)\<rparr>)"
    by (simp add: deployed_app_def)
  have "\<not> single_process deployed_app" by code_simp
  from peers_match_units[OF env _ this, of 1 "[''a'', ''b'']" field_opts] obtain pre addr where
    a: "exec_args (release_of deployed_app field_opts) ''b'' 1 = pre @ [''-dashboard'', addr]"
    "p_url (peers_of deployed_app [''a'', ''b''] ! 1) = peer_url (peer_host deployed_app) addr"
    by (auto simp: field_env_def)
  have "dp_dashboard (release_of deployed_app field_opts) = '':4000''"
    by (simp add: release_of_def env_addr_def deployed_app_def field_env_def)
  moreover have "split_host_port '':4000'' = Some ([], ''4000'')" "atoi ''4000'' = Some 4000"
    "join_host_port [] (itoa 4001) = '':4001''" by code_simp+
  moreover have "add64 4000 1 = 4001" by (simp add: add64_def)
  ultimately have d: "dashboard_addr (release_of deployed_app field_opts) 1 = '':4001''"
    by (simp add: dashboard_addr_def offset_port_def)
  have "last (exec_args (release_of deployed_app field_opts) ''b'' 1) = '':4001''"
    by (simp add: exec_args_def d)
  then have "addr = '':4001''" using a(1) by simp
  moreover have "peer_host deployed_app = ''p1''"
    by (simp add: peer_host_def env_deploy_def deployed_app_def after_at_def Let_def)
  moreover have "peer_url ''p1'' '':4001'' = ''http://p1:4001''" by code_simp
  ultimately show ?thesis using a(2) by simp
qed

end
