(* ===== verification/Rollout.thy ===== *)
theory Rollout
imports Deploy Fleet Graph_Validate
begin

text \<open>
  Rolling a release across the robots of an environment (\<^verbatim>\<open>internal/deploy/fleet.go\<close>): one robot at a
  time, each after the one before it is up. What happens outside the process is an argument, on a
  world of any type: \<open>install\<close> is the deployment to one robot (\<^verbatim>\<open>Run\<close>), \<open>poll\<close> what the requests to
  a list of peers fetched, which \<^verbatim>\<open>conductor.Fleet\<close> merges, \<open>pause\<close> the wait of two seconds between two polls and \<open>now\<close> the clock. The context of a
  rollout is never canceled. A loop that has not returned when its fuel runs out is \<^const>\<open>None\<close>.
\<close>

section \<open>Health\<close>

definition view_problems :: "'p process_view \<Rightarrow> string list" where
  "view_problems v =
     (if \<not> pv_ok v then [view_label v @ '' is not answering ('' @ pv_err v @ '')'']
      else map (\<lambda>n. view_label v @ ''/'' @ nv_name n @ '' is '' @ nv_state n) (filter (\<lambda>n. nv_state n \<noteq> ''active'') (pv_nodes v))
        @ (if pv_nodes v = [] then [view_label v @ '' reports no nodes''] else []))"

definition health_problems :: "'p process_view list \<Rightarrow> string list" where
  "health_problems views = sort (concat (map view_problems views))"

text \<open>\<^verbatim>\<open>healthProblems\<close> finds nothing exactly when every process answers, with at least one node, and
  every node it runs is active.\<close>

definition healthy :: "'p process_view list \<Rightarrow> bool" where
  "healthy views \<longleftrightarrow> (\<forall>v \<in> set views. pv_ok v \<and> pv_nodes v \<noteq> [] \<and> (\<forall>n \<in> set (pv_nodes v). nv_state n = ''active''))"

lemma view_problems_none:
  "view_problems v = [] \<longleftrightarrow> pv_ok v \<and> pv_nodes v \<noteq> [] \<and> (\<forall>n \<in> set (pv_nodes v). nv_state n = ''active'')"
  by (auto simp: view_problems_def filter_empty_conv)

lemma health_problems_none: "health_problems views = [] \<longleftrightarrow> healthy views"
proof -
  have "health_problems views = [] \<longleftrightarrow> concat (map view_problems views) = []"
    unfolding health_problems_def by (metis length_0_conv length_sort)
  then show ?thesis by (simp add: healthy_def view_problems_none)
qed

section \<open>The gate\<close>

record ('w, 'p) outside =
  o_poll :: "peer list \<Rightarrow> 'w \<Rightarrow> (peer \<Rightarrow> 'p fetched) \<times> 'w"
  o_pause :: "'w \<Rightarrow> 'w"
  o_now :: "'w \<Rightarrow> int"

definition gate_timeout_error :: "int \<Rightarrow> string list \<Rightarrow> goerror" where
  "gate_timeout_error timeout problems = Errorf ''after %s: %s'' [GInt timeout, GStr (join ''; '' problems)]"

text \<open>One poll: the processes of the deployment that the fetched answers merge into.\<close>

definition ask :: "('w, 'p) outside \<Rightarrow> peer list \<Rightarrow> 'w \<Rightarrow> 'p process_view list \<times> 'w" where
  "ask out peers w = (let (got, w) = o_poll out peers w in (fl_processes (fleet_with got (\<lambda>_. False) peers), w))"

text \<open>The result is what the last poll saw, and the error when the gate gave up.\<close>

fun await_healthy :: "('w, 'p) outside \<Rightarrow> nat \<Rightarrow> int \<Rightarrow> int \<Rightarrow> peer list \<Rightarrow> 'w
    \<Rightarrow> (goerror option \<times> 'p process_view list \<times> 'w) option" where
  "await_healthy out 0 timeout deadline peers w = None"
| "await_healthy out (Suc fuel) timeout deadline peers w =
     (let (views, w) = ask out peers w;
          problems = health_problems views
      in if problems = [] then Some (None, views, w)
         else if o_now out w > deadline then Some (Some (gate_timeout_error timeout problems), views, w)
         else await_healthy out fuel timeout deadline peers (o_pause out w))"

definition gate :: "('w, 'p) outside \<Rightarrow> nat \<Rightarrow> int \<Rightarrow> peer list \<Rightarrow> 'w \<Rightarrow> (goerror option \<times> 'p process_view list \<times> 'w) option" where
  "gate out fuel timeout peers w = await_healthy out fuel timeout (o_now out w + timeout) peers w"

section \<open>The rollout\<close>

record rollout =
  ro_robot :: string
  ro_no_gate :: bool
  ro_gate_timeout :: int

definition rollout_robots :: "'v env_app \<Rightarrow> string \<Rightarrow> robot list result" where
  "rollout_robots app only =
     (case ea_env app of
        None \<Rightarrow> Inl (Errorf ''environment %q declares no robots; deploy it with -env alone'' [GStr []])
      | Some env \<Rightarrow>
          if robots_of env = []
          then Inl (Errorf ''environment %q declares no robots; deploy it with -env alone'' [GStr (en_name env)])
          else if only = [] then Inr (robots_of env)
          else bind_result (robot_by_name env only) (\<lambda>r. Inr [r]))"

definition describe_robot :: "robot \<Rightarrow> string" where
  "describe_robot r =
     rb_name r @ '' ('' @ (if rb_host r = [] \<or> rb_host r = ''local'' then ''this machine'' else rb_host r) @ '')''"

text \<open>What a rollout did, for the specification: a robot was installed, with the application as it is
  there, and the world before and after; its gate was passed, with what the last poll saw, and the world after; or it serves no dashboard to ask.\<close>

datatype ('w, 'v, 'p) rollout_event =
  Installed robot "'v env_app" 'w 'w
| CameUp robot "peer list" "'p process_view list" 'w
| NotGated robot

definition at_host :: "string \<Rightarrow> 'v env_app \<Rightarrow> 'v env_app" where
  "at_host host on =
     (if host = [] then on
      else on\<lparr>ea_env := map_option (\<lambda>env. env\<lparr>en_deploy := map_option (\<lambda>d. d\<lparr>dc_host := host\<rparr>) (en_deploy env)\<rparr>) (ea_env on)\<rparr>)"

type_synonym ('w, 'v) installer = "'v env_app \<Rightarrow> 'v graph \<Rightarrow> deploy_opts \<Rightarrow> 'w \<Rightarrow> goerror option \<times> 'w"

text \<open>The loop over the robots; \<open>i\<close> is the number of robots done, \<open>n_all\<close> that of all.\<close>

fun roll :: "(string \<Rightarrow> float64 option) \<Rightarrow> 'v frames_files \<Rightarrow> ('w, 'v) installer \<Rightarrow> ('w, 'p) outside \<Rightarrow> nat
    \<Rightarrow> 'v env_app \<Rightarrow> environment \<Rightarrow> deploy_opts \<Rightarrow> rollout \<Rightarrow> nat \<Rightarrow> nat \<Rightarrow> robot list \<Rightarrow> 'w
    \<Rightarrow> (goerror option \<times> ('w, 'v, 'p) rollout_event list \<times> 'w) option" where
  "roll pf load install out fuel app env opts ro i n_all [] w = Some (None, [], w)"
| "roll pf load install out fuel app env opts ro i n_all (r # rs) w =
     (case for_robot load app env r of
        Inl e \<Rightarrow> Some (Some e, [], w)
      | Inr on0 \<Rightarrow>
          (let on = at_host (do_host opts) on0;
               (g, issues) = validate pf (ea_app on)
           in if errors issues then Some (Some (Errorf ''robot %s: graph has errors'' [GStr (rb_name r)]), [], w)
              else case install on g opts w of
                (Some e, w) \<Rightarrow> Some (Some (Errorf ''robot %s: %w'' [GStr (rb_name r), GErr e]), [], w)
              | (None, w1) \<Rightarrow>
                  if do_bundle_only opts \<or> do_dry_run opts \<or> ro_no_gate ro
                  then map_option (\<lambda>(e, evs, w'). (e, Installed r on w w1 # evs, w'))
                         (roll pf load install out fuel app env opts ro (i + 1) n_all rs w1)
                  else let peers = peers_of on (fst (static_bringup_order g)) in
                    if peers = []
                    then map_option (\<lambda>(e, evs, w'). (e, Installed r on w w1 # NotGated r # evs, w'))
                           (roll pf load install out fuel app env opts ro (i + 1) n_all rs w1)
                    else case gate out fuel (ro_gate_timeout ro) peers w1 of
                      None \<Rightarrow> None
                    | Some (Some e, views, w2) \<Rightarrow>
                        Some (Some (Errorf ''robot %s did not come up, stopping the rollout (%d of %d done): %w''
                                [GStr (rb_name r), GInt (int i), GInt (int n_all), GErr e]), [Installed r on w w1], w2)
                    | Some (None, views, w2) \<Rightarrow>
                        map_option (\<lambda>(e, evs, w'). (e, Installed r on w w1 # CameUp r peers views w2 # evs, w'))
                          (roll pf load install out fuel app env opts ro (i + 1) n_all rs w2)))"

definition default_gate_timeout :: int where "default_gate_timeout = 90 * 1000000000"

definition run_fleet :: "(string \<Rightarrow> float64 option) \<Rightarrow> 'v frames_files \<Rightarrow> ('w, 'v) installer \<Rightarrow> ('w, 'p) outside \<Rightarrow> nat
    \<Rightarrow> string \<Rightarrow> 'v env_app \<Rightarrow> deploy_opts \<Rightarrow> rollout \<Rightarrow> 'w \<Rightarrow> (goerror option \<times> ('w, 'v, 'p) rollout_event list \<times> 'w) option" where
  "run_fleet pf load install out fuel version app opts0 ro0 w =
     (let ro = ro0\<lparr>ro_gate_timeout := (if ro_gate_timeout ro0 \<le> 0 then default_gate_timeout else ro_gate_timeout ro0)\<rparr>
      in case ea_env app of
        None \<Rightarrow> Some (Some (Errorf ''a fleet needs an environment: declare one in environments.json and pass -env'' []), [], w)
      | Some env \<Rightarrow>
          (case rollout_robots app (ro_robot ro) of
             Inl e \<Rightarrow> Some (Some e, [], w)
           | Inr robots \<Rightarrow>
               if do_host opts0 \<noteq> [] \<and> length robots > 1
               then Some (Some (Errorf ''-host names one machine but %s has %d robots; use -robot to pick one''
                      [GStr (en_name env), GInt (int (length robots))]), [], w)
               else
                 let opts = (if do_version opts0 = [] then opts0\<lparr>do_version := version\<rparr> else opts0)
                 in roll pf load install out fuel app env opts ro 0 (length robots) robots w))"

section \<open>The next robot waits for the last\<close>

definition installed :: "('w, 'v, 'p) rollout_event list \<Rightarrow> robot list" where
  "installed evs = concat (map (\<lambda>ev. case ev of Installed r on w w1 \<Rightarrow> [r] | _ \<Rightarrow> []) evs)"

definition graph_peers :: "(string \<Rightarrow> float64 option) \<Rightarrow> 'v env_app \<Rightarrow> peer list" where
  "graph_peers pf on = peers_of on (fst (static_bringup_order (fst (validate pf (ea_app on)))))"

text \<open>The world before the poll number \<open>k\<close>, from 0, of a gate.\<close>

definition before_poll :: "('w, 'p) outside \<Rightarrow> peer list \<Rightarrow> nat \<Rightarrow> 'w \<Rightarrow> 'w" where
  "before_poll out peers k w = ((\<lambda>w. o_pause out (snd (o_poll out peers w))) ^^ k) w"

text \<open>A robot is put on a machine: the application resolved for it has a graph without errors, and the deployment
  succeeds, from one world to the next.\<close>

definition put_on :: "(string \<Rightarrow> float64 option) \<Rightarrow> 'v frames_files \<Rightarrow> ('w, 'v) installer \<Rightarrow> 'v env_app \<Rightarrow> environment \<Rightarrow> deploy_opts
    \<Rightarrow> robot \<Rightarrow> 'v env_app \<Rightarrow> 'w \<Rightarrow> 'w \<Rightarrow> bool" where
  "put_on pf load install app env opts r on w w1 \<longleftrightarrow>
     (\<exists>on0. for_robot load app env r = Inr on0 \<and> on = at_host (do_host opts) on0)
     \<and> \<not> errors (snd (validate pf (ea_app on))) \<and> install on (fst (validate pf (ea_app on))) opts w = (None, w1)"

text \<open>The gate of a robot, passed between the worlds \<open>w1\<close> and \<open>w2\<close>: it serves no dashboard; or some poll, the first to find
  nothing wrong, asked its processes, every one of them answered, and every node of each, of which there are some, was active.\<close>

definition passed :: "(string \<Rightarrow> float64 option) \<Rightarrow> ('w, 'p) outside \<Rightarrow> robot \<Rightarrow> 'v env_app \<Rightarrow> 'w \<Rightarrow> ('w, 'v, 'p) rollout_event \<Rightarrow> 'w \<Rightarrow> bool" where
  "passed pf out r on w1 ev w2 \<longleftrightarrow>
     (let peers = graph_peers pf on in
      if peers = [] then ev = NotGated r \<and> w2 = w1
      else \<exists>k views got. o_poll out peers (before_poll out peers k w1) = (got, w2)
        \<and> ev = CameUp r peers views w2 \<and> views = map (\<lambda>p. fetch_peer p (got p)) peers
        \<and> (\<forall>p \<in> set peers. answers (got p))
        \<and> (\<forall>v \<in> set views. pv_nodes v \<noteq> [] \<and> (\<forall>n \<in> set (pv_nodes v). nv_state n = ''active''))
        \<and> (\<forall>j < k. \<not> healthy (fst (ask out peers (before_poll out peers j w1)))))"

fun gated :: "(robot \<Rightarrow> 'v env_app \<Rightarrow> 'w \<Rightarrow> 'w \<Rightarrow> bool) \<Rightarrow> (robot \<Rightarrow> 'v env_app \<Rightarrow> 'w \<Rightarrow> ('w, 'v, 'p) rollout_event \<Rightarrow> 'w \<Rightarrow> bool)
    \<Rightarrow> 'w \<Rightarrow> ('w, 'v, 'p) rollout_event list \<Rightarrow> bool" where
  "gated pu pa w [] = True"
| "gated pu pa w [ev] = (\<exists>r on w1. ev = Installed r on w w1 \<and> pu r on w w1)"
| "gated pu pa w (ev # ev' # evs) = (\<exists>r on w1 w2. ev = Installed r on w w1 \<and> pu r on w w1 \<and> pa r on w1 ev' w2 \<and> gated pu pa w2 evs)"

lemma passed_event: "passed pf out r on w1 ev w2 \<Longrightarrow> ev = NotGated r \<or> (\<exists>views. ev = CameUp r (graph_peers pf on) views w2)"
  by (auto simp: passed_def Let_def split: if_splits)

lemma gated_split:
  assumes "\<And>r on v v1 r' on' w1 w2. \<not> pa r on w1 (Installed r' on' v v1) w2"
    and "gated pu pa w (xs @ Installed r on w0 w1 # ys)"
  shows "pu r on w0 w1 \<and> (ys \<noteq> [] \<longrightarrow> (\<exists>w2. pa r on w1 (hd ys) w2 \<and> (\<forall>r' on' v v1 zs. tl ys = Installed r' on' v v1 # zs \<longrightarrow> v = w2)))"
  using assms
proof (induction pu pa w xs rule: gated.induct)
  case (1 pu pa w)
  show ?case
  proof (cases ys)
    case (Cons y ys')
    with 1 show ?thesis by (cases ys'; cases "tl ys'") auto
  qed (use 1 in simp)
next
  case (2 pu pa w ev)
  then show ?case by (cases ys) auto
qed auto

lemma gated_last:
  assumes "\<And>r on v v1 r' on' w1 w2. \<not> pa r on w1 (Installed r' on' v v1) w2"
  shows "gated pu pa w evs \<Longrightarrow> even (length evs) \<Longrightarrow> evs \<noteq> [] \<Longrightarrow> last evs \<noteq> Installed r on v v1"
  using assms by (induction pu pa w evs rule: gated.induct) auto

lemma ask_views: "ask out peers w = (map (\<lambda>p. fetch_peer p (fst (o_poll out peers w) p)) peers, snd (o_poll out peers w))"
  by (simp add: ask_def fleet_with_def merge_fleet_def Let_def case_prod_beta)

lemma before_poll_simps:
  "before_poll out peers 0 w = w" "before_poll out peers (Suc k) w = before_poll out peers k (o_pause out (snd (o_poll out peers w)))"
  using funpow_swap1[of "\<lambda>w. o_pause out (snd (o_poll out peers w))" k w] by (simp_all add: before_poll_def)

lemma await_healthy_up:
  "await_healthy out fuel timeout deadline peers w = Some (None, views, w') \<Longrightarrow>
     \<exists>k. ask out peers (before_poll out peers k w) = (views, w') \<and> healthy views
       \<and> (\<forall>j < k. \<not> healthy (fst (ask out peers (before_poll out peers j w))))"
proof (induction fuel arbitrary: w)
  case (Suc fuel)
  obtain vs w1 where a: "ask out peers w = (vs, w1)" by fastforce
  show ?case
  proof (cases "healthy vs")
    case True
    with Suc.prems a show ?thesis by (intro exI[of _ 0]) (simp add: Let_def health_problems_none before_poll_simps)
  next
    case False
    with Suc.prems a have "await_healthy out fuel timeout deadline peers (o_pause out w1) = Some (None, views, w')"
      by (simp add: Let_def health_problems_none split: if_splits)
    from Suc.IH[OF this] obtain k where k: "ask out peers (before_poll out peers k (o_pause out w1)) = (views, w')" "healthy views"
      "\<forall>j < k. \<not> healthy (fst (ask out peers (before_poll out peers j (o_pause out w1))))" by blast
    have w1: "w1 = snd (o_poll out peers w)" using a by (simp add: ask_views)
    have "\<not> healthy (fst (ask out peers (before_poll out peers j w)))" if "j < Suc k" for j
      using that k(3) False a by (cases j) (simp_all add: before_poll_simps w1)
    with k(1,2) show ?thesis by (intro exI[of _ "Suc k"]) (simp add: before_poll_simps w1)
  qed
qed simp

lemma gate_passed:
  assumes "gate out fuel timeout (graph_peers pf on) w1 = Some (None, views, w2)" "graph_peers pf on \<noteq> []"
  shows "passed pf out r on w1 (CameUp r (graph_peers pf on) views w2) w2"
proof -
  let ?ps = "graph_peers pf on"
  from await_healthy_up[OF assms(1)[unfolded gate_def]] obtain k where k: "ask out ?ps (before_poll out ?ps k w1) = (views, w2)" "healthy views"
    "\<forall>j < k. \<not> healthy (fst (ask out ?ps (before_poll out ?ps j w1)))" by blast
  define got where "got = fst (o_poll out ?ps (before_poll out ?ps k w1))"
  have v: "views = map (\<lambda>p. fetch_peer p (got p)) ?ps" "o_poll out ?ps (before_poll out ?ps k w1) = (got, w2)"
    using k(1) by (auto simp: ask_views got_def prod_eq_iff)
  have "\<forall>p \<in> set ?ps. answers (got p)" using k(2) by (auto simp: healthy_def v(1) fetch_peer_view)
  moreover have "\<forall>u \<in> set views. pv_nodes u \<noteq> [] \<and> (\<forall>n \<in> set (pv_nodes u). nv_state n = ''active'')"
    using k(2) by (simp add: healthy_def)
  ultimately show ?thesis
    unfolding passed_def Let_def if_not_P[OF assms(2)]
    using k(3) v by (intro exI[of _ k] exI[of _ views] exI[of _ got] conjI) simp_all
qed

lemma roll_gated:
  assumes "\<not> do_bundle_only opts" "\<not> do_dry_run opts" "\<not> ro_no_gate ro"
    and "roll pf load install out fuel app env opts ro i n rs w = Some (e, evs, w')"
  shows "gated (put_on pf load install app env opts) (passed pf out) w evs
    \<and> (\<exists>k. installed evs = take k rs) \<and> (e = None \<longrightarrow> installed evs = rs \<and> even (length evs))"
  using assms(4)
proof (induction rs arbitrary: i w e evs w')
  case Nil
  then show ?case by (simp add: installed_def)
next
  case (Cons r rs)
  show ?case
  proof (cases "for_robot load app env r")
    case (Inl err)
    with Cons.prems show ?thesis by (auto simp: installed_def intro: exI[of _ 0])
  next
    case (Inr on0)
    define on where "on = at_host (do_host opts) on0"
    obtain g issues where v: "validate pf (ea_app on) = (g, issues)" by fastforce
    show ?thesis
    proof (cases "errors issues")
      case True
      with Cons.prems Inr v show ?thesis by (auto simp: on_def[symmetric] Let_def installed_def intro: exI[of _ 0])
    next
      case ok: False
      obtain r1 w1 where ins: "install on g opts w = (r1, w1)" by fastforce
      show ?thesis
      proof (cases r1)
        case (Some err)
        with Cons.prems Inr v ok ins show ?thesis by (auto simp: on_def[symmetric] Let_def installed_def intro: exI[of _ 0])
      next
        case None
        have put: "put_on pf load install app env opts r on w w1"
          using Inr v ok ins None by (simp add: put_on_def on_def)
        define ps where "ps = peers_of on (fst (static_bringup_order g))"
        have ps: "graph_peers pf on = ps" by (simp add: graph_peers_def v ps_def)
        let ?I = "Installed r on w w1"
        have next1: "gated (put_on pf load install app env opts) (passed pf out) w (?I # ev # evs1)
            \<and> (\<exists>k. installed (?I # ev # evs1) = take k (r # rs))
            \<and> (e1 = None \<longrightarrow> installed (?I # ev # evs1) = r # rs \<and> even (length (?I # ev # evs1)))"
          if "roll pf load install out fuel app env opts ro (i + 1) n rs w2 = Some (e1, evs1, w3)" "passed pf out r on w1 ev w2"
          for e1 evs1 w2 w3 ev
        proof -
          from Cons.IH[OF that(1)] obtain k where IH: "gated (put_on pf load install app env opts) (passed pf out) w2 evs1"
            "installed evs1 = take k rs" "e1 = None \<longrightarrow> installed evs1 = rs \<and> even (length evs1)" by blast
          have "installed (?I # ev # evs1) = r # installed evs1"
            using passed_event[OF that(2)] by (auto simp: installed_def)
          with IH put that(2) show ?thesis by (auto intro: exI[of _ "Suc k"])
        qed
        show ?thesis
        proof (cases "ps = []")
          case True
          then obtain e1 evs1 where "roll pf load install out fuel app env opts ro (i + 1) n rs w1 = Some (e1, evs1, w')"
            "e = e1" "evs = ?I # NotGated r # evs1"
            using Cons.prems Inr v ok ins None assms(1-3) by (auto simp: on_def[symmetric] Let_def ps_def[symmetric])
          moreover have "passed pf out r on w1 (NotGated r) w1" using True ps by (simp add: passed_def)
          ultimately show ?thesis using next1 by blast
        next
          case ne: False
          then obtain r2 views w2 where g: "gate out fuel (ro_gate_timeout ro) ps w1 = Some (r2, views, w2)"
            using Cons.prems Inr v ok ins None assms(1-3)
            by (auto simp: on_def[symmetric] Let_def ps_def[symmetric] split: option.splits)
          show ?thesis
          proof (cases r2)
            case (Some err)
            with Cons.prems Inr v ok ins None assms(1-3) ne g have "e \<noteq> None" "evs = [?I]"
              by (auto simp: on_def[symmetric] Let_def ps_def[symmetric])
            with put show ?thesis by (auto simp: installed_def intro: exI[of _ 1])
          next
            case up: None
            then obtain e1 evs1 where "roll pf load install out fuel app env opts ro (i + 1) n rs w2 = Some (e1, evs1, w')"
              "e = e1" "evs = ?I # CameUp r ps views w2 # evs1"
              using Cons.prems Inr v ok ins None assms(1-3) ne g by (auto simp: on_def[symmetric] Let_def ps_def[symmetric])
            moreover have "passed pf out r on w1 (CameUp r ps views w2) w2"
              using gate_passed[of out fuel "ro_gate_timeout ro" pf on w1 views w2 r] g up ne ps by simp
            ultimately show ?thesis using next1 by blast
          qed
        qed
      qed
    qed
  qed
qed

text \<open>The options every robot is deployed with: one version, asked for or the checkout's.\<close>

definition release_opts :: "string \<Rightarrow> deploy_opts \<Rightarrow> deploy_opts" where
  "release_opts version opts = (if do_version opts = [] then opts\<lparr>do_version := version\<rparr> else opts)"

text \<open>C26. A release moves to the next robot only past the gate of the last: in a rollout that is neither a
  dry run nor asked to go ungated, each robot installed has, as the application is there, a graph without errors and was
  deployed with success; whatever follows its installation follows a poll, made after it, of the processes its graph names,
  the first to find nothing wrong, in which every one of them answered with at least one node and every
  node was active, or its serving no dashboard at all; the next installation starts from the world that poll left;
  and a rollout that succeeds installed every robot it was asked for, in order.\<close>

theorem rollout_waits:
  assumes "run_fleet pf load install out fuel version app opts ro w = Some (e, evs, w')"
    and "\<not> do_bundle_only opts" "\<not> do_dry_run opts" "\<not> ro_no_gate ro"
  shows "(\<forall>xs r on w0 w1 ys. evs = xs @ Installed r on w0 w1 # ys \<longrightarrow>
      put_on pf load install app (the (ea_env app)) (release_opts version opts) r on w0 w1
      \<and> (ys \<noteq> [] \<longrightarrow> (\<exists>w2. passed pf out r on w1 (hd ys) w2 \<and> (\<forall>r' on' v v1 zs. tl ys = Installed r' on' v v1 # zs \<longrightarrow> v = w2))))
    \<and> (e = None \<longrightarrow> rollout_robots app (ro_robot ro) = Inr (installed evs) \<and> (\<forall>r on w0 w1. last evs \<noteq> Installed r on w0 w1))"
proof (cases "evs = [] \<and> e \<noteq> None")
  case False
  let ?opts = "release_opts version opts"
  obtain env robots ro' where r: "ea_env app = Some env" "rollout_robots app (ro_robot ro) = Inr robots"
    "\<not> do_bundle_only ?opts" "\<not> do_dry_run ?opts" "\<not> ro_no_gate ro'"
    "roll pf load install out fuel app env ?opts ro' 0 (length robots) robots w = Some (e, evs, w')"
  proof -
    let ?ro = "ro\<lparr>ro_gate_timeout := (if ro_gate_timeout ro \<le> 0 then default_gate_timeout else ro_gate_timeout ro)\<rparr>"
    obtain env where env: "ea_env app = Some env"
      using assms(1) False by (cases "ea_env app") (auto simp: run_fleet_def)
    then obtain robots where "rollout_robots app (ro_robot ro) = Inr robots"
      using assms(1) False by (cases "rollout_robots app (ro_robot ro)") (auto simp: run_fleet_def)
    moreover from this env have "roll pf load install out fuel app env ?opts ?ro 0 (length robots) robots w = Some (e, evs, w')"
      using assms(1) False by (auto simp: run_fleet_def release_opts_def Let_def split: if_splits)
    ultimately show ?thesis using that[OF env, of robots ?ro] assms(2-4) by (auto simp: release_opts_def)
  qed
  from roll_gated[OF r(3-6)] have g: "gated (put_on pf load install app env ?opts) (passed pf out) w evs"
    "e = None \<longrightarrow> installed evs = robots \<and> even (length evs)" by auto
  have no: "\<not> passed pf out r on w1 (Installed r' on' v v1) w2" for r on w1 r' on' v v1 w2
    using passed_event[of pf out r on w1 "Installed r' on' v v1" w2] by auto
  have "\<forall>r on w0 w1. last evs \<noteq> Installed r on w0 w1" if "e = None"
  proof (cases evs)
    case Nil
    have "robots \<noteq> []" using r(1,2) by (auto simp: rollout_robots_def bind_result_Inr split: if_splits)
    with that g(2) Nil show ?thesis by (simp add: installed_def)
  next
    case (Cons a as)
    have "even (length evs)" "evs \<noteq> []" using g that Cons by auto
    with gated_last[OF no g(1)] show ?thesis by blast
  qed
  moreover have "put_on pf load install app (the (ea_env app)) ?opts r on w0 w1
      \<and> (ys \<noteq> [] \<longrightarrow> (\<exists>w2. passed pf out r on w1 (hd ys) w2 \<and> (\<forall>r' on' v v1 zs. tl ys = Installed r' on' v v1 # zs \<longrightarrow> v = w2)))"
    if "evs = xs @ Installed r on w0 w1 # ys" for xs r on w0 w1 ys
    using gated_split[OF no g(1)[unfolded that]] r(1) by simp
  ultimately show ?thesis using g(2) r(2) by blast
qed auto

section \<open>The gate gives up in time\<close>

definition two_seconds :: int where "two_seconds = 2 * 1000000000"

lemma await_healthy_returns:
  assumes poll: "\<And>ps w. o_now out w \<le> o_now out (snd (o_poll out ps w))"
    and pause: "\<And>w. o_now out w + two_seconds \<le> o_now out (o_pause out w)"
    and "deadline + two_seconds < o_now out w + int fuel * two_seconds" and "0 < fuel"
  shows "\<exists>res. await_healthy out fuel timeout deadline peers w = Some res"
  using assms(3,4)
proof (induction fuel arbitrary: w)
  case (Suc fuel)
  obtain views w1 where p: "ask out peers w = (views, w1)" by fastforce
  have t: "o_now out w \<le> o_now out w1" using poll[of w peers] p by (simp add: ask_views)
  show ?case
  proof (cases "health_problems views = [] \<or> o_now out w1 > deadline")
    case True
    with p show ?thesis by (auto simp: Let_def)
  next
    case False
    have "deadline + two_seconds < o_now out (o_pause out w1) + int fuel * two_seconds"
      using Suc.prems(1) t pause[of w1] by (simp add: distrib_right)
    moreover have "0 < fuel" using Suc.prems(1) t False by (cases fuel) (auto simp: two_seconds_def)
    ultimately show ?thesis using Suc.IH p False by (simp add: Let_def)
  qed
qed simp

lemma roll_returns:
  assumes poll: "\<And>ps w. o_now out w \<le> o_now out (snd (o_poll out ps w))"
    and pause: "\<And>w. o_now out w + two_seconds \<le> o_now out (o_pause out w)"
    and fuel: "ro_gate_timeout ro + two_seconds < int fuel * two_seconds" "0 < fuel"
  shows "\<exists>res. roll pf load install out fuel app env opts ro i n rs w = Some res"
proof (induction rs arbitrary: i w)
  case (Cons r rs)
  have g: "\<exists>e views w1. gate out fuel (ro_gate_timeout ro) ps w2 = Some (e, views, w1)" for ps w2
    using await_healthy_returns[OF poll pause, of "o_now out w2 + ro_gate_timeout ro" w2 fuel] fuel by (fastforce simp: gate_def)
  have "\<exists>e evs w1. roll pf load install out fuel app env opts ro (Suc i) n rs w2 = Some (e, evs, w1)" for w2
    using Cons.IH[of "Suc i" w2] by auto
  with g show ?case
    by (auto simp: Let_def split: sum.split prod.split option.split) (metis option.distinct(1))+
qed simp


section \<open>A rollout to two robots\<close>

definition desk_env :: environment where
  "desk_env = field_env\<lparr>en_transport := ''inproc'', en_frames := [], en_robots := [Some (plain_robot ''p1'' ''pi@p1''), Some (plain_robot ''p2'' [])]\<rparr>"

definition desk_app :: "nat env_app" where
  "desk_app = bare_app\<lparr>ea_env := Some desk_env\<rparr>"

text \<open>A world that is a clock, in which every process comes up five seconds after the start.\<close>

definition desk_summary :: "nat summary_view" where
  "desk_summary = \<lparr>su_app = blank_app_view, su_nodes = [active_node_view ''nav''], su_topics = [], su_missions = [], su_frames = []\<rparr>"

definition booting :: "(int, nat) outside" where
  "booting = \<lparr>o_poll = (\<lambda>ps t. (\<lambda>_. if t > 5 * 1000000000 then Answered 0 200 ''OK'' (Inr desk_summary) else Unreached ''down'', t)),
     o_pause = (\<lambda>t. t + two_seconds), o_now = (\<lambda>t. t)\<rparr>"

definition desk_rollout :: rollout where
  "desk_rollout = \<lparr>ro_robot = [], ro_no_gate = False, ro_gate_timeout = 0\<rparr>"

definition desk_on :: "robot \<Rightarrow> nat env_app" where
  "desk_on r = desk_app\<lparr>ea_env := Some (robot_env desk_env r), ea_robot := Some r\<rparr>"

lemma desk_for_robot: "rb_frames r = [] \<Longrightarrow> for_robot field_files desk_app desk_env r = Inr (desk_on r)"
  by (simp add: for_robot_def resolve_frames_def desk_on_def)

lemma desk_graph: "ea_app (desk_on r) = empty_app" "errors (snd (validate (\<lambda>_. None) (empty_app :: nat app))) = False"
  by (simp_all add: desk_on_def desk_app_def bare_app_def) code_simp

definition desk_peer :: "robot \<Rightarrow> peer" where
  "desk_peer r = hd (peers_of (desk_on r) [])"

lemma desk_peers: "rb_dashboard r = [] \<Longrightarrow> peers_of (desk_on r) ord = [desk_peer r]"
  by (simp add: desk_peer_def peers_of_def desk_on_def robot_env_def desk_env_def field_env_def override_def
    single_process_def transport_name_def Let_def)

lemma desk_gate: "5 * 1000000000 < t \<Longrightarrow> \<exists>views. gate booting 60 d ps t = Some (None, views, t)"
proof -
  assume "5 * 1000000000 < t"
  then have "health_problems (fst (ask booting ps t)) = []" "snd (ask booting ps t) = t"
    by (auto simp: health_problems_none healthy_def ask_views fetch_peer_def booting_def desk_summary_def active_node_view_def)
  then have "await_healthy booting (Suc 59) d (t + d) ps t = Some (None, fst (ask booting ps t), t)"
    by (subst await_healthy.simps(2)) (simp add: Let_def case_prod_beta)
  then show ?thesis by (simp add: gate_def booting_def)
qed

lemma desk_step:
  assumes "rb_frames r = []" "rb_dashboard r = []" "5 * 1000000000 < t"
    and "roll (\<lambda>_. None) field_files (\<lambda>on g opts t. (None, t)) booting 60 desk_app desk_env opts ro (i + 1) n rs t = Some (None, evs, t)"
    and "\<not> do_bundle_only opts" "\<not> do_dry_run opts" "\<not> ro_no_gate ro" "do_host opts = []"
  shows "\<exists>views. roll (\<lambda>_. None) field_files (\<lambda>on g opts t. (None, t)) booting 60 desk_app desk_env opts ro i n (r # rs) t
    = Some (None, Installed r (desk_on r) t t # CameUp r [desk_peer r] views t # evs, t)"
proof -
  obtain views where g: "gate booting 60 (ro_gate_timeout ro) [desk_peer r] t = Some (None, views, t)"
    using desk_gate[OF assms(3)] by blast
  obtain gr iss where v: "validate (\<lambda>_. None) (empty_app :: nat app) = (gr, iss)" by fastforce
  then have "\<not> errors iss" using desk_graph(2) by simp
  with assms g v show ?thesis
    by (simp add: desk_for_robot at_host_def desk_graph(1) desk_peers Let_def)
qed

lemma desk_run: "\<exists>v1 v2. run_fleet (\<lambda>_. None) field_files (\<lambda>on g opts t. (None, t)) booting 60 ''1'' desk_app field_opts desk_rollout 6000000000
    = Some (None, [Installed (plain_robot ''p1'' ''pi@p1'') (desk_on (plain_robot ''p1'' ''pi@p1'')) 6000000000 6000000000,
        CameUp (plain_robot ''p1'' ''pi@p1'') [desk_peer (plain_robot ''p1'' ''pi@p1'')] v1 6000000000,
        Installed (plain_robot ''p2'' []) (desk_on (plain_robot ''p2'' [])) 6000000000 6000000000,
        CameUp (plain_robot ''p2'' []) [desk_peer (plain_robot ''p2'' [])] v2 6000000000], 6000000000)"
proof -
  let ?o = "field_opts\<lparr>do_version := ''1''\<rparr>" and ?r = "desk_rollout\<lparr>ro_gate_timeout := default_gate_timeout\<rparr>"
  let ?p1 = "plain_robot ''p1'' ''pi@p1''" and ?p2 = "plain_robot ''p2'' []"
  have f: "\<not> do_bundle_only ?o" "\<not> do_dry_run ?o" "\<not> ro_no_gate ?r" "do_host ?o = []"
    by (simp_all add: field_opts_def desk_rollout_def)
  have p: "rb_frames (plain_robot a b) = []" "rb_dashboard (plain_robot a b) = []" for a b by (simp_all add: plain_robot_def)
  obtain v2 where 2: "roll (\<lambda>_. None) field_files (\<lambda>on g opts t. (None, t)) booting 60 desk_app desk_env ?o ?r (0 + 1) 2 [?p2] 6000000000
    = Some (None, [Installed ?p2 (desk_on ?p2) 6000000000 6000000000, CameUp ?p2 [desk_peer ?p2] v2 6000000000], 6000000000)"
    using desk_step[OF p, of 6000000000 ?o ?r 1 2 "[]" "[]" "''p2''" "[]"] f by auto
  obtain v1 where 1: "roll (\<lambda>_. None) field_files (\<lambda>on g opts t. (None, t)) booting 60 desk_app desk_env ?o ?r 0 2 [?p1, ?p2] 6000000000
    = Some (None, [Installed ?p1 (desk_on ?p1) 6000000000 6000000000, CameUp ?p1 [desk_peer ?p1] v1 6000000000, Installed ?p2 (desk_on ?p2) 6000000000 6000000000, CameUp ?p2 [desk_peer ?p2] v2 6000000000], 6000000000)"
    using desk_step[OF p _ 2 f] by auto
  have "ea_env desk_app = Some desk_env" "robots_of desk_env = [?p1, ?p2]"
    by (simp_all add: desk_app_def desk_env_def robots_of_def map_filter_simps)
  with 1 show ?thesis
    by (simp add: run_fleet_def rollout_robots_def Let_def desk_rollout_def[THEN arg_cong[where f = ro_robot]] field_opts_def[THEN arg_cong[where f = do_host]] field_opts_def[THEN arg_cong[where f = do_version]] desk_rollout_def[THEN arg_cong[where f = ro_gate_timeout]] numeral_2_eq_2)
qed

theorem rollout_waits_witness:
  "\<exists>evs w. run_fleet (\<lambda>_. None) field_files (\<lambda>on g opts t. (None, t)) booting 60 ''1'' desk_app field_opts desk_rollout 6000000000 = Some (None, evs, w)
     \<and> rollout_robots desk_app [] = Inr (installed evs)"
proof -
  obtain evs w where r: "run_fleet (\<lambda>_. None) field_files (\<lambda>on g opts t. (None, t)) booting 60 ''1'' desk_app field_opts desk_rollout 6000000000 = Some (None, evs, w)"
    using desk_run by blast
  have "rollout_robots desk_app (ro_robot desk_rollout) = Inr (installed evs)"
    using rollout_waits[OF r] by (simp add: field_opts_def desk_rollout_def)
  with r show ?thesis by (simp add: desk_rollout_def)
qed


end
