(* ===== verification/Discover.thy ===== *)
theory Discover
imports Graph_Build Rmw_Zenoh "HOL-Library.Product_Lexorder"
begin

text \<open>
  Reading a live graph (\<^verbatim>\<open>internal/discover\<close>): the tokens a query collects (\<^verbatim>\<open>Query\<close> in
  \<^verbatim>\<open>query_zenoh.go\<close>), and the interfaces they add up to, with the profile to declare for each
  (\<^verbatim>\<open>graph.go\<close>). The session with the router, its timers and their timeouts are outside the program: the samples
  it hands over are an argument.
\<close>

text \<open>The dash and the dots of the messages, as UTF-8.\<close>

definition em_dash :: string where "em_dash = [CHR 0xE2, CHR 0x80, CHR 0x94]"
definition ellipsis :: string where "ellipsis = [CHR 0xE2, CHR 0x80, CHR 0xA6]"

section \<open>The graph\<close>

datatype sample = Put string | Delete string

definition collect_sample :: "string list \<Rightarrow> sample \<Rightarrow> string list" where
  "collect_sample tokens s = (case s of Put t \<Rightarrow> append_once tokens t | Delete t \<Rightarrow> removeAll t tokens)"

record live_graph =
  dg_domain :: int
  dg_endpoint :: string
  dg_entities :: "entity list"
  dg_unreadable :: "string \<Rightarrow> goerror option"

text \<open>The tokens are sorted before they are read. The unreadable ones are reported in no particular order.\<close>

fun read_tokens :: "string list \<Rightarrow> live_graph \<Rightarrow> live_graph" where
  "read_tokens [] g = g"
| "read_tokens (t # ts) g =
     (case parse_token t of
        Inl e \<Rightarrow> read_tokens ts (g\<lparr>dg_unreadable := (dg_unreadable g)(t \<mapsto> e)\<rparr>)
      | Inr e \<Rightarrow> read_tokens ts (g\<lparr>dg_entities := dg_entities g @ [e]\<rparr>))"

definition query_graph :: "int \<Rightarrow> string \<Rightarrow> sample list \<Rightarrow> live_graph" where
  "query_graph domain endpoint samples =
     read_tokens (sort (foldl collect_sample [] samples))
       \<lparr>dg_domain = domain, dg_endpoint = endpoint, dg_entities = [], dg_unreadable = Map.empty\<rparr>"

definition graph_nodes :: "live_graph \<Rightarrow> string list" where
  "graph_nodes g = sort (remdups (map enode (filter (\<lambda>e. ekind e = entity_node) (dg_entities g))))"

section \<open>Interfaces\<close>

definition kind_topic :: string where "kind_topic = ''topic''"
definition kind_service :: string where "kind_service = ''service''"
definition kind_action :: string where "kind_action = ''action''"

lemma kinds_distinct [simp]:
  "kind_topic \<noteq> kind_service" "kind_topic \<noteq> kind_action" "kind_service \<noteq> kind_action"
  "kind_service \<noteq> kind_topic" "kind_action \<noteq> kind_topic" "kind_action \<noteq> kind_service"
  by (simp_all add: kind_topic_def kind_service_def kind_action_def)

lemma entity_kinds_distinct [simp]:
  "entity_publisher \<noteq> entity_subscription" "entity_publisher \<noteq> entity_service" "entity_publisher \<noteq> entity_client"
  "entity_subscription \<noteq> entity_publisher" "entity_subscription \<noteq> entity_service" "entity_subscription \<noteq> entity_client"
  "entity_service \<noteq> entity_publisher" "entity_service \<noteq> entity_subscription" "entity_service \<noteq> entity_client"
  "entity_client \<noteq> entity_publisher" "entity_client \<noteq> entity_subscription" "entity_client \<noteq> entity_service"
  "entity_node \<noteq> entity_publisher" "entity_publisher \<noteq> entity_node"
  by (simp_all add: entity_kinds)

record interface =
  if_name :: string
  if_kind :: string
  if_type :: string
  if_hash :: string
  if_hashes :: "string list"
  if_qos :: string
  if_qos_raw :: qos
  if_offers :: "qos list"
  if_requests :: "qos list"
  if_pubs :: "string list"
  if_subs :: "string list"
  if_servers :: "string list"
  if_clients :: "string list"
  if_infra :: bool

definition new_interface :: "string \<times> string \<Rightarrow> interface" where
  "new_interface k = \<lparr>if_name = fst k, if_kind = snd k, if_type = [], if_hash = [], if_hashes = [], if_qos = [], if_qos_raw = qos_zero,
     if_offers = [], if_requests = [], if_pubs = [], if_subs = [], if_servers = [], if_clients = [], if_infra = False\<rparr>"

definition providers :: "interface \<Rightarrow> string list" where
  "providers i = (if if_kind i = kind_topic then if_pubs i else if_servers i)"

definition consumers :: "interface \<Rightarrow> string list" where
  "consumers i = (if if_kind i = kind_topic then if_subs i else if_clients i)"

definition action_suffixes :: "string list" where
  "action_suffixes = [''/_action/send_goal'', ''/_action/get_result'', ''/_action/cancel_goal'', ''/_action/feedback'', ''/_action/status'']"

definition infrastructure_types :: "string list" where
  "infrastructure_types =
     [''rcl_interfaces/msg/ParameterEvent'', ''rcl_interfaces/msg/Log'', ''rcl_interfaces/srv/DescribeParameters'',
      ''rcl_interfaces/srv/GetParameterTypes'', ''rcl_interfaces/srv/GetParameters'', ''rcl_interfaces/srv/ListParameters'',
      ''rcl_interfaces/srv/SetParameters'', ''rcl_interfaces/srv/SetParametersAtomically'', ''lifecycle_msgs/msg/TransitionEvent'',
      ''lifecycle_msgs/srv/ChangeState'', ''lifecycle_msgs/srv/GetState'', ''lifecycle_msgs/srv/GetAvailableStates'',
      ''lifecycle_msgs/srv/GetAvailableTransitions'', ''lifecycle_msgs/srv/GetTransitionGraph'', ''tf2_msgs/msg/TFMessage'',
      ''type_description_interfaces/srv/GetTypeDescription'']"

text \<open>The first of the suffixes that fits is stripped.\<close>

definition strip_first :: "string list \<Rightarrow> string \<Rightarrow> string option" where
  "strip_first sfs s = (case find (\<lambda>x. suffix x s) sfs of None \<Rightarrow> None | Some x \<Rightarrow> Some (trim_suffix x s))"

definition split_action :: "string \<Rightarrow> string option" where
  "split_action name = strip_first action_suffixes name"

definition action_type :: "string \<Rightarrow> string" where
  "action_type t =
     (case strip_first [''_SendGoal_Request'', ''_SendGoal_Response'', ''_SendGoal'', ''_GetResult_Request'', ''_GetResult_Response'',
         ''_GetResult'', ''_FeedbackMessage'', ''_Feedback'', ''_Goal'', ''_Result''] t of
        Some base \<Rightarrow> base
      | None \<Rightarrow> if prefix ''action_msgs/'' t then [] else t)"

definition service_type :: "string \<Rightarrow> string" where
  "service_type t = (case strip_first [''_Request'', ''_Response'', ''_Event''] t of Some base \<Rightarrow> base | None \<Rightarrow> t)"

definition add_name :: "string list \<Rightarrow> string \<Rightarrow> string list" where
  "add_name xs v = (if v = [] then xs else append_once xs v)"

definition same_policy :: "qos \<Rightarrow> qos \<Rightarrow> bool" where
  "same_policy p q \<longleftrightarrow> reliability p = reliability q \<and> durability p = durability q \<and> depth p = depth q"

definition add_qos :: "qos list \<Rightarrow> qos \<Rightarrow> qos list" where
  "add_qos xs q = (if list_ex (\<lambda>p. same_policy p q) xs then xs else xs @ [q])"

definition record_entity :: "entity \<Rightarrow> interface \<Rightarrow> interface" where
  "record_entity e i =
     (let i = i\<lparr>if_type := (if if_type i = [] then etype e else if_type i),
                if_hash := (if if_hash i = [] then ehash e else if_hash i),
                if_hashes := add_name (if_hashes i) (ehash e)\<rparr>
      in if if_kind i \<noteq> kind_topic then i
         else if ekind e = entity_publisher then i\<lparr>if_offers := add_qos (if_offers i) (eqos e)\<rparr>
         else if ekind e = entity_subscription then i\<lparr>if_requests := add_qos (if_requests i) (eqos e)\<rparr>
         else i)"

text \<open>Which interface an endpoint belongs to, by name and kind, and what it adds there.\<close>

definition interface_of :: "entity \<Rightarrow> (string \<times> string) option" where
  "interface_of e =
     (if ekind e = entity_node then None
      else let name = trim_prefix ''/'' (etopic e)
           in case split_action name of
                Some action \<Rightarrow> Some (action, kind_action)
              | None \<Rightarrow> if ekind e = entity_publisher \<or> ekind e = entity_subscription then Some (name, kind_topic)
                        else if ekind e = entity_service \<or> ekind e = entity_client then Some (name, kind_service)
                        else None)"

definition roll_up :: "entity \<Rightarrow> interface \<Rightarrow> interface" where
  "roll_up e i =
     (if split_action (trim_prefix ''/'' (etopic e)) \<noteq> None
      then (let i = i\<lparr>if_type := (if if_type i = [] then action_type (etype e) else if_type i)\<rparr>
            in if ekind e = entity_service \<or> ekind e = entity_publisher then i\<lparr>if_servers := add_name (if_servers i) (enode e)\<rparr>
               else if ekind e = entity_client \<or> ekind e = entity_subscription then i\<lparr>if_clients := add_name (if_clients i) (enode e)\<rparr>
               else i)
      else if ekind e = entity_publisher then (record_entity e i)\<lparr>if_pubs := add_name (if_pubs i) (enode e)\<rparr>
      else if ekind e = entity_subscription then (record_entity e i)\<lparr>if_subs := add_name (if_subs i) (enode e)\<rparr>
      else let i = (record_entity e i)\<lparr>if_type := service_type (etype e)\<rparr>
           in if ekind e = entity_service then i\<lparr>if_servers := add_name (if_servers i) (enode e)\<rparr>
              else i\<lparr>if_clients := add_name (if_clients i) (enode e)\<rparr>)"

definition weaker :: "qos \<Rightarrow> qos \<Rightarrow> bool" where
  "weaker a b =
     (if reliability a \<noteq> reliability b then reliability a = BestEffort
      else if durability a \<noteq> durability b then durability a = Volatile
      else depth a < depth b)"

fun weakest :: "qos \<Rightarrow> qos list \<Rightarrow> qos" where
  "weakest w [] = w"
| "weakest w (q # qs) = weakest (if weaker q w then q else w) qs"

definition settle_qos :: "interface \<Rightarrow> interface" where
  "settle_qos i =
     (case (if if_offers i = [] then if_requests i else if_offers i) of
        [] \<Rightarrow> i
      | q # qs \<Rightarrow> let w = weakest q qs in i\<lparr>if_qos := qname w, if_qos_raw := w\<rparr>)"

definition finish_interface :: "interface \<Rightarrow> interface" where
  "finish_interface i =
     (let i = settle_qos (i\<lparr>if_infra := (if_type i \<in> set infrastructure_types)\<rparr>)
      in i\<lparr>if_pubs := sort (if_pubs i), if_subs := sort (if_subs i), if_servers := sort (if_servers i),
           if_clients := sort (if_clients i), if_hashes := sort (if_hashes i)\<rparr>)"

definition interface_key :: "interface \<Rightarrow> string \<times> string" where
  "interface_key i = (if_name i, if_kind i)"

definition entity_events :: "entity list \<Rightarrow> ((string \<times> string) \<times> (interface \<Rightarrow> interface)) list" where
  "entity_events es = concat (map (\<lambda>e. case interface_of e of None \<Rightarrow> [] | Some k \<Rightarrow> [(k, roll_up e)]) es)"

definition interfaces :: "entity list \<Rightarrow> interface list" where
  "interfaces es = sort_key interface_key (map finish_interface (collect interface_key new_interface (entity_events es)))"

definition describe_qos :: "qos \<Rightarrow> string" where
  "describe_qos q =
     (if qname q \<noteq> [] then qname q
      else reliability_string (reliability q) @ ''/'' @ durability_string (durability q) @ '' depth '' @ itoa (depth q))"

definition disagreement :: "interface \<Rightarrow> string list option" where
  "disagreement i = (if length (if_offers i) < 2 then None else Some (sort (map describe_qos (if_offers i))))"

section \<open>What an interface lists\<close>

lemma roll_up_fields [simp]:
  "if_name (record_entity e i) = if_name i" "if_kind (record_entity e i) = if_kind i"
  "if_name (roll_up e i) = if_name i" "if_kind (roll_up e i) = if_kind i"
  by (simp_all add: record_entity_def roll_up_def Let_def)

lemma keeps_interface: "keeps_key interface_key new_interface (entity_events es)"
  by (auto simp: keeps_key_def entity_events_def interface_key_def new_interface_def split: option.splits)

lemma finish_fields [simp]:
  "if_name (finish_interface i) = if_name i" "if_kind (finish_interface i) = if_kind i"
  "if_type (finish_interface i) = if_type i" "if_offers (finish_interface i) = if_offers i"
  "if_pubs (finish_interface i) = sort (if_pubs i)" "if_subs (finish_interface i) = sort (if_subs i)"
  "if_servers (finish_interface i) = sort (if_servers i)" "if_clients (finish_interface i) = sort (if_clients i)"
  "if_infra (finish_interface i) = (if_type i \<in> set infrastructure_types)"
  by (simp_all add: finish_interface_def settle_qos_def Let_def split: list.split)

definition rolled :: "entity list \<Rightarrow> string \<times> string \<Rightarrow> interface" where
  "rolled es k = foldl (\<lambda>i e. roll_up e i) (new_interface k) (filter (\<lambda>e. interface_of e = Some k) es)"

lemma sort_key_finish: "sort_key interface_key (map finish_interface xs) = map finish_interface (sort_key interface_key xs)"
proof -
  have "insort_key interface_key (finish_interface x) (map finish_interface xs) = map finish_interface (insort_key interface_key x xs)" for x xs
    by (induction xs) (simp_all add: interface_key_def)
  then show ?thesis by (induction xs) simp_all
qed

lemma interfaces_rolled:
  "interfaces es = map (\<lambda>k. finish_interface (rolled es k)) (sorted_list_of_set {k. \<exists>e \<in> set es. interface_of e = Some k})"
proof -
  have f: "map snd (filter (\<lambda>(l, f). l = k) (entity_events es)) = map roll_up (filter (\<lambda>e. interface_of e = Some k) es)" for k
    by (induction es) (auto simp: entity_events_def split: option.splits)
  have k: "fst ` set (entity_events es) = {k. \<exists>e \<in> set es. interface_of e = Some k}"
    by (force simp: entity_events_def split: option.splits)
  show ?thesis
    unfolding interfaces_def sort_key_finish collect_sorted[OF keeps_interface] k by (simp add: f rolled_def foldl_map)
qed

text \<open>What each endpoint adds to a list of its interface.\<close>

lemma add_name_spec: "set (add_name xs v) = set xs \<union> ({v} - {[]})" "distinct xs \<Longrightarrow> distinct (add_name xs v)"
  by (auto simp: add_name_def distinct_append_once)

lemma interface_of_kind:
  assumes "interface_of e = Some (n, k)"
  shows "k = kind_topic \<and> split_action (trim_prefix ''/'' (etopic e)) = None \<and> (ekind e = entity_publisher \<or> ekind e = entity_subscription)
    \<or> k = kind_service \<and> split_action (trim_prefix ''/'' (etopic e)) = None \<and> (ekind e = entity_service \<or> ekind e = entity_client)
    \<or> k = kind_action \<and> split_action (trim_prefix ''/'' (etopic e)) \<noteq> None"
proof -
  obtain name where name: "name = trim_prefix ''/'' (etopic e)" by blast
  show ?thesis
    using assms unfolding interface_of_def Let_def name[symmetric]
    by (cases "split_action name") (auto split: if_split_asm)
qed

definition provides_kind :: "entity \<Rightarrow> bool" where
  "provides_kind e \<longleftrightarrow> ekind e = entity_publisher \<or> ekind e = entity_service"

definition consumes_kind :: "entity \<Rightarrow> bool" where
  "consumes_kind e \<longleftrightarrow> ekind e = entity_subscription \<or> ekind e = entity_client"

lemma record_lists [simp]:
  "if_pubs (record_entity e i) = if_pubs i" "if_subs (record_entity e i) = if_subs i"
  "if_servers (record_entity e i) = if_servers i" "if_clients (record_entity e i) = if_clients i"
  by (simp_all add: record_entity_def Let_def)

lemma roll_up_lists:
  assumes "interface_of e = Some (interface_key i)"
  shows "providers (roll_up e i) = (if provides_kind e then add_name (providers i) (enode e) else providers i)"
    "consumers (roll_up e i) = (if consumes_kind e then add_name (consumers i) (enode e) else consumers i)"
  using interface_of_kind[OF assms[unfolded interface_key_def]]
  by (elim disjE conjE; simp add: providers_def consumers_def roll_up_def provides_kind_def consumes_kind_def Let_def)+

lemma rolled_snoc:
  "rolled (es @ [e]) k = (if interface_of e = Some k then roll_up e (rolled es k) else rolled es k)"
  by (simp add: rolled_def)

lemma rolled_key [simp]: "interface_key (rolled es k) = k"
proof (induction es rule: rev_induct)
  case Nil
  then show ?case by (simp add: rolled_def new_interface_def interface_key_def)
next
  case (snoc e es)
  then show ?case by (simp add: rolled_snoc interface_key_def)
qed

lemma rolled_lists:
  "set (providers (rolled es k)) = {enode e | e. e \<in> set es \<and> interface_of e = Some k \<and> provides_kind e \<and> enode e \<noteq> []}
   \<and> set (consumers (rolled es k)) = {enode e | e. e \<in> set es \<and> interface_of e = Some k \<and> consumes_kind e \<and> enode e \<noteq> []}
   \<and> distinct (providers (rolled es k)) \<and> distinct (consumers (rolled es k))"
proof (induction es rule: rev_induct)
  case Nil
  then show ?case by (simp add: rolled_def new_interface_def providers_def consumers_def)
next
  case (snoc e es)
  have "interface_of e = Some k \<Longrightarrow> interface_of e = Some (interface_key (rolled es k))" by simp
  note r = roll_up_lists[OF this]
  show ?case
  proof (cases "interface_of e = Some k")
    case True
    have sub: "{enode e' | e'. e' \<in> set (es @ [e]) \<and> interface_of e' = Some k \<and> P e' \<and> enode e' \<noteq> []}
      = {enode e' | e'. e' \<in> set es \<and> interface_of e' = Some k \<and> P e' \<and> enode e' \<noteq> []} \<union> (if P e then {enode e} - {[]} else {})" for P
      using True by auto
    show ?thesis unfolding sub using snoc True by (simp add: rolled_snoc r add_name_spec)
  next
    case False
    then have sub: "{enode e' | e'. e' \<in> set (es @ [e]) \<and> interface_of e' = Some k \<and> P e' \<and> enode e' \<noteq> []}
      = {enode e' | e'. e' \<in> set es \<and> interface_of e' = Some k \<and> P e' \<and> enode e' \<noteq> []}" for P
      by auto
    show ?thesis unfolding sub using snoc False by (simp add: rolled_snoc)
  qed
qed

lemma finish_lists [simp]:
  "interface_key (finish_interface i) = interface_key i"
  "providers (finish_interface i) = sort (providers i)" "consumers (finish_interface i) = sort (consumers i)"
  by (simp_all add: interface_key_def providers_def consumers_def)

lemma in_interfaces: "i \<in> set (interfaces es) \<Longrightarrow> i = finish_interface (rolled es (interface_key i)) \<and> (\<exists>e \<in> set es. interface_of e = Some (interface_key i))"
proof -
  have f: "finite {k. \<exists>e \<in> set es. interface_of e = Some k}"
  proof (rule finite_subset)
    show "{k. \<exists>e \<in> set es. interface_of e = Some k} \<subseteq> (the \<circ> interface_of) ` set es" by force
  qed simp
  assume "i \<in> set (interfaces es)"
  with f obtain k where "i = finish_interface (rolled es k)" "\<exists>e \<in> set es. interface_of e = Some k"
    by (auto simp: interfaces_rolled)
  then show ?thesis by simp
qed

text \<open>C34. The graph's endpoints roll up exactly: an interface lists as its providers, sorted and each once, the
  nodes with a publisher or a server of it - of an action, whose seven endpoints are one interface, any that
  the server of one advertises - and as its consumers those with a subscription or a client.\<close>

theorem interface_roster:
  assumes "i \<in> set (interfaces es)"
  shows "providers i = sorted_list_of_set {enode e | e. e \<in> set es \<and> interface_of e = Some (interface_key i) \<and> provides_kind e \<and> enode e \<noteq> []}
    \<and> consumers i = sorted_list_of_set {enode e | e. e \<in> set es \<and> interface_of e = Some (interface_key i) \<and> consumes_kind e \<and> enode e \<noteq> []}"
proof -
  obtain r where r: "r = rolled es (interface_key i)" "i = finish_interface r" using in_interfaces[OF assms] by blast
  have l: "sort xs = sorted_list_of_set (set xs)" if "distinct xs" for xs :: "string list"
    using that by (simp add: sorted_list_of_set_sort_remdups distinct_remdups_id)
  have "providers i = sort (providers r)" "consumers i = sort (consumers r)" using r(2) by (metis finish_lists)+
  with rolled_lists[of es "interface_key i"] l show ?thesis unfolding r(1)[symmetric] by metis
qed

section \<open>The profile declared\<close>

text \<open>A subscription hears a publisher that offers at least what it asks.\<close>

definition hears :: "qos \<Rightarrow> qos \<Rightarrow> bool" where
  "hears sub offer \<longleftrightarrow> \<not> (reliability sub = Reliable \<and> reliability offer = BestEffort)
     \<and> \<not> (durability sub = TransientLocal \<and> durability offer = Volatile)"

lemma weaker_order:
  "weaker q w \<Longrightarrow> weaker w v \<Longrightarrow> weaker q v" "\<not> weaker q w \<Longrightarrow> \<not> weaker w v \<Longrightarrow> \<not> weaker q v"
  by (cases "reliability q"; cases "reliability w"; cases "reliability v"; cases "durability q"; cases "durability w"; cases "durability v";
      auto simp: weaker_def)+

lemma weakest_spec: "weakest w qs \<in> set (w # qs) \<and> (\<forall>q \<in> set (w # qs). \<not> weaker q (weakest w qs))"
proof (induction qs arbitrary: w)
  case Nil
  then show ?case by (simp add: weaker_def)
next
  case (Cons q qs)
  define v where "v = (if weaker q w then q else w)"
  define x where "x = weakest v qs"
  from Cons[of v] have v: "x \<in> set (v # qs)" "\<forall>p \<in> set (v # qs). \<not> weaker p x" by (simp_all add: x_def)
  have "\<not> weaker q x \<and> \<not> weaker w x"
    using v(2) weaker_order[of q w x] by (cases "weaker q w") (auto simp: v_def)
  with v show ?case by (auto simp: x_def[symmetric] v_def[symmetric]) (auto simp: v_def split: if_splits)
qed

lemma settled_offer:
  assumes "i \<in> set (interfaces es)" "if_offers i \<noteq> []"
  shows "if_qos_raw i \<in> set (if_offers i) \<and> (\<forall>q \<in> set (if_offers i). \<not> weaker q (if_qos_raw i)) \<and> if_qos i = qname (if_qos_raw i)"
proof -
  obtain r where r: "i = finish_interface r" using in_interfaces[OF assms(1)] by blast
  with assms(2) obtain q qs where q: "if_offers r = q # qs" by (cases "if_offers r") simp_all
  have "if_qos_raw i = weakest q qs" "if_qos i = qname (weakest q qs)"
    by (simp_all add: r finish_interface_def settle_qos_def Let_def q)
  with weakest_spec[of q qs] q r show ?thesis by simp
qed

text \<open>What is known of a weakest offer, of the subscriptions that hear every offer.\<close>

lemma hears_all:
  assumes "w \<in> Q" "\<And>q. q \<in> Q \<Longrightarrow> \<not> weaker q w"
  shows "(\<forall>q \<in> Q. hears w q) \<longleftrightarrow>
      (\<forall>q \<in> Q. reliability q = Reliable) \<or> (\<forall>q \<in> Q. durability q = TransientLocal)
      \<or> (\<exists>q \<in> Q. reliability q = BestEffort \<and> durability q = Volatile)"
    and "reliability w = Reliable \<longleftrightarrow> (\<forall>q \<in> Q. reliability q = Reliable)"
    and "durability w = Volatile \<and> reliability w = BestEffort \<longleftrightarrow> (\<exists>q \<in> Q. reliability q = BestEffort \<and> durability q = Volatile)"
proof -
  have dual: "d \<noteq> Volatile \<longleftrightarrow> d = TransientLocal" for d by (cases d) simp_all
  show rel: "reliability w = Reliable \<longleftrightarrow> (\<forall>q \<in> Q. reliability q = Reliable)"
    using assms by (metis reliability.exhaust weaker_def)
  have dur: "durability w = TransientLocal \<longleftrightarrow> (\<forall>q \<in> Q. reliability q = reliability w \<longrightarrow> durability q = TransientLocal)"
    using assms by (metis durability.exhaust weaker_def)
  show vol: "durability w = Volatile \<and> reliability w = BestEffort \<longleftrightarrow> (\<exists>q \<in> Q. reliability q = BestEffort \<and> durability q = Volatile)"
  proof (cases "reliability w")
    case Reliable
    with rel show ?thesis by auto
  next
    case BestEffort
    then show ?thesis using dur by (simp add: dual[symmetric]) blast
  qed
  show "(\<forall>q \<in> Q. hears w q) \<longleftrightarrow>
      (\<forall>q \<in> Q. reliability q = Reliable) \<or> (\<forall>q \<in> Q. durability q = TransientLocal)
      \<or> (\<exists>q \<in> Q. reliability q = BestEffort \<and> durability q = Volatile)"
  proof (cases "reliability w")
    case Reliable
    with rel dur show ?thesis by (auto simp: hears_def)
  next
    case BestEffort
    have "(\<forall>q \<in> Q. hears w q) \<longleftrightarrow> durability w = Volatile \<or> (\<forall>q \<in> Q. durability q = TransientLocal)"
      by (cases "durability w") (auto simp: hears_def BestEffort dual)
    moreover have "\<not> (\<forall>q \<in> Q. reliability q = Reliable)" using rel BestEffort by simp
    ultimately show ?thesis using vol BestEffort by blast
  qed
qed

text \<open>The endpoints read from tokens carry the name of their profile, and an interface's offers are its publishers'.\<close>

definition named_profiles :: "entity list \<Rightarrow> bool" where
  "named_profiles es \<longleftrightarrow> list_all (\<lambda>e. ekind e = entity_publisher \<longrightarrow> qname (eqos e) = profile_name (eqos e)) es"

lemma parse_token_named: "parse_token t = Inr e \<Longrightarrow> ekind e = entity_publisher \<Longrightarrow> qname (eqos e) = profile_name (eqos e)"
  by (auto simp: parse_token_def parse_qos_keyexpr_def profile_name_def Let_def bind_result_Inr split: if_splits sum.splits option.splits)

lemma query_named: "named_profiles (dg_entities (query_graph domain endpoint samples))"
proof -
  have "named_profiles (dg_entities g) \<Longrightarrow> named_profiles (dg_entities (read_tokens ts g))" for ts g
  proof (induction ts arbitrary: g)
    case (Cons t ts)
    then show ?case by (cases "parse_token t") (simp_all add: named_profiles_def parse_token_named)
  qed simp
  then show ?thesis by (simp add: query_graph_def named_profiles_def)
qed

lemma add_qos_set: "q \<in> set (add_qos xs r) \<Longrightarrow> q \<in> set xs \<or> q = r"
  by (auto simp: add_qos_def split: if_splits)

lemma rolled_offers: "q \<in> set (if_offers (rolled es k)) \<Longrightarrow> \<exists>e \<in> set es. ekind e = entity_publisher \<and> q = eqos e"
proof (induction es rule: rev_induct)
  case Nil
  then show ?case by (simp add: rolled_def new_interface_def)
next
  case (snoc e es)
  have "q \<in> set (if_offers (rolled es k)) \<or> ekind e = entity_publisher \<and> q = eqos e"
    using snoc.prems by (auto simp: rolled_snoc roll_up_def record_entity_def Let_def dest: add_qos_set split: if_splits)
  with snoc.IH show ?case by auto
qed

lemma profile_of_name:
  "profile_name q = [] \<longleftrightarrow> reliability q = BestEffort \<and> durability q = TransientLocal"
  "\<exists>p. qos_profile (profile_name q) = Some p \<and> (profile_name q \<noteq> [] \<longrightarrow> reliability p = reliability q \<and> durability p = durability q)
     \<and> (profile_name q = [] \<longrightarrow> reliability p = Reliable)"
  by (cases "reliability q"; cases "durability q"; simp add: profile_name_def profile_matches_def qos_profile_def qos_profiles_def)+


section \<open>Witnesses\<close>

definition laser_scan :: entity where
  "laser_scan = \<lparr>edomain = 0, zid = ''z'', nid = 0, eid = 1, ekind = entity_publisher, enclave = [], namespace = [], enode = ''lidar'',
     etopic = ''/scan'', edds = [], etype = ''sensor_msgs/msg/LaserScan'', ehash = ''RIHS01_ab'',
     eqos = \<lparr>qname = ''sensor'', reliability = BestEffort, durability = Volatile, depth = 5\<rparr>\<rparr>"

text \<open>Two lasers on one topic, one best-effort and latched, the other reliable and not.\<close>

definition mixed_scans :: "entity list" where
  "mixed_scans = [laser_scan\<lparr>eqos := \<lparr>qname = [], reliability = BestEffort, durability = TransientLocal, depth = 1\<rparr>\<rparr>,
     laser_scan\<lparr>enode := ''rear'', eqos := \<lparr>qname = ''reliable'', reliability = Reliable, durability = Volatile, depth = 10\<rparr>\<rparr>]"

lemma laser_interfaces:
  "map providers (interfaces [laser_scan]) = [[''lidar'']]"
  "map if_offers (interfaces mixed_scans) = [map eqos mixed_scans]"
  by code_simp+

theorem interface_roster_witness:
  "\<exists>i \<in> set (interfaces [laser_scan]). providers i = [''lidar'']
    \<and> providers i = sorted_list_of_set {enode e | e. e \<in> set [laser_scan] \<and> interface_of e = Some (interface_key i) \<and> provides_kind e \<and> enode e \<noteq> []}"
proof -
  obtain i where "interfaces [laser_scan] = [i]" "providers i = [''lidar'']" using laser_interfaces(1) by auto
  with interface_roster[of i "[laser_scan]"] show ?thesis by simp
qed


end
