(* ===== verification/Externals_Report.thy ===== *)
theory Externals_Report
imports Discover Environments
begin

text \<open>
  Comparing an application with a live graph (\<^verbatim>\<open>internal/discover/externals.go\<close>): the externals block derived from
  the graph, the findings, and the file that is written. JSON is outside the program: the keys of the file
  have texts as values. A Go map whose iteration order shows is an association list, which the argument
  \<open>arrange\<close> puts in the order of the iteration.
\<close>

section \<open>What the application uses\<close>

record usage =
  us_publishes :: bool
  us_subscribes :: bool
  us_serves :: bool
  us_calls :: bool
  us_serves_action :: bool
  us_calls_action :: bool

definition no_usage :: usage where
  "no_usage = \<lparr>us_publishes = False, us_subscribes = False, us_serves = False, us_calls = False, us_serves_action = False,
     us_calls_action = False\<rparr>"

definition mark_usage :: "string \<Rightarrow> (usage \<Rightarrow> usage) \<Rightarrow> (string \<Rightarrow> usage option) \<Rightarrow> string \<Rightarrow> usage option" where
  "mark_usage name f m =
     (let n = trim_prefix ''/'' name in m(n \<mapsto> f (case m n of None \<Rightarrow> no_usage | Some u \<Rightarrow> u)))"

definition node_marks :: "node_decl \<Rightarrow> (string \<times> (usage \<Rightarrow> usage)) list" where
  "node_marks n =
     map (\<lambda>e. (ep_topic e, \<lambda>u. u\<lparr>us_publishes := True\<rparr>)) (pubs n)
     @ map (\<lambda>e. (ep_topic e, \<lambda>u. u\<lparr>us_subscribes := True\<rparr>)) (subs n)
     @ map (\<lambda>e. (sv_service e, \<lambda>u. u\<lparr>us_serves := True\<rparr>)) (services n)
     @ map (\<lambda>e. (sv_service e, \<lambda>u. u\<lparr>us_calls := True\<rparr>)) (clients n)
     @ map (\<lambda>e. (ac_action e, \<lambda>u. u\<lparr>us_serves_action := True\<rparr>)) (actions n)
     @ map (\<lambda>e. (ac_action e, \<lambda>u. u\<lparr>us_calls_action := True\<rparr>)) (action_clients n)"

definition used_interfaces :: "'v app \<Rightarrow> string \<Rightarrow> usage option" where
  "used_interfaces app = foldl (\<lambda>m (name, f). mark_usage name f m) Map.empty (concat (map node_marks (nodes app)))"

definition others_among :: "string list \<Rightarrow> string list \<Rightarrow> bool" where
  "others_among who mine = list_ex (\<lambda>n. n \<notin> set mine) who"

definition roles_for :: "interface \<Rightarrow> string list \<Rightarrow> usage option \<Rightarrow> bool \<Rightarrow> string list" where
  "roles_for i mine used everything =
     (let provided = others_among (providers i) mine;
          consumed = others_among (consumers i) mine;
          unused = everything \<and> used = None;
          u = (case used of None \<Rightarrow> no_usage | Some u \<Rightarrow> u)
      in if if_kind i = kind_topic then
           (if provided \<and> (us_subscribes u \<or> unused) then [''publisher''] else [])
           @ (if consumed \<and> (us_publishes u \<or> unused) then [''subscriber''] else [])
         else if if_kind i = kind_service then
           (if provided \<and> (us_calls u \<or> unused) then [''server''] else [])
           @ (if consumed \<and> (us_serves u \<or> unused) then [''client''] else [])
         else if if_kind i = kind_action then
           (if provided \<and> (us_calls_action u \<or> unused) then [''action_server''] else [])
           @ (if consumed \<and> (us_serves_action u \<or> unused) then [''action_client''] else [])
         else [])"

definition qos_for :: "interface \<Rightarrow> string" where
  "qos_for i = (if if_kind i \<noteq> kind_topic then [] else if_qos i)"

section \<open>Comparing it with the declarations\<close>

abbreviation found_missing :: string where "found_missing \<equiv> ''missing''"
abbreviation found_mismatch :: string where "found_mismatch \<equiv> ''mismatch''"
abbreviation found_absent :: string where "found_absent \<equiv> ''absent''"
abbreviation found_conflict :: string where "found_conflict \<equiv> ''conflict''"

record discrepancy =
  di_kind :: string
  di_topic :: string
  di_role :: string
  di_msg :: goerror

definition managed_names :: "interface list \<Rightarrow> string list" where
  "managed_names ifs =
     remdups (map (trim_suffix ''/change_state'' \<circ> if_name)
       (filter (\<lambda>i. if_kind i = kind_service \<and> suffix ''/change_state'' (if_name i)) ifs))"

definition managed_decls :: "'v app \<Rightarrow> (node_decl \<times> lifecycle_decl) list" where
  "managed_decls app = concat (map (\<lambda>n. map (Pair n) (lifecycles n)) (nodes app))"

definition check_managed_nodes :: "'v app \<Rightarrow> interface list \<Rightarrow> discrepancy list" where
  "check_managed_nodes app ifs =
     (let managed = managed_names ifs
      in if managed = [] then
           (case find (\<lambda>(n, d). lf_nodes d \<noteq> []) (managed_decls app) of
              None \<Rightarrow> []
            | Some (n, d) \<Rightarrow>
                [\<lparr>di_kind = found_absent, di_topic = hd (lf_nodes d), di_role = ''managed'',
                  di_msg = Errorf (''node %s manages %d node(s), and nothing on the graph offers a lifecycle service at all '' @ em_dash
                      @ '' the stack it drives is not running'')
                    [GStr (nd_name n), GInt (int (length (lf_nodes d)))]\<rparr>])
         else concat (map (\<lambda>(n, d). concat (map (\<lambda>want.
                if want \<in> set managed then []
                else [\<lparr>di_kind = found_absent, di_topic = want, di_role = ''managed'',
                       di_msg = Errorf ''node %s manages %q, but the graph has no %s/change_state; the managed nodes it does offer are %s''
                         [GStr (nd_name n), GStr want, GStr want, GStr (join '', '' (sort managed))]\<rparr>]) (lf_nodes d)))
              (managed_decls app)))"

definition describe_interface :: "interface \<Rightarrow> string \<Rightarrow> goerror" where
  "describe_interface i role =
     (if role = ''publisher'' \<or> role = ''subscriber'' then Errorf ''topic %q'' [GStr (if_name i)]
      else if role = ''server'' \<or> role = ''client'' then Errorf ''service %q'' [GStr (if_name i)]
      else Errorf ''action %q'' [GStr (if_name i)])"

definition provided_by :: "interface \<Rightarrow> string \<Rightarrow> string" where
  "provided_by i role =
     (let (who, verb) =
        (if role = ''publisher'' then (if_pubs i, ''published by'')
         else if role = ''subscriber'' then (if_subs i, ''subscribed by'')
         else if role = ''server'' \<or> role = ''action_server'' then (if_servers i, ''served by'')
         else (if_clients i, ''called by''))
      in if who = [] then ''nobody is on it'' else verb @ '' '' @ join '', '' who)"

definition qos_note :: "string \<Rightarrow> string" where
  "qos_note q = (if q = [] then [] else '', qos '' @ q)"

definition short_hash :: "string \<Rightarrow> string" where
  "short_hash h = (let t = trim_prefix ''RIHS01_'' h in if 12 < length t then take 12 t @ ellipsis else t)"

definition conflicts :: "interface \<Rightarrow> discrepancy list" where
  "conflicts i =
     (if 1 < length (if_hashes i)
      then [\<lparr>di_kind = found_conflict, di_topic = if_name i, di_role = [],
             di_msg = Errorf ''%s %q is advertised with %d different type hashes (%s): the peers are running different definitions of %s''
               [GStr (if_kind i), GStr (if_name i), GInt (int (length (if_hashes i))),
                GStr (join '', '' (map short_hash (if_hashes i))), GStr (if_type i)]\<rparr>] else [])
     @ (case disagreement i of
          None \<Rightarrow> []
        | Some profiles \<Rightarrow>
            [\<lparr>di_kind = found_conflict, di_topic = if_name i, di_role = [],
              di_msg = Errorf ''topic %q has publishers offering %s; %q is declared, being the weakest offer and so the one a subscriber must match''
                [GStr (if_name i), GStr (join '' and '' profiles), GStr (if_qos i)]\<rparr>])"

definition wanted :: "interface \<Rightarrow> string \<Rightarrow> external" where
  "wanted i role = \<lparr>ex_topic = if_name i, ex_type = if_type i, ex_role = role, ex_qos = qos_for i\<rparr>"

definition compare_declared :: "interface \<Rightarrow> string \<Rightarrow> external option \<Rightarrow> discrepancy list" where
  "compare_declared i role declared =
     (let want = wanted i role
      in case declared of
           None \<Rightarrow>
             [\<lparr>di_kind = found_missing, di_topic = ex_topic want, di_role = role,
               di_msg = Errorf ''%s is on the graph (%s%s) but not declared; %s''
                 [GErr (describe_interface i role), GStr (ex_type want), GStr (qos_note (ex_qos want)), GStr (provided_by i role)]\<rparr>]
         | Some d \<Rightarrow>
             if ex_type d \<noteq> ex_type want
             then [\<lparr>di_kind = found_mismatch, di_topic = ex_topic want, di_role = role,
                    di_msg = Errorf ''declared as %s, but the graph offers %s'' [GStr (ex_type d), GStr (ex_type want)]\<rparr>]
             else if ex_qos want \<noteq> [] \<and> ex_qos d \<noteq> [] \<and> ex_qos d \<noteq> ex_qos want
             then [\<lparr>di_kind = found_mismatch, di_topic = ex_topic want, di_role = role,
                    di_msg = Errorf ''declared qos %q, but the publisher offers %q'' [GStr (ex_qos d), GStr (ex_qos want)]\<rparr>]
             else [])"

type_synonym external_table = "((string \<times> string) \<times> external) list"

definition put_external :: "external_table \<Rightarrow> external \<Rightarrow> external_table" where
  "put_external m e = AList.update (external_key e) e m"

text \<open>The walk over the graph keeps the findings, the merged block and the keys it has seen.\<close>

type_synonym walk_state = "discrepancy list \<times> external_table \<times> (string \<times> string) list"

definition visit_role :: "external_table \<Rightarrow> interface \<Rightarrow> walk_state \<Rightarrow> string \<Rightarrow> walk_state" where
  "visit_role declared i = (\<lambda>(fs, merged, seen) role.
     let want = wanted i role; k = external_key want
     in (fs @ compare_declared i role (map_of declared k), put_external merged want, append_once seen k))"

definition visit_interface :: "bool \<Rightarrow> bool \<Rightarrow> string list \<Rightarrow> (string \<Rightarrow> usage option) \<Rightarrow> external_table \<Rightarrow> walk_state \<Rightarrow> interface \<Rightarrow> walk_state" where
  "visit_interface everything infra mine used declared = (\<lambda>(fs, merged, seen) i.
     if if_infra i \<and> \<not> infra then (fs, merged, seen)
     else foldl (visit_role declared i) (fs @ conflicts i, merged, seen) (roles_for i mine (used (if_name i)) everything))"

definition visit_absent :: "(string \<times> string) list \<Rightarrow> discrepancy list \<times> external_table \<Rightarrow> (string \<times> string) \<times> external \<Rightarrow> discrepancy list \<times> external_table" where
  "visit_absent seen = (\<lambda>(fs, merged) (k, e).
     if k \<in> set seen then (fs, merged)
     else (fs @ [\<lparr>di_kind = found_absent, di_topic = ex_topic e, di_role = ex_role e,
                  di_msg = Errorf ''declared as an external %s of %s, but nothing on the graph offers it'' [GStr (ex_role e), GStr (ex_type e)]\<rparr>],
           AList.update k e merged))"

definition emit_external :: "external_table \<Rightarrow> external list \<times> (string \<times> string) list \<Rightarrow> external \<Rightarrow> external list \<times> (string \<times> string) list" where
  "emit_external merged = (\<lambda>(out, emitted) e.
     let k = external_key e
     in if k \<in> set emitted then (out, emitted)
        else (out @ [case map_of merged k of Some u \<Rightarrow> u | None \<Rightarrow> e], emitted @ [k]))"

definition finding_order :: "string \<Rightarrow> nat" where
  "finding_order k = (if k = found_mismatch then 0 else if k = found_conflict then 1 else if k = found_missing then 2 else 3)"

record ext_report =
  dr_graph :: live_graph
  dr_app :: string
  dr_env :: string
  dr_externals :: "external list"
  dr_findings :: "discrepancy list"
  dr_ours :: "string list"

definition changed :: "ext_report \<Rightarrow> bool" where
  "changed r = list_ex (\<lambda>f. di_kind f = found_missing \<or> di_kind f = found_mismatch) (dr_findings r)"

text \<open>\<open>everything\<close> and \<open>infra\<close> are the two options. The entries that are added have distinct topics and roles, so
  that the order of the map they come from does not show.\<close>

definition externals_report :: "(external_table \<Rightarrow> external_table) \<Rightarrow> 'v env_app \<Rightarrow> live_graph \<Rightarrow> bool \<Rightarrow> bool \<Rightarrow> ext_report" where
  "externals_report arrange a g everything infra =
     (let app = ea_app a;
          mine = map nd_name (nodes app);
          ifs = interfaces (dg_entities g);
          declared = foldl put_external [] (externals app);
          (fs, merged, seen) =
            foldl (visit_interface everything infra mine (used_interfaces app) declared) (check_managed_nodes app ifs, [], []) ifs;
          (fs, merged) = foldl (visit_absent seen) (fs, merged) (arrange declared);
          (out, emitted) = foldl (emit_external merged) ([], []) (externals app);
          added = sort_key external_key (map snd (filter (\<lambda>(k, e). k \<notin> set emitted) merged))
      in \<lparr>dr_graph = g, dr_app = app_name app, dr_env = (case ea_env a of None \<Rightarrow> [] | Some e \<Rightarrow> en_name e),
          dr_externals = out @ added,
          dr_findings = sort_key (\<lambda>f. (finding_order (di_kind f), di_topic f)) fs,
          dr_ours = filter (\<lambda>n. n \<in> set mine) (graph_nodes g)\<rparr>)"

section \<open>Writing it back\<close>

definition field_order :: "string \<Rightarrow> string" where
  "field_order k = (if k = ''app'' then ''0'' else if k = ''externals'' then ''2'' else ''1'' @ k)"

text \<open>\<open>doc\<close> is the file, read and decoded, or the error of that; the result is what is written, in order.\<close>

definition write_externals :: "'v env_app \<Rightarrow> (string \<times> string) list result \<Rightarrow> string \<Rightarrow> (string \<times> string) list result" where
  "write_externals a doc block =
     (case ea_env a of
        Some e \<Rightarrow>
          if en_externals e \<noteq> [] \<or> en_without e \<noteq> []
          then Inl (Errorf ''environment %q overlays the externals block (%d added, %d dropped), and writing would flatten that into conductor.json; run without -env to update the base list, or copy the entries you want into environments.json''
                 [GStr (en_name e), GInt (int (length (en_externals e))), GInt (int (length (en_without e)))])
          else bind_result doc (\<lambda>d. Inr (sort_key (field_order \<circ> fst) (AList.update ''externals'' block d)))
      | None \<Rightarrow> bind_result doc (\<lambda>d. Inr (sort_key (field_order \<circ> fst) (AList.update ''externals'' block d))))"

section \<open>What the report holds\<close>

text \<open>The externals the graph asks for, in the order they are met.\<close>

definition needs_of :: "bool \<Rightarrow> bool \<Rightarrow> string list \<Rightarrow> (string \<Rightarrow> usage option) \<Rightarrow> interface list \<Rightarrow> external list" where
  "needs_of everything infra mine used ifs = concat (map (\<lambda>i. if if_infra i \<and> \<not> infra then []
     else map (wanted i) (roles_for i mine (used (if_name i)) everything)) ifs)"

definition external_needs :: "'v app \<Rightarrow> live_graph \<Rightarrow> bool \<Rightarrow> bool \<Rightarrow> external list" where
  "external_needs app g everything infra =
     needs_of everything infra (map nd_name (nodes app)) (used_interfaces app) (interfaces (dg_entities g))"

text \<open>The kinds of findings that make a report a change.\<close>

definition calls_for_change :: "discrepancy list \<Rightarrow> bool" where
  "calls_for_change fs \<longleftrightarrow> (\<exists>f \<in> set fs. di_kind f = found_missing \<or> di_kind f = found_mismatch)"

lemma calls_for_change_simps [simp]:
  "\<not> calls_for_change []" "calls_for_change (fs @ fs') \<longleftrightarrow> calls_for_change fs \<or> calls_for_change fs'"
  "calls_for_change (f # fs) \<longleftrightarrow> di_kind f = found_missing \<or> di_kind f = found_mismatch \<or> calls_for_change fs"
  by (auto simp: calls_for_change_def)

lemma conflicts_no_change [simp]: "\<not> calls_for_change (conflicts i)"
  by (simp add: conflicts_def split: option.split)

lemma managed_no_change [simp]: "\<not> calls_for_change (check_managed_nodes app ifs)"
proof -
  have c: "calls_for_change (concat xss) \<longleftrightarrow> (\<exists>xs \<in> set xss. calls_for_change xs)" for xss
    by (auto simp: calls_for_change_def)
  show ?thesis
    by (auto simp: check_managed_nodes_def Let_def c split: option.splits)
qed

lemma visit_roles:
  "\<exists>ds. foldl (visit_role declared i) (fs, m, seen) roles
     = (fs @ ds, foldl put_external m (map (wanted i) roles), foldl append_once seen (map (\<lambda>r. external_key (wanted i r)) roles))
   \<and> ((\<forall>r \<in> set roles. map_of declared (external_key (wanted i r)) = Some (wanted i r)) \<longrightarrow> \<not> calls_for_change ds)"
proof (induction roles arbitrary: fs m seen)
  case Nil
  then show ?case by (intro exI[of _ "[]"]) simp
next
  case (Cons r roles)
  let ?c = "compare_declared i r (map_of declared (external_key (wanted i r)))"
  from Cons[of "fs @ ?c" "put_external m (wanted i r)" "append_once seen (external_key (wanted i r))"] obtain ds where
    ds: "foldl (visit_role declared i) (fs @ ?c, put_external m (wanted i r), append_once seen (external_key (wanted i r))) roles
       = ((fs @ ?c) @ ds, foldl put_external (put_external m (wanted i r)) (map (wanted i) roles),
          foldl append_once (append_once seen (external_key (wanted i r))) (map (\<lambda>r. external_key (wanted i r)) roles))"
    "(\<forall>r \<in> set roles. map_of declared (external_key (wanted i r)) = Some (wanted i r)) \<Longrightarrow> \<not> calls_for_change ds" by blast
  have "\<not> calls_for_change ?c" if "map_of declared (external_key (wanted i r)) = Some (wanted i r)"
    by (simp add: that compare_declared_def Let_def)
  with ds show ?case by (intro exI[of _ "?c @ ds"]) (simp add: visit_role_def Let_def)
qed

lemma visit_interfaces:
  "\<exists>ds. foldl (visit_interface everything infra mine used declared) (fs, m, seen) ifs
     = (fs @ ds, foldl put_external m (needs_of everything infra mine used ifs),
        foldl append_once seen (map external_key (needs_of everything infra mine used ifs)))
   \<and> ((\<forall>e \<in> set (needs_of everything infra mine used ifs). map_of declared (external_key e) = Some e) \<longrightarrow> \<not> calls_for_change ds)"
proof (induction ifs arbitrary: fs m seen)
  case Nil
  then show ?case by (intro exI[of _ "[]"]) (simp add: needs_of_def)
next
  case (Cons i ifs)
  show ?case
  proof (cases "if_infra i \<and> \<not> infra")
    case True
    then have n: "needs_of everything infra mine used (i # ifs) = needs_of everything infra mine used ifs" by (simp add: needs_of_def)
    have v: "visit_interface everything infra mine used declared (fs, m, seen) i = (fs, m, seen)"
      using True by (simp add: visit_interface_def)
    show ?thesis unfolding n using Cons.IH[of fs m seen] by (simp add: v)
  next
    case False
    let ?roles = "roles_for i mine (used (if_name i)) everything"
    have n: "needs_of everything infra mine used (i # ifs) = map (wanted i) ?roles @ needs_of everything infra mine used ifs"
      using False by (auto simp: needs_of_def)
    obtain ds where ds: "foldl (visit_role declared i) (fs @ conflicts i, m, seen) ?roles
        = ((fs @ conflicts i) @ ds, foldl put_external m (map (wanted i) ?roles), foldl append_once seen (map (\<lambda>r. external_key (wanted i r)) ?roles))"
      "(\<forall>r \<in> set ?roles. map_of declared (external_key (wanted i r)) = Some (wanted i r)) \<Longrightarrow> \<not> calls_for_change ds"
      using visit_roles[of declared i "fs @ conflicts i" m seen ?roles] by blast
    have v: "visit_interface everything infra mine used declared (fs, m, seen) i
        = ((fs @ conflicts i) @ ds, foldl put_external m (map (wanted i) ?roles), foldl append_once seen (map (\<lambda>r. external_key (wanted i r)) ?roles))"
      using False ds(1) by (auto simp: visit_interface_def)
    from Cons.IH[of "(fs @ conflicts i) @ ds" "foldl put_external m (map (wanted i) ?roles)"
        "foldl append_once seen (map (\<lambda>r. external_key (wanted i r)) ?roles)"] obtain es where
      es: "foldl (visit_interface everything infra mine used declared)
          ((fs @ conflicts i) @ ds, foldl put_external m (map (wanted i) ?roles), foldl append_once seen (map (\<lambda>r. external_key (wanted i r)) ?roles)) ifs
        = (((fs @ conflicts i) @ ds) @ es, foldl put_external (foldl put_external m (map (wanted i) ?roles)) (needs_of everything infra mine used ifs),
           foldl append_once (foldl append_once seen (map (\<lambda>r. external_key (wanted i r)) ?roles)) (map external_key (needs_of everything infra mine used ifs)))"
      "(\<forall>e \<in> set (needs_of everything infra mine used ifs). map_of declared (external_key e) = Some e) \<Longrightarrow> \<not> calls_for_change es"
      by blast
    show ?thesis
      using ds(2) es(2) by (intro exI[of _ "conflicts i @ ds @ es"]) (simp add: v es(1)[unfolded append_assoc] n comp_def)
  qed
qed

lemma visit_absents:
  "distinct (map fst w) \<Longrightarrow> \<exists>ds m'. foldl (visit_absent seen) (fs, m) w = (fs @ ds, m') \<and> \<not> calls_for_change ds
     \<and> map_of m' = (\<lambda>k. if k \<in> fst ` set w \<and> k \<notin> set seen then map_of w k else map_of m k)
     \<and> (distinct (map fst m) \<longrightarrow> distinct (map fst m'))"
proof (induction w arbitrary: fs m)
  case Nil
  then show ?case by auto
next
  case (Cons x w)
  obtain k e where x: "x = (k, e)" by (cases x)
  have w: "distinct (map fst w)" "k \<notin> fst ` set w" using Cons.prems by (auto simp: x)
  show ?case
  proof (cases "k \<in> set seen")
    case True
    with Cons.IH[OF w(1), of fs m] obtain ds m' where "foldl (visit_absent seen) (fs, m) w = (fs @ ds, m')" "\<not> calls_for_change ds"
      "map_of m' = (\<lambda>k. if k \<in> fst ` set w \<and> k \<notin> set seen then map_of w k else map_of m k)"
      "distinct (map fst m) \<longrightarrow> distinct (map fst m')" by blast
    with True show ?thesis by (intro exI[of _ ds] exI[of _ m']) (auto simp: x visit_absent_def)
  next
    case False
    obtain d where d: "visit_absent seen (fs, m) x = (fs @ [d], AList.update k e m)" "di_kind d = found_absent"
      using False by (simp add: visit_absent_def x)
    from Cons.IH[OF w(1), of "fs @ [d]" "AList.update k e m"] obtain ds m' where
      "foldl (visit_absent seen) (fs @ [d], AList.update k e m) w = ((fs @ [d]) @ ds, m')" "\<not> calls_for_change ds"
      "map_of m' = (\<lambda>k'. if k' \<in> fst ` set w \<and> k' \<notin> set seen then map_of w k' else map_of (AList.update k e m) k')"
      "distinct (map fst (AList.update k e m)) \<longrightarrow> distinct (map fst m')" by blast
    with False w(2) d show ?thesis
      by (intro exI[of _ "d # ds"] exI[of _ m']) (auto simp: x update_conv' distinct_update)
  qed
qed

lemma put_externals:
  "map_of (foldl put_external m es) k = (case find (\<lambda>e. external_key e = k) (rev es) of Some e \<Rightarrow> Some e | None \<Rightarrow> map_of m k)"
  "distinct (map fst m) \<Longrightarrow> distinct (map fst (foldl put_external m es))"
proof -
  show "map_of (foldl put_external m es) k = (case find (\<lambda>e. external_key e = k) (rev es) of Some e \<Rightarrow> Some e | None \<Rightarrow> map_of m k)"
    by (induction es rule: rev_induct) (auto simp: put_external_def update_conv')
  show "distinct (map fst m) \<Longrightarrow> distinct (map fst (foldl put_external m es))"
    by (induction es rule: rev_induct) (auto simp: put_external_def distinct_update)
qed

lemma emit_externals:
  "\<forall>e \<in> set es. map_of m (external_key e) \<noteq> None \<Longrightarrow> out = map (\<lambda>k. the (map_of m k)) emitted \<Longrightarrow>
   foldl (emit_external m) (out, emitted) es
     = (map (\<lambda>k. the (map_of m k)) (foldl append_once emitted (map external_key es)), foldl append_once emitted (map external_key es))"
proof (induction es arbitrary: out emitted)
  case (Cons e es)
  obtain u where u: "map_of m (external_key e) = Some u" using Cons.prems(1) by auto
  show ?case
  proof (cases "external_key e \<in> set emitted")
    case True
    with Cons show ?thesis by (simp add: emit_external_def append_once_def)
  next
    case False
    have "emit_external m (out, emitted) e = (map (\<lambda>k. the (map_of m k)) (emitted @ [external_key e]), emitted @ [external_key e])"
      using False u Cons.prems(2) by (simp add: emit_external_def)
    with False Cons.IH[OF _ refl, of "emitted @ [external_key e]"] Cons.prems(1) show ?thesis by (simp add: append_once_def)
  qed
qed simp

text \<open>The entry of the block for a key: what the graph asks for, or else what is declared.\<close>

definition block_entry :: "external list \<Rightarrow> external list \<Rightarrow> string \<times> string \<Rightarrow> external option" where
  "block_entry needs exts k = (case find (\<lambda>e. external_key e = k) (rev needs) of
     Some e \<Rightarrow> Some e | None \<Rightarrow> find (\<lambda>e. external_key e = k) (rev exts))"

definition block_keys :: "external list \<Rightarrow> external list \<Rightarrow> (string \<times> string) list" where
  "block_keys needs exts = (let es = foldl append_once [] (map external_key exts)
     in es @ sorted_list_of_set (dom (block_entry needs exts) - set es))"

lemma block_entry_key: "block_entry needs exts k = Some e \<Longrightarrow> external_key e = k"
  by (auto simp: block_entry_def dest: find_SomeD split: option.splits)

lemma block_entry_None: "block_entry needs exts k = None \<longleftrightarrow> k \<notin> external_key ` set needs \<and> k \<notin> external_key ` set exts"
  by (auto simp: block_entry_def find_None_iff dest: find_SomeD split: option.splits)

lemma dom_block_entry: "dom (block_entry needs exts) = external_key ` (set needs \<union> set exts)"
  using block_entry_None[of needs exts] by (auto simp: dom_def image_Un)

lemma block_keys_set: "set (block_keys needs exts) = dom (block_entry needs exts)" "distinct (block_keys needs exts)"
proof -
  have "finite (dom (block_entry needs exts))" by (simp add: dom_block_entry)
  then show "set (block_keys needs exts) = dom (block_entry needs exts)" "distinct (block_keys needs exts)"
    by (auto simp: block_keys_def Let_def dom_block_entry foldl_append_once_set foldl_append_once_distinct)
qed

text \<open>The entries added, whatever the order of the table.\<close>

lemma added_externals:
  assumes "distinct (map fst m)" "\<And>k e. map_of m k = Some e \<Longrightarrow> external_key e = k"
  shows "sort_key external_key (map snd (filter (\<lambda>(k, e). k \<notin> set es) m))
    = map (\<lambda>k. the (map_of m k)) (sorted_list_of_set (dom (map_of m) - set es))" (is "?l = map ?F ?ks")
proof (rule map_sorted_distinct_set_unique)
  have fin: "finite (dom (map_of m) - set es)" by (simp add: finite_dom_map_of)
  have kF: "external_key (?F k) = k" if "k \<in> set ?ks" for k
  proof -
    from that fin obtain e where "map_of m k = Some e" by auto
    with assms(2)[of k e] show ?thesis by simp
  qed
  then have "map external_key (map ?F ?ks) = ?ks" by (simp add: map_idI)
  then show "sorted (map external_key (map ?F ?ks))" "distinct (map external_key (map ?F ?ks))" by simp_all
  have kx: "external_key e = k" if "(k, e) \<in> set m" for k e
    using that assms by (simp add: map_of_eq_Some_iff)
  have same: "map external_key (map snd (filter (\<lambda>(k, e). k \<notin> set es) m)) = map fst (filter (\<lambda>(k, e). k \<notin> set es) m)"
    using kx by auto
  have d: "distinct (map external_key (map snd (filter (\<lambda>(k, e). k \<notin> set es) m)))"
    unfolding same using assms(1) by (rule distinct_map_filter)
  show "sorted (map external_key ?l)" by simp
  have "mset (map external_key (sort_key external_key xs)) = mset (map external_key xs)" for xs by simp
  with d show "distinct (map external_key ?l)" using mset_eq_imp_distinct_iff by blast
  show s: "set ?l = set (map ?F ?ks)"
  proof (intro set_eqI iffI)
    fix e assume "e \<in> set ?l"
    then obtain k where "(k, e) \<in> set m" "k \<notin> set es" by auto
    then show "e \<in> set (map ?F ?ks)" using assms(1) fin by (auto simp: map_of_eq_Some_iff dom_def image_iff) force
  next
    fix e assume "e \<in> set (map ?F ?ks)"
    then obtain k where "map_of m k = Some e" "k \<notin> set es" using fin by auto
    then show "e \<in> set ?l" by (cases k) (auto dest!: map_of_SomeD simp: image_iff)
  qed
  show "inj_on external_key (set ?l \<union> set (map ?F ?ks))"
    unfolding s using kF by (auto simp: inj_on_def)
qed

lemma report_block:
  fixes a :: "'v env_app" and g :: live_graph and everything infra :: bool
  assumes "\<And>m. mset (arrange m) = mset m"
  defines "needs \<equiv> external_needs (ea_app a) g everything infra" and "exts \<equiv> externals (ea_app a)"
  shows "dr_externals (externals_report arrange a g everything infra) = map (\<lambda>k. the (block_entry needs exts k)) (block_keys needs exts)"
    and "(\<forall>e \<in> set needs. find (\<lambda>x. external_key x = external_key e) (rev exts) = Some e)
      \<Longrightarrow> \<not> changed (externals_report arrange a g everything infra)"
proof -
  let ?mine = "map nd_name (nodes (ea_app a))" and ?ifs = "interfaces (dg_entities g)"
  define d where "d = foldl put_external [] exts"
  have dd: "distinct (map fst d)" by (simp add: d_def put_externals(2))
  have md: "map_of d k = find (\<lambda>e. external_key e = k) (rev exts)" for k
    by (simp add: d_def put_externals(1) split: option.split)
  define fs0 where "fs0 = check_managed_nodes (ea_app a) ?ifs"
  obtain ds where w: "foldl (visit_interface everything infra ?mine (used_interfaces (ea_app a)) d) (fs0, [], []) ?ifs
      = (fs0 @ ds, foldl put_external [] needs, foldl append_once [] (map external_key needs))"
    "(\<forall>e \<in> set needs. map_of d (external_key e) = Some e) \<Longrightarrow> \<not> calls_for_change ds"
    using visit_interfaces[of everything infra ?mine "used_interfaces (ea_app a)" d fs0 "[]" "[]" ?ifs]
    by (auto simp: needs_def external_needs_def)
  define m where "m = foldl put_external [] needs"
  define seen where "seen = foldl append_once [] (map external_key needs)"
  have seen: "set seen = external_key ` set needs" by (simp add: seen_def foldl_append_once_set)
  have mm: "map_of m k = find (\<lambda>e. external_key e = k) (rev needs)" "distinct (map fst m)" for k
    by (simp_all add: m_def put_externals split: option.split)
  have ar: "distinct (map fst (arrange d))" "set (arrange d) = set d"
  proof -
    have "mset (map fst (arrange d)) = mset (map fst d)" using assms(1)[of d] by simp
    with dd show "distinct (map fst (arrange d))" using mset_eq_imp_distinct_iff by blast
    show "set (arrange d) = set d" using assms(1)[of d] by (rule mset_eq_setD)
  qed
  have ad: "map_of (arrange d) = map_of d"
    using ar dd by (metis map_of_eqI set_map map_of_inject_set)
  obtain ds' M where v: "foldl (visit_absent seen) (fs0 @ ds, m) (arrange d) = ((fs0 @ ds) @ ds', M)" "\<not> calls_for_change ds'"
      "map_of M = (\<lambda>k. if k \<in> fst ` set (arrange d) \<and> k \<notin> set seen then map_of (arrange d) k else map_of m k)" "distinct (map fst M)"
    using visit_absents[OF ar(1), of seen "fs0 @ ds" m] mm(2) by blast
  have M: "map_of M = block_entry needs exts"
  proof
    fix k
    show "map_of M k = block_entry needs exts k"
    proof (cases "k \<in> set seen")
      case True
      then have "find (\<lambda>e. external_key e = k) (rev needs) \<noteq> None" by (auto simp: seen find_None_iff)
      with True show ?thesis by (auto simp: v(3) mm(1) block_entry_def)
    next
      case False
      then have "find (\<lambda>e. external_key e = k) (rev needs) = None" by (auto simp: seen find_None_iff)
      moreover have "map_of d k = None" if "k \<notin> fst ` set d" using that by (simp add: map_of_eq_None_iff)
      ultimately show ?thesis using False by (auto simp: v(3) mm(1) block_entry_def ad ar(2) md)
    qed
  qed
  have e: "foldl (emit_external M) ([], []) exts
      = (map (\<lambda>k. the (block_entry needs exts k)) (foldl append_once [] (map external_key exts)), foldl append_once [] (map external_key exts))"
    unfolding M[symmetric] by (rule emit_externals) (auto simp: M block_entry_None)
  have r: "externals_report arrange a g everything infra = \<lparr>dr_graph = g, dr_app = app_name (ea_app a),
      dr_env = (case ea_env a of None \<Rightarrow> [] | Some e \<Rightarrow> en_name e),
      dr_externals = fst (foldl (emit_external M) ([], []) exts)
        @ sort_key external_key (map snd (filter (\<lambda>(k, e). k \<notin> set (snd (foldl (emit_external M) ([], []) exts))) M)),
      dr_findings = sort_key (\<lambda>f. (finding_order (di_kind f), di_topic f)) ((fs0 @ ds) @ ds'),
      dr_ours = filter (\<lambda>n. n \<in> set ?mine) (graph_nodes g)\<rparr>"
    using w(1) v(1)
    by (simp add: externals_report_def Let_def exts_def[symmetric] d_def[symmetric] fs0_def[symmetric] m_def[symmetric] seen_def[symmetric]
      split: prod.split)
  show "dr_externals (externals_report arrange a g everything infra) = map (\<lambda>k. the (block_entry needs exts k)) (block_keys needs exts)"
    using added_externals[OF v(4), of "foldl append_once [] (map external_key exts)"] block_entry_key
    unfolding r e block_keys_def Let_def by (simp add: M)
  have "changed (externals_report arrange a g everything infra) \<longleftrightarrow> calls_for_change ((fs0 @ ds) @ ds')"
    unfolding r by (auto simp: changed_def calls_for_change_def list_ex_iff)
  then have "changed (externals_report arrange a g everything infra) \<longleftrightarrow> calls_for_change ds"
    using v(2) by (simp add: fs0_def)
  then show "(\<forall>e \<in> set needs. find (\<lambda>x. external_key x = external_key e) (rev exts) = Some e)
      \<Longrightarrow> \<not> changed (externals_report arrange a g everything infra)"
    using w(2) by (simp add: md)
qed

definition role_kind :: "string \<Rightarrow> string" where
  "role_kind r = (if r = ''publisher'' \<or> r = ''subscriber'' then kind_topic
     else if r = ''server'' \<or> r = ''client'' then kind_service else kind_action)"

lemma roles_for_kind: "r \<in> set (roles_for i mine u everything) \<Longrightarrow> role_kind r = if_kind i"
  by (auto simp: roles_for_def Let_def role_kind_def split: if_splits)

lemma roles_for_distinct: "distinct (roles_for i mine u everything)"
proof -
  have "distinct ((if p then [x] else []) @ (if q then [y] else []))" if "x \<noteq> y" for p q and x y :: string
    using that by simp
  then show ?thesis by (simp add: roles_for_def Let_def del: append.simps)
qed

lemma distinct_interfaces: "distinct (map interface_key (interfaces es))"
  by (simp add: interfaces_rolled comp_def)

lemma needs_distinct:
  assumes "distinct (map interface_key ifs)"
  shows "distinct (map external_key (needs_of everything infra mine used ifs))"
  using assms
proof (induction ifs)
  case Nil
  then show ?case by (simp add: needs_of_def)
next
  case (Cons i ifs)
  let ?roles = "if if_infra i \<and> \<not> infra then [] else roles_for i mine (used (if_name i)) everything"
  have n: "needs_of everything infra mine used (i # ifs) = map (wanted i) ?roles @ needs_of everything infra mine used ifs"
    by (simp add: needs_of_def)
  have k: "external_key (wanted i r) = (if_name i, r)" for i r by (simp add: external_key_def wanted_def)
  have "(if_name i, r) \<noteq> external_key e" if r: "r \<in> set ?roles" and e: "e \<in> set (needs_of everything infra mine used ifs)" for r e
  proof
    assume eq: "(if_name i, r) = external_key e"
    from e obtain j s where j: "j \<in> set ifs" "e = wanted j s" "s \<in> set (roles_for j mine (used (if_name j)) everything)"
      by (auto simp: needs_of_def split: if_splits)
    with eq have "if_name j = if_name i" "s = r" by (simp_all add: k)
    moreover have "if_kind j = role_kind s" "if_kind i = role_kind r"
      using j(3) r by (simp_all add: roles_for_kind split: if_splits)
    ultimately have "interface_key j = interface_key i" by (simp add: interface_key_def)
    with j(1) Cons.prems show False by (force simp: image_iff)
  qed
  moreover have "distinct (map (\<lambda>r. (if_name i, r)) ?roles)"
    by (simp add: distinct_map inj_on_def roles_for_distinct)
  ultimately show ?case using Cons by (auto simp: n comp_def k)
qed

lemma find_rev_distinct:
  "distinct (map f xs) \<Longrightarrow> x \<in> set xs \<Longrightarrow> find (\<lambda>y. f y = f x) (rev xs) = Some x"
  by (induction xs rule: rev_induct) (auto simp: image_iff)

text \<open>C31. Writing what the report says settles the matter: a second look at the same graph asks for no change, and
  would write the same block in the same order, whatever order Go's maps are walked in.\<close>

theorem report_converges:
  fixes a :: "'v env_app"
  assumes "\<And>m. mset (arrange m) = mset m" "\<And>m. mset (arrange' m) = mset m"
    and "r = externals_report arrange a g everything infra"
    and "r' = externals_report arrange' (a\<lparr>ea_app := (ea_app a)\<lparr>externals := dr_externals r\<rparr>\<rparr>) g everything infra"
  shows "\<not> changed r' \<and> dr_externals r' = dr_externals r"
proof -
  define needs where "needs = external_needs (ea_app a) g everything infra"
  define b where "b = block_entry needs (externals (ea_app a))"
  define ks where "ks = block_keys needs (externals (ea_app a))"
  define exts where "exts = map (\<lambda>k. the (b k)) ks"
  have r: "dr_externals r = exts"
    unfolding assms(3) exts_def b_def ks_def needs_def by (rule report_block(1)[OF assms(1)])
  have ks: "set ks = dom b" "distinct ks" by (simp_all add: ks_def b_def block_keys_set)
  have bk: "external_key e = k" if "b k = Some e" for k e using that block_entry_key by (simp add: b_def)
  have "external_key (the (b k)) = k" if "k \<in> set ks" for k using that ks(1) bk by fastforce
  then have keys: "map external_key exts = ks" by (simp add: exts_def map_idI)
  let ?a = "a\<lparr>ea_app := (ea_app a)\<lparr>externals := exts\<rparr>\<rparr>"
  have n: "external_needs (ea_app ?a) g everything infra = needs"
    by (simp add: needs_def external_needs_def used_interfaces_def)
  have found: "find (\<lambda>e. external_key e = k) (rev exts) = b k" for k
  proof (cases "b k")
    case None
    then have "k \<notin> external_key ` set exts" using ks(1) keys by (metis domIff set_map)
    then show ?thesis using None by (auto simp: find_None_iff)
  next
    case (Some e)
    then have "e \<in> set exts" using ks(1) by (force simp: exts_def)
    moreover have "distinct (map external_key exts)" using keys ks(2) by simp
    ultimately show ?thesis using find_rev_distinct[of external_key exts e] bk[OF Some] Some by simp
  qed
  have b': "block_entry needs exts = b"
  proof
    fix k show "block_entry needs exts k = b k"
      using found[of k] by (auto simp: block_entry_def b_def split: option.splits)
  qed
  have "foldl append_once [] ks = ks"
  proof -
    have "foldl append_once ys xs = ys @ xs" if "distinct (ys @ xs)" for ys xs :: "(string \<times> string) list"
      using that by (induction xs arbitrary: ys) (auto simp: append_once_def)
    with ks(2) show ?thesis by (metis append_Nil)
  qed
  then have "block_keys needs exts = ks" by (simp add: block_keys_def Let_def keys b' ks(1))
  then have "dr_externals r' = map (\<lambda>k. the (b k)) ks"
    using report_block(1)[OF assms(2), of ?a g everything infra] unfolding assms(4) r n by (simp add: b')
  moreover have "b (external_key e) = Some e" if e: "e \<in> set needs" for e
    using find_rev_distinct[OF needs_distinct[OF distinct_interfaces], of e] e
    by (simp add: b_def block_entry_def needs_def external_needs_def)
  then have "\<not> changed r'"
    using report_block(2)[OF assms(2), of ?a g everything infra] unfolding assms(4) r n by (simp add: found)
  ultimately show ?thesis using r by (simp add: exts_def)
qed

text \<open>What a report declares, and for which keys.\<close>

lemma needed_reported:
  assumes "\<And>m. mset (arrange m) = mset m" "e \<in> set (external_needs (ea_app a) g everything infra)"
  shows "e \<in> set (dr_externals (externals_report arrange a g everything infra))"
proof -
  let ?n = "external_needs (ea_app a) g everything infra"
  have "block_entry ?n (externals (ea_app a)) (external_key e) = Some e"
    using find_rev_distinct[OF needs_distinct[OF distinct_interfaces], of e] assms(2)
    by (simp add: block_entry_def external_needs_def)
  then have "external_key e \<in> set (block_keys ?n (externals (ea_app a)))" "the (block_entry ?n (externals (ea_app a)) (external_key e)) = e"
    by (auto simp: block_keys_set)
  then show ?thesis unfolding report_block(1)[OF assms(1)] by force
qed

lemma rolled_type:
  assumes "\<forall>e \<in> set es. interface_of e = Some (t, kind_topic) \<longrightarrow> etype e = ty"
  shows "if_type (rolled es (t, kind_topic)) = (if \<exists>e \<in> set es. interface_of e = Some (t, kind_topic) then ty else [])"
  using assms
proof (induction es rule: rev_induct)
  case Nil
  then show ?case by (simp add: rolled_def new_interface_def)
next
  case (snoc e es)
  show ?case
  proof (cases "interface_of e = Some (t, kind_topic)")
    case True
    then have s: "split_action (trim_prefix ''/'' (etopic e)) = None" "ekind e = entity_publisher \<or> ekind e = entity_subscription"
      using interface_of_kind[OF True] by auto
    then have "if_type (roll_up e i) = (if if_type i = [] then etype e else if_type i)" for i
      by (auto simp: roll_up_def record_entity_def Let_def)
    with True snoc show ?thesis by (auto simp: rolled_snoc)
  next
    case False
    with snoc show ?thesis by (simp add: rolled_snoc)
  qed
qed

lemma marked_subscribes:
  assumes "n \<in> set (nodes app)" "s \<in> set (subs n)"
  shows "\<exists>u. used_interfaces app (trim_prefix ''/'' (ep_topic s)) = Some u \<and> us_subscribes u"
proof -
  have keep: "\<exists>u. foldl (\<lambda>m (name, f). mark_usage name f m) m ms k = Some u \<and> us_subscribes u"
    if "(\<exists>u. m k = Some u \<and> us_subscribes u) \<or> (\<exists>(name, f) \<in> set ms. trim_prefix ''/'' name = k \<and> (\<forall>u. us_subscribes (f u)))"
      "\<forall>(name, f) \<in> set ms. \<forall>u. us_subscribes u \<longrightarrow> us_subscribes (f u)" for m ms k
    using that
  proof (induction ms arbitrary: m)
    case (Cons x ms)
    obtain name f where x: "x = (name, f)" by (cases x)
    have "(\<exists>u. mark_usage name f m k = Some u \<and> us_subscribes u) \<or> (\<exists>(name, f) \<in> set ms. trim_prefix ''/'' name = k \<and> (\<forall>u. us_subscribes (f u)))"
      using Cons.prems by (auto simp: x mark_usage_def Let_def)
    with Cons.IH[of "mark_usage name f m"] Cons.prems(2) show ?case by (simp add: x)
  qed simp
  let ?ms = "concat (map node_marks (nodes app))"
  have m: "(ep_topic s, \<lambda>u. u\<lparr>us_subscribes := True\<rparr>) \<in> set ?ms" using assms by (auto simp: node_marks_def)
  have k: "\<forall>(name, f) \<in> set ?ms. \<forall>u. us_subscribes u \<longrightarrow> us_subscribes (f u)" by (auto simp: node_marks_def)
  show ?thesis unfolding used_interfaces_def
    by (rule keep[OF _ k]) (rule disjI2, rule bexI[OF _ m], simp)
qed

lemma interface_listed:
  assumes "e \<in> set es" "interface_of e = Some k"
  shows "finish_interface (rolled es k) \<in> set (interfaces es)"
proof -
  have "finite {k. \<exists>e \<in> set es. interface_of e = Some k}"
  proof (rule finite_subset)
    show "{k. \<exists>e \<in> set es. interface_of e = Some k} \<subseteq> (the \<circ> interface_of) ` set es" by force
  qed simp
  with assms show ?thesis by (auto simp: interfaces_rolled)
qed

text \<open>C32. What the graph shows reaches the checker: when a node of another process publishes a topic that the
  application subscribes to, with or without a leading slash, the topic graph of the application with the reported block has an external
  publisher of it, of the type the graph advertises - whether the topic was declared or not,
  and whatever was declared of it. It is under the topic's name without the slash: the subscription's own topic exactly when that is declared
  without one, since the report strips the slash and the topic graph does not, and keeps a subscription to
  \<^verbatim>\<open>/scan\<close> apart from the publishers of \<^verbatim>\<open>scan\<close>. The infrastructure of ROS is left out unless it is asked for.\<close>

theorem discovered_publisher:
  fixes a :: "'v env_app"
  assumes "\<And>m. mset (arrange m) = mset m" "r = externals_report arrange a g everything infra"
    and "e \<in> set (dg_entities g)" "ekind e = entity_publisher" "interface_of e = Some (t, kind_topic)"
    and "enode e \<noteq> []" "enode e \<notin> nd_name ` set (nodes (ea_app a))"
    and "n \<in> set (nodes (ea_app a))" "s \<in> set (subs n)" "trim_prefix ''/'' (ep_topic s) = t"
    and "\<forall>x \<in> set (dg_entities g). interface_of x = Some (t, kind_topic) \<longrightarrow> etype x = ty" "infra \<or> ty \<notin> set infrastructure_types"
  shows "\<exists>x \<in> set (g_topics (build ((ea_app a)\<lparr>externals := dr_externals r\<rparr>))). t_name x = t \<and>
    (t_name x = ep_topic s \<longleftrightarrow> \<not> prefix ''/'' (ep_topic s)) \<and> (\<exists>p \<in> set (t_pubs x). e_external p \<and> e_rostype p = ty)"
proof -
  define i where "i = finish_interface (rolled (dg_entities g) (t, kind_topic))"
  have i: "i \<in> set (interfaces (dg_entities g))" using interface_listed[OF assms(3,5)] by (simp add: i_def)
  have key: "if_name i = t" "if_kind i = kind_topic"
    using rolled_key[of "dg_entities g" "(t, kind_topic)"] by (simp_all add: i_def interface_key_def)
  have ty: "if_type i = ty" using rolled_type[OF assms(11)] assms(3,5) by (auto simp: i_def)
  have "enode e \<in> set (providers i)"
    using rolled_lists[of "dg_entities g" "(t, kind_topic)"] assms(3-6) by (auto simp: i_def provides_kind_def)
  then have o: "others_among (providers i) (map nd_name (nodes (ea_app a)))"
    using assms(7) by (auto simp: others_among_def list_ex_iff)
  have slash: "t = ep_topic s \<longleftrightarrow> \<not> prefix ''/'' (ep_topic s)"
    using assms(10) by (auto simp: trim_prefix_def prefix_def split: if_splits)
  from marked_subscribes[OF assms(8,9)] assms(10) obtain u where u: "used_interfaces (ea_app a) t = Some u" "us_subscribes u" by auto
  have "''publisher'' \<in> set (roles_for i (map nd_name (nodes (ea_app a))) (used_interfaces (ea_app a) (if_name i)) everything)"
    using o u by (simp add: roles_for_def Let_def key)
  moreover have "\<not> (if_infra i \<and> \<not> infra)" using assms(12) ty by (auto simp: i_def)
  ultimately have "wanted i ''publisher'' \<in> set (external_needs (ea_app a) g everything infra)"
    using i unfolding external_needs_def needs_of_def by auto
  from needed_reported[OF assms(1) this] have w: "wanted i ''publisher'' \<in> set (dr_externals r)" by (simp add: assms(2))
  let ?app = "(ea_app a)\<lparr>externals := dr_externals r\<rparr>"
  have p: "external_endpoint (wanted i ''publisher'') \<in> set (topic_pubs ?app t)"
    using w by (auto simp: topic_pubs_def wanted_def key)
  have "finite {k. topic_pubs ?app k \<noteq> [] \<or> topic_subs ?app k \<noteq> []}"
    unfolding topic_event_names[symmetric] by simp
  moreover have "topic_pubs ?app t \<noteq> []" using p by auto
  ultimately have "\<lparr>t_name = t, t_pubs = topic_pubs ?app t, t_subs = topic_subs ?app t\<rparr> \<in> set (g_topics (build ?app))"
    by (simp add: g_topics_build)
  moreover have "e_external (external_endpoint (wanted i ''publisher''))" "e_rostype (external_endpoint (wanted i ''publisher'')) = ty"
    by (simp_all add: external_endpoint_def wanted_def ty)
  ultimately show ?thesis using p slash by (metis topic.select_convs(1,2))
qed

section \<open>The file\<close>

lemma written_file:
  assumes "write_externals a (Inr doc) block = Inr out" "distinct (map fst doc)"
  shows "map_of out = (map_of doc)(''externals'' \<mapsto> block) \<and> sorted (map (field_order \<circ> fst) out)"
proof -
  let ?d = "AList.update ''externals'' block doc"
  have o: "out = sort_key (field_order \<circ> fst) ?d"
    using assms(1) by (auto simp: write_externals_def split: option.splits if_splits)
  have d: "distinct (map fst ?d)" using assms(2) by (rule distinct_update)
  have "mset (map fst out) = mset (map fst ?d)" by (simp add: o)
  with d have "distinct (map fst out)" using mset_eq_imp_distinct_iff by blast
  moreover have "set out = set ?d" by (simp add: o)
  ultimately have "map_of out = map_of ?d" using d by (metis map_of_inject_set)
  then show ?thesis by (simp add: o update_conv')
qed

section \<open>Witnesses\<close>

definition laser_graph :: "entity list \<Rightarrow> live_graph" where
  "laser_graph es = \<lparr>dg_domain = 0, dg_endpoint = ''desk'', dg_entities = es, dg_unreadable = Map.empty\<rparr>"

definition nav_node :: node_decl where
  "nav_node = (empty_node ''nav'')\<lparr>subs := [\<lparr>ep_field = ''Scan'', ep_topic = ''scan'', ep_qos = ''sensor'', ep_frame = [],
     ep_gotype = ''LaserScan'', ep_file = ''nav.go'', ep_line = 9\<rparr>]\<rparr>"

definition nav_app :: "external list \<Rightarrow> unit env_app" where
  "nav_app exts = \<lparr>ea_app = empty_app\<lparr>nodes := [nav_node], externals := exts\<rparr>, ea_description = [], ea_environments = [],
     ea_env_names = [], ea_default = [], ea_env = None, ea_robot = None\<rparr>"

definition offered_scan :: "string \<Rightarrow> external" where
  "offered_scan q = \<lparr>ex_topic = ''scan'', ex_type = ''sensor_msgs/msg/LaserScan'', ex_role = ''publisher'', ex_qos = q\<rparr>"

abbreviation laser_report :: "external list \<Rightarrow> ext_report" where
  "laser_report exts \<equiv> externals_report id (nav_app exts) (laser_graph [laser_scan]) False False"

lemma laser_reports:
  "dr_externals (laser_report [offered_scan []]) = [offered_scan ''sensor'']" "changed (laser_report [offered_scan []]) = False"
  "dr_externals (laser_report []) = [offered_scan ''sensor'']" "changed (laser_report []) = True"
  by code_simp+

text \<open>A report can have something to write and say that nothing changed: an external declared without a profile, of
  a topic whose publisher advertises one, is completed in the block, but only a difference between two
  stated profiles counts as a change, and the file is not written.\<close>

theorem unwritten_profile:
  "\<exists>a :: unit env_app. \<exists>g. \<not> changed (externals_report id a g False False)
     \<and> dr_externals (externals_report id a g False False) \<noteq> externals (ea_app a)"
proof -
  have "externals (ea_app (nav_app [offered_scan []])) \<noteq> [offered_scan ''sensor'']"
    by (simp add: nav_app_def offered_scan_def)
  with laser_reports(1,2) show ?thesis by metis
qed

lemma nav_app_written: "(nav_app es)\<lparr>ea_app := (ea_app (nav_app es))\<lparr>externals := exts\<rparr>\<rparr> = nav_app exts"
  by (simp add: nav_app_def)

theorem report_converges_witness:
  "changed (laser_report []) \<and> \<not> changed (externals_report rev (nav_app (dr_externals (laser_report []))) (laser_graph [laser_scan]) False False)
   \<and> dr_externals (externals_report rev (nav_app (dr_externals (laser_report []))) (laser_graph [laser_scan]) False False) = [offered_scan ''sensor'']"
  using report_converges[of id rev "laser_report []" "nav_app []" "laser_graph [laser_scan]" False False
      "externals_report rev (nav_app (dr_externals (laser_report []))) (laser_graph [laser_scan]) False False"] laser_reports(3,4)
  by (simp add: nav_app_written)

lemma laser_facts:
  "interface_of laser_scan = Some (''scan'', kind_topic)" "''sensor_msgs/msg/LaserScan'' \<notin> set infrastructure_types"
  by code_simp+

theorem discovered_publisher_witness:
  "\<exists>x \<in> set (g_topics (build ((ea_app (nav_app []))\<lparr>externals := dr_externals (laser_report [])\<rparr>))). t_name x = ''scan'' \<and>
    (\<exists>p \<in> set (t_pubs x). e_external p \<and> e_rostype p = ''sensor_msgs/msg/LaserScan'')"
proof -
  have "\<exists>x \<in> set (g_topics (build ((ea_app (nav_app []))\<lparr>externals := dr_externals (laser_report [])\<rparr>))). t_name x = ''scan'' \<and>
    (t_name x = ep_topic (hd (subs nav_node)) \<longleftrightarrow> \<not> prefix ''/'' (ep_topic (hd (subs nav_node)))) \<and>
    (\<exists>p \<in> set (t_pubs x). e_external p \<and> e_rostype p = ''sensor_msgs/msg/LaserScan'')"
  proof (rule discovered_publisher)
    show "mset (id m) = mset m" for m :: external_table by simp
    show "laser_report [] = laser_report []" ..
    show "laser_scan \<in> set (dg_entities (laser_graph [laser_scan]))" by (simp add: laser_graph_def)
    show "ekind laser_scan = entity_publisher" "enode laser_scan \<noteq> []" by (simp_all add: laser_scan_def)
    show "interface_of laser_scan = Some (''scan'', kind_topic)" by (rule laser_facts)
    show "enode laser_scan \<notin> nd_name ` set (nodes (ea_app (nav_app [])))"
      by (simp add: nav_app_def nav_node_def empty_node_def laser_scan_def)
    show "nav_node \<in> set (nodes (ea_app (nav_app [])))" by (simp add: nav_app_def)
    show "hd (subs nav_node) \<in> set (subs nav_node)" "trim_prefix ''/'' (ep_topic (hd (subs nav_node))) = ''scan''" by (simp_all add: nav_node_def trim_prefix_def)
    show "\<forall>x \<in> set (dg_entities (laser_graph [laser_scan])). interface_of x = Some (''scan'', kind_topic) \<longrightarrow> etype x = ''sensor_msgs/msg/LaserScan''"
      by (simp add: laser_graph_def laser_scan_def)
    show "False \<or> ''sensor_msgs/msg/LaserScan'' \<notin> set infrastructure_types" using laser_facts(2) by simp
  qed
  then show ?thesis by blast
qed

end
