(* ===== verification/Msg_Parse.thy ===== *)
theory Msg_Parse
imports Go_Prelude
begin

text \<open>
  Interface definitions (\<^verbatim>\<open>internal/msggen/parse.go\<close>): the parser of \<^verbatim>\<open>.msg\<close>, \<^verbatim>\<open>.srv\<close> and \<^verbatim>\<open>.action\<close> sources, and
  the messages and services that are derived from services and actions.
\<close>

section \<open>Messages\<close>

datatype container_kind = Scalar_value | Array_of | BoundedSeq | UnboundedSeq

record field_type =
  ft_builtin :: string
  ft_nested :: string
  ft_kind :: container_kind
  ft_capacity :: int
  ft_str_capacity :: int

definition builtin_type :: "string \<Rightarrow> field_type" where
  "builtin_type b = \<lparr>ft_builtin = b, ft_nested = [], ft_kind = Scalar_value, ft_capacity = 0, ft_str_capacity = 0\<rparr>"

definition nested_type :: "string \<Rightarrow> field_type" where
  "nested_type n = \<lparr>ft_builtin = [], ft_nested = n, ft_kind = Scalar_value, ft_capacity = 0, ft_str_capacity = 0\<rparr>"

record message_field =
  mf_name :: string
  mf_type :: field_type
  mf_default :: string

record message_constant =
  mc_type :: string
  mc_name :: string
  mc_value :: string

record message_def =
  md_pkg :: string
  md_name :: string
  md_kind :: string
  md_fields :: "message_field list"
  md_constants :: "message_constant list"

definition full_name :: "message_def \<Rightarrow> string" where
  "full_name m = md_pkg m @ ''/'' @ (if md_kind m = [] then ''msg'' else md_kind m) @ ''/'' @ md_name m"

definition builtin_names :: "string list" where
  "builtin_names = [''bool'', ''byte'', ''int8'', ''uint8'', ''int16'', ''uint16'', ''int32'', ''uint32'', ''int64'', ''uint64'',
     ''float32'', ''float64'', ''string'', ''wstring'']"

definition normalize_builtin :: "string \<Rightarrow> string" where
  "normalize_builtin s = (if s = ''char'' then ''uint8'' else s)"

section \<open>Types\<close>

text \<open>\<^verbatim>\<open>strings.Index\<close> and the parts around what it finds.\<close>

fun break_at :: "string \<Rightarrow> string \<Rightarrow> (string \<times> string) option" where
  "break_at sep [] = None"
| "break_at sep (x # xs) =
     (if prefix sep (x # xs) then Some ([], drop (length sep) (x # xs))
      else case break_at sep xs of None \<Rightarrow> None | Some (a, b) \<Rightarrow> Some (x # a, b))"

definition positive :: "string \<Rightarrow> string \<Rightarrow> string \<Rightarrow> int result" where
  "positive fmt tok s = (case atoi s of None \<Rightarrow> Inl (Errorf fmt [GStr tok])
     | Some n \<Rightarrow> if n \<le> 0 then Inl (Errorf fmt [GStr tok]) else Inr n)"

text \<open>The container a type token names, with what is before it.\<close>

definition parse_container :: "string \<Rightarrow> (string \<times> container_kind \<times> int) result" where
  "parse_container tok =
     (case break_at ''['' tok of
        None \<Rightarrow> Inr (tok, Scalar_value, 0)
      | Some (base, rest) \<Rightarrow>
          if \<not> suffix '']'' tok then Inl (Errorf ''malformed array type %q'' [GStr tok])
          else (let inner = butlast rest
                in if inner = [] then Inr (base, UnboundedSeq, 0)
                   else if prefix ''<='' inner
                   then bind_result (positive ''invalid sequence bound in %q'' tok (drop 2 inner)) (\<lambda>n. Inr (base, BoundedSeq, n))
                   else bind_result (positive ''invalid array size in %q'' tok inner) (\<lambda>n. Inr (base, Array_of, n))))"

definition parse_string_bound :: "string \<Rightarrow> string \<Rightarrow> (string \<times> int) result" where
  "parse_string_bound tok base =
     (case break_at ''<='' base of
        None \<Rightarrow> Inr (base, 0)
      | Some (b, bound) \<Rightarrow>
          bind_result (positive ''invalid string bound in %q'' tok bound) (\<lambda>n.
            if b \<noteq> ''string'' \<and> b \<noteq> ''wstring''
            then Inl (Errorf ''bound <=N is only valid on string types, got %q'' [GStr tok]) else Inr (b, n)))"

text \<open>The builtin and the nested name of a base type, one of them empty.\<close>

definition parse_base :: "string \<Rightarrow> string \<Rightarrow> string \<Rightarrow> (string \<times> string) result" where
  "parse_base tok pkg base =
     (let base = normalize_builtin base
      in if base = ''wstring'' then Inl (Errorf ''wstring is not supported'' [])
         else if base \<in> set builtin_names then Inr (base, [])
         else if base = ''Header'' then Inr ([], ''std_msgs/msg/Header'')
         else if CHR ''/'' \<in> set base then
           (case split_on CHR ''/'' base of
              [p, n] \<Rightarrow> Inr ([], p @ ''/msg/'' @ n)
            | [_, _, _] \<Rightarrow> Inr ([], base)
            | _ \<Rightarrow> Inl (Errorf ''malformed type reference %q'' [GStr tok]))
         else Inr ([], pkg @ ''/msg/'' @ base))"

definition parse_type_token :: "string \<Rightarrow> string \<Rightarrow> field_type result" where
  "parse_type_token tok pkg =
     bind_result (parse_container tok) (\<lambda>(base, k, cap).
     bind_result (parse_string_bound tok base) (\<lambda>(base, scap).
     bind_result (parse_base tok pkg base) (\<lambda>(b, n).
       Inr \<lparr>ft_builtin = b, ft_nested = n, ft_kind = k, ft_capacity = cap, ft_str_capacity = scap\<rparr>)))"

section \<open>Lines\<close>

fun strip_after :: "char option \<Rightarrow> string \<Rightarrow> string" where
  "strip_after q [] = []"
| "strip_after (Some q) (c # cs) = c # strip_after (if c = q then None else Some q) cs"
| "strip_after None (c # cs) =
     (if c = CHR 0x22 \<or> c = CHR 0x27 then c # strip_after (Some c) cs
      else if c = CHR ''#'' then [] else c # strip_after None cs)"

definition strip_msg_comment :: "string \<Rightarrow> string" where
  "strip_msg_comment line = strip_after None line"

definition parse_msg_line :: "message_def \<Rightarrow> string \<Rightarrow> message_def result" where
  "parse_msg_line m line =
     (let tok = takeWhile (\<lambda>c. c \<noteq> CHR '' '') line; rest = trim_space (drop (length tok + 1) line)
      in if CHR '' '' \<notin> set line \<or> rest = [] then Inl (Errorf ''expected \"type name\", got %q'' [GStr line])
         else (let ends = (\<lambda>c. c = CHR '' '' \<or> c = CHR 0x09 \<or> c = CHR ''='');
                   name = takeWhile (\<lambda>c. \<not> ends c) rest;
                   tail = trim_space (dropWhile (\<lambda>c. \<not> ends c) rest)
               in if prefix ''='' tail then
                    (if normalize_builtin tok \<notin> set builtin_names
                     then Inl (Errorf ''constant %s must have a builtin type, got %q'' [GStr name, GStr tok])
                     else Inr (m\<lparr>md_constants := md_constants m
                            @ [\<lparr>mc_type = normalize_builtin tok, mc_name = name, mc_value = trim_space (tl tail)\<rparr>]\<rparr>))
                  else bind_result (parse_type_token tok (md_pkg m)) (\<lambda>ft.
                    Inr (m\<lparr>md_fields := md_fields m @ [\<lparr>mf_name = name, mf_type = ft, mf_default = tail\<rparr>]\<rparr>))))"

fun parse_msg_lines :: "nat \<Rightarrow> string list \<Rightarrow> message_def \<Rightarrow> message_def result" where
  "parse_msg_lines i [] m = Inr m"
| "parse_msg_lines i (raw # rest) m =
     (let line = trim_space (strip_msg_comment raw)
      in if line = [] then parse_msg_lines (i + 1) rest m
         else case parse_msg_line m line of
                Inl e \<Rightarrow> Inl (Errorf ''%s/%s.msg:%d: %w'' [GStr (md_pkg m), GStr (md_name m), GInt (int i + 1), GErr e])
              | Inr m \<Rightarrow> parse_msg_lines (i + 1) rest m)"

definition placeholder_field :: message_field where
  "placeholder_field = \<lparr>mf_name = ''structure_needs_at_least_one_member'', mf_type = builtin_type ''uint8'', mf_default = []\<rparr>"

definition parse_message :: "string \<Rightarrow> string \<Rightarrow> string \<Rightarrow> message_def result" where
  "parse_message pkg name src =
     bind_result (parse_msg_lines 0 (split_on CHR 0x0A src) \<lparr>md_pkg = pkg, md_name = name, md_kind = [], md_fields = [], md_constants = []\<rparr>)
       (\<lambda>m. Inr (if md_fields m = [] then m\<lparr>md_fields := [placeholder_field]\<rparr> else m))"

section \<open>Services and actions\<close>

record service_def =
  sd_pkg :: string
  sd_name :: string
  sd_kind :: string
  sd_request :: message_def
  sd_response :: message_def
  sd_event :: message_def

definition service_full_name :: "service_def \<Rightarrow> string" where
  "service_full_name s = sd_pkg s @ ''/'' @ (if sd_kind s = [] then ''srv'' else sd_kind s) @ ''/'' @ sd_name s"

definition plain_field :: "string \<Rightarrow> field_type \<Rightarrow> message_field" where
  "plain_field name t = \<lparr>mf_name = name, mf_type = t, mf_default = []\<rparr>"

definition make_service :: "string \<Rightarrow> string \<Rightarrow> string \<Rightarrow> message_def \<Rightarrow> message_def \<Rightarrow> service_def" where
  "make_service pkg name k req res =
     (let req = req\<lparr>md_kind := k\<rparr>; res = res\<lparr>md_kind := k\<rparr>
      in \<lparr>sd_pkg = pkg, sd_name = name, sd_kind = k, sd_request = req, sd_response = res,
          sd_event = \<lparr>md_pkg = pkg, md_name = name @ ''_Event'', md_kind = k,
            md_fields = [plain_field ''info'' (nested_type ''service_msgs/msg/ServiceEventInfo''),
              plain_field ''request'' ((nested_type (full_name req))\<lparr>ft_kind := BoundedSeq, ft_capacity := 1\<rparr>),
              plain_field ''response'' ((nested_type (full_name res))\<lparr>ft_kind := BoundedSeq, ft_capacity := 1\<rparr>)],
            md_constants = []\<rparr>\<rparr>)"

fun sections_from :: "string list \<Rightarrow> string list \<Rightarrow> string list list" where
  "sections_from acc [] = [acc]"
| "sections_from acc (l # ls) = (if trim_space l = ''---'' then acc # sections_from [] ls else sections_from (acc @ [l]) ls)"

definition split_sections :: "string \<Rightarrow> nat \<Rightarrow> string list result" where
  "split_sections src want =
     (let ss = sections_from [] (split_on CHR 0x0A src)
      in if length ss \<noteq> want then Inl (Errorf ''want %d sections separated by ---, got %d'' [GInt (int want), GInt (int (length ss))])
         else Inr (map (join [CHR 0x0A]) ss))"

definition parse_service :: "string \<Rightarrow> string \<Rightarrow> string \<Rightarrow> service_def result" where
  "parse_service pkg name src =
     (case split_sections src 2 of
        Inl e \<Rightarrow> Inl (Errorf ''%s/%s.srv: %w'' [GStr pkg, GStr name, GErr e])
      | Inr ss \<Rightarrow>
          bind_result (parse_message pkg (name @ ''_Request'') (ss ! 0)) (\<lambda>req.
          bind_result (parse_message pkg (name @ ''_Response'') (ss ! 1)) (\<lambda>res.
            Inr (make_service pkg name ''srv'' req res))))"

record action_def =
  ad_pkg :: string
  ad_name :: string
  ad_goal :: message_def
  ad_result :: message_def
  ad_feedback :: message_def
  ad_feedback_message :: message_def
  ad_send_goal :: service_def
  ad_get_result :: service_def

definition derived_message :: "string \<Rightarrow> string \<Rightarrow> string \<Rightarrow> message_field list \<Rightarrow> message_def" where
  "derived_message pkg name k fs = \<lparr>md_pkg = pkg, md_name = name, md_kind = k, md_fields = fs, md_constants = []\<rparr>"

definition make_action :: "string \<Rightarrow> string \<Rightarrow> message_def \<Rightarrow> message_def \<Rightarrow> message_def \<Rightarrow> action_def" where
  "make_action pkg name goal res feedback =
     (let goal = goal\<lparr>md_kind := ''action''\<rparr>; res = res\<lparr>md_kind := ''action''\<rparr>; feedback = feedback\<lparr>md_kind := ''action''\<rparr>;
          goal_id = plain_field ''goal_id'' (nested_type ''unique_identifier_msgs/msg/UUID'')
      in \<lparr>ad_pkg = pkg, ad_name = name, ad_goal = goal, ad_result = res, ad_feedback = feedback,
          ad_feedback_message = derived_message pkg (name @ ''_FeedbackMessage'') ''action''
            [goal_id, plain_field ''feedback'' (nested_type (full_name feedback))],
          ad_send_goal = make_service pkg (name @ ''_SendGoal'') ''action''
            (derived_message pkg (name @ ''_SendGoal_Request'') [] [goal_id, plain_field ''goal'' (nested_type (full_name goal))])
            (derived_message pkg (name @ ''_SendGoal_Response'') []
              [plain_field ''accepted'' (builtin_type ''bool''), plain_field ''stamp'' (nested_type ''builtin_interfaces/msg/Time'')]),
          ad_get_result = make_service pkg (name @ ''_GetResult'') ''action''
            (derived_message pkg (name @ ''_GetResult_Request'') [] [goal_id])
            (derived_message pkg (name @ ''_GetResult_Response'') []
              [plain_field ''status'' (builtin_type ''int8''), plain_field ''result'' (nested_type (full_name res))])\<rparr>)"

definition parse_action :: "string \<Rightarrow> string \<Rightarrow> string \<Rightarrow> action_def result" where
  "parse_action pkg name src =
     (case split_sections src 3 of
        Inl e \<Rightarrow> Inl (Errorf ''%s/%s.action: %w'' [GStr pkg, GStr name, GErr e])
      | Inr ss \<Rightarrow>
          bind_result (parse_message pkg (name @ ''_Goal'') (ss ! 0)) (\<lambda>goal.
          bind_result (parse_message pkg (name @ ''_Result'') (ss ! 1)) (\<lambda>res.
          bind_result (parse_message pkg (name @ ''_Feedback'') (ss ! 2)) (\<lambda>feedback.
            Inr (make_action pkg name goal res feedback)))))"

section \<open>Definitions written back\<close>

text \<open>How a type and a field are written; names are made of the other characters than those with a meaning.\<close>

definition plain_char :: "char \<Rightarrow> bool" where
  "plain_char c \<longleftrightarrow> \<not> is_space c \<and> c \<notin> set ''[<=/#'' \<and> c \<noteq> CHR 0x22 \<and> c \<noteq> CHR 0x27"

definition plain_name :: "string \<Rightarrow> bool" where
  "plain_name s \<longleftrightarrow> s \<noteq> [] \<and> list_all plain_char s"

definition show_base :: "field_type \<Rightarrow> string" where
  "show_base t = (if ft_nested t \<noteq> [] then ft_nested t
     else ft_builtin t @ (if 0 < ft_str_capacity t then ''<='' @ itoa (ft_str_capacity t) else []))"

definition show_type :: "field_type \<Rightarrow> string" where
  "show_type t = show_base t @ (case ft_kind t of Scalar_value \<Rightarrow> [] | UnboundedSeq \<Rightarrow> ''[]''
     | Array_of \<Rightarrow> ''['' @ itoa (ft_capacity t) @ '']'' | BoundedSeq \<Rightarrow> ''[<='' @ itoa (ft_capacity t) @ '']'')"

definition show_field :: "message_field \<Rightarrow> string" where
  "show_field f = show_type (mf_type f) @ '' '' @ mf_name f"

definition type_ok :: "field_type \<Rightarrow> bool" where
  "type_ok t \<longleftrightarrow> (if ft_nested t = []
       then ft_builtin t \<in> set builtin_names - {''wstring''} \<and> (ft_str_capacity t = 0 \<or> ft_builtin t = ''string'')
       else ft_builtin t = [] \<and> ft_str_capacity t = 0 \<and> length (split_on CHR ''/'' (ft_nested t)) = 3 \<and> list_all plain_name (split_on CHR ''/'' (ft_nested t)))
     \<and> 0 \<le> ft_str_capacity t \<and> ft_str_capacity t \<le> max_int
     \<and> (if ft_kind t = Array_of \<or> ft_kind t = BoundedSeq then 0 < ft_capacity t \<and> ft_capacity t \<le> max_int else ft_capacity t = 0)"

definition field_ok :: "message_field \<Rightarrow> bool" where
  "field_ok f \<longleftrightarrow> type_ok (mf_type f) \<and> plain_name (mf_name f) \<and> mf_default f = []"

lemma break_at_found: "c \<notin> set b \<Longrightarrow> break_at (c # cs) (b @ (c # cs) @ r) = Some (b, r)"
  by (induction b) auto

lemma break_at_none: "c \<notin> set b \<Longrightarrow> break_at (c # cs) b = None"
  by (induction b) auto

text \<open>The characters of what is written.\<close>

lemma builtin_chars: "b \<in> set builtin_names \<Longrightarrow> plain_name b \<and> normalize_builtin b = b \<and> CHR ''['' \<notin> set b \<and> CHR ''<'' \<notin> set b \<and> CHR ''/'' \<notin> set b"
proof -
  have "list_all (\<lambda>b. plain_name b \<and> normalize_builtin b = b \<and> CHR ''['' \<notin> set b \<and> CHR ''<'' \<notin> set b \<and> CHR ''/'' \<notin> set b) builtin_names"
    by code_simp
  then show "b \<in> set builtin_names \<Longrightarrow> plain_name b \<and> normalize_builtin b = b \<and> CHR ''['' \<notin> set b \<and> CHR ''<'' \<notin> set b \<and> CHR ''/'' \<notin> set b"
    unfolding list_all_iff by blast
qed

definition token_char :: "char \<Rightarrow> bool" where
  "token_char c \<longleftrightarrow> \<not> is_space c \<and> c \<noteq> CHR ''#'' \<and> c \<noteq> CHR 0x22 \<and> c \<noteq> CHR 0x27"

lemma plain_token: "plain_char c \<Longrightarrow> token_char c"
  by (simp add: plain_char_def token_char_def)

lemma itoa_token: "list_all token_char (itoa n)"
proof -
  have "CHR ''#'' \<notin> set (itoa n)" "CHR 0x22 \<notin> set (itoa n)" "CHR 0x27 \<notin> set (itoa n)"
    by (rule itoa_no; simp add: digit_val_def)+
  moreover have "\<not> is_space c" if "c \<in> set (itoa n)" for c
    using that itoa_no[of c n] by (cases "c = CHR ''-''") (auto simp: is_space_def digit_val_def)
  ultimately show ?thesis by (auto simp: list_all_iff token_char_def)
qed

lemma itoa_free: "CHR ''['' \<notin> set (itoa n)" "CHR ''<'' \<notin> set (itoa n)" "itoa n \<noteq> []"
  by (rule itoa_no; simp add: digit_val_def)+ (simp add: itoa_def)

lemma nested_chars:
  assumes "list_all plain_name (split_on CHR ''/'' s)"
  shows "c \<in> set s \<Longrightarrow> plain_char c \<or> c = CHR ''/''"
proof -
  assume "c \<in> set s"
  then have "c \<in> set (join ''/'' (split_on CHR ''/'' s))" by (simp add: join_split_on)
  moreover have "c \<in> set (join ''/'' ps) \<Longrightarrow> (\<exists>p \<in> set ps. c \<in> set p) \<or> c = CHR ''/''" for ps
  proof (induction ps)
    case (Cons p ps)
    then show ?case by (cases "ps = []") (auto simp: join_Cons)
  qed simp
  ultimately show ?thesis using assms by (fastforce simp: list_all_iff plain_name_def)
qed

lemma base_chars:
  assumes "type_ok t"
  shows "show_base t \<noteq> []" "list_all token_char (show_base t)" "CHR ''['' \<notin> set (show_base t)"
proof -
  have b: "list_all token_char b" if "plain_name b" for b
    using that plain_token by (auto simp: plain_name_def list_all_iff)
  have n: "token_char c \<and> c \<noteq> CHR ''[''" if "ft_nested t \<noteq> []" "c \<in> set (ft_nested t)" for c
  proof -
    have "list_all plain_name (split_on CHR ''/'' (ft_nested t))" using assms that(1) by (simp add: type_ok_def)
    from nested_chars[OF this that(2)] show ?thesis
      by (auto simp: plain_char_def token_char_def is_space_def)
  qed
  have le: "list_all token_char ''<=''" by code_simp
  show "show_base t \<noteq> []" using assms builtin_chars[of "ft_builtin t"] by (auto simp: show_base_def type_ok_def plain_name_def)
  show "list_all token_char (show_base t)"
  proof (cases "ft_nested t = []")
    case True
    then have "list_all token_char (ft_builtin t)" using assms builtin_chars b by (auto simp: type_ok_def)
    with le itoa_token[of "ft_str_capacity t"] True show ?thesis by (simp add: show_base_def)
  next
    case False
    with n show ?thesis by (simp add: show_base_def list_all_iff)
  qed
  show "CHR ''['' \<notin> set (show_base t)"
    using assms builtin_chars[of "ft_builtin t"] n itoa_free(1)[of "ft_str_capacity t"]
    by (auto simp: show_base_def type_ok_def split: if_splits)
qed

lemma container_shown:
  assumes "type_ok t"
  shows "parse_container (show_type t) = Inr (show_base t, ft_kind t, ft_capacity t)"
proof -
  note free = base_chars(3)[OF assms]
  have found: "break_at ''['' (show_base t @ ''['' @ r) = Some (show_base t, r)" for r
    using break_at_found[OF free, of "[]" r] by simp
  have cap: "atoi (itoa (ft_capacity t)) = Some (ft_capacity t)" if "ft_kind t = Array_of \<or> ft_kind t = BoundedSeq"
    using that assms by (intro atoi_itoa) (auto simp: type_ok_def min_int_def)
  show ?thesis
  proof (cases "ft_kind t")
    case Scalar_value
    with assms show ?thesis by (simp add: parse_container_def show_type_def break_at_none[OF free] type_ok_def)
  next
    case UnboundedSeq
    with assms found[of "'']''"] show ?thesis by (simp add: parse_container_def show_type_def suffix_def type_ok_def)
  next
    case Array_of
    have "\<not> prefix ''<='' (itoa (ft_capacity t))" using itoa_free(2)[of "ft_capacity t"] by (auto simp: prefix_def)
    moreover have "suffix '']'' (show_base t @ ''['' @ itoa (ft_capacity t) @ '']'')" by (simp add: suffix_def)
    ultimately show ?thesis
      using Array_of assms found[of "itoa (ft_capacity t) @ '']''"] cap itoa_free(3)
      by (simp add: parse_container_def show_type_def positive_def butlast_append type_ok_def)
  next
    case BoundedSeq
    moreover have "suffix '']'' (show_base t @ ''[<='' @ itoa (ft_capacity t) @ '']'')" by (simp add: suffix_def)
    ultimately show ?thesis
      using assms found[of "''<='' @ itoa (ft_capacity t) @ '']''"] cap
      by (simp add: parse_container_def show_type_def positive_def butlast_append type_ok_def)
  qed
qed

lemma type_shown:
  assumes "type_ok t"
  shows "parse_type_token (show_type t) pkg = Inr t"
proof (cases "ft_nested t = []")
  case True
  then have b: "ft_builtin t \<in> set builtin_names" "ft_builtin t \<noteq> ''wstring''" using assms by (simp_all add: type_ok_def)
  note c = builtin_chars[OF b(1)]
  have base: "parse_base tok pkg (ft_builtin t) = Inr (ft_builtin t, [])" for tok
    using b c by (simp add: parse_base_def)
  have "parse_string_bound tok (show_base t) = Inr (ft_builtin t, ft_str_capacity t)" for tok
  proof (cases "ft_str_capacity t = 0")
    case True
    with \<open>ft_nested t = []\<close> c show ?thesis by (simp add: show_base_def parse_string_bound_def break_at_none)
  next
    case False
    then have s: "0 < ft_str_capacity t" "ft_str_capacity t \<le> max_int" "ft_builtin t = ''string''"
      using assms True by (auto simp: type_ok_def)
    have "break_at ''<='' (''string'' @ ''<='' @ itoa (ft_str_capacity t)) = Some (''string'', itoa (ft_str_capacity t))"
      by (rule break_at_found) simp
    moreover have "atoi (itoa (ft_str_capacity t)) = Some (ft_str_capacity t)" using s by (intro atoi_itoa) (simp_all add: min_int_def)
    ultimately show ?thesis using s True by (simp add: show_base_def parse_string_bound_def positive_def del: append.simps)
  qed
  with base True show ?thesis by (simp add: parse_type_token_def container_shown[OF assms])
next
  case False
  then have n: "ft_builtin t = []" "ft_str_capacity t = 0" "length (split_on CHR ''/'' (ft_nested t)) = 3"
    "list_all plain_name (split_on CHR ''/'' (ft_nested t))" using assms by (simp_all add: type_ok_def)
  have "CHR ''<'' \<notin> set (ft_nested t)" using nested_chars[OF n(4)] by (auto simp: plain_char_def)
  then have "parse_string_bound tok (show_base t) = Inr (ft_nested t, 0)" for tok
    using False by (simp add: show_base_def parse_string_bound_def break_at_none)
  moreover have "parse_base tok pkg (ft_nested t) = Inr ([], ft_nested t)" for tok
  proof -
    have slash: "CHR ''/'' \<in> set (ft_nested t)"
    proof (rule ccontr)
      assume "CHR ''/'' \<notin> set (ft_nested t)"
      then have "split_on CHR ''/'' (ft_nested t) = [ft_nested t]" by (rule split_on_no_sep)
      with n(3) show False by simp
    qed
    then have "ft_nested t \<noteq> ''char''" "ft_nested t \<noteq> ''wstring''" "ft_nested t \<noteq> ''Header''" by auto
    moreover have "ft_nested t \<notin> set builtin_names" using slash builtin_chars by blast
    moreover obtain a b c where "split_on CHR ''/'' (ft_nested t) = [a, b, c]"
      using n(3) by (auto simp: numeral_3_eq_3 length_Suc_conv)
    ultimately show ?thesis using slash by (simp add: parse_base_def normalize_builtin_def)
  qed
  ultimately show ?thesis using n by (simp add: parse_type_token_def container_shown[OF assms])
qed

lemma separators:
  "\<not> token_char CHR '' ''" "\<not> token_char CHR 0x0A" "\<not> plain_char CHR '' ''" "\<not> plain_char CHR 0x09" "\<not> plain_char CHR ''=''"
  by code_simp+

lemma trim_empty: "trim_space [] = []"
  by (simp add: trim_space_def)

lemma strip_tokens: "list_all (\<lambda>c. token_char c \<or> c = CHR '' '') s \<Longrightarrow> strip_after None s = s"
  by (induction s) (auto simp: token_char_def)

lemma type_chars: "type_ok t \<Longrightarrow> list_all token_char (show_type t) \<and> show_type t \<noteq> []"
proof -
  assume "type_ok t"
  moreover have "token_char CHR ''[''" "token_char CHR '']''" "token_char CHR ''<''" "token_char CHR ''=''" by code_simp+
  ultimately show ?thesis
    using base_chars(1,2)[of t] itoa_token[of "ft_capacity t"] by (simp add: show_type_def split: container_kind.split)
qed

lemma trim_tokens:
  assumes "list_all token_char a" "a \<noteq> []" "list_all token_char b" "b \<noteq> []"
  shows "trim_space (a @ '' '' @ b) = a @ '' '' @ b" "trim_space b = b"
proof -
  have ns: "\<not> is_space c" if "list_all token_char s" "c \<in> set s" for s c using that by (auto simp: list_all_iff token_char_def)
  have front: "dropWhile is_space (s @ r) = s @ r" if "list_all token_char s" "s \<noteq> []" for s r
    using ns[OF that(1), of "hd s"] that(2) by (cases s) simp_all
  have "list_all token_char (rev b)" using assms(3) by (simp add: list_all_iff)
  with assms(4) front have "dropWhile is_space (rev b @ r) = rev b @ r" for r by simp
  moreover from this[of "[]"] have "dropWhile is_space (rev b) = rev b" by simp
  ultimately show "trim_space (a @ '' '' @ b) = a @ '' '' @ b" "trim_space b = b"
    using front[OF assms(1,2)] front[OF assms(3,4), of "[]"] by (simp_all add: trim_space_def)
qed

lemma field_shown:
  assumes "field_ok f"
  shows "parse_msg_line m (trim_space (strip_msg_comment (show_field f))) = Inr (m\<lparr>md_fields := md_fields m @ [f]\<rparr>)"
    "trim_space (strip_msg_comment (show_field f)) \<noteq> []" "CHR 0x0A \<notin> set (show_field f)"
proof -
  let ?t = "show_type (mf_type f)" and ?n = "mf_name f"
  have t: "list_all token_char ?t" "?t \<noteq> []" using type_chars assms by (auto simp: field_ok_def)
  have plain: "list_all plain_char ?n" "?n \<noteq> []" using assms by (simp_all add: field_ok_def plain_name_def)
  then have n: "list_all token_char ?n" using plain_token by (auto simp: list_all_iff)
  have "list_all (\<lambda>c. token_char c \<or> c = CHR '' '') (show_field f)"
    using t(1) n by (auto simp: show_field_def list_all_iff)
  then have line: "trim_space (strip_msg_comment (show_field f)) = show_field f"
    using trim_tokens(1)[OF t n plain(2)] by (simp add: strip_msg_comment_def strip_tokens show_field_def)
  then show "trim_space (strip_msg_comment (show_field f)) \<noteq> []" by (simp add: show_field_def)
  have nosp: "CHR '' '' \<notin> set ?t" using t(1) separators(1) unfolding list_all_iff by blast
  then have tok: "takeWhile (\<lambda>c. c \<noteq> CHR '' '') (show_field f) = ?t"
    unfolding show_field_def by (subst takeWhile_append2) (metis, simp)
  have rest: "drop (length ?t + 1) (show_field f) = ?n" by (simp add: show_field_def)
  let ?in = "\<lambda>c. c \<noteq> CHR '' '' \<and> c \<noteq> CHR 0x09 \<and> c \<noteq> CHR ''=''"
  have "?in c" if "c \<in> set ?n" for c using that plain(1) separators(3-5) unfolding list_all_iff by blast
  then have name: "takeWhile ?in ?n = ?n" "dropWhile ?in ?n = []"
    by (simp_all add: takeWhile_eq_all_conv dropWhile_eq_Nil_conv)
  have "CHR '' '' \<in> set (show_field f)" by (simp add: show_field_def)
  with trim_tokens(2)[OF t n plain(2)] plain(2) type_shown[of "mf_type f"] assms
  show "parse_msg_line m (trim_space (strip_msg_comment (show_field f))) = Inr (m\<lparr>md_fields := md_fields m @ [f]\<rparr>)"
    unfolding line parse_msg_line_def tok Let_def rest by (simp add: field_ok_def trim_empty name)
  have "CHR 0x0A \<notin> set ?t" "CHR 0x0A \<notin> set ?n" using t(1) n separators(2) unfolding list_all_iff by blast+
  then show "CHR 0x0A \<notin> set (show_field f)" by (simp add: show_field_def)
qed

lemma fields_shown:
  "list_all field_ok fs \<Longrightarrow> parse_msg_lines i (map show_field fs) m = Inr (m\<lparr>md_fields := md_fields m @ fs\<rparr>)"
proof (induction fs arbitrary: i m)
  case (Cons f fs)
  then have "field_ok f" by simp
  note f = field_shown[OF this]
  from Cons f(1,2) show ?case by simp
qed simp

text \<open>C37. A message written out field by field, one to a line, is parsed back to the same fields in the same order:
  builtins, bounded strings, references to other types, arrays and both kinds of sequences.\<close>

theorem message_round_trip:
  assumes "fs \<noteq> []" "list_all field_ok fs"
  shows "parse_message pkg name (join [CHR 0x0A] (map show_field fs))
    = Inr \<lparr>md_pkg = pkg, md_name = name, md_kind = [], md_fields = fs, md_constants = []\<rparr>"
proof -
  have "split_on CHR 0x0A (join [CHR 0x0A] (map show_field fs)) = map show_field fs"
    using assms field_shown(3) by (intro split_on_join) (auto simp: list_all_iff)
  with assms show ?thesis by (simp add: parse_message_def fields_shown)
qed

definition scan_fields :: "message_field list" where
  "scan_fields = [plain_field ''header'' (nested_type ''std_msgs/msg/Header''), plain_field ''label'' ((builtin_type ''string'')\<lparr>ft_str_capacity := 16\<rparr>),
     plain_field ''covariance'' ((builtin_type ''float64'')\<lparr>ft_kind := Array_of, ft_capacity := 9\<rparr>),
     plain_field ''ranges'' ((builtin_type ''float32'')\<lparr>ft_kind := BoundedSeq, ft_capacity := 360\<rparr>)]"

theorem message_round_trip_witness:
  "parse_message ''p'' ''Scan'' (join [CHR 0x0A] (map show_field scan_fields))
    = Inr \<lparr>md_pkg = ''p'', md_name = ''Scan'', md_kind = [], md_fields = scan_fields, md_constants = []\<rparr>"
proof (rule message_round_trip)
  show "scan_fields \<noteq> []" by (simp add: scan_fields_def)
  show "list_all field_ok scan_fields" by code_simp
qed

end
