(* ===== verification/Msg_Describe.thy ===== *)
theory Msg_Describe
imports Msg_Parse
begin

text \<open>
  Finding interface definitions (\<^verbatim>\<open>internal/msggen/resolve.go\<close>) and the descriptions of types that their hashes
  are computed from (\<^verbatim>\<open>internal/msggen/typedesc.go\<close>). The files are outside the program: \<open>files\<close> says what
  \<^verbatim>\<open>os.Stat\<close> and \<^verbatim>\<open>os.ReadFile\<close> answer for a path, and \<open>join_path\<close> is \<^verbatim>\<open>filepath.Join\<close>. While they stay as they
  are a cached definition is the one that would be parsed again, and the caches are left out. SHA-256
  and the escaping of JSON strings are libraries, arguments here.
\<close>

section \<open>Descriptions\<close>

definition builtin_type_ids :: "(string \<times> int) list" where
  "builtin_type_ids = [(''int8'', 2), (''uint8'', 3), (''int16'', 4), (''uint16'', 5), (''int32'', 6), (''uint32'', 7), (''int64'', 8),
     (''uint64'', 9), (''float32'', 10), (''float64'', 11), (''bool'', 15), (''byte'', 16), (''string'', 17), (''wstring'', 18)]"

definition type_id :: "field_type \<Rightarrow> int" where
  "type_id ft =
     (if ft_nested ft \<noteq> [] then 1
      else if 0 < ft_str_capacity ft then 21
      else case map_of builtin_type_ids (ft_builtin ft) of None \<Rightarrow> 0 | Some n \<Rightarrow> n)
     + (case ft_kind ft of Scalar_value \<Rightarrow> 0 | Array_of \<Rightarrow> 48 | BoundedSeq \<Rightarrow> 96 | UnboundedSeq \<Rightarrow> 144)"

record desc_field =
  df_name :: string
  df_type_id :: int
  df_capacity :: int
  df_str_capacity :: int
  df_nested :: string

record individual =
  iv_type_name :: string
  iv_fields :: "desc_field list"

record type_description =
  ty_individual :: individual
  ty_referenced :: "individual list"

definition desc_field_of :: "message_field \<Rightarrow> desc_field" where
  "desc_field_of f = \<lparr>df_name = mf_name f, df_type_id = type_id (mf_type f), df_capacity = ft_capacity (mf_type f),
     df_str_capacity = ft_str_capacity (mf_type f), df_nested = ft_nested (mf_type f)\<rparr>"

definition individual_of :: "message_def \<Rightarrow> individual" where
  "individual_of m = \<lparr>iv_type_name = full_name m, iv_fields = map desc_field_of (md_fields m)\<rparr>"

text \<open>The text that is hashed.\<close>

definition write_desc_field :: "(string \<Rightarrow> string) \<Rightarrow> desc_field \<Rightarrow> string" where
  "write_desc_field js f = ''{\"name\": '' @ js (df_name f) @ '', \"type\": {\"type_id\": '' @ itoa (df_type_id f) @ '', \"capacity\": ''
     @ itoa (df_capacity f) @ '', \"string_capacity\": '' @ itoa (df_str_capacity f) @ '', \"nested_type_name\": '' @ js (df_nested f) @ ''}}''"

definition write_individual :: "(string \<Rightarrow> string) \<Rightarrow> individual \<Rightarrow> string" where
  "write_individual js i = ''{\"type_name\": '' @ js (iv_type_name i) @ '', \"fields\": ['' @ join '', '' (map (write_desc_field js) (iv_fields i)) @ '']}''"

definition hashable_json :: "(string \<Rightarrow> string) \<Rightarrow> type_description \<Rightarrow> string" where
  "hashable_json js td = ''{\"type_description\": '' @ write_individual js (ty_individual td)
     @ '', \"referenced_type_descriptions\": ['' @ join '', '' (map (write_individual js) (ty_referenced td)) @ '']}''"

definition type_hash :: "(string \<Rightarrow> string) \<Rightarrow> (string \<Rightarrow> string) \<Rightarrow> type_description \<Rightarrow> string" where
  "type_hash js sha256_hex td = ''RIHS01_'' @ sha256_hex (hashable_json js td)"

section \<open>Finding definitions\<close>

record msg_files =
  fs_join :: "string list \<Rightarrow> string"
  fs_stat :: "string \<Rightarrow> bool"
  fs_read :: "string \<Rightarrow> string result"

record resolver =
  rs_prefixes :: "string list"
  rs_local :: "string \<Rightarrow> string option"

definition new_resolver :: "string list \<Rightarrow> resolver" where
  "new_resolver dirs = \<lparr>rs_prefixes = dirs, rs_local = Map.empty\<rparr>"

definition share_prefixes :: "msg_files \<Rightarrow> string \<Rightarrow> string list" where
  "share_prefixes fs v = map (\<lambda>p. fs_join fs [p, ''share'']) (filter (\<lambda>p. p \<noteq> []) (split_on CHR '':'' v))"

text \<open>\<open>base\<close> is the name of the file in its directory.\<close>

definition local_name :: "string \<Rightarrow> string \<Rightarrow> string option" where
  "local_name pkg base =
     (if suffix ''.msg'' base then Some (pkg @ ''/msg/'' @ trim_suffix ''.msg'' base)
      else if suffix ''.srv'' base then Some (pkg @ ''/srv/'' @ trim_suffix ''.srv'' base)
      else if suffix ''.action'' base then Some (pkg @ ''/action/'' @ trim_suffix ''.action'' base)
      else None)"

definition add_local :: "string \<Rightarrow> string \<Rightarrow> string \<Rightarrow> resolver \<Rightarrow> (string \<times> resolver) result" where
  "add_local pkg file base r =
     (case local_name pkg base of
        None \<Rightarrow> Inl (Errorf ''%s: not a .msg, .srv, or .action file'' [GStr file])
      | Some full \<Rightarrow> Inr (full, r\<lparr>rs_local := (rs_local r)(full \<mapsto> file)\<rparr>))"

definition find_definition :: "msg_files \<Rightarrow> resolver \<Rightarrow> string \<Rightarrow> string \<Rightarrow> string \<Rightarrow> string \<Rightarrow> string result" where
  "find_definition fs r full pkg k name =
     (let file = (case rs_local r full of
                    Some p \<Rightarrow> p
                  | None \<Rightarrow> (case find (fs_stat fs) (map (\<lambda>p. fs_join fs [p, pkg, k, name @ ''.'' @ k]) (rs_prefixes r)) of
                               Some p \<Rightarrow> p | None \<Rightarrow> []))
      in if file = [] then Inl (Errorf (''cannot find %s.'' @ k @ '' for %s (searched local files and %d share prefix(es))'')
             [GStr name, GStr full, GInt (int (length (rs_prefixes r)))])
         else fs_read fs file)"

definition ends_with :: "string list \<Rightarrow> string \<Rightarrow> bool" where
  "ends_with sfs s \<longleftrightarrow> list_ex (\<lambda>x. suffix x s) sfs"

definition service_suffixes :: "string list" where
  "service_suffixes = [''_Request'', ''_Response'', ''_Event'']"

definition action_type_suffixes :: "string list" where
  "action_type_suffixes =
     [''_SendGoal_Request'', ''_SendGoal_Response'', ''_SendGoal_Event'', ''_SendGoal'', ''_GetResult_Request'', ''_GetResult_Response'',
      ''_GetResult_Event'', ''_GetResult'', ''_FeedbackMessage'', ''_Feedback'', ''_Goal'', ''_Result'']"

definition is_service_name :: "string \<Rightarrow> bool" where
  "is_service_name full = (case split_on CHR ''/'' full of [_, k, n] \<Rightarrow> k = ''srv'' \<and> \<not> ends_with service_suffixes n | _ \<Rightarrow> False)"

definition is_action_name :: "string \<Rightarrow> bool" where
  "is_action_name full = (case split_on CHR ''/'' full of [_, k, n] \<Rightarrow> k = ''action'' \<and> \<not> ends_with action_type_suffixes n | _ \<Rightarrow> False)"

definition is_action_service_name :: "string \<Rightarrow> bool" where
  "is_action_service_name full =
     (case split_on CHR ''/'' full of [_, k, n] \<Rightarrow> k = ''action'' \<and> (suffix ''_SendGoal'' n \<or> suffix ''_GetResult'' n) | _ \<Rightarrow> False)"

definition action_base :: "string \<Rightarrow> string" where
  "action_base name = (case find (\<lambda>x. suffix x name) action_type_suffixes of None \<Rightarrow> name | Some x \<Rightarrow> trim_suffix x name)"

definition resolve_action :: "msg_files \<Rightarrow> resolver \<Rightarrow> string \<Rightarrow> action_def result" where
  "resolve_action fs r full =
     (case split_on CHR ''/'' full of
        [pkg, k, name] \<Rightarrow>
          if k \<noteq> ''action'' then Inl (Errorf ''invalid action type name %q (want pkg/action/Name)'' [GStr full])
          else bind_result (find_definition fs r full pkg ''action'' name) (parse_action pkg name)
      | _ \<Rightarrow> Inl (Errorf ''invalid action type name %q (want pkg/action/Name)'' [GStr full]))"

definition resolve_service :: "msg_files \<Rightarrow> resolver \<Rightarrow> string \<Rightarrow> service_def result" where
  "resolve_service fs r full =
     (case split_on CHR ''/'' full of
        [pkg, k, name] \<Rightarrow>
          if k \<noteq> ''srv'' then Inl (Errorf ''invalid service type name %q (want pkg/srv/Name)'' [GStr full])
          else bind_result (find_definition fs r full pkg ''srv'' name) (parse_service pkg name)
      | _ \<Rightarrow> Inl (Errorf ''invalid service type name %q (want pkg/srv/Name)'' [GStr full]))"

text \<open>What a definition leaves in the cache of messages, a later entry before an earlier one.\<close>

definition service_messages :: "service_def \<Rightarrow> message_def list" where
  "service_messages s = [sd_event s, sd_response s, sd_request s]"

definition action_messages :: "action_def \<Rightarrow> message_def list" where
  "action_messages a = service_messages (ad_get_result a) @ service_messages (ad_send_goal a)
     @ [ad_feedback_message a, ad_feedback a, ad_result a, ad_goal a]"

definition resolve_message :: "msg_files \<Rightarrow> resolver \<Rightarrow> string \<Rightarrow> message_def result" where
  "resolve_message fs r full =
     (case split_on CHR ''/'' full of
        [pkg, k, name] \<Rightarrow>
          if k = ''srv'' then
            (let base = fold trim_suffix service_suffixes name
             in bind_result (resolve_service fs r (pkg @ ''/srv/'' @ base)) (\<lambda>s.
                  case find (\<lambda>m. full_name m = full) (service_messages s) of
                    None \<Rightarrow> Inl (Errorf ''%s is not a request/response/event of service %s'' [GStr full, GStr base])
                  | Some m \<Rightarrow> Inr m))
          else if k = ''action'' then
            bind_result (resolve_action fs r (pkg @ ''/action/'' @ action_base name)) (\<lambda>a.
              case find (\<lambda>m. full_name m = full) (action_messages a) of
                None \<Rightarrow> Inl (Errorf ''%s is not a derived type of action %s'' [GStr full, GStr (action_base name)])
              | Some m \<Rightarrow> Inr m)
          else if k \<noteq> ''msg'' then Inl (Errorf ''invalid message type name %q (want pkg/msg/Name)'' [GStr full])
          else bind_result (find_definition fs r full pkg ''msg'' name) (parse_message pkg name)
      | _ \<Rightarrow> Inl (Errorf ''invalid message type name %q (want pkg/msg/Name)'' [GStr full]))"

section \<open>Describing a type\<close>

text \<open>The types a message refers to, and theirs. \<open>resolve\<close> is the resolver; a walk that goes deeper than its fuel
  is \<^const>\<open>None\<close>.\<close>

type_synonym refs = "string \<Rightarrow> individual option"

fun collect_refs :: "(string \<Rightarrow> message_def result) \<Rightarrow> nat \<Rightarrow> message_def \<Rightarrow> message_field list \<Rightarrow> refs \<Rightarrow> refs result option" where
  "collect_refs resolve n m [] refs = Some (Inr refs)"
| "collect_refs resolve n m (f # fs) refs =
     (let name = ft_nested (mf_type f)
      in if name = [] \<or> refs name \<noteq> None then collect_refs resolve n m fs refs
         else case n of
           0 \<Rightarrow> None
         | Suc n' \<Rightarrow>
           (case resolve name of
              Inl e \<Rightarrow> Some (Inl (Errorf ''resolving %s (referenced by %s): %w'' [GStr name, GStr (full_name m), GErr e]))
            | Inr ref \<Rightarrow>
                (case collect_refs resolve n' ref (md_fields ref) (refs(name \<mapsto> individual_of ref)) of
                   None \<Rightarrow> None
                 | Some (Inl e) \<Rightarrow> Some (Inl e)
                 | Some (Inr refs) \<Rightarrow> collect_refs resolve n m fs refs)))"

definition service_individual :: "service_def \<Rightarrow> individual" where
  "service_individual s =
     (let f = (\<lambda>name m. \<lparr>df_name = name, df_type_id = 1, df_capacity = 0, df_str_capacity = 0, df_nested = full_name m\<rparr>)
      in \<lparr>iv_type_name = service_full_name s,
          iv_fields = [f ''request_message'' (sd_request s), f ''response_message'' (sd_response s), f ''event_message'' (sd_event s)]\<rparr>)"

text \<open>Several messages, each recorded and then walked.\<close>

fun add_messages :: "(string \<Rightarrow> message_def result) \<Rightarrow> nat \<Rightarrow> message_def list \<Rightarrow> refs \<Rightarrow> refs result option" where
  "add_messages resolve n [] refs = Some (Inr refs)"
| "add_messages resolve n (m # ms) refs =
     (case collect_refs resolve n m (md_fields m) (refs(full_name m \<mapsto> individual_of m)) of
        None \<Rightarrow> None
      | Some (Inl e) \<Rightarrow> Some (Inl e)
      | Some (Inr refs) \<Rightarrow> add_messages resolve n ms refs)"

definition add_service_refs :: "(string \<Rightarrow> message_def result) \<Rightarrow> nat \<Rightarrow> service_def \<Rightarrow> refs \<Rightarrow> refs result option" where
  "add_service_refs resolve n s refs =
     add_messages resolve n [sd_request s, sd_response s, sd_event s] (refs(service_full_name s \<mapsto> service_individual s))"

text \<open>The keys of the map are sorted.\<close>

definition assemble :: "individual \<Rightarrow> refs \<Rightarrow> type_description" where
  "assemble i refs = \<lparr>ty_individual = i, ty_referenced = map (\<lambda>n. the (refs n)) (sorted_list_of_set (dom refs))\<rparr>"

definition describe_message :: "(string \<Rightarrow> message_def result) \<Rightarrow> nat \<Rightarrow> string \<Rightarrow> type_description result option" where
  "describe_message resolve n full =
     (case resolve full of
        Inl e \<Rightarrow> Some (Inl e)
      | Inr root \<Rightarrow> map_option (\<lambda>r. bind_result r (\<lambda>refs. Inr (assemble (individual_of root) refs)))
                      (collect_refs resolve n root (md_fields root) Map.empty))"

definition describe_service :: "(string \<Rightarrow> message_def result) \<Rightarrow> nat \<Rightarrow> service_def \<Rightarrow> type_description result option" where
  "describe_service resolve n s =
     map_option (\<lambda>r. bind_result r (\<lambda>refs. Inr (assemble (service_individual s) (refs(service_full_name s := None)))))
       (add_service_refs resolve n s Map.empty)"

definition action_individual :: "action_def \<Rightarrow> string \<Rightarrow> individual" where
  "action_individual a full =
     (let f = (\<lambda>name t. \<lparr>df_name = name, df_type_id = 1, df_capacity = 0, df_str_capacity = 0, df_nested = t\<rparr>)
      in \<lparr>iv_type_name = full,
          iv_fields = [f ''goal'' (full_name (ad_goal a)), f ''result'' (full_name (ad_result a)), f ''feedback'' (full_name (ad_feedback a)),
            f ''send_goal_service'' (service_full_name (ad_send_goal a)), f ''get_result_service'' (service_full_name (ad_get_result a)),
            f ''feedback_message'' (full_name (ad_feedback_message a))]\<rparr>)"

definition bind_refs :: "refs result option \<Rightarrow> (refs \<Rightarrow> 'a result option) \<Rightarrow> 'a result option" where
  "bind_refs r f = (case r of None \<Rightarrow> None | Some (Inl e) \<Rightarrow> Some (Inl e) | Some (Inr refs) \<Rightarrow> f refs)"

definition describe_action :: "(string \<Rightarrow> message_def result) \<Rightarrow> nat \<Rightarrow> action_def \<Rightarrow> string \<Rightarrow> type_description result option" where
  "describe_action resolve n a full =
     bind_refs (add_messages resolve n [ad_goal a, ad_result a, ad_feedback a, ad_feedback_message a] Map.empty) (\<lambda>refs.
     bind_refs (add_service_refs resolve n (ad_send_goal a) refs) (\<lambda>refs.
     bind_refs (add_service_refs resolve n (ad_get_result a) refs) (\<lambda>refs.
       Some (Inr (assemble (action_individual a full) refs)))))"

definition service_by_name :: "msg_files \<Rightarrow> resolver \<Rightarrow> string \<Rightarrow> service_def result" where
  "service_by_name fs r full =
     (case split_on CHR ''/'' full of
        [pkg, k, name] \<Rightarrow>
          if k = ''srv'' then resolve_service fs r full
          else bind_result (resolve_action fs r (pkg @ ''/action/'' @ action_base name)) (\<lambda>a.
                 case find (\<lambda>s. service_full_name s = full) [ad_send_goal a, ad_get_result a] of
                   None \<Rightarrow> Inl (Errorf ''%s is not a service of action %s'' [GStr full, GStr (action_base name)])
                 | Some s \<Rightarrow> Inr s)
      | _ \<Rightarrow> Inl (Errorf ''index out of range'' []))"

text \<open>A service's or an action's name has three parts, so that \<^const>\<open>service_by_name\<close> is not called with another.\<close>

definition describe :: "msg_files \<Rightarrow> resolver \<Rightarrow> nat \<Rightarrow> string \<Rightarrow> type_description result option" where
  "describe fs r n full =
     (let resolve = resolve_message fs r
      in if is_action_name full then
           (case resolve_action fs r full of Inl e \<Rightarrow> Some (Inl e) | Inr a \<Rightarrow> describe_action resolve n a full)
         else if is_service_name full \<or> is_action_service_name full then
           (case service_by_name fs r full of Inl e \<Rightarrow> Some (Inl e) | Inr s \<Rightarrow> describe_service resolve n s)
         else describe_message resolve n full)"

section \<open>The types a message refers to\<close>

definition nested_in :: "message_field list \<Rightarrow> string set" where
  "nested_in fs = {ft_nested (mf_type f) | f. f \<in> set fs} - {[]}"

definition refers :: "(string \<Rightarrow> message_def result) \<Rightarrow> (string \<times> string) set" where
  "refers resolve = {(a, b). \<exists>m. resolve a = Inr m \<and> b \<in> nested_in (md_fields m)}"

text \<open>The types behind some fields, through any number of definitions.\<close>

definition referred :: "(string \<Rightarrow> message_def result) \<Rightarrow> message_field list \<Rightarrow> string set" where
  "referred resolve fs = (refers resolve)\<^sup>* `` nested_in fs"

lemma nested_in_simps [simp]:
  "nested_in [] = {}" "nested_in (f # fs) = ({ft_nested (mf_type f)} - {[]}) \<union> nested_in fs"
  by (auto simp: nested_in_def)

lemma referred_Cons: "referred resolve (f # fs) = (refers resolve)\<^sup>* `` ({ft_nested (mf_type f)} - {[]}) \<union> referred resolve fs"
  by (auto simp: referred_def)

lemma referred_step: "resolve x = Inr m \<Longrightarrow> referred resolve (md_fields m) \<subseteq> (refers resolve)\<^sup>* `` {x}"
  by (auto simp: referred_def refers_def intro: converse_rtrancl_into_rtrancl)

text \<open>The references that are new, with what they refer to in turn, are in the result.\<close>

definition closes :: "(string \<Rightarrow> message_def result) \<Rightarrow> refs \<Rightarrow> refs \<Rightarrow> bool" where
  "closes resolve refs R \<longleftrightarrow> (\<forall>x y. refs x = Some y \<longrightarrow> R x = Some y)
     \<and> (\<forall>x \<in> dom R - dom refs. \<exists>m. resolve x = Inr m \<and> R x = Some (individual_of m) \<and> nested_in (md_fields m) \<subseteq> dom R)"

lemma closes_trans:
  assumes "closes resolve refs R" "closes resolve R R'"
  shows "closes resolve refs R'"
  unfolding closes_def
proof (intro conjI allI impI ballI)
  fix x y assume "refs x = Some y"
  then show "R' x = Some y" using assms by (auto simp: closes_def)
next
  fix x assume x: "x \<in> dom R' - dom refs"
  have sub: "dom R \<subseteq> dom R'" using assms(2) by (auto simp: closes_def)
  show "\<exists>m. resolve x = Inr m \<and> R' x = Some (individual_of m) \<and> nested_in (md_fields m) \<subseteq> dom R'"
  proof (cases "x \<in> dom R")
    case True
    with x assms(1) obtain m where "resolve x = Inr m" "R x = Some (individual_of m)" "nested_in (md_fields m) \<subseteq> dom R"
      unfolding closes_def by blast
    with sub assms(2) show ?thesis by (auto simp: closes_def)
  next
    case False
    with x assms(2) show ?thesis unfolding closes_def by blast
  qed
qed

lemma collect_closes:
  "collect_refs resolve n m fs refs = Some (Inr R) \<Longrightarrow>
   closes resolve refs R \<and> nested_in fs \<subseteq> dom R \<and> dom R \<subseteq> dom refs \<union> referred resolve fs"
proof (induction resolve n m fs refs arbitrary: R rule: collect_refs.induct)
  case (1 resolve n m refs)
  then show ?case by (simp add: closes_def)
next
  case (2 resolve n m f fs refs)
  let ?name = "ft_nested (mf_type f)"
  show ?case
  proof (cases "?name = [] \<or> refs ?name \<noteq> None")
    case True
    with 2 have "closes resolve refs R \<and> nested_in fs \<subseteq> dom R \<and> dom R \<subseteq> dom refs \<union> referred resolve fs" by simp
    with True show ?thesis by (auto simp: referred_Cons closes_def)
  next
    case False
    with "2.prems" obtain n' where n: "n = Suc n'" by (cases n) simp_all
    from False "2.prems" n obtain ref where ref: "resolve ?name = Inr ref" by (auto simp: Let_def split: sum.splits)
    from False "2.prems" n ref obtain R1 where
      R1: "collect_refs resolve n' ref (md_fields ref) (refs(?name \<mapsto> individual_of ref)) = Some (Inr R1)"
        "collect_refs resolve n m fs R1 = Some (Inr R)"
      by (auto simp: Let_def split: option.splits sum.splits)
    have a: "closes resolve (refs(?name \<mapsto> individual_of ref)) R1" "nested_in (md_fields ref) \<subseteq> dom R1"
        "dom R1 \<subseteq> insert ?name (dom refs) \<union> referred resolve (md_fields ref)"
      using "2.IH"(2)[OF refl False n ref R1(1)] by (simp_all only: dom_fun_upd option.distinct if_False)
    have b: "closes resolve R1 R" "nested_in fs \<subseteq> dom R" "dom R \<subseteq> dom R1 \<union> referred resolve fs"
      using "2.IH"(3)[OF refl False n ref R1(1) refl R1(2)] by blast+
    have kept: "\<And>x y. (refs(?name \<mapsto> individual_of ref)) x = Some y \<Longrightarrow> R1 x = Some y"
      and fresh: "\<And>x. x \<in> dom R1 - insert ?name (dom refs) \<Longrightarrow>
        \<exists>m. resolve x = Inr m \<and> R1 x = Some (individual_of m) \<and> nested_in (md_fields m) \<subseteq> dom R1"
      using a(1) unfolding closes_def by (blast, simp)
    have name: "R1 ?name = Some (individual_of ref)" by (rule kept) simp
    have c: "closes resolve refs R1"
      unfolding closes_def
    proof (intro conjI allI impI ballI)
      fix x y assume "refs x = Some y"
      then show "R1 x = Some y" using False by (intro kept) auto
    next
      fix x assume "x \<in> dom R1 - dom refs"
      then show "\<exists>m. resolve x = Inr m \<and> R1 x = Some (individual_of m) \<and> nested_in (md_fields m) \<subseteq> dom R1"
        using fresh[of x] name ref a(2) by (cases "x = ?name") auto
    qed
    have "?name \<in> dom R" using name b(1) by (auto simp: closes_def)
    moreover have "{?name} - {[]} = {?name}" using False by auto
    moreover have "?name \<in> (refers resolve)\<^sup>* `` {?name}" by simp
    then have "dom R \<subseteq> dom refs \<union> ((refers resolve)\<^sup>* `` {?name} \<union> referred resolve fs)"
      using b(3) a(3) referred_step[of resolve ?name ref, OF ref] by blast
    ultimately show ?thesis using closes_trans[OF c b(1)] b(2) by (simp only: referred_Cons nested_in_simps) blast
  qed
qed

text \<open>The walk ends: it goes down only into types it has not met.\<close>

lemma collect_ends:
  assumes "finite S" "\<And>x mx. x \<in> S \<Longrightarrow> resolve x = Inr mx \<Longrightarrow> nested_in (md_fields mx) \<subseteq> S"
  shows "nested_in fs \<subseteq> S \<Longrightarrow> card (S - dom refs) \<le> n \<Longrightarrow> \<exists>r. collect_refs resolve n m fs refs = Some r
    \<and> (\<forall>e. r = Inl e \<longrightarrow> (\<exists>x \<in> referred resolve fs. \<exists>e. resolve x = Inl e))"
proof (induction resolve\<equiv>resolve n m fs refs rule: collect_refs.induct)
  case (1 n m refs)
  then show ?case by simp
next
  case (2 n m f fs refs)
  let ?name = "ft_nested (mf_type f)"
  let ?up = "\<lambda>fs. \<exists>x \<in> referred resolve fs. \<exists>e. resolve x = Inl e"
  have up: "?up fs \<Longrightarrow> ?up (f # fs)" by (auto simp: referred_Cons)
  show ?case
  proof (cases "?name = [] \<or> refs ?name \<noteq> None")
    case True
    with "2.hyps"(1)[OF refl True] "2.prems" obtain r where "collect_refs resolve n m fs refs = Some r" "\<forall>e. r = Inl e \<longrightarrow> ?up fs" by auto
    with True up show ?thesis by auto
  next
    case False
    then have name: "?name \<in> S" "?name \<notin> dom refs" using "2.prems"(1) by auto
    then have "0 < card (S - dom refs)" using assms(1) by (auto simp: card_gt_0_iff)
    with "2.prems"(2) obtain n' where n: "n = Suc n'" by (cases n) simp_all
    show ?thesis
    proof (cases "resolve ?name")
      case (Inl e)
      moreover have "?name \<in> referred resolve (f # fs)" using False by (auto simp: referred_Cons)
      ultimately show ?thesis using False n by (auto simp: Let_def)
    next
      case (Inr ref)
      let ?refs = "refs(?name \<mapsto> individual_of ref)"
      have "S - dom ?refs = (S - dom refs) - {?name}" by auto
      then have "card (S - dom ?refs) \<le> n'" using name assms(1) "2.prems"(2) n by simp
      with "2.hyps"(2)[OF refl False n Inr] assms(2)[OF name(1) Inr] obtain r1 where
        r1: "collect_refs resolve n' ref (md_fields ref) ?refs = Some r1" "\<forall>e. r1 = Inl e \<longrightarrow> ?up (md_fields ref)" by blast
      have upr: "?up (md_fields ref) \<Longrightarrow> ?up (f # fs)" using referred_step[of resolve ?name ref, OF Inr] False by (auto simp: referred_Cons)
      show ?thesis
      proof (cases r1)
        case (Inl e)
        with r1 False n Inr upr show ?thesis by (simp add: Let_def \<open>resolve ?name = Inr ref\<close>)
      next
        case (Inr R1)
        have "closes resolve ?refs R1" using collect_closes r1(1) Inr by blast
        then have "dom refs \<subseteq> dom R1" using name(2) by (auto simp: closes_def split: if_splits)
        then have "card (S - dom R1) \<le> n"
          using "2.prems"(2) card_mono[of "S - dom refs" "S - dom R1"] assms(1) by (meson Diff_mono finite_Diff order_trans subset_refl)
        with "2.hyps"(3)[OF refl False n \<open>resolve ?name = Inr ref\<close> r1(1)[unfolded Inr] refl] "2.prems"(1) obtain r where
          r: "collect_refs resolve n m fs R1 = Some r" "\<forall>e. r = Inl e \<longrightarrow> ?up fs" by auto
        with r1 False n Inr up show ?thesis by (simp add: Let_def \<open>resolve ?name = Inr ref\<close>)
      qed
    qed
  qed
qed

text \<open>C36. Describing a message ends for every set of definitions, cyclic ones included, within as many levels as there
  are types behind it, and gathers exactly these, sorted by name, each with its own fields; it fails exactly
  when one of them cannot be resolved.\<close>

theorem described_types:
  assumes "resolve full = Inr root" "finite (referred resolve (md_fields root))" "card (referred resolve (md_fields root)) \<le> n"
  shows "if \<exists>x \<in> referred resolve (md_fields root). \<exists>e. resolve x = Inl e
    then \<exists>e. describe_message resolve n full = Some (Inl e)
    else describe_message resolve n full = Some (Inr \<lparr>ty_individual = individual_of root,
      ty_referenced = map (\<lambda>x. individual_of (projr (resolve x))) (sorted_list_of_set (referred resolve (md_fields root)))\<rparr>)"
proof -
  let ?S = "referred resolve (md_fields root)"
  have closed: "nested_in (md_fields mx) \<subseteq> ?S" if "x \<in> ?S" "resolve x = Inr mx" for x mx
    using that by (auto simp: referred_def refers_def intro: rtrancl_into_rtrancl)
  have start: "nested_in (md_fields root) \<subseteq> ?S" by (auto simp: referred_def)
  obtain r where r: "collect_refs resolve n root (md_fields root) Map.empty = Some r"
      "\<forall>e. r = Inl e \<longrightarrow> (\<exists>x \<in> ?S. \<exists>e. resolve x = Inl e)"
  proof -
    have "\<exists>r. collect_refs resolve n root (md_fields root) Map.empty = Some r
        \<and> (\<forall>e. r = Inl e \<longrightarrow> (\<exists>x \<in> ?S. \<exists>e. resolve x = Inl e))"
    proof (rule collect_ends[OF assms(2) _ start])
      show "nested_in (md_fields mx) \<subseteq> ?S" if "x \<in> ?S" "resolve x = Inr mx" for x mx using that by (rule closed)
      show "card (?S - dom (Map.empty :: refs)) \<le> n" using assms(3) by simp
    qed
    then show thesis using that by blast
  qed
  show ?thesis
  proof (cases r)
    case (Inl e)
    with r assms(1) show ?thesis by (simp add: describe_message_def)
  next
    case (Inr R)
    with r(1) have c: "closes resolve Map.empty R" "nested_in (md_fields root) \<subseteq> dom R" "dom R \<subseteq> ?S"
      using collect_closes[of resolve n root "md_fields root" Map.empty R] by auto
    have "x \<in> dom R" if "x \<in> ?S" for x
    proof -
      from that obtain a where "a \<in> nested_in (md_fields root)" "(a, x) \<in> (refers resolve)\<^sup>*" by (auto simp: referred_def)
      from this(2,1) show ?thesis
      proof (induction rule: rtrancl_induct)
        case base
        with c(2) show ?case by blast
      next
        case (step y z)
        then have "y \<in> dom R" by simp
        then obtain m where "resolve y = Inr m" "nested_in (md_fields m) \<subseteq> dom R" using c(1) unfolding closes_def dom_empty Diff_empty by blast
        with step.hyps(2) show ?case by (auto simp: refers_def)
      qed
    qed
    with c(3) have dom: "dom R = ?S" by blast
    have all: "\<exists>m. resolve x = Inr m \<and> R x = Some (individual_of m)" if "x \<in> ?S" for x
      using that c(1) dom by (auto simp: closes_def)
    then have "\<not> (\<exists>x \<in> ?S. \<exists>e. resolve x = Inl e)" by fastforce
    moreover have "map (\<lambda>x. the (R x)) (sorted_list_of_set ?S) = map (\<lambda>x. individual_of (projr (resolve x))) (sorted_list_of_set ?S)"
      using all assms(2) by (fastforce intro: map_cong)
    ultimately show ?thesis using r(1) Inr assms(1) by (simp add: describe_message_def assemble_def dom)
  qed
qed

section \<open>What the hash is computed from\<close>

text \<open>The shape of the types the parser makes.\<close>

definition parsed_type :: "field_type \<Rightarrow> bool" where
  "parsed_type ft \<longleftrightarrow> (if ft_nested ft = [] then ft_builtin ft \<in> set builtin_names else ft_builtin ft = [])
     \<and> (ft_str_capacity ft = 0 \<or> 0 < ft_str_capacity ft \<and> (ft_nested ft = [] \<longrightarrow> ft_builtin ft = ''string''))"

lemma positive_Inr: "positive fmt tok s = Inr n \<longleftrightarrow> atoi s = Some n \<and> 0 < n"
  by (auto simp: positive_def split: option.splits)

lemma parse_string_bound_Inr:
  "parse_string_bound tok base = Inr (b, n) \<Longrightarrow> n = 0 \<and> b = base \<or> 0 < n \<and> (b = ''string'' \<or> b = ''wstring'')"
  by (auto simp: parse_string_bound_def bind_result_Inr positive_Inr split: option.splits if_splits)

lemma parse_base_Inr:
  assumes "parse_base tok pkg base = Inr (b, n)"
  shows "if n = [] then b \<in> set builtin_names \<and> b = normalize_builtin base else b = []"
proof (cases "normalize_builtin base \<in> set builtin_names")
  case True
  with assms show ?thesis by (auto simp: parse_base_def Let_def split: if_splits)
next
  case False
  define c where "c = normalize_builtin base"
  from False assms have "b = []" "n \<noteq> []"
    unfolding parse_base_def Let_def c_def[symmetric] by (auto split: if_splits list.splits)
  then show ?thesis by simp
qed

lemma parsed_shape: "parse_type_token tok pkg = Inr ft \<Longrightarrow> parsed_type ft"
proof -
  assume "parse_type_token tok pkg = Inr ft"
  then obtain base k cap b0 scap b n where p: "parse_container tok = Inr (base, k, cap)" "parse_string_bound tok base = Inr (b0, scap)"
      "parse_base tok pkg b0 = Inr (b, n)"
      "ft = \<lparr>ft_builtin = b, ft_nested = n, ft_kind = k, ft_capacity = cap, ft_str_capacity = scap\<rparr>"
    by (auto simp: parse_type_token_def bind_result_Inr)
  have w: "parse_base tok pkg ''wstring'' \<noteq> Inr (b, n)" by (simp add: parse_base_def normalize_builtin_def)
  from parse_base_Inr[OF p(3)] parse_string_bound_Inr[OF p(2)] w p(3) show ?thesis
    by (auto simp: parsed_type_def p(4) normalize_builtin_def split: if_splits)
qed

lemma builtin_ids_inj:
  "b \<in> set builtin_names \<Longrightarrow> b' \<in> set builtin_names \<Longrightarrow> map_of builtin_type_ids b = map_of builtin_type_ids b' \<Longrightarrow> b = b'"
  "b \<in> set builtin_names \<Longrightarrow> \<exists>n. map_of builtin_type_ids b = Some n \<and> 1 < n \<and> n < 21"
proof -
  have "list_all (\<lambda>b. list_all (\<lambda>b'. map_of builtin_type_ids b = map_of builtin_type_ids b' \<longrightarrow> b = b') builtin_names) builtin_names"
    by code_simp
  then show "b \<in> set builtin_names \<Longrightarrow> b' \<in> set builtin_names \<Longrightarrow> map_of builtin_type_ids b = map_of builtin_type_ids b' \<Longrightarrow> b = b'"
    unfolding list_all_iff by blast
  have "list_all (\<lambda>b. case map_of builtin_type_ids b of None \<Rightarrow> False | Some n \<Rightarrow> 1 < n \<and> n < 21) builtin_names"
    by code_simp
  then show "b \<in> set builtin_names \<Longrightarrow> \<exists>n. map_of builtin_type_ids b = Some n \<and> 1 < n \<and> n < 21"
    unfolding list_all_iff by (auto split: option.splits)
qed

text \<open>The four numbers and the name of a described field determine its type.\<close>

lemma type_id_inj:
  assumes "parsed_type t" "parsed_type t'" "type_id t = type_id t'" "ft_capacity t = ft_capacity t'"
    and "ft_str_capacity t = ft_str_capacity t'" "ft_nested t = ft_nested t'"
  shows "t = t'"
proof -
  define base where "base t = (if ft_nested t \<noteq> [] then 1 else if 0 < ft_str_capacity t then 21
      else case map_of builtin_type_ids (ft_builtin t) of None \<Rightarrow> 0 | Some n \<Rightarrow> n)" for t :: field_type
  have range: "1 \<le> base t \<and> base t \<le> 21" if "parsed_type t" for t
    using that builtin_ids_inj(2)[of "ft_builtin t"] by (auto simp: base_def parsed_type_def split: if_splits option.splits)
  have "base t + (case ft_kind t of Scalar_value \<Rightarrow> 0 | Array_of \<Rightarrow> 48 | BoundedSeq \<Rightarrow> 96 | UnboundedSeq \<Rightarrow> 144)
      = base t' + (case ft_kind t' of Scalar_value \<Rightarrow> 0 | Array_of \<Rightarrow> 48 | BoundedSeq \<Rightarrow> 96 | UnboundedSeq \<Rightarrow> 144)"
    using assms(3) by (simp add: type_id_def base_def)
  with range[OF assms(1)] range[OF assms(2)] have k: "ft_kind t = ft_kind t'" and b: "base t = base t'"
    by (cases "ft_kind t"; cases "ft_kind t'"; simp)+
  have "ft_builtin t = ft_builtin t'"
  proof (cases "ft_nested t = [] \<and> ft_str_capacity t = 0")
    case True
    then have "ft_builtin t \<in> set builtin_names" "ft_builtin t' \<in> set builtin_names"
      using assms(1,2,5,6) by (simp_all add: parsed_type_def)
    moreover have "map_of builtin_type_ids (ft_builtin t) = map_of builtin_type_ids (ft_builtin t')"
      using builtin_ids_inj(2)[OF calculation(1)] builtin_ids_inj(2)[OF calculation(2)] b True assms(5,6)
      by (auto simp: base_def)
    ultimately show ?thesis by (rule builtin_ids_inj(1))
  next
    case False
    with assms(1,2,5,6) show ?thesis by (auto simp: parsed_type_def split: if_splits)
  qed
  with k assms(4-6) show ?thesis by simp
qed

text \<open>A rendering of the values in a domain that can be read back whatever follows it.\<close>

definition delimits :: "('a \<Rightarrow> bool) \<Rightarrow> ('a \<Rightarrow> string) \<Rightarrow> bool" where
  "delimits D w \<longleftrightarrow> (\<forall>x y u v. D x \<and> D y \<and> w x @ u = w y @ v \<longrightarrow> x = y \<and> u = v)"

lemma delimitsD: "delimits D w \<Longrightarrow> D x \<Longrightarrow> D y \<Longrightarrow> w x @ u = w y @ v \<longleftrightarrow> x = y \<and> u = v"
  unfolding delimits_def by blast

text \<open>The strings that are valid UTF-8, as \<^verbatim>\<open>unicode/utf8\<close> tells them: \<^verbatim>\<open>encoding/json\<close> writes each of these so that it
  can be read back, and replaces what is invalid in any other.\<close>

definition byte_in :: "nat \<Rightarrow> nat \<Rightarrow> char \<Rightarrow> bool" where
  "byte_in lo hi c \<longleftrightarrow> lo \<le> of_char c \<and> of_char c \<le> hi"

abbreviation tail_byte :: "char \<Rightarrow> bool" where "tail_byte \<equiv> byte_in 0x80 0xBF"

fun valid_utf8 :: "string \<Rightarrow> bool" where
  "valid_utf8 [] = True"
| "valid_utf8 (a # s) = (
     if byte_in 0 0x7F a then valid_utf8 s
     else case s of [] \<Rightarrow> False | b # s1 \<Rightarrow>
       if byte_in 0xC2 0xDF a then tail_byte b \<and> valid_utf8 s1
       else case s1 of [] \<Rightarrow> False | c # s2 \<Rightarrow>
         if byte_in 0xE0 0xEF a
         then byte_in (if byte_in 0xE0 0xE0 a then 0xA0 else 0x80) (if byte_in 0xED 0xED a then 0x9F else 0xBF) b
            \<and> tail_byte c \<and> valid_utf8 s2
         else case s2 of [] \<Rightarrow> False | d # s3 \<Rightarrow>
           byte_in 0xF0 0xF4 a
            \<and> byte_in (if byte_in 0xF0 0xF0 a then 0x90 else 0x80) (if byte_in 0xF4 0xF4 a then 0x8F else 0xBF) b
            \<and> tail_byte c \<and> tail_byte d \<and> valid_utf8 s3)"

definition valid_field :: "desc_field \<Rightarrow> bool" where
  "valid_field f \<longleftrightarrow> valid_utf8 (df_name f) \<and> valid_utf8 (df_nested f)"

definition valid_individual :: "individual \<Rightarrow> bool" where
  "valid_individual i \<longleftrightarrow> valid_utf8 (iv_type_name i) \<and> list_all valid_field (iv_fields i)"

definition valid_description :: "type_description \<Rightarrow> bool" where
  "valid_description td \<longleftrightarrow> valid_individual (ty_individual td) \<and> list_all valid_individual (ty_referenced td)"

lemma itoa_eq: "itoa n = itoa m \<longleftrightarrow> n = m"
proof
  have minus: "CHR ''-'' \<notin> set (show_nat k)" for k by (rule show_nat_no) (simp add: digit_val_def)
  have nat: "i = j" if "show_nat i = show_nat j" for i j using digits_val_show_nat that by (metis option.inject)
  assume e: "itoa n = itoa m"
  have neg: "CHR ''-'' \<in> set (itoa k) \<longleftrightarrow> k < 0" for k using minus by (simp add: itoa_def)
  from e have "n < 0 \<longleftrightarrow> m < 0" using neg by metis
  with e show "n = m" by (auto simp: itoa_def split: if_splits dest: nat)
qed simp

lemma itoa_comma: "itoa n @ CHR '','' # u = itoa m @ CHR '','' # v \<longleftrightarrow> n = m \<and> u = v"
proof -
  have "CHR '','' \<notin> set (itoa k)" for k by (rule itoa_no) (simp_all add: digit_val_def)
  then have "takeWhile (\<lambda>c. c \<noteq> CHR '','') (itoa k @ CHR '','' # w) = itoa k"
    "dropWhile (\<lambda>c. c \<noteq> CHR '','') (itoa k @ CHR '','' # w) = CHR '','' # w" for k w
    by (auto simp: takeWhile_append dropWhile_append)
  then show ?thesis by (metis itoa_eq list.inject)
qed

lemma delimits_desc_field: "delimits valid_utf8 js \<Longrightarrow> delimits valid_field (write_desc_field js)"
  unfolding delimits_def[of valid_field "write_desc_field js"]
  by (intro allI impI, elim conjE) (simp add: write_desc_field_def valid_field_def delimitsD itoa_comma)

lemma delimits_list:
  assumes "delimits D w" "\<And>x. \<exists>r. w x = CHR ''{'' # r" "list_all D xs" "list_all D ys"
  shows "join '', '' (map w xs) @ '']}'' @ u = join '', '' (map w ys) @ '']}'' @ v \<longleftrightarrow> xs = ys \<and> u = v"
  using assms(3,4)
proof (induction xs arbitrary: ys)
  case Nil
  show ?case
  proof (cases ys)
    case (Cons y ys')
    with assms(2)[of y] obtain r where "w y = CHR ''{'' # r" by blast
    with Cons show ?thesis by (cases ys') auto
  qed auto
next
  case (Cons x xs)
  obtain r where x: "w x = CHR ''{'' # r" using assms(2) by blast
  show ?case
  proof (cases ys)
    case Nil
    with x show ?thesis by (cases xs) auto
  next
    case (Cons y ys')
    let ?tail = "\<lambda>zs u. (if zs = [] then '']}'' @ u else '', '' @ join '', '' (map w zs) @ '']}'' @ u)"
    have j: "join '', '' (map w (z # zs)) @ '']}'' @ u = w z @ ?tail zs u" for z zs u by (cases zs) auto
    have "?tail xs u = ?tail ys' v \<longleftrightarrow> xs = ys' \<and> u = v"
      using Cons.IH[of ys'] Cons.prems \<open>ys = _\<close> by (cases xs; cases ys') auto
    moreover have "D x" "D y" using Cons.prems \<open>ys = _\<close> by simp_all
    ultimately show ?thesis unfolding Cons j using delimitsD[OF assms(1)] by auto
  qed
qed

lemma delimits_individual: "delimits valid_utf8 js \<Longrightarrow> delimits valid_individual (write_individual js)"
proof -
  assume js: "delimits valid_utf8 js"
  have f: "\<exists>r. write_desc_field js x = CHR ''{'' # r" for x by (simp add: write_desc_field_def)
  show ?thesis unfolding delimits_def[of valid_individual "write_individual js"]
  proof (intro allI impI)
    fix x y u v assume a: "valid_individual x \<and> valid_individual y \<and> write_individual js x @ u = write_individual js y @ v"
    then have names: "valid_utf8 (iv_type_name x)" "valid_utf8 (iv_type_name y)" by (simp_all add: valid_individual_def)
    from conjunct2[OF conjunct2[OF a]] have "iv_type_name x = iv_type_name y"
      "join '', '' (map (write_desc_field js) (iv_fields x)) @ '']}'' @ u = join '', '' (map (write_desc_field js) (iv_fields y)) @ '']}'' @ v"
      by (simp_all add: write_individual_def delimitsD[OF js names])
    then show "x = y \<and> u = v" using a delimits_list[OF delimits_desc_field[OF js] f, of "iv_fields x" "iv_fields y"]
      by (auto simp: valid_individual_def)
  qed
qed

lemma hashable_json_inj:
  assumes "delimits valid_utf8 js" "valid_description t" "valid_description t'" "hashable_json js t = hashable_json js t'"
  shows "t = t'"
proof -
  have f: "\<exists>r. write_individual js x = CHR ''{'' # r" for x by (simp add: write_individual_def)
  have v: "valid_individual (ty_individual t)" "valid_individual (ty_individual t')"
    using assms(2,3) by (simp_all add: valid_description_def)
  have "ty_individual t = ty_individual t'"
    "join '', '' (map (write_individual js) (ty_referenced t)) @ '']}'' @ [] = join '', '' (map (write_individual js) (ty_referenced t')) @ '']}'' @ []"
    using assms(4) by (simp_all add: hashable_json_def delimitsD[OF delimits_individual[OF assms(1)] v])
  moreover from this have "ty_referenced t = ty_referenced t'"
    using assms(2,3) delimits_list[OF delimits_individual[OF assms(1)] f, of "ty_referenced t" "ty_referenced t'" "[]" "[]"]
    by (simp add: valid_description_def)
  ultimately show ?thesis by simp
qed

text \<open>The fields of a message that was parsed.\<close>

lemma parse_line_fields:
  assumes "parse_msg_line m line = Inr m'" "\<forall>f \<in> set (md_fields m). parsed_type (mf_type f)"
  shows "\<forall>f \<in> set (md_fields m'). parsed_type (mf_type f)"
proof -
  have "md_fields m' = md_fields m \<or> (\<exists>tok ft name d. parse_type_token tok (md_pkg m) = Inr ft
      \<and> md_fields m' = md_fields m @ [\<lparr>mf_name = name, mf_type = ft, mf_default = d\<rparr>])"
    using assms(1) by (auto simp: parse_msg_line_def Let_def bind_result_Inr split: if_splits)
  with assms(2) parsed_shape show ?thesis by fastforce
qed

lemma parse_lines_fields:
  "parse_msg_lines i ls m = Inr m' \<Longrightarrow> \<forall>f \<in> set (md_fields m). parsed_type (mf_type f) \<Longrightarrow> \<forall>f \<in> set (md_fields m'). parsed_type (mf_type f)"
proof (induction i ls m rule: parse_msg_lines.induct)
  case (2 i raw rest m)
  show ?case
  proof (cases "trim_space (strip_msg_comment raw) = []")
    case True
    with 2 show ?thesis by simp
  next
    case False
    with "2.prems"(1) obtain m1 where m1: "parse_msg_line m (trim_space (strip_msg_comment raw)) = Inr m1" "parse_msg_lines (i + 1) rest m1 = Inr m'"
      by (auto split: sum.splits)
    with "2.IH"(2)[OF refl False m1(1) m1(2)] parse_line_fields[OF m1(1) "2.prems"(2)] show ?thesis by blast
  qed
qed simp

lemma parse_message_fields: "parse_message pkg name src = Inr m \<Longrightarrow> f \<in> set (md_fields m) \<Longrightarrow> parsed_type (mf_type f)"
proof -
  assume p: "parse_message pkg name src = Inr m" "f \<in> set (md_fields m)"
  then obtain m1 where m1: "parse_msg_lines 0 (split_on CHR 0x0A src) \<lparr>md_pkg = pkg, md_name = name, md_kind = [], md_fields = [], md_constants = []\<rparr> = Inr m1"
    "m = (if md_fields m1 = [] then m1\<lparr>md_fields := [placeholder_field]\<rparr> else m1)"
    by (auto simp: parse_message_def bind_result_Inr)
  have "\<forall>f \<in> set (md_fields m1). parsed_type (mf_type f)" using parse_lines_fields[OF m1(1)] by simp
  moreover have "parsed_type (mf_type placeholder_field)" by code_simp
  ultimately show ?thesis using p(2) m1(2) by (auto split: if_splits)
qed

text \<open>C35. The text a type's hash is computed from says everything of its layout: if two parsed messages, each with the
  types it refers to, have the same text, they have one name and the same fields, in order, of the same types,
  and refer to types described alike. Defaults and constants are not in it. The names in both descriptions are valid UTF-8, and of JSON's
  strings it is asked that those of valid UTF-8 end where they end and can be read back; names that are not valid
  UTF-8 the encoder replaces, so two of them may be written alike.\<close>

theorem hashed_layout:
  assumes "delimits valid_utf8 js" "parse_message p n src = Inr m" "parse_message p' n' src' = Inr m'"
    and "valid_description \<lparr>ty_individual = individual_of m, ty_referenced = rs\<rparr>"
    and "valid_description \<lparr>ty_individual = individual_of m', ty_referenced = rs'\<rparr>"
    and "hashable_json js \<lparr>ty_individual = individual_of m, ty_referenced = rs\<rparr>
       = hashable_json js \<lparr>ty_individual = individual_of m', ty_referenced = rs'\<rparr>"
  shows "full_name m = full_name m' \<and> map (\<lambda>f. (mf_name f, mf_type f)) (md_fields m) = map (\<lambda>f. (mf_name f, mf_type f)) (md_fields m') \<and> rs = rs'"
proof -
  have e: "individual_of m = individual_of m'" "rs = rs'" using hashable_json_inj[OF assms(1,4,5,6)] by simp_all
  have inj: "(mf_name f, mf_type f) = (mf_name g, mf_type g)"
    if "f \<in> set (md_fields m)" "g \<in> set (md_fields m')" "desc_field_of f = desc_field_of g" for f g
    using type_id_inj[of "mf_type f" "mf_type g"] parse_message_fields[OF assms(2) that(1)] parse_message_fields[OF assms(3) that(2)] that(3)
    by (simp add: desc_field_of_def)
  have "map desc_field_of (md_fields m) = map desc_field_of (md_fields m')" using e(1) by (simp add: individual_of_def)
  then have len: "length (md_fields m) = length (md_fields m')" by (rule map_eq_imp_length_eq)
  have nth: "desc_field_of (md_fields m ! k) = desc_field_of (md_fields m' ! k)" if "k < length (md_fields m)" for k
    using \<open>map desc_field_of (md_fields m) = _\<close> that len by (metis nth_map)
  have "map (\<lambda>f. (mf_name f, mf_type f)) (md_fields m) = map (\<lambda>f. (mf_name f, mf_type f)) (md_fields m')"
    using inj len nth by (intro nth_equalityI) simp_all
  with e show ?thesis by (simp add: individual_of_def)
qed

section \<open>Witnesses\<close>

text \<open>JSON's quotes, with the two escapes they need.\<close>

definition escape :: "char \<Rightarrow> string" where
  "escape c = (if c = CHR 0x22 \<or> c = CHR 0x5C then [CHR 0x5C, c] else [c])"

definition json_quote :: "string \<Rightarrow> string" where
  "json_quote s = CHR 0x22 # concat (map escape s) @ [CHR 0x22]"

lemma json_quote_delimits: "delimits D json_quote"
proof -
  have one: "c = d \<and> x = y" if "escape c @ x = escape d @ y" for c d x y
    using that by (simp add: escape_def split: if_splits)
  have body: "concat (map escape s) @ CHR 0x22 # u = concat (map escape t) @ CHR 0x22 # v \<Longrightarrow> s = t \<and> u = v" for s t u v
  proof (induction s arbitrary: t)
    case Nil
    then show ?case by (cases t) (auto simp: escape_def split: if_splits)
  next
    case (Cons c s)
    from Cons.prems obtain d t' where t: "t = d # t'" by (cases t) (simp_all add: escape_def split: if_splits)
    with Cons.prems have "escape c @ (concat (map escape s) @ CHR 0x22 # u) = escape d @ (concat (map escape t') @ CHR 0x22 # v)" by simp
    from one[OF this] have "c = d" "concat (map escape s) @ CHR 0x22 # u = concat (map escape t') @ CHR 0x22 # v" by blast+
    with Cons.IH t show ?case by blast
  qed
  have "s = t \<and> u = v" if q: "json_quote s @ u = json_quote t @ v" for s t u v
  proof (rule body)
    show "concat (map escape s) @ CHR 0x22 # u = concat (map escape t) @ CHR 0x22 # v" using q by (simp add: json_quote_def)
  qed
  then show ?thesis unfolding delimits_def by blast
qed

text \<open>A default and a comment do not change the layout.\<close>

theorem hashed_layout_witness:
  "\<exists>m m'. parse_message ''p'' ''Range'' ''float32 min  # in metres'' = Inr m \<and> parse_message ''p'' ''Range'' ''float32 min 0.5'' = Inr m'
     \<and> m \<noteq> m' \<and> map (\<lambda>f. (mf_name f, mf_type f)) (md_fields m) = map (\<lambda>f. (mf_name f, mf_type f)) (md_fields m')"
proof -
  let ?m = "\<lambda>d. \<lparr>md_pkg = ''p'', md_name = ''Range'', md_kind = [],
      md_fields = [\<lparr>mf_name = ''min'', mf_type = builtin_type ''float32'', mf_default = d\<rparr>], md_constants = []\<rparr>"
  have p: "parse_message ''p'' ''Range'' ''float32 min  # in metres'' = Inr (?m [])" "parse_message ''p'' ''Range'' ''float32 min 0.5'' = Inr (?m ''0.5'')"
    by code_simp+
  have "individual_of (?m []) = individual_of (?m ''0.5'')" by (simp add: individual_of_def desc_field_of_def full_name_def)
  then have "hashable_json json_quote \<lparr>ty_individual = individual_of (?m []), ty_referenced = []\<rparr>
      = hashable_json json_quote \<lparr>ty_individual = individual_of (?m ''0.5''), ty_referenced = []\<rparr>" by simp
  moreover have "valid_description \<lparr>ty_individual = individual_of (?m []), ty_referenced = []\<rparr>"
    "valid_description \<lparr>ty_individual = individual_of (?m ''0.5''), ty_referenced = []\<rparr>" by code_simp+
  note hashed_layout[OF json_quote_delimits p this]
  ultimately have
    "map (\<lambda>f. (mf_name f, mf_type f)) (md_fields (?m [])) = map (\<lambda>f. (mf_name f, mf_type f)) (md_fields (?m ''0.5''))" by blast
  moreover have "?m [] \<noteq> ?m ''0.5''" by simp
  ultimately show ?thesis using p by blast
qed

text \<open>Three definitions, two of them in a cycle.\<close>

definition desk_msgs :: msg_files where
  "desk_msgs = \<lparr>fs_join = join ''/'', fs_stat = (\<lambda>_. False),
     fs_read = (\<lambda>f. if f = ''Tree.msg'' then Inr ''Node[] nodes'' else if f = ''Node.msg'' then Inr (''Tree below'' @ [CHR 0x0A] @ ''Leaf leaf'')
        else Inr ''int32 value'')\<rparr>"

definition desk_resolver :: resolver where
  "desk_resolver = \<lparr>rs_prefixes = [], rs_local = map_of [(''p/msg/Tree'', ''Tree.msg''), (''p/msg/Node'', ''Node.msg''), (''p/msg/Leaf'', ''Leaf.msg'')]\<rparr>"

definition desk_resolve :: "string \<Rightarrow> message_def result" where
  "desk_resolve = resolve_message desk_msgs desk_resolver"

definition desk_nested :: "string \<Rightarrow> string list" where
  "desk_nested n = (case desk_resolve n of Inl _ \<Rightarrow> [] | Inr m \<Rightarrow> map (ft_nested \<circ> mf_type) (md_fields m))"

definition desk_types :: "string set" where
  "desk_types = {''p/msg/Tree'', ''p/msg/Node'', ''p/msg/Leaf''}"

lemma desk_definitions:
  "desk_nested ''p/msg/Tree'' = [''p/msg/Node'']" "desk_nested ''p/msg/Node'' = [''p/msg/Tree'', ''p/msg/Leaf'']" "desk_nested ''p/msg/Leaf'' = [[]]"
  by code_simp+

theorem described_types_witness:
  "\<exists>root td. desk_resolve ''p/msg/Tree'' = Inr root \<and> describe_message desk_resolve 3 ''p/msg/Tree'' = Some (Inr td) \<and> ty_individual td = individual_of root"
proof -
  have ok: "\<exists>m. desk_resolve x = Inr m \<and> nested_in (md_fields m) \<subseteq> desk_types" if "x \<in> desk_types" for x
  proof -
    have n: "desk_nested x \<noteq> []" "set (desk_nested x) - {[]} \<subseteq> desk_types" using that desk_definitions by (auto simp: desk_types_def)
    then obtain m where m: "desk_resolve x = Inr m" by (cases "desk_resolve x") (simp_all add: desk_nested_def)
    then have "set (desk_nested x) - {[]} = nested_in (md_fields m)" by (auto simp: desk_nested_def nested_in_def)
    with n m show ?thesis by auto
  qed
  obtain root where root: "desk_resolve ''p/msg/Tree'' = Inr root" "nested_in (md_fields root) \<subseteq> desk_types" using ok[of "''p/msg/Tree''"] by (auto simp: desk_types_def)
  have sub: "referred desk_resolve (md_fields root) \<subseteq> desk_types"
  proof
    fix x assume "x \<in> referred desk_resolve (md_fields root)"
    then obtain a where "(a, x) \<in> (refers desk_resolve)\<^sup>*" "a \<in> desk_types" using root(2) by (auto simp: referred_def)
    then show "x \<in> desk_types"
    proof (induction rule: rtrancl_induct)
      case (step y z)
      then obtain m where "desk_resolve y = Inr m" "nested_in (md_fields m) \<subseteq> desk_types" using ok[of y] by blast
      with step.hyps(2) show ?case unfolding refers_def by auto
    qed
  qed
  then have fin: "finite (referred desk_resolve (md_fields root))" by (rule finite_subset) (simp add: desk_types_def)
  have "card (referred desk_resolve (md_fields root)) \<le> card desk_types" by (rule card_mono[OF _ sub]) (simp add: desk_types_def)
  also have "card desk_types \<le> 3" by (simp add: desk_types_def card_insert_if)
  finally have n: "card (referred desk_resolve (md_fields root)) \<le> 3" .
  have "\<not> (\<exists>x \<in> referred desk_resolve (md_fields root). \<exists>e. desk_resolve x = Inl e)" using sub ok by (metis Inl_Inr_False subsetD)
  with described_types[OF root(1) fin n] have
    "\<exists>td. describe_message desk_resolve 3 ''p/msg/Tree'' = Some (Inr td) \<and> ty_individual td = individual_of root" by simp
  with root(1) show ?thesis by blast
qed

end
