(* ===== verification/Spec2Isabelle.thy ===== *)
theory Spec2Isabelle
imports Qos Cdr Rmw_Zenoh Lifecycle Lifecycle_Client Bus Geometry Sim_Clock Graph_Validate Executor Runtime
  Action_Client Traces Fleet Rollout Params Externals_Report Msg_Describe
begin

text \<open>
  Conductor, the framework for ROS 2 applications in this repository: a verification library.

  An application is a Go package whose nodes are structs with declared fields. The command
  \<^verbatim>\<open>conductor\<close> scans it into a model, checks the model's graph, generates units and parameter files,
  compares it with a live graph and deploys releases. The runtime binds the same fields to a transport,
  brings the nodes up in dependency order, runs each one's handlers on one executor, drives its
  lifecycle and serves what it is doing. The theories follow these parts, each on those it calls.

  \<^item> \<^bold>\<open>Shared.\<close> \<^verbatim>\<open>Go_Prelude\<close>: Go's strings, errors, results and decimal numbers, and the list
    lemmas the rest uses. \<^verbatim>\<open>Go_Time\<close> and \<^verbatim>\<open>Go_Duration\<close>: reading and printing of durations, rates.
    \<^verbatim>\<open>Go_Net\<close>: the library's paths and host/port pairs. \<^verbatim>\<open>Hex\<close>: hexadecimal. \<^verbatim>\<open>Gen_Text\<close>: lines of
    generated files. \<^verbatim>\<open>Kahn\<close>: the topological sort the runtime and the checker both write out, as a locale
    interpreted on both.
  \<^item> \<^bold>\<open>On the wire.\<close> \<^verbatim>\<open>Qos\<close> (\<^verbatim>\<open>qos.go\<close>), \<^verbatim>\<open>Cdr\<close> (\<^verbatim>\<open>cdr/cdr.go\<close>: encoding of values of any message type),
    \<^verbatim>\<open>Rmw_Zenoh\<close> (\<^verbatim>\<open>transport/rmwzenoh\<close>: key expressions, liveliness tokens, attachments). Round trips, and
    safety of decoding on every input.
  \<^item> \<^bold>\<open>Interface definitions.\<close> \<^verbatim>\<open>Msg_Parse\<close> (\<^verbatim>\<open>internal/msggen/parse.go\<close>: messages, services, actions and
    what is derived from them) and \<^verbatim>\<open>Msg_Describe\<close> (\<^verbatim>\<open>resolve.go\<close>, \<^verbatim>\<open>typedesc.go\<close>: finding definitions and the
    text a type's hash is computed from). A definition written out is parsed back, describing a type
    ends on cyclic definitions too, and the hashed text determines the layout.
  \<^item> \<^bold>\<open>A process.\<close> \<^verbatim>\<open>Wiring\<close> (\<^verbatim>\<open>bindFields\<close> of \<^verbatim>\<open>run.go\<close> and the \<^verbatim>\<open>bind\<close> methods it calls, those of actions and
    of managed nodes included, \<^verbatim>\<open>tf.go\<close>), \<^verbatim>\<open>Managed_Tags\<close> (the tags of the latter), \<^verbatim>\<open>Params\<close>
    (\<^verbatim>\<open>param.go\<close>, \<^verbatim>\<open>paramfile.go\<close>, \<^verbatim>\<open>param_services.go\<close>), \<^verbatim>\<open>Executor\<close> (\<^verbatim>\<open>node.go\<close>, \<^verbatim>\<open>sub.go\<close>, \<^verbatim>\<open>timer.go\<close>: the mailbox
    of a node, the goroutine that drains it and those that feed it), \<^verbatim>\<open>Bringup\<close> (\<^verbatim>\<open>bringup.go\<close>) and
    \<^verbatim>\<open>Runtime\<close> (\<^verbatim>\<open>run.go\<close>: from declarations to a process whose nodes are brought up, and shut down).
  \<^item> \<^bold>\<open>What its nodes do.\<close> \<^verbatim>\<open>Bus\<close> (\<^verbatim>\<open>bus.go\<close>), \<^verbatim>\<open>Lifecycle\<close> (\<^verbatim>\<open>lifecycle.go\<close>, \<^verbatim>\<open>lifecycle_wire.go\<close>),
    \<^verbatim>\<open>Lifecycle_Client\<close> (\<^verbatim>\<open>lifecycle_client.go\<close>: a wait sees the nodes change in any way between its rounds), \<^verbatim>\<open>Action_Server\<close> and \<^verbatim>\<open>Action_Client\<close> (\<^verbatim>\<open>action.go\<close>,
    \<^verbatim>\<open>action_client.go\<close>), \<^verbatim>\<open>Mission\<close> (\<^verbatim>\<open>mission.go\<close>), \<^verbatim>\<open>Sim_Clock\<close> (\<^verbatim>\<open>clock.go\<close>), \<^verbatim>\<open>Frames\<close> and \<^verbatim>\<open>Geometry\<close>
    (\<^verbatim>\<open>frames.go\<close>).
  \<^item> \<^bold>\<open>The checker.\<close> \<^verbatim>\<open>App_Model\<close> (\<^verbatim>\<open>internal/scan/scan.go\<close>, \<^verbatim>\<open>group.go\<close>), \<^verbatim>\<open>Graph_Build\<close>, \<^verbatim>\<open>Graph_Order\<close>,
    \<^verbatim>\<open>Graph_Issue\<close>, \<^verbatim>\<open>Graph_Missions\<close>, \<^verbatim>\<open>Graph_Validate\<close> (\<^verbatim>\<open>internal/graph\<close>). The theorems say what an
    application without errors is guaranteed, in terms of the runtime's own definitions: \<^verbatim>\<open>mission.go\<close>
    will wire the mission, \<^verbatim>\<open>frames.go\<close> will find the path.
  \<^item> \<^bold>\<open>A live graph.\<close> \<^verbatim>\<open>Discover\<close> (\<^verbatim>\<open>internal/discover/graph.go\<close>, the tokens of \<^verbatim>\<open>query_zenoh.go\<close>) and
    \<^verbatim>\<open>Externals_Report\<close> (\<^verbatim>\<open>externals.go\<close>): interfaces rolled up from endpoints, and the report that compares
    them with what the application declares.
  \<^item> \<^bold>\<open>Observation.\<close> \<^verbatim>\<open>Inventory\<close> (\<^verbatim>\<open>inventory.go\<close>, \<^verbatim>\<open>dashboard.go\<close>: what one process serves), \<^verbatim>\<open>Fleet_Base\<close>
    and \<^verbatim>\<open>Fleet\<close> (\<^verbatim>\<open>fleet.go\<close>: the graph of a deployment merged from its processes), \<^verbatim>\<open>Span_Forest\<close> and
    \<^verbatim>\<open>Traces\<close> (\<^verbatim>\<open>trace.go\<close>, \<^verbatim>\<open>spans.go\<close>, \<^verbatim>\<open>fleet_traces.go\<close>: spans, the rings that keep them, the collector and
    the stitching of traces).
  \<^item> \<^bold>\<open>Deployment.\<close> \<^verbatim>\<open>Environments\<close> (\<^verbatim>\<open>internal/scan/environments.go\<close>), \<^verbatim>\<open>Units\<close> (\<^verbatim>\<open>internal/gen/systemd.go\<close>),
    \<^verbatim>\<open>Deploy\<close> (\<^verbatim>\<open>internal/deploy/deploy.go\<close>, \<^verbatim>\<open>peers.go\<close>), \<^verbatim>\<open>Rollout\<close> (\<^verbatim>\<open>internal/deploy/fleet.go\<close>).

  \<^bold>\<open>Conventions.\<close> A struct is a record and an enumeration a datatype or its constants; definitions have the
  source's names in lower case. A Go string is a list of bytes. An error is a value, its format and
  its arguments, unrendered. A map is a function to options, or an association list where its order or its entries are
  looked at; a loop over a map whose order shows is sorted by the code, and modelled so.
  \<^verbatim>\<open>sort.Slice\<close> is a stable sort, which is one of the orders it may give. \<^verbatim>\<open>int\<close> is a 64-bit word or wrapped explicitly where
  the code computes with input (counts, ports, counters), and an integer elsewhere. Operations that
  take a lock, and what goroutines do between two of them, are steps of an inductive relation, so that
  theorems hold for every interleaving; each such relation has its reachable states and invariants by
  rule induction. What is outside the program - hooks and handlers, the network, files, random ids,
  clocks, reflection's answers - is an argument, with what the code relies on as a hypothesis.

  \<^bold>\<open>Interfaces.\<close> \<^verbatim>\<open>kahn_loop\<close> (\<^verbatim>\<open>Kahn\<close>) states what a queue discipline owes the sort, and is interpreted by
  \<^verbatim>\<open>Bringup\<close> and \<^verbatim>\<open>Graph_Order\<close>. \<^verbatim>\<open>managed_nodes\<close>, \<^verbatim>\<open>willing_nodes\<close> and \<^verbatim>\<open>polled_nodes\<close> (\<^verbatim>\<open>Lifecycle_Client\<close>) state
  what the nodes that are driven do, and are interpreted on the nodes of \<^verbatim>\<open>Lifecycle\<close>, the last for every way the world
  may change during a pause. \<^verbatim>\<open>span_forest\<close> states
  what the walk of a trace needs, and is interpreted on spans with distinct ids; \<^verbatim>\<open>ring_buffer\<close>
  (\<^verbatim>\<open>Traces\<close>) is the law of the rings, for a process's spans and for the collector's.

  \<^bold>\<open>Fuel.\<close> Loops that depend on the world take fuel and are \<^verbatim>\<open>None\<close> without it. \<^verbatim>\<open>await_loop\<close>
  returns within two turns more than the timeout has polling intervals, \<^verbatim>\<open>await_healthy\<close> within two
  more than its gate's time has pauses of two seconds. The walk of a trace returns with as many levels as there
  are spans, and \<^verbatim>\<open>collect_refs\<close> with as many as there are types behind a message. The theorems that
  need it state it, and that the loops return is proved. The mailbox keeps the source's bound of 64.

  \<^bold>\<open>Not modelled.\<close> HTTP servers and JSON, the text exposition of metrics, XML of robot descriptions, the
  scanner's walk over Go syntax trees, generated Go source and text templates, child processes
  (\<^verbatim>\<open>internal/run\<close>), building and shipping over ssh, the bindings to zenoh, the command line, test
  support and examples: input and output around the operations modelled here, or other libraries'
  work. Floating-point values are compared and printed through arguments; the arithmetic of \<^verbatim>\<open>Geometry\<close> is an
  argument too, and its laws are proved for exact numbers only. Of Unicode, the spaces and the printable
  characters beyond ASCII are not told apart, and a \<^verbatim>\<open>float32\<close> that passes through a \<^verbatim>\<open>float64\<close> is taken to come back as it was (a
  signalling NaN may not). Bring-up is one goroutine's: transitions that clients ask for meanwhile are
  left to \<^verbatim>\<open>Lifecycle\<close>, which interleaves them.
\<close>

end
